(* ===== verification/Prelude.thy ===== *)
theory Prelude
  imports Main "HOL-Library.Word"
begin

text \<open>
  Shared vocabulary of the development: the integer types of the kernel, its error numbers, the
  first-match table scan and the set-bit loop that the C code repeats in many places, and the two
  interface locales (step systems with an invariant, system calls with an error code) that the
  components instantiate.
\<close>

unbundle bit_operations_syntax

section \<open>Machine integers and error numbers\<close>

type_synonym u8 = "8 word"
type_synonym u16 = "16 word"
type_synonym u32 = "32 word"
type_synonym u64 = "64 word"

abbreviation (input) EPERM :: int where "EPERM \<equiv> 1"
abbreviation (input) ENOENT :: int where "ENOENT \<equiv> 2"
abbreviation (input) ESRCH :: int where "ESRCH \<equiv> 3"
abbreviation (input) EINTR :: int where "EINTR \<equiv> 4"
abbreviation (input) EIO :: int where "EIO \<equiv> 5"
abbreviation (input) EAGAIN :: int where "EAGAIN \<equiv> 11"
abbreviation (input) ENOMEM :: int where "ENOMEM \<equiv> 12"
abbreviation (input) EFAULT :: int where "EFAULT \<equiv> 14"
abbreviation (input) EINVAL :: int where "EINVAL \<equiv> 22"
abbreviation (input) ENOSPC :: int where "ENOSPC \<equiv> 28"
abbreviation (input) EPIPE :: int where "EPIPE \<equiv> 32"
abbreviation (input) ENOSYS :: int where "ENOSYS \<equiv> 38"
abbreviation (input) ETIMEDOUT :: int where "ETIMEDOUT \<equiv> 110"

named_theorems word_nat \<open>comparisons of words read as natural numbers\<close>

lemmas [word_nat] = word_le_nat_alt word_less_nat_alt

lemma unat_bound: "unat (x :: 'a :: len word) < 2 ^ LENGTH('a)"
  by (rule unsigned_less)

lemma unat_ucast_up:
  assumes "LENGTH('a) \<le> LENGTH('b)"
  shows "unat (ucast (x :: 'a :: len word) :: 'b :: len word) = unat x"
proof -
  have "unat x < 2 ^ LENGTH('b)"
    using unat_bound [of x] by (rule order_less_le_trans) (use assms in simp)
  then show ?thesis by (simp add: unsigned_ucast_eq take_bit_nat_eq_self)
qed

lemma of_nat_unat: "of_nat (unat (x :: 'a :: len word)) = x"
  by simp

text \<open>The end of the user half of the address space.\<close>

definition USER_LIMIT :: u64 where "USER_LIMIT = 0x800000000000"

section \<open>First match in a table\<close>

text \<open>
  \<open>for (i = 0; i < N; i++) if (P(tab[i])) return &tab[i]; return NULL;\<close> A pointer into a fixed
  table is the index of its entry, \<open>NULL\<close> is \<^term>\<open>None\<close>.
\<close>

fun find_index :: "('a \<Rightarrow> bool) \<Rightarrow> 'a list \<Rightarrow> nat option" where
  "find_index P [] = None"
| "find_index P (x # xs) = (if P x then Some 0 else map_option Suc (find_index P xs))"

lemma find_index_SomeD:
  "find_index P xs = Some i \<Longrightarrow> i < length xs \<and> P (xs ! i) \<and> (\<forall>j < i. \<not> P (xs ! j))"
proof (induction xs arbitrary: i)
  case (Cons x xs)
  show ?case
  proof (cases "P x")
    case False
    with Cons.prems obtain k where k: "find_index P xs = Some k" "i = Suc k" by auto
    with Cons.IH [OF k(1)] False show ?thesis by (auto simp: less_Suc_eq_0_disj)
  qed (use Cons.prems in auto)
qed simp

lemma find_index_None [simp]: "find_index P xs = None \<longleftrightarrow> (\<forall>x \<in> set xs. \<not> P x)"
  by (induction xs) auto

lemma find_index_SomeI:
  "i < length xs \<Longrightarrow> P (xs ! i) \<Longrightarrow> (\<And>j. j < i \<Longrightarrow> \<not> P (xs ! j)) \<Longrightarrow> find_index P xs = Some i"
proof (induction xs arbitrary: i)
  case (Cons x xs)
  show ?case
  proof (cases i)
    case 0
    with Cons.prems show ?thesis by simp
  next
    case (Suc k)
    with Cons.prems(3) [of 0] have "\<not> P x" by simp
    moreover have "find_index P xs = Some k"
      using Cons.prems Suc by (intro Cons.IH) (auto, force)
    ultimately show ?thesis using Suc by simp
  qed
qed simp

lemma find_index_unique:
  assumes "i < length xs" "P (xs ! i)" "\<And>j. j < length xs \<Longrightarrow> P (xs ! j) \<Longrightarrow> j = i"
  shows "find_index P xs = Some i"
proof (rule find_index_SomeI [where P = P, OF assms(1,2)])
  fix j
  assume "j < i"
  with assms(1) assms(3) [of j] show "\<not> P (xs ! j)" by auto
qed

lemma find_index_map: "find_index P (map f xs) = find_index (P \<circ> f) xs"
  by (induction xs) auto

lemma find_index_cong:
  "length xs = length ys \<Longrightarrow> (\<And>i. i < length xs \<Longrightarrow> P (xs ! i) = Q (ys ! i)) \<Longrightarrow>
   find_index P xs = find_index Q ys"
proof (induction xs ys rule: list_induct2)
  case (Cons x xs y ys)
  from Cons.prems [of 0] have "P x = Q y" by simp
  moreover have "find_index P xs = find_index Q ys"
    using Cons.prems by (intro Cons.IH) force
  ultimately show ?case by simp
qed simp

section \<open>Sets of slots as bit masks\<close>

text \<open>
  \<open>__builtin_ctzll(w)\<close>: the position of the lowest set bit; it is undefined in C for \<open>w = 0\<close>, and
  every use in the modelled code is guarded by \<open>w \<noteq> 0\<close>.
\<close>

definition ctzll :: "u64 \<Rightarrow> nat" where
  "ctzll w = (case find_index (bit w) [0..<64] of None \<Rightarrow> 64 | Some i \<Rightarrow> i)"

lemma word64_nonzero_bit: "(w :: u64) \<noteq> 0 \<longleftrightarrow> (\<exists>i < 64. bit w i)"
proof -
  have "w = 0 \<longleftrightarrow> (\<forall>i < 64. \<not> bit w i)"
    by (auto simp: bit_eq_iff dest: bit_imp_le_length)
  then show ?thesis by blast
qed

lemma ctzll_props:
  assumes "w \<noteq> 0"
  shows "ctzll w < 64" "bit w (ctzll w)" "\<And>j. j < ctzll w \<Longrightarrow> \<not> bit w j"
proof -
  from assms obtain k where "k < 64" "bit w k" by (auto simp: word64_nonzero_bit)
  then have "find_index (bit w) [0..<64] \<noteq> None" by auto
  then obtain i where i: "find_index (bit w) [0..<64] = Some i" by blast
  with find_index_SomeD [OF i]
  have "i < 64 \<and> bit w i \<and> (\<forall>j < i. \<not> bit w j)" by auto
  moreover have "ctzll w = i" by (simp add: ctzll_def i)
  ultimately show "ctzll w < 64" "bit w (ctzll w)" "\<And>j. j < ctzll w \<Longrightarrow> \<not> bit w j" by auto
qed

lemma ctzll_eqI:
  assumes "k < 64" "bit w k" "\<And>j. j < k \<Longrightarrow> \<not> bit w j"
  shows "ctzll w = k"
proof -
  from assms(1,2) have "w \<noteq> 0" by (auto simp: word64_nonzero_bit)
  note c = ctzll_props [OF this]
  show ?thesis using c assms by (metis nat_neq_iff)
qed

text \<open>\<open>w & (w - 1)\<close> clears exactly the lowest set bit.\<close>

lemma clear_lowest_bit:
  fixes w :: u64
  assumes "w \<noteq> 0"
  shows "bit (w AND (w - 1)) i \<longleftrightarrow> bit w i \<and> i \<noteq> ctzll w"
proof -
  let ?k = "ctzll w"
  note c = ctzll_props [OF assms]
  define v where "v = unset_bit ?k w"
  have v_bits: "bit v j \<longleftrightarrow> bit w j \<and> j \<noteq> ?k" for j
    by (auto simp: v_def bit_unset_bit_iff)
  have lowv: "\<not> bit v j" if "j \<le> ?k" for j
    using that c(3) v_bits by (cases "j = ?k") auto
  have "w = v OR (2 ^ ?k)"
    using c by (intro bit_eqI) (auto simp: bit_or_iff v_bits bit_exp_iff)
  also have "v OR (2 ^ ?k) = v + 2 ^ ?k"
    by (rule disjunctive_add_eq_or [symmetric], rule bit_eqI)
      (auto simp: bit_and_iff bit_exp_iff v_bits)
  finally have "w - 1 = v + mask ?k"
    by (simp add: mask_eq_exp_minus_1)
  also have "v + mask ?k = v OR mask ?k"
    by (rule disjunctive_add_eq_or, rule bit_eqI)
      (use lowv in \<open>auto simp: bit_and_iff bit_mask_iff\<close>)
  finally have "bit (w AND (w - 1)) i \<longleftrightarrow> bit w i \<and> (bit v i \<or> bit (mask ?k :: u64) i)"
    by (simp add: bit_and_iff bit_or_iff)
  also have "\<dots> \<longleftrightarrow> bit w i \<and> i \<noteq> ?k"
    using c(3) v_bits by (auto simp: bit_mask_iff)
  finally show ?thesis .
qed

lemma clear_lowest_less: "(w :: u64) \<noteq> 0 \<Longrightarrow> unat (w AND (w - 1)) < unat w"
proof -
  assume nz: "w \<noteq> 0"
  have "w AND (w - 1) \<le> w" by (rule word_and_le2)
  moreover have "w AND (w - 1) \<noteq> w"
    using clear_lowest_bit [OF nz, of "ctzll w"] ctzll_props(2) [OF nz] by metis
  ultimately show ?thesis by (metis order_le_imp_less_or_eq word_less_nat_alt)
qed

text \<open>
  \<open>while (w) { f(ctz(w)); w &= w - 1; }\<close>: the loop the kernel uses to visit the slots of a mask,
  lowest first.
\<close>

function bit_loop :: "(nat \<Rightarrow> 's \<Rightarrow> 's) \<Rightarrow> u64 \<Rightarrow> 's \<Rightarrow> 's" where
  "bit_loop f w s = (if w = 0 then s else bit_loop f (w AND (w - 1)) (f (ctzll w) s))"
  by pat_completeness auto
termination
  by (relation "measure (\<lambda>(f, w, s). unat w)") (auto simp: clear_lowest_less)

declare bit_loop.simps [simp del]

lemma bit_loop_0 [simp]: "bit_loop f 0 s = s"
  by (simp add: bit_loop.simps)

definition bits_of :: "u64 \<Rightarrow> nat list" where
  "bits_of w = filter (bit w) [0..<64]"

lemma set_bits_of [simp]: "set (bits_of w) = {i. bit w i}"
  by (auto simp: bits_of_def dest: bit_imp_le_length)

lemma distinct_bits_of [simp]: "distinct (bits_of w)"
  by (simp add: bits_of_def)

lemma upt_split_at: "i \<le> k \<Longrightarrow> k < n \<Longrightarrow> [i..<n] = [i..<k] @ k # [Suc k..<n]"
  by (metis le_Suc_ex less_imp_le_nat upt_add_eq_append upt_conv_Cons)

lemma bits_of_step:
  assumes "w \<noteq> 0"
  shows "bits_of w = ctzll w # bits_of (w AND (w - 1))"
proof -
  note c = ctzll_props [OF assms]
  have split: "[0..<64] = [0..<ctzll w] @ ctzll w # [Suc (ctzll w)..<64]"
    using c(1) by (intro upt_split_at) auto
  have low: "filter (bit w) [0..<ctzll w] = []"
    using c(3) by (auto simp: filter_empty_conv)
  have low': "filter (bit (w AND (w - 1))) [0..<ctzll w] = []"
    using c(3) by (auto simp: filter_empty_conv clear_lowest_bit [OF assms])
  have high: "filter (bit (w AND (w - 1))) [Suc (ctzll w)..<64] =
      filter (bit w) [Suc (ctzll w)..<64]"
    by (rule filter_cong) (auto simp: clear_lowest_bit [OF assms])
  show ?thesis
    unfolding bits_of_def split using c(2) low low' high
    by (simp add: clear_lowest_bit [OF assms])
qed

text \<open>The loop is a fold over the set bits in increasing order.\<close>

lemma bit_loop_fold: "bit_loop f w s = fold f (bits_of w) s"
proof (induction f w s rule: bit_loop.induct)
  case (1 f w s)
  show ?case
  proof (cases "w = 0")
    case True
    then show ?thesis by (simp add: bits_of_def)
  next
    case False
    then show ?thesis
      using "1.IH" by (simp add: bit_loop.simps [of f w s] bits_of_step [OF False])
  qed
qed

text \<open>\<open>1ULL << i\<close>, and setting and clearing that bit of a mask.\<close>

definition mask_bit :: "nat \<Rightarrow> u64" where
  "mask_bit i = push_bit i 1"

lemma bit_mask_bit [simp]: "bit (mask_bit i) j \<longleftrightarrow> j = i \<and> i < 64"
  by (auto simp: mask_bit_def bit_exp_iff)

lemma bit_set_mask [simp]: "i < 64 \<Longrightarrow> bit (w OR mask_bit i) j \<longleftrightarrow> j = i \<or> bit w j"
  by (auto simp: bit_or_iff)

lemma bit_clear_mask [simp]: "i < 64 \<Longrightarrow> bit ((w :: u64) AND NOT (mask_bit i)) j \<longleftrightarrow> bit w j \<and> j \<noteq> i"
  by (auto simp: bit_and_iff bit_not_iff dest: bit_imp_le_length)

section \<open>Step systems and their invariants\<close>

text \<open>The states a step relation reaches from the initial ones.\<close>

inductive reach :: "('s \<Rightarrow> bool) \<Rightarrow> ('s \<Rightarrow> 's \<Rightarrow> bool) \<Rightarrow> 's \<Rightarrow> bool"
  for init :: "'s \<Rightarrow> bool" and step :: "'s \<Rightarrow> 's \<Rightarrow> bool" where
  reach_init: "init s \<Longrightarrow> reach init step s"
| reach_step: "reach init step s \<Longrightarrow> step s t \<Longrightarrow> reach init step t"

locale invariant_system =
  fixes init :: "'s \<Rightarrow> bool" and step :: "'s \<Rightarrow> 's \<Rightarrow> bool" and inv :: "'s \<Rightarrow> bool"
  assumes inv_init: "init s \<Longrightarrow> inv s"
    and inv_step: "inv s \<Longrightarrow> step s t \<Longrightarrow> inv t"
begin

lemma reach_inv: "reach init step s \<Longrightarrow> inv s"
  by (induction rule: reach.induct) (auto intro: inv_init inv_step)

end

section \<open>Operations that return an error number\<close>

text \<open>
  The contract that the table operations and the credential system calls share: the operation
  returns a number and a new state, keeps the invariant, and a negative number means that nothing
  changed.
\<close>

locale errno_op =
  fixes inv :: "'s \<Rightarrow> bool" and opn :: "'a \<Rightarrow> 's \<Rightarrow> int \<times> 's"
  assumes err_frame: "inv s \<Longrightarrow> fst (opn a s) < 0 \<Longrightarrow> snd (opn a s) = s"
    and op_inv: "inv s \<Longrightarrow> inv (snd (opn a s))"
begin

text \<open>A sequence of calls keeps the invariant, whichever of them fail.\<close>

lemma run_inv: "inv s \<Longrightarrow> inv (fold (\<lambda>a s. snd (opn a s)) as s)"
  by (induction as arbitrary: s) (auto intro: op_inv)

text \<open>Failed calls can be dropped from a sequence.\<close>

lemma run_skip_failed:
  "inv s \<Longrightarrow> fst (opn a s) < 0 \<Longrightarrow>
   fold (\<lambda>a s. snd (opn a s)) (a # as) s = fold (\<lambda>a s. snd (opn a s)) as s"
  by (simp add: err_frame)

end

end
