(* ===== verification/Vma.thy ===== *)
theory Vma
  imports Prelude
begin

text \<open>
  The table of virtual memory areas of an address space, \<open>src/kernel/mm/vma.c\<close> with the types of
  \<open>src/kernel/mm/vmm.h\<close>. A space keeps a fixed table of areas \<open>[start, end)\<close> with a protection,
  the flags of the mapping and whether the pages are owned. The table is modelled entry by entry,
  with the C loops as recursions over it; pointers into it are indices.

  The contract is an abstract map from addresses to attributes (\<open>vma_view\<close>). The lemmas show that the
  table stays well formed (areas are non-empty and pairwise disjoint) and that each operation
  implements its abstract counterpart on that map, including what it does on failure.
\<close>

section \<open>Data\<close>

definition VMM_VMA_MAX :: nat where "VMM_VMA_MAX = 2048"

definition VMM_PRESENT :: u64 where "VMM_PRESENT = 1"
definition VMM_WRITE :: u64 where "VMM_WRITE = 2"
definition VMM_USER :: u64 where "VMM_USER = 4"
definition VMM_NX :: u64 where "VMM_NX = push_bit 63 1"

definition VMA_MAP_SHARED :: u32 where "VMA_MAP_SHARED = 1"

definition PROT_READ :: u32 where "PROT_READ = 1"
definition PROT_WRITE :: u32 where "PROT_WRITE = 2"
definition PROT_EXEC :: u32 where "PROT_EXEC = 4"

record vmm_vma =
  v_start :: u64
  v_end :: u64
  v_prot :: u32
  v_map_flags :: u32
  v_used :: u8
  v_free_on_unmap :: u8

record vmm_space =
  pml4_phys :: u64
  kernel_map_generation :: u64
  vmas :: "vmm_vma list"
  refcount :: u32
  user_accessors :: u32
  user_mutating :: u32
  fault_lock :: u64

definition zero_vma :: vmm_vma where
  "zero_vma = \<lparr>v_start = 0, v_end = 0, v_prot = 0, v_map_flags = 0, v_used = 0,
     v_free_on_unmap = 0\<rparr>"

definition zero_space :: vmm_space where
  "zero_space = \<lparr>pml4_phys = 0, kernel_map_generation = 0, vmas = replicate VMM_VMA_MAX zero_vma, refcount = 0,
     user_accessors = 0, user_mutating = 0, fault_lock = 0\<rparr>"

abbreviation c_bool :: "bool \<Rightarrow> u8" where
  "c_bool b \<equiv> (if b then 1 else 0)"

abbreviation v_live :: "vmm_vma \<Rightarrow> bool" where
  "v_live v \<equiv> v_used v \<noteq> 0"

abbreviation upd_vma :: "nat \<Rightarrow> (vmm_vma \<Rightarrow> vmm_vma) \<Rightarrow> vmm_space \<Rightarrow> vmm_space" where
  "upd_vma i f sp \<equiv> sp\<lparr>vmas := (vmas sp)[i := f (vmas sp ! i)]\<rparr>"

section \<open>Operations\<close>

definition range_end :: "u64 \<Rightarrow> u64 \<Rightarrow> u64 option" where
  "range_end start len =
     (if len = 0 then None
      else let e = start + len in if start < e then Some e else None)"

definition empty_slot :: "vmm_space \<Rightarrow> nat option" where
  "empty_slot sp = find_index (\<lambda>v. v_used v = 0) (vmas sp)"

definition v_holds :: "u64 \<Rightarrow> vmm_vma \<Rightarrow> bool" where
  "v_holds addr v \<longleftrightarrow> v_live v \<and> v_start v \<le> addr \<and> addr < v_end v"

definition containing :: "vmm_space \<Rightarrow> u64 \<Rightarrow> nat option" where
  "containing sp addr = find_index (v_holds addr) (vmas sp)"

definition vma_reset :: "vmm_space \<Rightarrow> vmm_space" where
  "vma_reset sp = sp\<lparr>vmas := replicate VMM_VMA_MAX zero_vma\<rparr>"

definition vma_copy :: "vmm_space \<Rightarrow> vmm_space \<Rightarrow> vmm_space" where
  "vma_copy dst src = dst\<lparr>vmas := vmas src\<rparr>"

definition v_overlaps :: "u64 \<Rightarrow> u64 \<Rightarrow> vmm_vma \<Rightarrow> bool" where
  "v_overlaps start e v \<longleftrightarrow> v_live v \<and> start < v_end v \<and> v_start v < e"

definition vma_conflicts :: "vmm_space \<Rightarrow> u64 \<Rightarrow> u64 \<Rightarrow> bool" where
  "vma_conflicts sp start len =
     (case range_end start len of
        None \<Rightarrow> True
      | Some e \<Rightarrow> list_ex (v_overlaps start e) (vmas sp))"

definition vma_same_kind :: "vmm_vma \<Rightarrow> u32 \<Rightarrow> u32 \<Rightarrow> bool \<Rightarrow> bool" where
  "vma_same_kind v prot map_flags free_on_unmap \<longleftrightarrow>
     v_prot v = prot \<and> v_map_flags v = map_flags \<and> v_free_on_unmap v = c_bool free_on_unmap"

text \<open>
  The neighbour scan of \<open>vma_add\<close>: the loop variable \<open>i\<close> and the two pointers \<open>before\<close> and
  \<open>after\<close>, each the last matching entry.
\<close>

fun vma_neighbours ::
  "nat \<Rightarrow> vmm_vma list \<Rightarrow> u64 \<Rightarrow> u64 \<Rightarrow> u32 \<Rightarrow> u32 \<Rightarrow> bool \<Rightarrow> nat option \<times> nat option \<Rightarrow>
     nat option \<times> nat option" where
  "vma_neighbours i [] start e prot mf fr (before, after) = (before, after)"
| "vma_neighbours i (v # vs) start e prot mf fr (before, after) =
     vma_neighbours (Suc i) vs start e prot mf fr
       (if \<not> v_live v \<or> \<not> vma_same_kind v prot mf fr then (before, after)
        else if v_end v = start then (Some i, after)
        else if v_start v = e then (before, Some i)
        else (before, after))"

definition vma_add ::
  "vmm_space \<Rightarrow> u64 \<Rightarrow> u64 \<Rightarrow> u32 \<Rightarrow> u32 \<Rightarrow> bool \<Rightarrow> int \<times> vmm_space" where
  "vma_add sp start len prot map_flags free_on_unmap =
     (case range_end start len of
        None \<Rightarrow> (- EINVAL, sp)
      | Some e \<Rightarrow>
          if vma_conflicts sp start len then (- EINVAL, sp)
          else
            (case vma_neighbours 0 (vmas sp) start e prot map_flags free_on_unmap (None, None) of
               (Some b, Some a) \<Rightarrow>
                 (0, upd_vma a (\<lambda>_. zero_vma)
                       (upd_vma b (\<lambda>v. v\<lparr>v_end := v_end (vmas sp ! a)\<rparr>) sp))
             | (Some b, None) \<Rightarrow> (0, upd_vma b (\<lambda>v. v\<lparr>v_end := e\<rparr>) sp)
             | (None, Some a) \<Rightarrow> (0, upd_vma a (\<lambda>v. v\<lparr>v_start := start\<rparr>) sp)
             | (None, None) \<Rightarrow>
                 (case empty_slot sp of
                    None \<Rightarrow> (- ENOMEM, sp)
                  | Some i \<Rightarrow>
                      (0, upd_vma i (\<lambda>_. \<lparr>v_start = start, v_end = e, v_prot = prot,
                            v_map_flags = map_flags, v_used = 1,
                            v_free_on_unmap = c_bool free_on_unmap\<rparr>) sp))))"

text \<open>
  Each walk below advances \<open>cur\<close> to the end of the area that contains it, which is strictly above
  \<open>cur\<close>.
\<close>

lemma containing_SomeD:
  "containing sp addr = Some i \<Longrightarrow> i < length (vmas sp) \<and> v_holds addr (vmas sp ! i)"
  by (auto simp: containing_def dest: find_index_SomeD)

lemma walk_decreases:
  assumes "v_holds cur v" "v_end v < e"
  shows "unat e - unat (v_end v) < unat e - unat cur"
  using assms by (auto simp: v_holds_def word_nat)

function vma_range_walk :: "vmm_space \<Rightarrow> u64 \<Rightarrow> u64 \<Rightarrow> bool" where
  "vma_range_walk sp cur e =
     (if cur < e then
        (case containing sp cur of
           None \<Rightarrow> False
         | Some i \<Rightarrow> let v = vmas sp ! i in
             vma_range_walk sp (if v_end v < e then v_end v else e) e)
      else True)"
  by pat_completeness auto
termination
  by (relation "measure (\<lambda>(sp, cur, e). unat e - unat cur)")
    (auto dest!: containing_SomeD intro: walk_decreases simp: word_less_nat_alt [of _ "_ :: u64"])

declare vma_range_walk.simps [simp del]

definition vma_range_ok :: "vmm_space \<Rightarrow> u64 \<Rightarrow> u64 \<Rightarrow> bool" where
  "vma_range_ok sp start len =
     (case range_end start len of None \<Rightarrow> False | Some e \<Rightarrow> vma_range_walk sp start e)"

definition vma_page_mapped :: "vmm_space \<Rightarrow> u64 \<Rightarrow> bool" where
  "vma_page_mapped sp addr = (containing sp addr \<noteq> None)"

definition vma_used_count :: "vmm_space \<Rightarrow> nat" where
  "vma_used_count sp = length (filter v_live (vmas sp))"

definition vma_lookup :: "vmm_space \<Rightarrow> u64 \<Rightarrow> (u64 \<times> u64 \<times> u32) option" where
  "vma_lookup sp addr =
     (case containing sp addr of
        None \<Rightarrow> None
      | Some i \<Rightarrow> let v = vmas sp ! i in Some (v_start v, v_end v, v_prot v))"

definition vma_page_owned :: "vmm_space \<Rightarrow> u64 \<Rightarrow> bool" where
  "vma_page_owned sp addr =
     (case containing sp addr of None \<Rightarrow> False | Some i \<Rightarrow> v_free_on_unmap (vmas sp ! i) \<noteq> 0)"

function vma_info_walk :: "vmm_space \<Rightarrow> u32 \<Rightarrow> u32 \<Rightarrow> bool \<Rightarrow> u64 \<Rightarrow> u64 \<Rightarrow> bool" where
  "vma_info_walk sp p mf owned cur e =
     (if cur < e then
        (case containing sp cur of
           None \<Rightarrow> False
         | Some i \<Rightarrow> let v = vmas sp ! i in
             if v_prot v \<noteq> p \<or> v_map_flags v \<noteq> mf \<or> (v_free_on_unmap v \<noteq> 0) \<noteq> owned then False
             else vma_info_walk sp p mf owned (if v_end v < e then v_end v else e) e)
      else True)"
  by pat_completeness auto
termination
  by (relation "measure (\<lambda>(sp, p, mf, owned, cur, e). unat e - unat cur)")
    (auto dest!: containing_SomeD intro: walk_decreases simp: word_less_nat_alt [of _ "_ :: u64"])

declare vma_info_walk.simps [simp del]

definition vma_range_info :: "vmm_space \<Rightarrow> u64 \<Rightarrow> u64 \<Rightarrow> (u32 \<times> u32 \<times> bool) option" where
  "vma_range_info sp start len =
     (case range_end start len of
        None \<Rightarrow> None
      | Some e \<Rightarrow>
          (case containing sp start of
             None \<Rightarrow> None
           | Some i \<Rightarrow>
               let f = vmas sp ! i; p = v_prot f; mf = v_map_flags f;
                   owned = (v_free_on_unmap f \<noteq> 0)
               in if vma_info_walk sp p mf owned start e then Some (p, mf, owned) else None))"

definition vma_page_fault_allowed :: "vmm_space \<Rightarrow> u64 \<Rightarrow> bool \<Rightarrow> bool \<Rightarrow> bool" where
  "vma_page_fault_allowed sp addr wr ex =
     (case containing sp addr of
        None \<Rightarrow> False
      | Some i \<Rightarrow> let v = vmas sp ! i in
          if v_free_on_unmap v = 0 then False
          else if wr \<and> v_prot v AND PROT_WRITE = 0 then False
          else if ex \<and> v_prot v AND PROT_EXEC = 0 then False
          else v_prot v AND (PROT_READ OR PROT_WRITE OR PROT_EXEC) \<noteq> 0)"

definition vma_page_flags :: "vmm_space \<Rightarrow> u64 \<Rightarrow> u64" where
  "vma_page_flags sp addr =
     (let flags = VMM_USER OR VMM_NX in
      case containing sp addr of
        None \<Rightarrow> flags
      | Some i \<Rightarrow> let v = vmas sp ! i;
            flags = (if v_prot v AND PROT_WRITE \<noteq> 0 then flags OR VMM_WRITE else flags)
          in if v_prot v AND PROT_EXEC \<noteq> 0 then flags AND NOT VMM_NX else flags)"

definition split_for_hole :: "vmm_space \<Rightarrow> nat \<Rightarrow> u64 \<Rightarrow> u64 \<Rightarrow> int \<times> vmm_space" where
  "split_for_hole sp i start e =
     (let v = vmas sp ! i; left = (v_start v < start); right = (e < v_end v) in
      if left \<and> right \<and> empty_slot sp = None then (- ENOMEM, sp)
      else
        let old_end = v_end v in
        if \<not> left \<and> \<not> right then (0, upd_vma i (\<lambda>_. zero_vma) sp)
        else if left \<and> \<not> right then (0, upd_vma i (\<lambda>v. v\<lparr>v_end := start\<rparr>) sp)
        else if \<not> left \<and> right then (0, upd_vma i (\<lambda>v. v\<lparr>v_start := e\<rparr>) sp)
        else
          (case empty_slot sp of
             None \<Rightarrow> (- ENOMEM, sp)
           | Some r \<Rightarrow>
               (0, upd_vma i (\<lambda>v. v\<lparr>v_end := start\<rparr>)
                     (upd_vma r (\<lambda>_. v\<lparr>v_start := e, v_end := old_end\<rparr>) sp))))"

function vma_remove_walk :: "vmm_space \<Rightarrow> u64 \<Rightarrow> u64 \<Rightarrow> int \<times> vmm_space" where
  "vma_remove_walk sp cur e =
     (if cur < e then
        (case containing sp cur of
           None \<Rightarrow> (- EINVAL, sp)
         | Some i \<Rightarrow>
             let v = vmas sp ! i; cut_end = (if v_end v < e then v_end v else e);
                 (rc, sp') = split_for_hole sp i cur cut_end
             in if rc < 0 then (rc, sp') else vma_remove_walk sp' cut_end e)
      else (0, sp))"
  by pat_completeness auto
termination
  by (relation "measure (\<lambda>(sp, cur, e). unat e - unat cur)")
    (auto dest!: containing_SomeD intro: walk_decreases simp: word_less_nat_alt [of _ "_ :: u64"])

declare vma_remove_walk.simps [simp del]

definition vma_remove :: "vmm_space \<Rightarrow> u64 \<Rightarrow> u64 \<Rightarrow> int \<times> vmm_space" where
  "vma_remove sp start len =
     (case range_end start len of
        None \<Rightarrow> (- EINVAL, sp)
      | Some e \<Rightarrow>
          if \<not> vma_range_ok sp start len then (- EINVAL, sp)
          else vma_remove_walk sp start e)"

text \<open>The \<open>for\<close> loop of \<open>vma_remove_overlaps\<close>, over the indices still to visit.\<close>

fun vma_overlaps_walk :: "nat list \<Rightarrow> vmm_space \<Rightarrow> u64 \<Rightarrow> u64 \<Rightarrow> int \<times> vmm_space" where
  "vma_overlaps_walk [] sp start e = (0, sp)"
| "vma_overlaps_walk (i # is) sp start e =
     (let v = vmas sp ! i in
      if v_used v = 0 then vma_overlaps_walk is sp start e
      else if v_end v \<le> start \<or> e \<le> v_start v then vma_overlaps_walk is sp start e
      else
        let cut_start = (if v_start v < start then start else v_start v);
            cut_end = (if e < v_end v then e else v_end v);
            (rc, sp') = split_for_hole sp i cut_start cut_end
        in if rc < 0 then (rc, sp') else vma_overlaps_walk is sp' start e)"

definition vma_remove_overlaps :: "vmm_space \<Rightarrow> u64 \<Rightarrow> u64 \<Rightarrow> int \<times> vmm_space" where
  "vma_remove_overlaps sp start len =
     (case range_end start len of
        None \<Rightarrow> (- EINVAL, sp)
      | Some e \<Rightarrow> vma_overlaps_walk [0..<length (vmas sp)] sp start e)"

function vma_protect_walk :: "vmm_space \<Rightarrow> u32 \<Rightarrow> u64 \<Rightarrow> u64 \<Rightarrow> int \<times> vmm_space" where
  "vma_protect_walk sp prot cur e =
     (if cur < e then
        (case containing sp cur of
           None \<Rightarrow> (- EINVAL, sp)
         | Some i \<Rightarrow>
             let v = vmas sp ! i; cut_end = (if v_end v < e then v_end v else e);
                 map_flags = v_map_flags v; free_on_unmap = (v_free_on_unmap v \<noteq> 0);
                 (rc, sp') = split_for_hole sp i cur cut_end
             in if rc < 0 then (rc, sp')
                else
                  let (rc2, sp2) = vma_add sp' cur (cut_end - cur) prot map_flags free_on_unmap
                  in if rc2 < 0 then (rc2, sp2) else vma_protect_walk sp2 prot cut_end e)
      else (0, sp))"
  by pat_completeness auto
termination
  by (relation "measure (\<lambda>(sp, prot, cur, e). unat e - unat cur)")
    (auto dest!: containing_SomeD intro: walk_decreases simp: word_less_nat_alt [of _ "_ :: u64"])

declare vma_protect_walk.simps [simp del]

definition vma_protect :: "vmm_space \<Rightarrow> u64 \<Rightarrow> u64 \<Rightarrow> u32 \<Rightarrow> int \<times> vmm_space" where
  "vma_protect sp start len prot =
     (case range_end start len of
        None \<Rightarrow> (- EINVAL, sp)
      | Some e \<Rightarrow>
          if \<not> vma_range_ok sp start len then (- EINVAL, sp)
          else vma_protect_walk sp prot start e)"


section \<open>The abstract address map and the table invariant\<close>

text \<open>The attributes of an area, and of an address: what the page-fault and protection code reads.\<close>

type_synonym vma_attr = "u32 \<times> u32 \<times> bool"

definition vma_kind :: "vmm_vma \<Rightarrow> vma_attr" where
  "vma_kind v = (v_prot v, v_map_flags v, v_free_on_unmap v \<noteq> 0)"

definition vma_view :: "vmm_space \<Rightarrow> u64 \<Rightarrow> vma_attr option" where
  "vma_view sp addr = map_option (\<lambda>i. vma_kind (vmas sp ! i)) (containing sp addr)"

definition v_disjoint :: "vmm_vma \<Rightarrow> vmm_vma \<Rightarrow> bool" where
  "v_disjoint v w \<longleftrightarrow> (v_live v \<longrightarrow> v_live w \<longrightarrow> v_end v \<le> v_start w \<or> v_end w \<le> v_start v)"

definition vma_wf :: "vmm_space \<Rightarrow> bool" where
  "vma_wf sp \<longleftrightarrow> list_all (\<lambda>v. v_live v \<longrightarrow> v_start v < v_end v) (vmas sp) \<and>
     sorted_wrt v_disjoint (vmas sp)"

lemma v_disjoint_sym: "v_disjoint v w \<Longrightarrow> v_disjoint w v"
  by (auto simp: v_disjoint_def)

lemma vma_wf_nonempty:
  "vma_wf sp \<Longrightarrow> i < length (vmas sp) \<Longrightarrow> v_live (vmas sp ! i) \<Longrightarrow>
   v_start (vmas sp ! i) < v_end (vmas sp ! i)"
  by (auto simp: vma_wf_def list_all_length)

lemma vma_wf_disjoint:
  "vma_wf sp \<Longrightarrow> i < length (vmas sp) \<Longrightarrow> j < length (vmas sp) \<Longrightarrow> i \<noteq> j \<Longrightarrow>
   v_disjoint (vmas sp ! i) (vmas sp ! j)"
  unfolding vma_wf_def sorted_wrt_iff_nth_less
  by (metis nat_neq_iff v_disjoint_sym)

lemma vma_wfI:
  assumes "\<And>i. i < length (vmas sp) \<Longrightarrow> v_live (vmas sp ! i) \<Longrightarrow>
      v_start (vmas sp ! i) < v_end (vmas sp ! i)"
    and "\<And>i j. i < length (vmas sp) \<Longrightarrow> j < length (vmas sp) \<Longrightarrow> i \<noteq> j \<Longrightarrow>
      v_disjoint (vmas sp ! i) (vmas sp ! j)"
  shows "vma_wf sp"
  using assms by (auto simp: vma_wf_def list_all_length sorted_wrt_iff_nth_less)

lemma holder_unique:
  assumes "vma_wf sp" "i < length (vmas sp)" "j < length (vmas sp)"
    and "v_holds a (vmas sp ! i)" "v_holds a (vmas sp ! j)"
  shows "i = j"
proof (rule ccontr)
  assume "i \<noteq> j"
  from vma_wf_disjoint [OF assms(1-3) this] assms(4,5) show False
    by (auto simp: v_disjoint_def v_holds_def word_nat)
qed

lemma containing_eqI:
  "vma_wf sp \<Longrightarrow> i < length (vmas sp) \<Longrightarrow> v_holds a (vmas sp ! i) \<Longrightarrow> containing sp a = Some i"
  unfolding containing_def by (rule find_index_unique) (auto intro: holder_unique)

lemma containing_None: "containing sp a = None \<longleftrightarrow> (\<forall>v \<in> set (vmas sp). \<not> v_holds a v)"
  by (simp add: containing_def)

lemma view_holder:
  "vma_wf sp \<Longrightarrow> i < length (vmas sp) \<Longrightarrow> v_holds a (vmas sp ! i) \<Longrightarrow>
   vma_view sp a = Some (vma_kind (vmas sp ! i))"
  by (simp add: vma_view_def containing_eqI)

lemma view_None: "vma_view sp a = None \<longleftrightarrow> (\<forall>v \<in> set (vmas sp). \<not> v_holds a v)"
  by (simp add: vma_view_def containing_None)

text \<open>
  All operations change the table by replacing single entries. A replacement keeps the invariant when
  the new entry is empty, or non-empty as a range and disjoint from the other live entries; it changes
  the view only on the old and the new range of the entry.
\<close>

abbreviation put_vma :: "nat \<Rightarrow> vmm_vma \<Rightarrow> vmm_space \<Rightarrow> vmm_space" where
  "put_vma i v sp \<equiv> sp\<lparr>vmas := (vmas sp)[i := v]\<rparr>"

lemma put_wf:
  assumes wf: "vma_wf sp"
    and ne: "v_live v \<Longrightarrow> v_start v < v_end v"
    and dj: "\<And>j. j < length (vmas sp) \<Longrightarrow> j \<noteq> i \<Longrightarrow> v_disjoint v (vmas sp ! j)"
  shows "vma_wf (put_vma i v sp)"
proof (rule vma_wfI)
  fix k
  assume "k < length (vmas (put_vma i v sp))" "v_live (vmas (put_vma i v sp) ! k)"
  then show "v_start (vmas (put_vma i v sp) ! k) < v_end (vmas (put_vma i v sp) ! k)"
    using ne vma_wf_nonempty [OF wf] by (cases "k = i") auto
next
  fix k j
  assume "k < length (vmas (put_vma i v sp))" "j < length (vmas (put_vma i v sp))" "k \<noteq> j"
  then show "v_disjoint (vmas (put_vma i v sp) ! k) (vmas (put_vma i v sp) ! j)"
    using dj vma_wf_disjoint [OF wf] v_disjoint_sym
    by (cases "k = i"; cases "j = i") auto
qed

lemma put_view:
  assumes wf: "vma_wf sp" and wf': "vma_wf (put_vma i v sp)" and i: "i < length (vmas sp)"
  shows "vma_view (put_vma i v sp) a =
    (if v_holds a v then Some (vma_kind v)
     else if v_holds a (vmas sp ! i) then None else vma_view sp a)"
proof (cases "v_holds a v")
  case True
  with view_holder [OF wf', of i a] i show ?thesis by simp
next
  case notv: False
  show ?thesis
  proof (cases "\<exists>j < length (vmas sp). j \<noteq> i \<and> v_holds a (vmas sp ! j)")
    case True
    then obtain j where j: "j < length (vmas sp)" "j \<noteq> i" "v_holds a (vmas sp ! j)" by blast
    then have "vma_view (put_vma i v sp) a = Some (vma_kind (vmas sp ! j))"
      using view_holder [OF wf', of j a] by simp
    moreover have "vma_view sp a = Some (vma_kind (vmas sp ! j))"
      using j by (intro view_holder [OF wf])
    moreover have "\<not> v_holds a (vmas sp ! i)" using holder_unique [OF wf i j(1)] j by blast
    ultimately show ?thesis using notv by simp
  next
    case False
    then have none: "vma_view (put_vma i v sp) a = None"
      using notv i by (auto simp: view_None in_set_conv_nth nth_list_update split: if_splits)
    show ?thesis
    proof (cases "v_holds a (vmas sp ! i)")
      case True
      then show ?thesis using none notv by simp
    next
      case noti: False
      with False have "vma_view sp a = None"
        by (metis in_set_conv_nth view_None)
      then show ?thesis using none notv noti by simp
    qed
  qed
qed

section \<open>Cutting a hole into an area\<close>

abbreviation in_range :: "u64 \<Rightarrow> u64 \<Rightarrow> u64 \<Rightarrow> bool" where
  "in_range s e a \<equiv> s \<le> a \<and> a < e"

text \<open>The abstract counterpart of unmapping \<open>[s, e)\<close>.\<close>

definition view_cut :: "u64 \<Rightarrow> u64 \<Rightarrow> (u64 \<Rightarrow> vma_attr option) \<Rightarrow> (u64 \<Rightarrow> vma_attr option)" where
  "view_cut s e m = (\<lambda>a. if in_range s e a then None else m a)"

lemma empty_slot_SomeD:
  "empty_slot sp = Some r \<Longrightarrow> r < length (vmas sp) \<and> \<not> v_live (vmas sp ! r)"
  by (auto simp: empty_slot_def dest: find_index_SomeD)

lemma v_holds_zero [simp]: "\<not> v_holds a zero_vma"
  by (simp add: v_holds_def zero_vma_def)

lemma v_disjoint_zero [simp]: "v_disjoint zero_vma w"
  by (simp add: v_disjoint_def zero_vma_def)

lemma zero_vma_dead [simp]: "v_used zero_vma = 0"
  by (simp add: zero_vma_def)

text \<open>Shrinking a live entry to a non-empty part of its range.\<close>

lemma shrink_wf:
  assumes "vma_wf sp" "i < length (vmas sp)" "v_live (vmas sp ! i)"
    and "v_start (vmas sp ! i) \<le> v_start w" "v_start w < v_end w" "v_end w \<le> v_end (vmas sp ! i)"
  shows "vma_wf (put_vma i w sp)"
proof (rule put_wf [OF assms(1)])
  fix j
  assume "j < length (vmas sp)" "j \<noteq> i"
  with vma_wf_disjoint [OF assms(1), of i j] assms(2-) show "v_disjoint w (vmas sp ! j)"
    by (auto simp: v_disjoint_def word_nat)
qed (use assms in auto)

lemma drop_wf: "vma_wf sp \<Longrightarrow> vma_wf (put_vma i zero_vma sp)"
  by (rule put_wf) auto

lemma split_two_wf:
  assumes wf: "vma_wf sp" and i: "i < length (vmas sp)" and r: "r < length (vmas sp)"
    and live: "v_live (vmas sp ! i)" and dead: "\<not> v_live (vmas sp ! r)"
    and ord: "v_start (vmas sp ! i) < s" "s < e" "e < v_end (vmas sp ! i)"
    and w: "w = (vmas sp ! i)\<lparr>v_end := s\<rparr>"
    and u: "u = (vmas sp ! i)\<lparr>v_start := e\<rparr>"
  shows "vma_wf (put_vma i w sp)" "vma_wf (put_vma r u (put_vma i w sp))"
proof -
  have ir: "i \<noteq> r" using live dead by auto
  show wf1: "vma_wf (put_vma i w sp)"
    using ord w by (intro shrink_wf [OF wf i live]) (auto simp: word_nat)
  show "vma_wf (put_vma r u (put_vma i w sp))"
  proof (rule put_wf [OF wf1])
    show "v_start u < v_end u" using ord u by simp
    fix j
    assume j: "j < length (vmas (put_vma i w sp))" "j \<noteq> r"
    show "v_disjoint u (vmas (put_vma i w sp) ! j)"
    proof (cases "j = i")
      case True
      then show ?thesis using i ord w u by (auto simp: v_disjoint_def word_nat)
    next
      case False
      with j vma_wf_disjoint [OF wf i, of j] live ord u show ?thesis
        by (auto simp: v_disjoint_def word_nat)
    qed
  qed
qed

lemma holds_update_simps [simp]:
  "v_holds a (v\<lparr>v_end := s\<rparr>) \<longleftrightarrow> v_live v \<and> v_start v \<le> a \<and> a < s"
  "v_holds a (v\<lparr>v_start := s\<rparr>) \<longleftrightarrow> v_live v \<and> s \<le> a \<and> a < v_end v"
  "vma_kind (v\<lparr>v_end := s\<rparr>) = vma_kind v"
  "vma_kind (v\<lparr>v_start := s\<rparr>) = vma_kind v"
  by (auto simp: v_holds_def vma_kind_def)

text \<open>
  \<open>split_for_hole\<close> on a range inside a live area: it fails exactly when the hole is strictly inside
  and no slot is free, and then changes nothing; otherwise it removes the range and nothing else.
\<close>

lemma split_for_hole_correct:
  assumes wf: "vma_wf sp" and i: "i < length (vmas sp)" and live: "v_live (vmas sp ! i)"
    and ord: "v_start (vmas sp ! i) \<le> s" "s < e" "e \<le> v_end (vmas sp ! i)"
    and res: "split_for_hole sp i s e = (rc, sp')"
  shows "rc = 0 \<and> vma_wf sp' \<and> vma_view sp' = view_cut s e (vma_view sp) \<and>
           length (vmas sp') = length (vmas sp) \<or>
         rc = - ENOMEM \<and> sp' = sp \<and> empty_slot sp = None \<and>
           v_start (vmas sp ! i) < s \<and> e < v_end (vmas sp ! i)"
proof -
  let ?v = "vmas sp ! i"
  have vi: "vma_view sp a = Some (vma_kind ?v)" if "v_holds a ?v" for a
    using view_holder [OF wf i that] .
  consider (none) "\<not> v_start ?v < s" "\<not> e < v_end ?v" | (left) "v_start ?v < s" "\<not> e < v_end ?v"
    | (right) "\<not> v_start ?v < s" "e < v_end ?v" | (both) "v_start ?v < s" "e < v_end ?v" by blast
  then show ?thesis
  proof cases
    case none
    then have sp': "rc = 0" "sp' = put_vma i zero_vma sp"
      using res by (auto simp: split_for_hole_def Let_def)
    have wf': "vma_wf sp'" using drop_wf [OF wf] sp' by simp
    have "vma_view sp' a = view_cut s e (vma_view sp) a" for a
      using put_view [OF wf, of i zero_vma a] wf' i live ord none sp'
      by (auto simp: view_cut_def v_holds_def word_nat)
    then show ?thesis using wf' sp' by auto
  next
    case left
    then have sp': "rc = 0" "sp' = put_vma i (?v\<lparr>v_end := s\<rparr>) sp"
      using res by (auto simp: split_for_hole_def Let_def)
    have wf': "vma_wf sp'"
      unfolding sp'(2) using ord left by (intro shrink_wf [OF wf i live]) (auto simp: word_nat)
    have "vma_view sp' a = view_cut s e (vma_view sp) a" for a
      using put_view [OF wf, of i "?v\<lparr>v_end := s\<rparr>" a] wf' i live ord left sp' vi [of a]
      by (auto simp: view_cut_def v_holds_def word_nat)
    then show ?thesis using wf' sp' by auto
  next
    case right
    then have sp': "rc = 0" "sp' = put_vma i (?v\<lparr>v_start := e\<rparr>) sp"
      using res by (auto simp: split_for_hole_def Let_def)
    have wf': "vma_wf sp'"
      unfolding sp'(2) using ord right by (intro shrink_wf [OF wf i live]) (auto simp: word_nat)
    have "vma_view sp' a = view_cut s e (vma_view sp) a" for a
      using put_view [OF wf, of i "?v\<lparr>v_start := e\<rparr>" a] wf' i live ord right sp' vi [of a]
      by (auto simp: view_cut_def v_holds_def word_nat)
    then show ?thesis using wf' sp' by auto
  next
    case both
    show ?thesis
    proof (cases "empty_slot sp")
      case None
      then show ?thesis using res both by (auto simp: split_for_hole_def Let_def)
    next
      case (Some r)
      note r = empty_slot_SomeD [OF Some]
      have ir: "i \<noteq> r" using r live by auto
      let ?w = "?v\<lparr>v_end := s\<rparr>" and ?u = "?v\<lparr>v_start := e\<rparr>"
      have upd: "?v\<lparr>v_start := e, v_end := v_end ?v\<rparr> = ?u" by simp
      have sp': "rc = 0" "sp' = put_vma r ?u (put_vma i ?w sp)"
        using res both Some ir by (auto simp: split_for_hole_def Let_def upd list_update_swap)
      note wfs = split_two_wf [OF wf i _ live _ both(1) ord(2) both(2) refl refl, of r]
      have wf1: "vma_wf (put_vma i ?w sp)" and wf2: "vma_wf sp'"
        using wfs r sp' by auto
      have v1: "vma_view (put_vma i ?w sp) a =
          (if v_holds a ?w then Some (vma_kind ?w) else if v_holds a ?v then None else vma_view sp a)" for a
        by (rule put_view [OF wf wf1 i])
      have "vma_view sp' a = view_cut s e (vma_view sp) a" for a
        using put_view [OF wf1, of r ?u a] wf2 r i ir live ord both v1 [of a] vi [of a] sp'
        by (auto simp: view_cut_def v_holds_def word_nat)
      then show ?thesis using wf2 sp' by auto
    qed
  qed
qed

section \<open>Adding an area\<close>

text \<open>The abstract counterpart of mapping \<open>[s, e)\<close> with one attribute.\<close>

definition view_put ::
  "u64 \<Rightarrow> u64 \<Rightarrow> vma_attr \<Rightarrow> (u64 \<Rightarrow> vma_attr option) \<Rightarrow> (u64 \<Rightarrow> vma_attr option)" where
  "view_put s e k m = (\<lambda>a. if in_range s e a then Some k else m a)"

lemma range_end_SomeD: "range_end s len = Some e \<Longrightarrow> e = s + len \<and> s < e"
  by (auto simp: range_end_def Let_def split: if_splits)

lemma overlap_iff_holds:
  assumes "s < e" "v_live v \<Longrightarrow> v_start v < v_end v"
  shows "v_overlaps s e v \<longleftrightarrow> (\<exists>a. in_range s e a \<and> v_holds a v)"
proof
  assume "v_overlaps s e v"
  then have "in_range s e (max s (v_start v)) \<and> v_holds (max s (v_start v)) v"
    using assms by (auto simp: v_overlaps_def v_holds_def max_def word_nat)
  then show "\<exists>a. in_range s e a \<and> v_holds a v" by blast
next
  assume "\<exists>a. in_range s e a \<and> v_holds a v"
  then show "v_overlaps s e v" by (auto simp: v_overlaps_def v_holds_def word_nat)
qed

lemma vma_conflicts_iff:
  assumes wf: "vma_wf sp" and re: "range_end s len = Some e"
  shows "vma_conflicts sp s len \<longleftrightarrow> (\<exists>a. in_range s e a \<and> vma_view sp a \<noteq> None)"
proof -
  have "vma_conflicts sp s len \<longleftrightarrow> (\<exists>v \<in> set (vmas sp). v_overlaps s e v)"
    by (simp add: vma_conflicts_def re list_ex_iff)
  also have "\<dots> \<longleftrightarrow> (\<exists>v \<in> set (vmas sp). \<exists>a. in_range s e a \<and> v_holds a v)"
    using range_end_SomeD [OF re] vma_wf_nonempty [OF wf]
    by (intro bex_cong refl overlap_iff_holds) (auto simp: in_set_conv_nth)
  also have "\<dots> \<longleftrightarrow> (\<exists>a. in_range s e a \<and> vma_view sp a \<noteq> None)"
    unfolding view_None by blast
  finally show ?thesis .
qed

text \<open>What the neighbour scan finds, and what it means when it finds nothing.\<close>

lemma vma_neighbours_spec:
  assumes "vma_neighbours i vs s e p mf fr (b0, a0) = (b, a)"
    and "P = (\<lambda>v. v_live v \<and> vma_same_kind v p mf fr)"
  shows "(b = b0 \<or> (\<exists>k < length vs. b = Some (i + k) \<and> P (vs ! k) \<and> v_end (vs ! k) = s)) \<and>
    (a = a0 \<or> (\<exists>k < length vs. a = Some (i + k) \<and> P (vs ! k) \<and> v_start (vs ! k) = e))"
  using assms(1)
proof (induction vs arbitrary: i b0 a0)
  case (Cons v vs)
  obtain b1 a1 where acc: "(if \<not> v_live v \<or> \<not> vma_same_kind v p mf fr then (b0, a0)
        else if v_end v = s then (Some i, a0) else if v_start v = e then (b0, Some i)
        else (b0, a0)) = (b1, a1)" by (metis surj_pair)
  with Cons.prems have "vma_neighbours (Suc i) vs s e p mf fr (b1, a1) = (b, a)" by simp
  from Cons.IH [OF this] acc assms(2) show ?case
    by (auto simp: Ex_less_Suc2 split: if_splits)
qed simp

lemma vma_add_cases:
  assumes re: "range_end s len = Some e" and nc: "\<not> vma_conflicts sp s len"
    and res: "vma_add sp s len p mf fr = (rc, sp')"
  obtains (both) b a where "b < length (vmas sp)" "a < length (vmas sp)"
      "v_live (vmas sp ! b)" "vma_same_kind (vmas sp ! b) p mf fr" "v_end (vmas sp ! b) = s"
      "v_live (vmas sp ! a)" "v_start (vmas sp ! a) = e" "rc = 0"
      "sp' = put_vma a zero_vma
        (put_vma b ((vmas sp ! b)\<lparr>v_end := v_end (vmas sp ! a)\<rparr>) sp)"
      "vma_same_kind (vmas sp ! a) p mf fr"
  | (before) b where "b < length (vmas sp)" "v_live (vmas sp ! b)"
      "vma_same_kind (vmas sp ! b) p mf fr" "v_end (vmas sp ! b) = s" "rc = 0"
      "sp' = put_vma b ((vmas sp ! b)\<lparr>v_end := e\<rparr>) sp"
  | (after) a where "a < length (vmas sp)" "v_live (vmas sp ! a)"
      "vma_same_kind (vmas sp ! a) p mf fr" "v_start (vmas sp ! a) = e" "rc = 0"
      "sp' = put_vma a ((vmas sp ! a)\<lparr>v_start := s\<rparr>) sp"
  | (fresh) i where "empty_slot sp = Some i" "rc = 0"
      "sp' = put_vma i \<lparr>v_start = s, v_end = e, v_prot = p, v_map_flags = mf, v_used = 1,
         v_free_on_unmap = c_bool fr\<rparr> sp"
  | (full) "empty_slot sp = None" "rc = - ENOMEM" "sp' = sp"
proof -
  obtain b a where ba: "vma_neighbours 0 (vmas sp) s e p mf fr (None, None) = (b, a)"
    by (metis surj_pair)
  note spec = vma_neighbours_spec [OF ba refl]
  consider (bb) i j where "b = Some i" "a = Some j" | (b0) i where "b = Some i" "a = None"
    | (a0) j where "b = None" "a = Some j" | (nn) "b = None" "a = None"
    by (cases b; cases a) auto
  then show thesis
  proof cases
    case (bb i j)
    from res have "rc = 0" "sp' = put_vma j zero_vma
        (put_vma i ((vmas sp ! i)\<lparr>v_end := v_end (vmas sp ! j)\<rparr>) sp)"
      by (simp_all add: vma_add_def re nc ba bb)
    with spec bb show thesis by (intro both [of i j]) simp_all
  next
    case (b0 i)
    from res have "rc = 0" "sp' = put_vma i ((vmas sp ! i)\<lparr>v_end := e\<rparr>) sp"
      by (simp_all add: vma_add_def re nc ba b0)
    with spec b0 show thesis by (intro before [of i]) simp_all
  next
    case (a0 j)
    from res have "rc = 0" "sp' = put_vma j ((vmas sp ! j)\<lparr>v_start := s\<rparr>) sp"
      by (simp_all add: vma_add_def re nc ba a0)
    with spec a0 show thesis by (intro after [of j]) simp_all
  next
    case nn
    from res have r: "(case empty_slot sp of None \<Rightarrow> (- ENOMEM, sp)
        | Some i \<Rightarrow> (0, put_vma i \<lparr>v_start = s, v_end = e, v_prot = p, v_map_flags = mf,
            v_used = 1, v_free_on_unmap = c_bool fr\<rparr> sp)) = (rc, sp')"
      by (simp add: vma_add_def re nc ba nn)
    show thesis
    proof (cases "empty_slot sp")
      case None
      with r show thesis by (intro full) simp_all
    next
      case (Some i)
      with r show thesis by (intro fresh [of i]) simp_all
    qed
  qed
qed

lemma same_kind_kind: "vma_same_kind v p mf fr \<Longrightarrow> vma_kind v = (p, mf, fr)"
  by (auto simp: vma_same_kind_def vma_kind_def)

text \<open>
  A range with no mapped address is disjoint from every live entry; growing a live entry by an
  adjacent free range keeps the table well formed.
\<close>

lemma free_disjoint:
  assumes wf: "vma_wf sp" and j: "j < length (vmas sp)" "v_live (vmas sp ! j)"
    and se: "s < e" and free: "\<And>a. in_range s e a \<Longrightarrow> vma_view sp a = None"
  shows "v_end (vmas sp ! j) \<le> s \<or> e \<le> v_start (vmas sp ! j)"
proof (rule ccontr)
  assume "\<not> ?thesis"
  then have "v_overlaps s e (vmas sp ! j)" using j by (auto simp: v_overlaps_def)
  then obtain a where "in_range s e a" "v_holds a (vmas sp ! j)"
    using overlap_iff_holds [OF se] vma_wf_nonempty [OF wf j(1)] by blast
  then show False using free [of a] view_holder [OF wf j(1)] by auto
qed

lemma grow_wf:
  assumes wf: "vma_wf sp" and b: "b < length (vmas sp)" and live: "v_live (vmas sp ! b)"
    and se: "s < e" and free: "\<And>a. in_range s e a \<Longrightarrow> vma_view sp a = None"
    and w: "v_used w = v_used (vmas sp ! b)"
      "v_end (vmas sp ! b) = s \<and> v_start w = v_start (vmas sp ! b) \<and> v_end w = e \<or>
       v_start (vmas sp ! b) = e \<and> v_start w = s \<and> v_end w = v_end (vmas sp ! b)"
  shows "vma_wf (put_vma b w sp)"
proof (rule put_wf [OF wf])
  show "v_start w < v_end w"
    using w vma_wf_nonempty [OF wf b live] se by (auto simp: word_nat)
  fix j
  assume j: "j < length (vmas sp)" "j \<noteq> b"
  show "v_disjoint w (vmas sp ! j)"
  proof (cases "v_live (vmas sp ! j)")
    case True
    from free_disjoint [OF wf j(1) True se free] vma_wf_disjoint [OF wf b j(1)] j(2)
      vma_wf_nonempty [OF wf j(1) True] True live w
    show ?thesis by (auto simp: v_disjoint_def word_nat)
  qed (simp add: v_disjoint_def)
qed

lemma vma_add_fresh:
  assumes wf: "vma_wf sp" and slot: "empty_slot sp = Some i" and se: "s < e"
    and free: "\<And>a. in_range s e a \<Longrightarrow> vma_view sp a = None"
    and w: "v_start w = s" "v_end w = e" "v_live w"
  shows "vma_wf (put_vma i w sp) \<and>
    vma_view (put_vma i w sp) = view_put s e (vma_kind w) (vma_view sp)"
proof -
  note i = empty_slot_SomeD [OF slot]
  have wf': "vma_wf (put_vma i w sp)"
  proof (rule put_wf [OF wf])
    fix j
    assume "j < length (vmas sp)" "j \<noteq> i"
    with free_disjoint [OF wf _ _ se free, of j] w show "v_disjoint w (vmas sp ! j)"
      by (auto simp: v_disjoint_def)
  qed (use se w in auto)
  have "vma_view (put_vma i w sp) a = view_put s e (vma_kind w) (vma_view sp) a" for a
    using put_view [OF wf wf', of a] i w by (auto simp: v_holds_def view_put_def)
  with wf' show ?thesis by blast
qed

lemma vma_add_both:
  assumes wf: "vma_wf sp" and b: "b < length (vmas sp)" and a: "a < length (vmas sp)"
    and lb: "v_live (vmas sp ! b)" and la: "v_live (vmas sp ! a)"
    and eb: "v_end (vmas sp ! b) = s" and sa: "v_start (vmas sp ! a) = e" and se: "s < e"
    and free: "\<And>x. in_range s e x \<Longrightarrow> vma_view sp x = None"
    and k: "vma_kind (vmas sp ! b) = k" "vma_kind (vmas sp ! a) = k"
  defines "w \<equiv> (vmas sp ! b)\<lparr>v_end := v_end (vmas sp ! a)\<rparr>"
  defines "sp' \<equiv> put_vma a zero_vma (put_vma b w sp)"
  shows "vma_wf sp' \<and> vma_view sp' = view_put s e k (vma_view sp)"
proof -
  note nb = vma_wf_nonempty [OF wf b lb] and na = vma_wf_nonempty [OF wf a la]
  have ab: "a \<noteq> b" using eb sa se nb na by (auto simp: word_nat)
  let ?sp1 = "put_vma a zero_vma sp"
  have swap: "sp' = put_vma b w ?sp1" using ab by (simp add: sp'_def list_update_swap)
  have wf1: "vma_wf ?sp1" by (rule drop_wf [OF wf])
  have v1: "vma_view ?sp1 x = (if v_holds x (vmas sp ! a) then None else vma_view sp x)" for x
    using put_view [OF wf wf1 a] by simp
  have wf2: "vma_wf sp'"
    unfolding swap
  proof (rule put_wf [OF wf1])
    show "v_start w < v_end w" using nb na eb sa se by (auto simp: w_def word_nat)
    fix j
    assume "j < length (vmas ?sp1)" "j \<noteq> b"
    then have j: "j < length (vmas sp)" "j \<noteq> b" by auto
    show "v_disjoint w (vmas ?sp1 ! j)"
    proof (cases "j = a \<or> \<not> v_live (vmas sp ! j)")
      case True
      then show ?thesis using j a by (cases "j = a") (auto simp: v_disjoint_def)
    next
      case False
      from free_disjoint [OF wf j(1) _ se free] vma_wf_disjoint [OF wf b j(1)]
        vma_wf_disjoint [OF wf a j(1)] vma_wf_nonempty [OF wf j(1)] False j(2) lb la eb sa nb na se
      show ?thesis by (auto simp: v_disjoint_def w_def word_nat)
    qed
  qed
  have "vma_view sp' x = view_put s e k (vma_view sp) x" for x
    using put_view [OF wf1, of b w x] wf2 swap v1 [of x] view_holder [OF wf b, of x]
      view_holder [OF wf a, of x] ab a b lb la eb sa se nb na k
    by (auto simp: view_put_def w_def v_holds_def word_nat)
  with wf2 show ?thesis by blast
qed

theorem vma_add_correct:
  assumes wf: "vma_wf sp" and res: "vma_add sp s len p mf fr = (rc, sp')"
  shows "rc = 0 \<and> (\<exists>e. range_end s len = Some e \<and> vma_wf sp' \<and>
             vma_view sp' = view_put s e (p, mf, fr) (vma_view sp)) \<and>
             length (vmas sp') = length (vmas sp) \<or>
         rc = - EINVAL \<and> sp' = sp \<and>
           (\<forall>e. range_end s len = Some e \<longrightarrow> (\<exists>a. in_range s e a \<and> vma_view sp a \<noteq> None)) \<or>
         rc = - ENOMEM \<and> sp' = sp \<and> empty_slot sp = None"
proof (cases "range_end s len")
  case None
  then show ?thesis using res by (simp add: vma_add_def)
next
  case re: (Some e)
  show ?thesis
  proof (cases "vma_conflicts sp s len")
    case True
    then show ?thesis using res re vma_conflicts_iff [OF wf re] by (auto simp: vma_add_def)
  next
    case nc: False
    have se: "s < e" using range_end_SomeD [OF re] by blast
    have free: "vma_view sp a = None" if "in_range s e a" for a
      using nc vma_conflicts_iff [OF wf re] that by blast
    have grow: "vma_wf (put_vma b w sp) \<and>
        vma_view (put_vma b w sp) = view_put s e (p, mf, fr) (vma_view sp)"
      if b: "b < length (vmas sp)" "v_live (vmas sp ! b)" "vma_same_kind (vmas sp ! b) p mf fr"
        and w: "v_end (vmas sp ! b) = s \<and> w = (vmas sp ! b)\<lparr>v_end := e\<rparr> \<or>
          v_start (vmas sp ! b) = e \<and> w = (vmas sp ! b)\<lparr>v_start := s\<rparr>" for b w
    proof -
      have wf': "vma_wf (put_vma b w sp)"
        using w by (intro grow_wf [OF wf b(1,2) se free]) auto
      have "vma_view (put_vma b w sp) a = view_put s e (p, mf, fr) (vma_view sp) a" for a
        using put_view [OF wf wf' b(1), of a] w same_kind_kind [OF b(3)] b(2) se
          view_holder [OF wf b(1), of a] vma_wf_nonempty [OF wf b(1,2)]
        by (auto simp: view_put_def v_holds_def word_nat)
      with wf' show ?thesis by blast
    qed
    show ?thesis
    proof (rule vma_add_cases [OF re nc res])
      fix b a
      assume *: "b < length (vmas sp)" "a < length (vmas sp)"
        "v_live (vmas sp ! b)" "vma_same_kind (vmas sp ! b) p mf fr" "v_end (vmas sp ! b) = s"
        "v_live (vmas sp ! a)" "v_start (vmas sp ! a) = e" "rc = 0"
        "sp' = put_vma a zero_vma
          (put_vma b ((vmas sp ! b)\<lparr>v_end := v_end (vmas sp ! a)\<rparr>) sp)"
        "vma_same_kind (vmas sp ! a) p mf fr"
      from vma_add_both [OF wf *(1,2,3,6,5,7) se free same_kind_kind [OF *(4)]
          same_kind_kind [OF *(10)]] * re
      show ?thesis by simp
    next
      fix b
      assume *: "b < length (vmas sp)" "v_live (vmas sp ! b)"
        "vma_same_kind (vmas sp ! b) p mf fr" "v_end (vmas sp ! b) = s" "rc = 0"
        "sp' = put_vma b ((vmas sp ! b)\<lparr>v_end := e\<rparr>) sp"
      with grow [OF *(1-3), of "(vmas sp ! b)\<lparr>v_end := e\<rparr>"] re show ?thesis by simp
    next
      fix a
      assume *: "a < length (vmas sp)" "v_live (vmas sp ! a)"
        "vma_same_kind (vmas sp ! a) p mf fr" "v_start (vmas sp ! a) = e" "rc = 0"
        "sp' = put_vma a ((vmas sp ! a)\<lparr>v_start := s\<rparr>) sp"
      with grow [OF *(1-3), of "(vmas sp ! a)\<lparr>v_start := s\<rparr>"] re show ?thesis by simp
    next
      fix i
      let ?w = "\<lparr>v_start = s, v_end = e, v_prot = p, v_map_flags = mf, v_used = 1,
         v_free_on_unmap = c_bool fr\<rparr>"
      assume *: "empty_slot sp = Some i" "rc = 0" "sp' = put_vma i ?w sp"
      have "vma_kind ?w = (p, mf, fr)" by (simp add: vma_kind_def)
      with vma_add_fresh [OF wf *(1) se free, of ?w] re * show ?thesis by simp
    next
      assume "empty_slot sp = None" "rc = - ENOMEM" "sp' = sp"
      then show ?thesis by simp
    qed
  qed
qed

section \<open>Walking over a range\<close>

lemma view_SomeD:
  assumes "vma_view sp a \<noteq> None"
  obtains i where "containing sp a = Some i" "i < length (vmas sp)" "v_holds a (vmas sp ! i)"
    "vma_view sp a = Some (vma_kind (vmas sp ! i))"
  using assms containing_SomeD [of sp a] by (auto simp: vma_view_def)

text \<open>One step of a walk: the area that contains \<open>cur\<close>, up to \<open>mid = min v_end e\<close>.\<close>

lemma walk_step:
  assumes wf: "vma_wf sp" and c: "containing sp cur = Some i" and ce: "cur < e"
    and mid: "mid = (if v_end (vmas sp ! i) < e then v_end (vmas sp ! i) else e)"
  shows "cur < mid" "mid \<le> e" "mid \<le> v_end (vmas sp ! i)"
    and "in_range cur mid a \<Longrightarrow> vma_view sp a = Some (vma_kind (vmas sp ! i))"
    and "in_range cur e a \<Longrightarrow> in_range cur mid a \<or> in_range mid e a"
    and "in_range cur mid a \<Longrightarrow> in_range cur e a" "in_range mid e a \<Longrightarrow> in_range cur e a"
proof -
  note i = containing_SomeD [OF c]
  show *: "cur < mid" "mid \<le> e" "mid \<le> v_end (vmas sp ! i)"
    using i ce by (auto simp: v_holds_def mid word_nat)
  show "in_range cur mid a \<Longrightarrow> vma_view sp a = Some (vma_kind (vmas sp ! i))"
    using i * by (intro view_holder [OF wf]) (auto simp: v_holds_def word_nat)
  show "in_range cur e a \<Longrightarrow> in_range cur mid a \<or> in_range mid e a"
    "in_range cur mid a \<Longrightarrow> in_range cur e a" "in_range mid e a \<Longrightarrow> in_range cur e a"
    using * by (auto simp: word_nat)
qed

lemma word_pred:
  assumes "(a :: u64) < b"
  shows "unat (b - 1) = unat b - 1" "in_range a b (b - 1)"
proof -
  from assms have nz: "b \<noteq> 0" by auto
  then show u: "unat (b - 1) = unat b - 1" by (rule unat_minus_one)
  show "in_range a b (b - 1)" using assms u nz by (auto simp: word_nat)
qed

lemma vma_range_walk_iff:
  assumes "vma_wf sp"
  shows "vma_range_walk sp cur e \<longleftrightarrow> (\<forall>a. in_range cur e a \<longrightarrow> vma_view sp a \<noteq> None)"
  using assms
proof (induction sp cur e rule: vma_range_walk.induct)
  case (1 sp cur e)
  show ?case
  proof (cases "cur < e")
    case True
    show ?thesis
    proof (cases "containing sp cur")
      case None
      with True have "in_range cur e cur" "vma_view sp cur = None" by (auto simp: vma_view_def)
      with True None show ?thesis by (auto simp: vma_range_walk.simps [of sp cur e])
    next
      case (Some i)
      define mid where "mid = (if v_end (vmas sp ! i) < e then v_end (vmas sp ! i) else e)"
      note step = walk_step [OF "1.prems" Some True mid_def]
      have "vma_range_walk sp cur e = vma_range_walk sp mid e"
        using True Some by (simp add: vma_range_walk.simps [of sp cur e] mid_def Let_def)
      also have "\<dots> \<longleftrightarrow> (\<forall>a. in_range mid e a \<longrightarrow> vma_view sp a \<noteq> None)"
        using "1.IH" [OF True Some refl] "1.prems" by (simp add: mid_def)
      also have "\<dots> \<longleftrightarrow> (\<forall>a. in_range cur e a \<longrightarrow> vma_view sp a \<noteq> None)"
        using step(4-7) by (metis option.distinct(1))
      finally show ?thesis .
    qed
  qed (auto simp: vma_range_walk.simps [of sp cur e])
qed

lemma vma_range_ok_iff:
  "vma_wf sp \<Longrightarrow> range_end s len = Some e \<Longrightarrow>
   vma_range_ok sp s len \<longleftrightarrow> (\<forall>a. in_range s e a \<longrightarrow> vma_view sp a \<noteq> None)"
  by (simp add: vma_range_ok_def vma_range_walk_iff)

text \<open>
  Removal. Once the walk stands at the start of an area the hole is never strictly inside it, so no
  slot is needed and the walk cannot fail; only the first mid can.
\<close>

abbreviation mapped_on :: "vmm_space \<Rightarrow> u64 \<Rightarrow> u64 \<Rightarrow> bool" where
  "mapped_on sp s e \<equiv> (\<forall>a. in_range s e a \<longrightarrow> vma_view sp a \<noteq> None)"

abbreviation aligned_at :: "vmm_space \<Rightarrow> u64 \<Rightarrow> bool" where
  "aligned_at sp cur \<equiv> (\<forall>i < length (vmas sp). v_holds cur (vmas sp ! i) \<longrightarrow> v_start (vmas sp ! i) = cur)"

lemma aligned_after_cut:
  assumes wf: "vma_wf sp" and lo: "cur < mid" and un: "vma_view sp (mid - 1) = None"
  shows "aligned_at sp mid"
proof (intro allI impI)
  fix i
  assume i: "i < length (vmas sp)" "v_holds mid (vmas sp ! i)"
  show "v_start (vmas sp ! i) = mid"
  proof (rule ccontr)
    assume ne: "v_start (vmas sp ! i) \<noteq> mid"
    with i(2) have "v_start (vmas sp ! i) < mid" by (auto simp: v_holds_def)
    with i(2) word_pred [OF lo] have "v_holds (mid - 1) (vmas sp ! i)"
      by (auto simp: v_holds_def word_nat)
    with un view_holder [OF wf i(1)] show False by simp
  qed
qed

lemma view_cut_cut:
  "s \<le> m \<Longrightarrow> m \<le> e \<Longrightarrow> view_cut m e (view_cut s m f) = view_cut s e f"
  by (rule ext) (auto simp: view_cut_def word_nat)

lemma view_cut_empty [simp]: "\<not> s < e \<Longrightarrow> view_cut s e f = f"
  by (rule ext) (auto simp: view_cut_def word_nat)

lemma remove_step:
  assumes wf: "vma_wf sp" and c: "containing sp cur = Some i" and ce: "cur < e"
    and mid: "mid = (if v_end (vmas sp ! i) < e then v_end (vmas sp ! i) else e)"
    and res: "split_for_hole sp i cur mid = (rc, sp')"
  shows "rc = 0 \<and> vma_wf sp' \<and> vma_view sp' = view_cut cur mid (vma_view sp) \<and>
           length (vmas sp') = length (vmas sp) \<or>
         rc = - ENOMEM \<and> sp' = sp \<and> empty_slot sp = None \<and> v_start (vmas sp ! i) < cur"
proof -
  note i = containing_SomeD [OF c] and step = walk_step [OF wf c ce mid]
  from i have "v_live (vmas sp ! i)" "v_start (vmas sp ! i) \<le> cur" by (auto simp: v_holds_def)
  from split_for_hole_correct [OF wf _ this step(1,3) res] i show ?thesis by blast
qed

lemma vma_remove_walk_aligned:
  assumes "vma_wf sp" "mapped_on sp cur e" "aligned_at sp cur"
  shows "\<exists>sp'. vma_remove_walk sp cur e = (0, sp') \<and> vma_wf sp' \<and>
    vma_view sp' = view_cut cur e (vma_view sp) \<and> length (vmas sp') = length (vmas sp)"
  using assms
proof (induction sp cur e rule: vma_remove_walk.induct)
  case (1 sp cur e)
  show ?case
  proof (cases "cur < e")
    case True
    with "1.prems"(2) have "vma_view sp cur \<noteq> None" by blast
    then obtain i where c: "containing sp cur = Some i" by (rule view_SomeD)
    define mid where "mid = (if v_end (vmas sp ! i) < e then v_end (vmas sp ! i) else e)"
    obtain rc sp1 where res: "split_for_hole sp i cur mid = (rc, sp1)" by (metis surj_pair)
    note i = containing_SomeD [OF c] and step = walk_step [OF "1.prems"(1) c True mid_def]
    have "v_start (vmas sp ! i) = cur" using "1.prems"(3) i by blast
    with remove_step [OF "1.prems"(1) c True mid_def res]
    have s1: "rc = 0" "vma_wf sp1" "vma_view sp1 = view_cut cur mid (vma_view sp)"
      "length (vmas sp1) = length (vmas sp)" by auto
    have m1: "mapped_on sp1 mid e"
      using "1.prems"(2) step(7) by (auto simp: s1(3) view_cut_def)
    have "in_range cur mid (mid - 1)" by (rule word_pred(2) [OF step(1)])
    then have "vma_view sp1 (mid - 1) = None" by (simp add: s1(3) view_cut_def)
    then have al: "aligned_at sp1 mid" by (rule aligned_after_cut [OF s1(2) step(1)])
    have "\<exists>sp'. vma_remove_walk sp1 mid e = (0, sp') \<and> vma_wf sp' \<and>
        vma_view sp' = view_cut mid e (vma_view sp1) \<and> length (vmas sp') = length (vmas sp1)"
      using "1.IH" [OF True c refl mid_def res [symmetric] refl] s1 m1 al by simp
    moreover have "vma_remove_walk sp cur e = vma_remove_walk sp1 mid e"
      using True c res s1(1)
      by (simp add: vma_remove_walk.simps [of sp cur e] mid_def Let_def)
    moreover have "view_cut mid e (vma_view sp1) = view_cut cur e (vma_view sp)"
      unfolding s1(3) using step(1,2) by (intro view_cut_cut) auto
    ultimately show ?thesis using s1(4) by auto
  qed (use "1.prems" in \<open>simp add: vma_remove_walk.simps [of sp cur e]\<close>)
qed

theorem vma_remove_correct:
  assumes wf: "vma_wf sp" and res: "vma_remove sp s len = (rc, sp')"
  shows "rc = 0 \<and> (\<exists>e. range_end s len = Some e \<and> mapped_on sp s e \<and> vma_wf sp' \<and>
             vma_view sp' = view_cut s e (vma_view sp)) \<and> length (vmas sp') = length (vmas sp) \<or>
         rc = - EINVAL \<and> sp' = sp \<and> (\<forall>e. range_end s len = Some e \<longrightarrow> \<not> mapped_on sp s e) \<or>
         rc = - ENOMEM \<and> sp' = sp \<and> empty_slot sp = None \<and>
           (\<exists>e i. range_end s len = Some e \<and> containing sp s = Some i \<and>
             v_start (vmas sp ! i) < s \<and> e < v_end (vmas sp ! i))"
proof (cases "range_end s len")
  case None
  then show ?thesis using res by (simp add: vma_remove_def)
next
  case re: (Some e)
  have se: "s < e" using range_end_SomeD [OF re] by blast
  show ?thesis
  proof (cases "mapped_on sp s e")
    case False
    then show ?thesis using res re vma_range_ok_iff [OF wf re] by (auto simp: vma_remove_def)
  next
    case m: True
    then have walk: "vma_remove_walk sp s e = (rc, sp')"
      using res re vma_range_ok_iff [OF wf re] by (simp add: vma_remove_def)
    from m se have "vma_view sp s \<noteq> None" by blast
    then obtain i where c: "containing sp s = Some i" by (rule view_SomeD)
    define mid where "mid = (if v_end (vmas sp ! i) < e then v_end (vmas sp ! i) else e)"
    obtain rc1 sp1 where split: "split_for_hole sp i s mid = (rc1, sp1)" by (metis surj_pair)
    note i = containing_SomeD [OF c] and step = walk_step [OF wf c se mid_def]
    have unf: "vma_remove_walk sp s e = (if rc1 < 0 then (rc1, sp1) else vma_remove_walk sp1 mid e)"
      using se c split by (simp add: vma_remove_walk.simps [of sp s e] mid_def Let_def)
    from i have live: "v_live (vmas sp ! i)" "v_start (vmas sp ! i) \<le> s" by (auto simp: v_holds_def)
    from split_for_hole_correct [OF wf _ live step(1,3) split] i
    consider (ok) "rc1 = 0" "vma_wf sp1" "vma_view sp1 = view_cut s mid (vma_view sp)"
        "length (vmas sp1) = length (vmas sp)"
      | (bad) "rc1 = - ENOMEM" "sp1 = sp" "empty_slot sp = None" "v_start (vmas sp ! i) < s"
        "mid < v_end (vmas sp ! i)" by auto
    then show ?thesis
    proof cases
      case ok
      have m1: "mapped_on sp1 mid e" using m step(7) by (auto simp: ok(3) view_cut_def)
      have "vma_view sp1 (mid - 1) = None"
        using word_pred(2) [OF step(1)] by (simp add: ok(3) view_cut_def)
      then have "aligned_at sp1 mid" by (rule aligned_after_cut [OF ok(2) step(1)])
      from vma_remove_walk_aligned [OF ok(2) m1 this] unf walk ok(1,3,4) step(1,2)
      show ?thesis using re m by (auto simp: view_cut_cut)
    next
      case bad
      then have "mid = e" by (auto simp: mid_def split: if_splits)
      with bad unf walk re c show ?thesis by auto
    qed
  qed
qed

section \<open>Removing whatever overlaps a range\<close>

lemma split_entries:
  assumes res: "split_for_hole sp i s e = (0, sp')" and i: "i < length (vmas sp)"
    and live: "v_live (vmas sp ! i)" and j: "j < length (vmas sp)" "j \<noteq> i"
  shows "vmas sp' ! j = vmas sp ! j \<or>
    e < v_end (vmas sp ! i) \<and> vmas sp' ! j = (vmas sp ! i)\<lparr>v_start := e\<rparr>"
proof (cases "v_start (vmas sp ! i) < s \<and> e < v_end (vmas sp ! i)")
  case False
  then have "\<exists>v. sp' = put_vma i v sp"
    using res by (auto simp: split_for_hole_def Let_def split: if_splits)
  then show ?thesis using j by auto
next
  case True
  then obtain r where r: "empty_slot sp = Some r"
    using res by (cases "empty_slot sp") (auto simp: split_for_hole_def Let_def)
  have "i \<noteq> r" using empty_slot_SomeD [OF r] live by auto
  then show ?thesis
    using True res r j empty_slot_SomeD [OF r]
    by (cases "j = r") (auto simp: split_for_hole_def Let_def)
qed

lemma split_entry_self:
  assumes res: "split_for_hole sp i s e = (0, sp')" and i: "i < length (vmas sp)"
    and live: "v_live (vmas sp ! i)"
  shows "vmas sp' ! i = zero_vma \<or>
    v_start (vmas sp ! i) < s \<and> vmas sp' ! i = (vmas sp ! i)\<lparr>v_end := s\<rparr> \<or>
    e < v_end (vmas sp ! i) \<and> vmas sp' ! i = (vmas sp ! i)\<lparr>v_start := e\<rparr>"
proof (cases "v_start (vmas sp ! i) < s \<and> e < v_end (vmas sp ! i)")
  case False
  then show ?thesis using res i by (auto simp: split_for_hole_def Let_def split: if_splits)
next
  case True
  then obtain r where r: "empty_slot sp = Some r"
    using res by (cases "empty_slot sp") (auto simp: split_for_hole_def Let_def)
  have "i \<noteq> r" using empty_slot_SomeD [OF r] live by auto
  then show ?thesis using True res r i by (auto simp: split_for_hole_def Let_def)
qed

text \<open>The part of an overlapping area that is cut out.\<close>

lemma overlap_cut:
  assumes se: "s < e" and v: "v_start v < v_end v" "\<not> (v_end v \<le> s \<or> e \<le> v_start v)"
    and cs: "cs = (if v_start v < s then s else v_start v)"
    and ce: "ce = (if e < v_end v then e else v_end v)"
  shows "v_start v \<le> cs" "cs < ce" "ce \<le> v_end v" "s \<le> cs" "ce \<le> e"
    "v_start v \<le> a \<Longrightarrow> a < v_end v \<Longrightarrow> in_range s e a \<longleftrightarrow> in_range cs ce a"
    "ce < v_end v \<Longrightarrow> ce = e" "v_start v < cs \<Longrightarrow> cs = s"
  using assms by (auto simp: word_nat split: if_splits)

lemma overlaps_step:
  assumes wf: "vma_wf sp" and i: "i < length (vmas sp)" "v_live (vmas sp ! i)" and se: "s < e"
    and ov: "\<not> (v_end (vmas sp ! i) \<le> s \<or> e \<le> v_start (vmas sp ! i))"
    and cs: "cs = (if v_start (vmas sp ! i) < s then s else v_start (vmas sp ! i))"
    and ce: "ce = (if e < v_end (vmas sp ! i) then e else v_end (vmas sp ! i))"
    and res: "split_for_hole sp i cs ce = (0, sp')"
    and j: "j < length (vmas sp)" "v_overlaps s e (vmas sp' ! j)"
  shows "j \<noteq> i" "v_overlaps s e (vmas sp ! j)"
proof -
  note ne = vma_wf_nonempty [OF wf i]
  note cut = overlap_cut [OF se ne ov cs ce]
  have gone: "\<not> v_overlaps s e ((vmas sp ! i)\<lparr>v_start := ce\<rparr>)" if "ce < v_end (vmas sp ! i)"
    using cut(7) [OF that] by (auto simp: v_overlaps_def)
  have gone': "\<not> v_overlaps s e ((vmas sp ! i)\<lparr>v_end := cs\<rparr>)" if "v_start (vmas sp ! i) < cs"
    using cut(8) [OF that] by (auto simp: v_overlaps_def)
  show ji: "j \<noteq> i"
    using split_entry_self [OF res i] gone gone' j(2) by (auto simp: v_overlaps_def)
  from split_entries [OF res i j(1) ji] gone j(2) show "v_overlaps s e (vmas sp ! j)" by auto
qed

lemma vma_overlaps_walk_correct:
  assumes "vma_wf sp" "s < e" "set is \<subseteq> {..<length (vmas sp)}"
    and "\<And>j. j < length (vmas sp) \<Longrightarrow> j \<notin> set is \<Longrightarrow> \<not> v_overlaps s e (vmas sp ! j)"
    and "vma_overlaps_walk is sp s e = (rc, sp')"
  shows "rc = 0 \<and> vma_wf sp' \<and> vma_view sp' = view_cut s e (vma_view sp) \<and>
           length (vmas sp') = length (vmas sp) \<or>
         rc = - ENOMEM \<and> sp' = sp \<and> empty_slot sp = None \<and>
           (\<exists>i < length (vmas sp). v_live (vmas sp ! i) \<and> v_start (vmas sp ! i) < s \<and> e < v_end (vmas sp ! i))"
  using assms
proof (induction "is" arbitrary: sp)
  case Nil
  have "vma_view sp a = None" if "in_range s e a" for a
    using that Nil.prems(4) by (force simp: view_None in_set_conv_nth v_overlaps_def v_holds_def word_nat)
  then have "vma_view sp = view_cut s e (vma_view sp)" by (auto simp: view_cut_def)
  then show ?case using Nil.prems by simp
next
  case (Cons i "is")
  note wf = Cons.prems(1) and se = Cons.prems(2)
  let ?v = "vmas sp ! i"
  have i: "i < length (vmas sp)" using Cons.prems(3) by auto
  show ?case
  proof (cases "v_used ?v = 0 \<or> v_end ?v \<le> s \<or> e \<le> v_start ?v")
    case True
    then have "vma_overlaps_walk is sp s e = (rc, sp')"
      using Cons.prems(5) by (auto simp: Let_def split: if_splits)
    moreover have "\<not> v_overlaps s e (vmas sp ! j)" if "j < length (vmas sp)" "j \<notin> set is" for j
      using that True Cons.prems(4) [of j] by (cases "j = i") (auto simp: v_overlaps_def)
    ultimately show ?thesis using Cons.prems by (intro Cons.IH) auto
  next
    case False
    then have live: "v_live ?v" and ov: "\<not> (v_end ?v \<le> s \<or> e \<le> v_start ?v)" by auto
    define cs ce where "cs = (if v_start ?v < s then s else v_start ?v)"
      and "ce = (if e < v_end ?v then e else v_end ?v)"
    note cut = overlap_cut [OF se vma_wf_nonempty [OF wf i live] ov cs_def ce_def]
    obtain rc1 sp1 where split: "split_for_hole sp i cs ce = (rc1, sp1)" by (metis surj_pair)
    have unf: "vma_overlaps_walk (i # is) sp s e =
        (if rc1 < 0 then (rc1, sp1) else vma_overlaps_walk is sp1 s e)"
      using False split by (auto simp: Let_def cs_def ce_def)
    from split_for_hole_correct [OF wf i live cut(1-3) split]
    consider (ok) "rc1 = 0" "vma_wf sp1" "vma_view sp1 = view_cut cs ce (vma_view sp)"
        "length (vmas sp1) = length (vmas sp)"
      | (bad) "rc1 = - ENOMEM" "sp1 = sp" "empty_slot sp = None" "v_start ?v < cs" "ce < v_end ?v"
      by auto
    then show ?thesis
    proof cases
      case bad
      then show ?thesis using unf Cons.prems(5) cut(7,8) i live by auto
    next
      case ok
      have clear: "\<not> v_overlaps s e (vmas sp1 ! j)" if "j < length (vmas sp1)" "j \<notin> set is" for j
        using overlaps_step [OF wf i live se ov cs_def ce_def split [unfolded ok(1)], of j]
          that Cons.prems(4) [of j] ok(4) by auto
      have walk: "vma_overlaps_walk is sp1 s e = (rc, sp')" using unf ok(1) Cons.prems(5) by simp
      have vcut: "view_cut s e (vma_view sp1) = view_cut s e (vma_view sp)"
        using cut(4,5) by (auto simp: ok(3) view_cut_def fun_eq_iff word_nat)
      have hole: "\<not> (\<exists>k < length (vmas sp1). v_live (vmas sp1 ! k) \<and> v_start (vmas sp1 ! k) < s \<and> e < v_end (vmas sp1 ! k))"
      proof
        assume "\<exists>k < length (vmas sp1). v_live (vmas sp1 ! k) \<and> v_start (vmas sp1 ! k) < s \<and> e < v_end (vmas sp1 ! k)"
        then obtain k where k: "k < length (vmas sp1)" "v_live (vmas sp1 ! k)"
          "v_start (vmas sp1 ! k) < s" "e < v_end (vmas sp1 ! k)" by blast
        then have h: "v_holds cs (vmas sp1 ! k)" using cut(2,4,5) by (auto simp: v_holds_def word_nat)
        from view_holder [OF ok(2) k(1) h] cut(2) show False by (simp add: ok(3) view_cut_def)
      qed
      have "set is \<subseteq> {..<length (vmas sp1)}" using Cons.prems(3) ok(4) by auto
      from Cons.IH [OF ok(2) se this clear walk] hole vcut ok(4) show ?thesis by auto
    qed
  qed
qed

theorem vma_remove_overlaps_correct:
  assumes wf: "vma_wf sp" and res: "vma_remove_overlaps sp s len = (rc, sp')"
  shows "rc = 0 \<and> (\<exists>e. range_end s len = Some e \<and> vma_wf sp' \<and>
             vma_view sp' = view_cut s e (vma_view sp)) \<and> length (vmas sp') = length (vmas sp) \<or>
         rc = - EINVAL \<and> sp' = sp \<and> range_end s len = None \<or>
         rc = - ENOMEM \<and> sp' = sp \<and> empty_slot sp = None"
proof (cases "range_end s len")
  case None
  then show ?thesis using res by (simp add: vma_remove_overlaps_def)
next
  case (Some e)
  have se: "s < e" using range_end_SomeD [OF Some] by blast
  have "vma_overlaps_walk [0..<length (vmas sp)] sp s e = (rc, sp')"
    using res Some by (simp add: vma_remove_overlaps_def)
  from vma_overlaps_walk_correct [OF wf se _ _ this] Some
  show ?thesis by (simp add: atLeast0LessThan) blast
qed

section \<open>Changing the protection of a range\<close>

text \<open>The abstract counterpart of \<open>mprotect\<close> on \<open>[s, e)\<close>: only the protection changes.\<close>

definition view_protect ::
  "u64 \<Rightarrow> u64 \<Rightarrow> u32 \<Rightarrow> (u64 \<Rightarrow> vma_attr option) \<Rightarrow> (u64 \<Rightarrow> vma_attr option)" where
  "view_protect s e p m =
     (\<lambda>a. if in_range s e a then map_option (\<lambda>(_, mf, fr). (p, mf, fr)) (m a) else m a)"

lemma view_protect_protect:
  "s \<le> m \<Longrightarrow> m \<le> e \<Longrightarrow> view_protect m e p (view_protect s m p f) = view_protect s e p f"
  by (rule ext) (auto simp: view_protect_def word_nat)

lemma view_protect_empty [simp]: "\<not> s < e \<Longrightarrow> view_protect s e p f = f"
  by (rule ext) (auto simp: view_protect_def word_nat)

lemma range_end_diff: "cur < mid \<Longrightarrow> range_end cur (mid - cur) = Some mid"
  by (auto simp: range_end_def)

lemma protect_step:
  assumes wf: "vma_wf sp" and c: "containing sp cur = Some i" and ce: "cur < e"
    and mid: "mid = (if v_end (vmas sp ! i) < e then v_end (vmas sp ! i) else e)"
    and split: "split_for_hole sp i cur mid = (0, sp1)"
    and add: "vma_add sp1 cur (mid - cur) p (v_map_flags (vmas sp ! i))
      (v_free_on_unmap (vmas sp ! i) \<noteq> 0) = (rc2, sp2)"
  shows "vma_wf sp2 \<and> length (vmas sp2) = length (vmas sp) \<and>
    (rc2 = 0 \<and> vma_view sp2 = view_protect cur mid p (vma_view sp) \<or>
     rc2 = - ENOMEM \<and> vma_view sp2 = view_cut cur mid (vma_view sp))"
proof -
  note step = walk_step [OF wf c ce mid]
  from remove_step [OF wf c ce mid split]
  have s1: "vma_wf sp1" "vma_view sp1 = view_cut cur mid (vma_view sp)"
    "length (vmas sp1) = length (vmas sp)" by auto
  have free: "vma_view sp1 a = None" if "in_range cur mid a" for a
    using that by (simp add: s1(2) view_cut_def)
  have eq: "view_put cur mid (p, v_map_flags (vmas sp ! i), v_free_on_unmap (vmas sp ! i) \<noteq> 0)
      (vma_view sp1) = view_protect cur mid p (vma_view sp)"
    using step(4) by (auto simp: s1(2) view_put_def view_cut_def view_protect_def vma_kind_def fun_eq_iff)
  from vma_add_correct [OF s1(1) add] free s1 eq range_end_diff [OF step(1)]
  show ?thesis by auto
qed

lemma vma_protect_walk_correct:
  assumes "vma_wf sp" "mapped_on sp cur e" "vma_protect_walk sp p cur e = (rc, sp')"
  shows "vma_wf sp' \<and> length (vmas sp') = length (vmas sp) \<and>
    (\<forall>a. \<not> in_range cur e a \<longrightarrow> vma_view sp' a = vma_view sp a) \<and>
    (rc = 0 \<and> vma_view sp' = view_protect cur e p (vma_view sp) \<or> rc = - ENOMEM)"
  using assms
proof (induction sp p cur e rule: vma_protect_walk.induct)
  case (1 sp p cur e)
  show ?case
  proof (cases "cur < e")
    case True
    with "1.prems"(2) have "vma_view sp cur \<noteq> None" by blast
    then obtain i where c: "containing sp cur = Some i" by (rule view_SomeD)
    let ?v = "vmas sp ! i"
    define mid where "mid = (if v_end ?v < e then v_end ?v else e)"
    obtain rc1 sp1 where split: "split_for_hole sp i cur mid = (rc1, sp1)" by (metis surj_pair)
    obtain rc2 sp2 where add: "vma_add sp1 cur (mid - cur) p (v_map_flags ?v)
        (v_free_on_unmap ?v \<noteq> 0) = (rc2, sp2)" by (metis surj_pair)
    note step = walk_step [OF "1.prems"(1) c True mid_def]
    have unf: "vma_protect_walk sp p cur e =
        (if rc1 < 0 then (rc1, sp1) else if rc2 < 0 then (rc2, sp2)
         else vma_protect_walk sp2 p mid e)"
      using True c split add
      by (simp add: vma_protect_walk.simps [of sp p cur e] mid_def Let_def)
    from remove_step [OF "1.prems"(1) c True mid_def split]
    consider (ok) "rc1 = 0" | (bad) "rc1 = - ENOMEM" "sp1 = sp" by auto
    then show ?thesis
    proof cases
      case bad
      then show ?thesis using unf "1.prems" by auto
    next
      case ok
      note split0 = split [unfolded ok]
      from protect_step [OF "1.prems"(1) c True mid_def split0 add]
      consider (ok2) "rc2 = 0" "vma_wf sp2" "length (vmas sp2) = length (vmas sp)"
          "vma_view sp2 = view_protect cur mid p (vma_view sp)"
        | (bad2) "rc2 = - ENOMEM" "vma_wf sp2" "length (vmas sp2) = length (vmas sp)"
          "vma_view sp2 = view_cut cur mid (vma_view sp)" by auto
      then show ?thesis
      proof cases
        case bad2
        then show ?thesis using unf ok "1.prems"(3) step(6) by (auto simp: view_cut_def)
      next
        case ok2
        have m2: "mapped_on sp2 mid e"
          using "1.prems"(2) step(7) by (auto simp: ok2(4) view_protect_def)
        have walk: "vma_protect_walk sp2 p mid e = (rc, sp')"
          using unf ok ok2(1) "1.prems"(3) by simp
        have IH: "vma_wf sp' \<and> length (vmas sp') = length (vmas sp2) \<and>
            (\<forall>a. \<not> in_range mid e a \<longrightarrow> vma_view sp' a = vma_view sp2 a) \<and>
            (rc = 0 \<and> vma_view sp' = view_protect mid e p (vma_view sp2) \<or> rc = - ENOMEM)"
          using "1.IH" [OF True c refl mid_def refl refl split [symmetric] refl _ add [symmetric] refl]
            ok ok2 m2 walk by auto
        have outer: "vma_view sp2 a = vma_view sp a" if "\<not> in_range cur e a" for a
          using that step(6) [of a] by (auto simp: ok2(4) view_protect_def)
        have comp: "view_protect mid e p (vma_view sp2) = view_protect cur e p (vma_view sp)"
          unfolding ok2(4) using step(1,2) by (intro view_protect_protect) auto
        show ?thesis using IH comp outer step(7) ok2(3) by metis
      qed
    qed
  qed (use "1.prems" in \<open>simp add: vma_protect_walk.simps [of sp p cur e]\<close>)
qed

theorem vma_protect_correct:
  assumes wf: "vma_wf sp" and res: "vma_protect sp s len p = (rc, sp')"
  shows "rc = - EINVAL \<and> sp' = sp \<and> (\<forall>e. range_end s len = Some e \<longrightarrow> \<not> mapped_on sp s e) \<or>
    (\<exists>e. range_end s len = Some e \<and> mapped_on sp s e \<and> vma_wf sp' \<and>
       length (vmas sp') = length (vmas sp) \<and>
       (\<forall>a. \<not> in_range s e a \<longrightarrow> vma_view sp' a = vma_view sp a) \<and>
       (rc = 0 \<and> vma_view sp' = view_protect s e p (vma_view sp) \<or> rc = - ENOMEM))"
proof (cases "range_end s len")
  case None
  then show ?thesis using res by (simp add: vma_protect_def)
next
  case (Some e)
  show ?thesis
  proof (cases "mapped_on sp s e")
    case True
    then have "vma_protect_walk sp p s e = (rc, sp')"
      using res Some vma_range_ok_iff [OF wf Some] by (simp add: vma_protect_def)
    from vma_protect_walk_correct [OF wf True this] True Some show ?thesis by blast
  next
    case False
    then show ?thesis using res Some vma_range_ok_iff [OF wf Some] by (auto simp: vma_protect_def)
  qed
qed

section \<open>The interface to the memory system calls\<close>

text \<open>
  What the mapping system calls rely on: a map from addresses to attributes that mapping a free range
  and unmapping a mapped range change on exactly that range, failures that change nothing, and that a
  range that has just been mapped can be unmapped.
\<close>

locale address_map =
  fixes inv :: "'s \<Rightarrow> bool" and view :: "'s \<Rightarrow> u64 \<Rightarrow> 'k option"
    and map_range :: "'s \<Rightarrow> u64 \<Rightarrow> u64 \<Rightarrow> 'k \<Rightarrow> int \<times> 's"
    and unmap_range :: "'s \<Rightarrow> u64 \<Rightarrow> u64 \<Rightarrow> int \<times> 's"
  assumes map_ok: "inv s \<Longrightarrow> map_range s a len k = (0, s') \<Longrightarrow>
      inv s' \<and> (\<exists>e. range_end a len = Some e \<and> (\<forall>x. in_range a e x \<longrightarrow> view s x = None) \<and>
        view s' = (\<lambda>x. if in_range a e x then Some k else view s x))"
    and map_fail: "inv s \<Longrightarrow> map_range s a len k = (rc, s') \<Longrightarrow> rc \<noteq> 0 \<Longrightarrow> s' = s"
    and unmap_ok: "inv s \<Longrightarrow> unmap_range s a len = (0, s') \<Longrightarrow>
      inv s' \<and> (\<exists>e. range_end a len = Some e \<and>
        view s' = (\<lambda>x. if in_range a e x then None else view s x))"
    and unmap_fail: "inv s \<Longrightarrow> unmap_range s a len = (rc, s') \<Longrightarrow> rc \<noteq> 0 \<Longrightarrow> s' = s"
    and unmap_fresh: "inv s \<Longrightarrow> map_range s a len k = (0, s') \<Longrightarrow> fst (unmap_range s' a len) = 0"
begin

lemma map_unmap:
  assumes "inv s" "map_range s a len k = (0, s1)"
  shows "\<exists>s2. unmap_range s1 a len = (0, s2) \<and> inv s2 \<and> view s2 = view s"
proof -
  obtain s2 where u: "unmap_range s1 a len = (0, s2)"
    using unmap_fresh [OF assms] by (metis prod.collapse)
  from map_ok [OF assms] obtain e where e: "inv s1" "range_end a len = Some e"
    "\<forall>x. in_range a e x \<longrightarrow> view s x = None"
    "view s1 = (\<lambda>x. if in_range a e x then Some k else view s x)" by blast
  from unmap_ok [OF e(1) u] e(2) have "inv s2"
    "view s2 = (\<lambda>x. if in_range a e x then None else view s1 x)" by auto
  moreover from this(2) e(3,4) have "view s2 = view s" by auto
  ultimately show ?thesis using u by blast
qed

text \<open>Two mappings that both succeed are disjoint.\<close>

lemma map_twice_disjoint:
  assumes "inv s" "map_range s a len k = (0, s1)" "map_range s1 b len' k' = (0, s2)"
    and "range_end a len = Some e" "range_end b len' = Some e'"
  shows "\<not> (in_range a e x \<and> in_range b e' x)"
  using map_ok [OF assms(1,2)] map_ok [OF _ assms(3)] assms(4,5) by auto

end

lemma add_leaves_edge:
  assumes wf: "vma_wf sp" and add: "vma_add sp s len p mf fr = (0, sp')"
    and re: "range_end s len = Some e" and c: "containing sp' s = Some i"
    and full: "empty_slot sp' = None"
  shows "\<not> (v_start (vmas sp' ! i) < s \<and> e < v_end (vmas sp' ! i))"
proof -
  have nc: "\<not> vma_conflicts sp s len"
  proof
    assume "vma_conflicts sp s len"
    with add re show False by (simp add: vma_add_def)
  qed
  have se: "s < e" using range_end_SomeD [OF re] by blast
  from vma_add_correct [OF wf add] have wf': "vma_wf sp'" by auto
  have at: "i = j" if "j < length (vmas sp')" "v_holds s (vmas sp' ! j)" for j
    using containing_eqI [OF wf' that] c by simp
  show ?thesis
  proof (rule vma_add_cases [OF re nc add])
    fix b
    assume *: "b < length (vmas sp)" "v_live (vmas sp ! b)" "v_end (vmas sp ! b) = s"
      "sp' = put_vma b ((vmas sp ! b)\<lparr>v_end := e\<rparr>) sp"
    with at [of b] vma_wf_nonempty [OF wf *(1,2)] se show ?thesis by auto
  next
    fix a
    assume *: "a < length (vmas sp)" "v_live (vmas sp ! a)" "v_start (vmas sp ! a) = e"
      "sp' = put_vma a ((vmas sp ! a)\<lparr>v_start := s\<rparr>) sp"
    with at [of a] vma_wf_nonempty [OF wf *(1,2)] se show ?thesis by (auto simp: word_nat)
  next
    fix k
    let ?w = "\<lparr>v_start = s, v_end = e, v_prot = p, v_map_flags = mf, v_used = 1,
         v_free_on_unmap = c_bool fr\<rparr>"
    assume *: "empty_slot sp = Some k" "sp' = put_vma k ?w sp"
    with at [of k] empty_slot_SomeD [OF *(1)] se show ?thesis by (auto simp: v_holds_def)
  next
    fix b a
    assume "a < length (vmas sp)" "sp' = put_vma a zero_vma
        (put_vma b ((vmas sp ! b)\<lparr>v_end := v_end (vmas sp ! a)\<rparr>) sp)"
    then have "zero_vma \<in> set (vmas sp')" by (auto intro: set_update_memI)
    with full show ?thesis by (auto simp: empty_slot_def)
  qed (use add in simp)
qed

lemma remove_after_add:
  assumes wf: "vma_wf sp" and add: "vma_add sp s len p mf fr = (0, sp')"
  shows "fst (vma_remove sp' s len) = 0"
proof -
  obtain rc sp2 where res: "vma_remove sp' s len = (rc, sp2)" by (metis surj_pair)
  from vma_add_correct [OF wf add] obtain e where e: "range_end s len = Some e" "vma_wf sp'"
    "vma_view sp' = view_put s e (p, mf, fr) (vma_view sp)" by auto
  have "mapped_on sp' s e" by (simp add: e(3) view_put_def)
  with vma_remove_correct [OF e(2) res] add_leaves_edge [OF wf add e(1)] e(1) res
  show ?thesis by auto
qed

interpretation am: address_map vma_wf vma_view
  "\<lambda>sp s len (p, mf, fr). vma_add sp s len p mf fr" vma_remove
proof (unfold_locales, goal_cases)
  case (1 sp a len k sp')
  obtain p mf fr where k: "k = (p, mf, fr)" by (metis surj_pair)
  with 1 have add: "vma_add sp a len p mf fr = (0, sp')" by simp
  from vma_add_correct [OF 1(1) add] obtain e where e: "range_end a len = Some e" "vma_wf sp'"
    "vma_view sp' = view_put a e k (vma_view sp)" by (auto simp: k)
  have "\<not> vma_conflicts sp a len" using add e(1) by (auto simp: vma_add_def)
  with vma_conflicts_iff [OF 1(1) e(1)] e show ?case unfolding view_put_def by blast
next
  case (2 sp a len k rc sp')
  then show ?case using vma_add_correct [OF 2(1)] by (cases k) fastforce
next
  case (3 sp a len sp')
  with vma_remove_correct [OF 3] show ?case by (auto simp: view_cut_def)
next
  case (4 sp a len rc sp')
  with vma_remove_correct [OF 4(1,2)] show ?case by auto
next
  case (5 sp a len k sp')
  then show ?case by (auto intro: remove_after_add split: prod.splits)
qed

interpretation rm: errno_op vma_wf "\<lambda>(s, len) sp. vma_remove sp s len"
proof (unfold_locales, goal_cases)
  case (1 sp a)
  obtain rc sp' where res: "vma_remove sp (fst a) (snd a) = (rc, sp')" by (metis surj_pair)
  with 1 vma_remove_correct [OF 1(1) res] show ?case by (auto simp: split_beta)
next
  case (2 sp a)
  obtain rc sp' where res: "vma_remove sp (fst a) (snd a) = (rc, sp')" by (metis surj_pair)
  with 2 vma_remove_correct [OF 2 res] show ?case by (auto simp: split_beta)
qed

interpretation ro: errno_op vma_wf "\<lambda>(s, len) sp. vma_remove_overlaps sp s len"
proof (unfold_locales, goal_cases)
  case (1 sp a)
  obtain rc sp' where res: "vma_remove_overlaps sp (fst a) (snd a) = (rc, sp')" by (metis surj_pair)
  with 1 vma_remove_overlaps_correct [OF 1(1) res] show ?case by (auto simp: split_beta)
next
  case (2 sp a)
  obtain rc sp' where res: "vma_remove_overlaps sp (fst a) (snd a) = (rc, sp')" by (metis surj_pair)
  with 2 vma_remove_overlaps_correct [OF 2 res] show ?case by (auto simp: split_beta)
qed


section \<open>Properties\<close>

text \<open>Every state of an address space that the operations of \<open>vma.c\<close> can produce.\<close>

inductive vma_step :: "vmm_space \<Rightarrow> vmm_space \<Rightarrow> bool" where
  step_add: "vma_add sp s len p mf fr = (rc, sp') \<Longrightarrow> vma_step sp sp'"
| step_remove: "vma_remove sp s len = (rc, sp') \<Longrightarrow> vma_step sp sp'"
| step_overlaps: "vma_remove_overlaps sp s len = (rc, sp') \<Longrightarrow> vma_step sp sp'"
| step_protect: "vma_protect sp s len p = (rc, sp') \<Longrightarrow> vma_step sp sp'"
| step_reset: "vma_step sp (vma_reset sp)"
| step_copy: "vma_step src (vma_copy dst src)"

abbreviation vma_start :: "vmm_space \<Rightarrow> bool" where
  "vma_start sp \<equiv> \<exists>sp0. sp = vma_reset sp0"

lemma vma_reset_wf: "vma_wf (vma_reset sp) \<and> length (vmas (vma_reset sp)) = VMM_VMA_MAX"
  by (auto simp: vma_wf_def vma_reset_def list_all_iff sorted_wrt_iff_nth_less zero_vma_def
      v_disjoint_def)

interpretation vs: invariant_system vma_start vma_step
  "\<lambda>sp. vma_wf sp \<and> length (vmas sp) = VMM_VMA_MAX"
proof (unfold_locales, goal_cases)
  case (1 sp)
  then show ?case using vma_reset_wf by auto
next
  case (2 sp sp')
  then have wf: "vma_wf sp" and len: "length (vmas sp) = VMM_VMA_MAX" by auto
  from 2(2) show ?case
  proof cases
    case (step_add s len' p mf fr rc)
    with vma_add_correct [OF wf step_add] len wf show ?thesis by auto
  next
    case (step_remove s len' rc)
    with vma_remove_correct [OF wf step_remove] len wf show ?thesis by auto
  next
    case (step_overlaps s len' rc)
    with vma_remove_overlaps_correct [OF wf step_overlaps] len wf show ?thesis by auto
  next
    case (step_protect s len' p rc)
    with vma_protect_correct [OF wf step_protect] len wf show ?thesis by auto
  next
    case step_reset
    then show ?thesis using vma_reset_wf by simp
  next
    case (step_copy dst)
    then show ?thesis using wf len by (simp add: vma_copy_def vma_wf_def)
  qed
qed

text \<open>
  C1: In every state that any sequence of \<open>vma.c\<close> operations (successful or failing) reaches from a
  reset space, the table has its full size, every live area is a non-empty range and no two live areas
  overlap.
\<close>

theorem vma_reachable_wf:
  assumes "reach vma_start vma_step sp"
  shows "vma_wf sp \<and> length (vmas sp) = VMM_VMA_MAX"
  using assms by (rule vs.reach_inv)

theorem vma_reachable_wf_witness:
  "vma_wf (snd (vma_add (vma_reset zero_space)
     4096 8192 3 0 True))"
proof -
  let ?sp = "vma_reset zero_space"
  have "reach vma_start vma_step ?sp" by (rule reach_init) blast
  moreover have "vma_step ?sp (snd (vma_add ?sp 4096 8192 3 0 True))"
    by (rule step_add [of _ 4096 8192 3 0 True "fst (vma_add ?sp 4096 8192 3 0 True)"]) simp
  ultimately have "reach vma_start vma_step (snd (vma_add ?sp 4096 8192 3 0 True))"
    by (rule reach_step)
  from vma_reachable_wf [OF this] show ?thesis by simp
qed

text \<open>
  C2: \<open>vma_add\<close> implements mapping on the abstract address map: with result 0 exactly the range
  \<open>[s, s + len)\<close> gets the new attributes, whichever neighbours it was merged with; \<open>EINVAL\<close> means an
  empty or wrapping range or an address that is already mapped, \<open>ENOMEM\<close> that no slot is free, and
  neither changes the table.
\<close>

theorem vma_add_refines:
  assumes "vma_wf sp" "vma_add sp s len p mf fr = (rc, sp')"
  shows "rc = 0 \<and> (\<exists>e. range_end s len = Some e \<and> vma_wf sp' \<and>
             vma_view sp' = view_put s e (p, mf, fr) (vma_view sp)) \<or>
         rc = - EINVAL \<and> sp' = sp \<and>
           (\<forall>e. range_end s len = Some e \<longrightarrow> (\<exists>a. in_range s e a \<and> vma_view sp a \<noteq> None)) \<or>
         rc = - ENOMEM \<and> sp' = sp \<and> empty_slot sp = None"
  using vma_add_correct [OF assms] by auto

definition wit_vma :: "u64 \<Rightarrow> u64 \<Rightarrow> u32 \<Rightarrow> vmm_vma" where
  "wit_vma s e p = \<lparr>v_start = s, v_end = e, v_prot = p, v_map_flags = 0, v_used = 1,
     v_free_on_unmap = 1\<rparr>"

definition wit_space :: "vmm_vma list \<Rightarrow> vmm_space" where
  "wit_space vs = zero_space\<lparr>vmas := vs\<rparr>"

lemmas wit_simps = wit_space_def wit_vma_def vma_wf_def v_disjoint_def range_end_def
  vma_conflicts_def v_overlaps_def vma_same_kind_def zero_vma_def empty_slot_def containing_def
  v_holds_def split_for_hole_def

theorem vma_add_refines_witness:
  "let sp = wit_space [wit_vma 4096 8192 3, wit_vma 12288 16384 3, zero_vma] in
   vma_wf sp \<and> fst (vma_add sp 8192 4096 3 0 True) = 0 \<and>
   vma_view (snd (vma_add sp 8192 4096 3 0 True)) 9000 = Some (3, 0, True)"
proof -
  let ?sp = "wit_space [wit_vma 4096 8192 3, wit_vma 12288 16384 3, zero_vma]"
  have wf: "vma_wf ?sp" by (simp add: wit_simps)
  have add: "vma_add ?sp 8192 4096 3 0 True =
      (0, wit_space [wit_vma 4096 16384 3, zero_vma, zero_vma])"
    by (simp add: vma_add_def wit_simps)
  from vma_add_refines [OF wf add] show ?thesis
    using wf add by (auto simp: range_end_def view_put_def)
qed



text \<open>
  C4: \<open>vma_remove_overlaps\<close> (the clearing step of a fixed mapping) unmaps whatever of the range is
  mapped and keeps the rest, or fails and changes nothing, although the loop that visits the slots also
  meets the fragments that it creates.
\<close>

theorem vma_remove_overlaps_refines:
  assumes "vma_wf sp" "vma_remove_overlaps sp s len = (rc, sp')"
  shows "rc = 0 \<and> (\<exists>e. range_end s len = Some e \<and> vma_wf sp' \<and>
             vma_view sp' = view_cut s e (vma_view sp)) \<or>
         rc = - EINVAL \<and> sp' = sp \<and> range_end s len = None \<or>
         rc = - ENOMEM \<and> sp' = sp \<and> empty_slot sp = None"
  using vma_remove_overlaps_correct [OF assms] by auto

theorem vma_remove_overlaps_refines_witness:
  "let sp = wit_space [wit_vma 4096 65536 3, zero_vma] in
   vma_wf sp \<and> fst (vma_remove_overlaps sp 8192 4096) = 0 \<and>
   vma_view (snd (vma_remove_overlaps sp 8192 4096)) 8192 = None"
proof -
  let ?sp = "wit_space [wit_vma 4096 65536 3, zero_vma]"
  have wf: "vma_wf ?sp" by (simp add: wit_simps)
  have rem: "vma_remove_overlaps ?sp 8192 4096 =
      (0, wit_space [wit_vma 4096 8192 3, wit_vma 12288 65536 3])"
    by (simp add: vma_remove_overlaps_def wit_simps upt_rec)
  from vma_remove_overlaps_refines [OF wf rem] show ?thesis
    using wf rem by (auto simp: range_end_def view_cut_def)
qed



text \<open>
  A range that has just been mapped can always be unmapped again, even when the table is full and the
  range was merged into its neighbours, and that restores the address map.
\<close>

theorem vma_map_unmap_roundtrip:
  assumes "vma_wf sp" "vma_add sp s len p mf fr = (0, sp1)"
  shows "\<exists>sp2. vma_remove sp1 s len = (0, sp2) \<and> vma_wf sp2 \<and> vma_view sp2 = vma_view sp"
  using am.map_unmap [OF assms(1), of s len "(p, mf, fr)" sp1] assms(2) by simp

theorem vma_map_unmap_roundtrip_witness:
  "let sp = wit_space [wit_vma 4096 8192 3, wit_vma 12288 16384 3];
       sp1 = snd (vma_add sp 8192 4096 3 0 True) in
   vma_wf sp \<and> fst (vma_remove sp1 8192 4096) = 0"
proof -
  let ?sp = "wit_space [wit_vma 4096 8192 3, wit_vma 12288 16384 3]"
  have wf: "vma_wf ?sp" by (simp add: wit_simps)
  have add: "vma_add ?sp 8192 4096 3 0 True = (0, wit_space [wit_vma 4096 16384 3, zero_vma])"
    by (simp add: vma_add_def wit_simps)
  from vma_map_unmap_roundtrip [OF wf add] show ?thesis using wf add by auto
qed

text \<open>Attribute queries read the abstract map.\<close>

lemma vma_page_owned_view:
  "vma_page_owned sp a \<longleftrightarrow> (\<exists>p mf. vma_view sp a = Some (p, mf, True))"
  by (auto simp: vma_page_owned_def vma_view_def vma_kind_def split: option.splits)

lemma vma_info_walk_iff:
  assumes "vma_wf sp"
  shows "vma_info_walk sp p mf owned cur e \<longleftrightarrow>
    (\<forall>a. in_range cur e a \<longrightarrow> vma_view sp a = Some (p, mf, owned))"
  using assms
proof (induction sp p mf owned cur e rule: vma_info_walk.induct)
  case (1 sp p mf owned cur e)
  show ?case
  proof (cases "cur < e")
    case True
    show ?thesis
    proof (cases "containing sp cur")
      case None
      with True have "in_range cur e cur" "vma_view sp cur = None" by (auto simp: vma_view_def)
      with True None show ?thesis by (auto simp: vma_info_walk.simps [of sp p mf owned cur e])
    next
      case (Some i)
      define mid where "mid = (if v_end (vmas sp ! i) < e then v_end (vmas sp ! i) else e)"
      note step = walk_step [OF "1.prems" Some True mid_def]
      have cur: "in_range cur mid cur" using step(1) by simp
      show ?thesis
      proof (cases "vma_kind (vmas sp ! i) = (p, mf, owned)")
        case False
        then have "\<not> vma_info_walk sp p mf owned cur e"
          using True Some by (auto simp: vma_info_walk.simps [of sp p mf owned cur e] Let_def vma_kind_def)
        moreover have "vma_view sp cur \<noteq> Some (p, mf, owned)" using step(4) [OF cur] False by simp
        ultimately show ?thesis using step(6) [OF cur] by blast
      next
        case k: True
        then have "vma_info_walk sp p mf owned cur e = vma_info_walk sp p mf owned mid e"
          using True Some
          by (auto simp: vma_info_walk.simps [of sp p mf owned cur e] Let_def vma_kind_def mid_def)
        also have "\<dots> \<longleftrightarrow> (\<forall>a. in_range mid e a \<longrightarrow> vma_view sp a = Some (p, mf, owned))"
          using "1.IH" [OF True Some refl] k "1.prems" by (auto simp: mid_def vma_kind_def)
        also have "\<dots> \<longleftrightarrow> (\<forall>a. in_range cur e a \<longrightarrow> vma_view sp a = Some (p, mf, owned))"
          using step(4-7) k by metis
        finally show ?thesis .
      qed
    qed
  qed (auto simp: vma_info_walk.simps [of sp p mf owned cur e])
qed

lemma vma_range_info_iff:
  assumes wf: "vma_wf sp" and re: "range_end s len = Some e"
  shows "vma_range_info sp s len = Some k \<longleftrightarrow> (\<forall>a. in_range s e a \<longrightarrow> vma_view sp a = Some k)"
proof -
  have s: "in_range s e s" using range_end_SomeD [OF re] by auto
  show ?thesis
  proof (cases "containing sp s")
    case None
    then have "vma_view sp s = None" by (simp add: vma_view_def)
    with None s re show ?thesis by (auto simp: vma_range_info_def)
  next
    case (Some i)
    let ?k = "vma_kind (vmas sp ! i)"
    have at: "vma_view sp s = Some ?k" using Some by (simp add: vma_view_def)
    have "vma_range_info sp s len =
        (if \<forall>a. in_range s e a \<longrightarrow> vma_view sp a = Some ?k then Some ?k else None)"
      by (simp only: vma_range_info_def re Some Let_def option.case vma_info_walk_iff [OF wf]
          vma_kind_def)
    then show ?thesis using at s by (cases "k = ?k") auto
  qed
qed

text \<open>
  The failure of \<open>vma_protect\<close> on a full table: the area is shortened first, and re-adding the tail with
  the new protection then finds no slot.
\<close>

lemma protect_full_table:
  assumes wf: "vma_wf sp" and full: "empty_slot sp = None" and c: "containing sp s = Some i"
    and re: "range_end s len = Some e" and v: "v_start (vmas sp ! i) < s" "v_end (vmas sp ! i) = e"
    and p: "v_prot (vmas sp ! i) \<noteq> p"
    and after: "\<And>w. w \<in> set (vmas sp) \<Longrightarrow> v_live w \<Longrightarrow> v_start w \<noteq> e"
  shows "\<exists>sp'. vma_protect sp s len p = (- ENOMEM, sp') \<and> vma_view sp' = view_cut s e (vma_view sp)"
proof -
  let ?v = "vmas sp ! i" and ?mf = "v_map_flags (vmas sp ! i)"
    and ?fr = "v_free_on_unmap (vmas sp ! i) \<noteq> 0"
  note i = containing_SomeD [OF c]
  have se: "s < e" using range_end_SomeD [OF re] by blast
  from i have live: "v_live ?v" by (simp add: v_holds_def)
  have mid: "e = (if v_end ?v < e then v_end ?v else e)" using v(2) by simp
  note step = walk_step [OF wf c se mid]
  define sp1 where "sp1 = put_vma i (?v\<lparr>v_end := s\<rparr>) sp"
  have split: "split_for_hole sp i s e = (0, sp1)"
    using v by (simp add: split_for_hole_def Let_def sp1_def)
  from remove_step [OF wf c se mid split]
  have s1: "vma_wf sp1" "vma_view sp1 = view_cut s e (vma_view sp)" by auto
  obtain rc2 sp2 where add: "vma_add sp1 s (e - s) p ?mf ?fr = (rc2, sp2)" by (metis surj_pair)
  have re1: "range_end s (e - s) = Some e" by (rule range_end_diff [OF se])
  have nc: "\<not> vma_conflicts sp1 s (e - s)"
    by (simp add: vma_conflicts_iff [OF s1(1) re1] s1(2) view_cut_def)
  have ent: "vmas sp1 ! j = (if j = i then ?v\<lparr>v_end := s\<rparr> else vmas sp ! j)"
    if "j < length (vmas sp)" for j using that i by (simp add: sp1_def)
  have len1: "length (vmas sp1) = length (vmas sp)" by (simp add: sp1_def)
  have full1: "empty_slot sp1 = None"
  proof -
    have "v_live (vmas sp ! j)" if "j < length (vmas sp)" for j
      using full that by (auto simp: empty_slot_def)
    then show ?thesis using ent len1 by (auto simp: empty_slot_def in_set_conv_nth split: if_splits)
  qed
  have nobefore: False
    if b: "b < length (vmas sp1)" "v_live (vmas sp1 ! b)" "vma_same_kind (vmas sp1 ! b) p ?mf ?fr"
      "v_end (vmas sp1 ! b) = s" for b
  proof (cases "b = i")
    case True
    with b ent len1 p show False by (auto simp: vma_same_kind_def)
  next
    case False
    with b ent len1 vma_wf_disjoint [OF wf, of b i] i live v se vma_wf_nonempty [OF wf, of b]
    show False by (auto simp: v_disjoint_def word_nat)
  qed
  have noafter: False
    if a: "a < length (vmas sp1)" "v_live (vmas sp1 ! a)" "v_start (vmas sp1 ! a) = e" for a
  proof (cases "a = i")
    case True
    with a ent len1 v se show False by (auto simp: word_nat)
  next
    case False
    with a ent len1 after [of "vmas sp ! a"] show False by auto
  qed
  have r2: "rc2 = - ENOMEM \<and> sp2 = sp1"
  proof (rule vma_add_cases [OF re1 nc add], goal_cases)
    case (1 b a)
    then show ?case using nobefore [of b] by simp
  next
    case (2 b)
    then show ?case using nobefore [of b] by simp
  next
    case (3 a)
    then show ?case using noafter [of a] by simp
  next
    case (4 k)
    then show ?case using full1 by simp
  qed simp
  have "mapped_on sp s e" using step(4) by auto
  then have "vma_protect sp s len p = vma_protect_walk sp p s e"
    using re vma_range_ok_iff [OF wf re] by (simp add: vma_protect_def)
  also have "\<dots> = (- ENOMEM, sp1)"
    using se c split add r2 mid by (simp add: vma_protect_walk.simps [of sp p s e] Let_def)
  finally show ?thesis using s1(2) by blast
qed

text \<open>
  C39: Finding. On a full table, changing the protection of the tail of an area returns \<open>ENOMEM\<close> and
  unmaps the whole tail: the call fails but the pages it names are gone from the address map.
\<close>

theorem vma_protect_failure_unmaps:
  assumes "vma_wf sp" "empty_slot sp = None" "containing sp s = Some i"
    and "range_end s len = Some e" "v_start (vmas sp ! i) < s" "v_end (vmas sp ! i) = e"
    and "v_prot (vmas sp ! i) \<noteq> p"
    and "\<And>w. w \<in> set (vmas sp) \<Longrightarrow> v_live w \<Longrightarrow> v_start w \<noteq> e"
  shows "\<exists>sp'. vma_protect sp s len p = (- ENOMEM, sp') \<and>
    vma_view sp s \<noteq> None \<and> (\<forall>a. in_range s e a \<longrightarrow> vma_view sp' a = None)"
proof -
  have "vma_view sp s \<noteq> None" using assms(3) by (simp add: vma_view_def)
  with protect_full_table [OF assms] show ?thesis by (auto simp: view_cut_def)
qed

text \<open>A table of the real size with every slot in use: one area of three pages every four pages.\<close>

definition full_table :: "vmm_vma list" where
  "full_table = map (\<lambda>i. wit_vma (of_nat (16384 * i + 4096)) (of_nat (16384 * i + 16384)) 3)
     [0..<VMM_VMA_MAX]"

lemma full_table_nth:
  assumes "i < 2048"
  shows "full_table ! i = wit_vma (of_nat (16384 * i + 4096)) (of_nat (16384 * i + 16384)) 3"
    "unat (v_start (full_table ! i)) = 16384 * i + 4096"
    "unat (v_end (full_table ! i)) = 16384 * i + 16384"
proof -
  show *: "full_table ! i = wit_vma (of_nat (16384 * i + 4096)) (of_nat (16384 * i + 16384)) 3"
  proof -
    have "i < VMM_VMA_MAX" using assms by (simp add: VMM_VMA_MAX_def)
    then show ?thesis by (simp add: full_table_def)
  qed
  have "unat (of_nat n :: u64) = n" if "n < 2 ^ 26" for n
    using that by (simp add: unat_of_nat)
  from this [of "16384 * i + 4096"] this [of "16384 * i + 16384"] assms
  show "unat (v_start (full_table ! i)) = 16384 * i + 4096"
    "unat (v_end (full_table ! i)) = 16384 * i + 16384"
    unfolding * wit_vma_def by (simp_all del: of_nat_add of_nat_mult)
qed

lemma full_table_length: "length full_table = 2048"
proof -
  have "length full_table = VMM_VMA_MAX" by (simp add: full_table_def)
  then show ?thesis by (simp add: VMM_VMA_MAX_def)
qed

lemma full_table_live: "w \<in> set full_table \<Longrightarrow> v_live w"
  by (auto simp: full_table_def wit_vma_def)

lemma full_table_wf: "vma_wf (wit_space full_table)"
proof (rule vma_wfI)
  fix i
  assume "i < length (vmas (wit_space full_table))"
  then have "i < 2048" by (simp add: wit_space_def full_table_length)
  from full_table_nth(2,3) [OF this]
  show "v_start (vmas (wit_space full_table) ! i) < v_end (vmas (wit_space full_table) ! i)"
    by (simp add: wit_space_def word_less_nat_alt)
next
  fix i j
  assume "i < length (vmas (wit_space full_table))" "j < length (vmas (wit_space full_table))" "i \<noteq> j"
  then have ij: "i < 2048" "j < 2048" "i \<noteq> j" by (simp_all add: wit_space_def full_table_length)
  then have "Suc i \<le> j \<or> Suc j \<le> i" by auto
  with full_table_nth(2,3) [OF ij(1)] full_table_nth(2,3) [OF ij(2)]
  show "v_disjoint (vmas (wit_space full_table) ! i) (vmas (wit_space full_table) ! j)"
    by (auto simp: v_disjoint_def wit_space_def word_le_nat_alt)
qed

theorem vma_protect_failure_unmaps_witness:
  "\<exists>sp'. vma_protect (wit_space full_table) 8192 8192 1 = (- ENOMEM, sp') \<and>
     vma_view (wit_space full_table) 8192 \<noteq> None \<and> vma_view sp' 8192 = None"
proof -
  let ?sp = "wit_space full_table"
  have e0: "full_table ! 0 = wit_vma 4096 16384 3" using full_table_nth(1) [of 0] by simp
  have slot: "empty_slot ?sp = None"
    using full_table_live by (auto simp: empty_slot_def wit_space_def)
  have c: "containing ?sp 8192 = Some 0"
    using full_table_wf full_table_length e0
    by (intro containing_eqI) (simp_all add: wit_space_def wit_vma_def v_holds_def)
  have after: "v_start w \<noteq> 16384" if w: "w \<in> set (vmas ?sp)" for w
  proof
    assume eq: "v_start w = 16384"
    from w obtain i where i: "i < 2048" "w = full_table ! i"
      by (auto simp: wit_space_def in_set_conv_nth full_table_length)
    from full_table_nth(2) [OF i(1)] i(2) eq have "16384 * i + 4096 = (16384 :: nat)" by simp
    then show False by (cases i) simp_all
  qed
  have "\<exists>sp'. vma_protect ?sp 8192 8192 1 = (- ENOMEM, sp') \<and> vma_view ?sp 8192 \<noteq> None \<and>
      (\<forall>a. in_range 8192 16384 a \<longrightarrow> vma_view sp' a = None)"
    by (rule vma_protect_failure_unmaps [OF full_table_wf slot c])
      (use e0 after in \<open>auto simp: wit_space_def wit_vma_def range_end_def\<close>)
  then show ?thesis by auto
qed

end
