(* ===== verification/Bpf.thy ===== *)
theory Bpf
  imports Prelude
begin

text \<open>
  The filter machine of \<open>src/kernel/security/seccomp.c\<close>: the load and store helpers, the interpreter,
  the acceptance check, construction and copying of filter chains, and the combination of the results of
  a chain. The part that acts on processes is in theory \<open>Seccomp\<close>.

  Undefined behaviour of C is a value of the model: an access outside an array and a shift by 32 or
  more give \<open>Fault\<close>, so that its absence is a theorem. The interpreter loop may run forever and is
  a partial function; \<^term>\<open>None\<close> means that it does not return.
\<close>

named_theorems bpf_const \<open>numeric values of the constants of the filter machine\<close>

definition BPF_LD :: u32 where [bpf_const]: "BPF_LD = 0x00"
definition BPF_LDX :: u32 where [bpf_const]: "BPF_LDX = 0x01"
definition BPF_ST :: u32 where [bpf_const]: "BPF_ST = 0x02"
definition BPF_STX :: u32 where [bpf_const]: "BPF_STX = 0x03"
definition BPF_ALU :: u32 where [bpf_const]: "BPF_ALU = 0x04"
definition BPF_JMP :: u32 where [bpf_const]: "BPF_JMP = 0x05"
definition BPF_RET :: u32 where [bpf_const]: "BPF_RET = 0x06"
definition BPF_MISC :: u32 where [bpf_const]: "BPF_MISC = 0x07"
definition BPF_W :: u32 where [bpf_const]: "BPF_W = 0x00"
definition BPF_H :: u32 where [bpf_const]: "BPF_H = 0x08"
definition BPF_IMM :: u32 where [bpf_const]: "BPF_IMM = 0x00"
definition BPF_ABS :: u32 where [bpf_const]: "BPF_ABS = 0x20"
definition BPF_IND :: u32 where [bpf_const]: "BPF_IND = 0x40"
definition BPF_MEM :: u32 where [bpf_const]: "BPF_MEM = 0x60"
definition BPF_LEN :: u32 where [bpf_const]: "BPF_LEN = 0x80"
definition BPF_ADD :: u32 where [bpf_const]: "BPF_ADD = 0x00"
definition BPF_SUB :: u32 where [bpf_const]: "BPF_SUB = 0x10"
definition BPF_MUL :: u32 where [bpf_const]: "BPF_MUL = 0x20"
definition BPF_DIV :: u32 where [bpf_const]: "BPF_DIV = 0x30"
definition BPF_OR :: u32 where [bpf_const]: "BPF_OR = 0x40"
definition BPF_AND :: u32 where [bpf_const]: "BPF_AND = 0x50"
definition BPF_LSH :: u32 where [bpf_const]: "BPF_LSH = 0x60"
definition BPF_RSH :: u32 where [bpf_const]: "BPF_RSH = 0x70"
definition BPF_NEG :: u32 where [bpf_const]: "BPF_NEG = 0x80"
definition BPF_MOD :: u32 where [bpf_const]: "BPF_MOD = 0x90"
definition BPF_XOR :: u32 where [bpf_const]: "BPF_XOR = 0xa0"
definition BPF_JA :: u32 where [bpf_const]: "BPF_JA = 0x00"
definition BPF_JEQ :: u32 where [bpf_const]: "BPF_JEQ = 0x10"
definition BPF_JGT :: u32 where [bpf_const]: "BPF_JGT = 0x20"
definition BPF_JGE :: u32 where [bpf_const]: "BPF_JGE = 0x30"
definition BPF_JSET :: u32 where [bpf_const]: "BPF_JSET = 0x40"
definition BPF_K :: u32 where [bpf_const]: "BPF_K = 0x00"
definition BPF_X :: u32 where [bpf_const]: "BPF_X = 0x08"
definition BPF_TAX :: u32 where [bpf_const]: "BPF_TAX = 0x00"
definition BPF_TXA :: u32 where [bpf_const]: "BPF_TXA = 0x80"

definition SECCOMP_MAX_INSNS :: u16 where [bpf_const]: "SECCOMP_MAX_INSNS = 4096"
definition SECCOMP_DATA_SIZE :: u32 where [bpf_const]: "SECCOMP_DATA_SIZE = 64"

definition SECCOMP_RET_KILL_THREAD :: u32 where [bpf_const]: "SECCOMP_RET_KILL_THREAD = 0x00000000"
definition SECCOMP_RET_KILL_PROCESS :: u32 where [bpf_const]: "SECCOMP_RET_KILL_PROCESS = 0x80000000"
definition SECCOMP_RET_TRAP :: u32 where [bpf_const]: "SECCOMP_RET_TRAP = 0x00030000"
definition SECCOMP_RET_ERRNO :: u32 where [bpf_const]: "SECCOMP_RET_ERRNO = 0x00050000"
definition SECCOMP_RET_USER_NOTIF :: u32 where [bpf_const]: "SECCOMP_RET_USER_NOTIF = 0x7fc00000"
definition SECCOMP_RET_TRACE :: u32 where [bpf_const]: "SECCOMP_RET_TRACE = 0x7ff00000"
definition SECCOMP_RET_LOG :: u32 where [bpf_const]: "SECCOMP_RET_LOG = 0x7ffc0000"
definition SECCOMP_RET_ALLOW :: u32 where [bpf_const]: "SECCOMP_RET_ALLOW = 0x7fff0000"

section \<open>Data\<close>

record seccomp_insn =
  i_code :: u16
  i_jt :: u8
  i_jf :: u8
  i_k :: u32

text \<open>
  A chain of filters is linked through \<open>next\<close>; the model keeps it as a list, head first.
\<close>

record seccomp_filter =
  f_len :: u16
  f_insns :: "seccomp_insn list"

record bpf_state =
  b_a :: u32
  b_x :: u32
  b_mem :: "u32 list"
  b_pc :: u32

text \<open>One iteration of the interpreter loop: it goes on, returns a value, or is undefined in C.\<close>

datatype bpf_next = Next bpf_state | Done u32 | Fault

datatype bpf_result = Value u32 | Undefined

section \<open>Loads and stores\<close>

fun bpf_load_loop :: "nat list \<Rightarrow> u8 list \<Rightarrow> u32 \<Rightarrow> u32 \<Rightarrow> u32 option" where
  "bpf_load_loop [] data off value = Some value"
| "bpf_load_loop (i # is) data off value =
     (if unat off + i < length data
      then bpf_load_loop is data off (value OR push_bit (i * 8) (ucast (data ! (unat off + i))))
      else None)"

definition bpf_load :: "u8 list \<Rightarrow> u32 \<Rightarrow> u32 \<Rightarrow> u32 option" where
  "bpf_load data off sz =
     (if SECCOMP_DATA_SIZE < off \<or> SECCOMP_DATA_SIZE - off < sz then Some 0
      else bpf_load_loop [0..<unat sz] data off 0)"

fun bpf_store_loop :: "nat list \<Rightarrow> u8 list \<Rightarrow> u32 \<Rightarrow> u64 \<Rightarrow> u8 list" where
  "bpf_store_loop [] data off value = data"
| "bpf_store_loop (i # is) data off value =
     bpf_store_loop is (data[unat off + i := ucast (drop_bit (i * 8) value)]) off value"

definition bpf_store :: "u8 list \<Rightarrow> u32 \<Rightarrow> u32 \<Rightarrow> u64 \<Rightarrow> u8 list" where
  "bpf_store data off sz value =
     (if SECCOMP_DATA_SIZE < off \<or> SECCOMP_DATA_SIZE - off < sz then data
      else bpf_store_loop [0..<unat sz] data off value)"

section \<open>The interpreter\<close>

abbreviation next_a :: "bpf_state \<Rightarrow> u32 \<Rightarrow> bpf_next" where
  "next_a s v \<equiv> Next (s\<lparr>b_a := v, b_pc := b_pc s + 1\<rparr>)"

abbreviation next_x :: "bpf_state \<Rightarrow> u32 \<Rightarrow> bpf_next" where
  "next_x s v \<equiv> Next (s\<lparr>b_x := v, b_pc := b_pc s + 1\<rparr>)"

definition bpf_width :: "u32 \<Rightarrow> u32" where
  "bpf_width sz = (if sz = BPF_W then 4 else if sz = BPF_H then 2 else 1)"

definition bpf_ld :: "u8 list \<Rightarrow> seccomp_insn \<Rightarrow> bpf_state \<Rightarrow> bpf_next" where
  "bpf_ld data insn s =
     (let code = ucast (i_code insn) :: u32; sz = code AND 0x18; mode = code AND 0xe0 in
      if mode = BPF_IMM then next_a s (i_k insn)
      else if mode = BPF_ABS then
        (case bpf_load data (i_k insn) (bpf_width sz) of None \<Rightarrow> Fault | Some v \<Rightarrow> next_a s v)
      else if mode = BPF_IND then
        (case bpf_load data (b_x s + i_k insn) (bpf_width sz) of
           None \<Rightarrow> Fault | Some v \<Rightarrow> next_a s v)
      else if mode = BPF_MEM then
        if 16 \<le> i_k insn then Done SECCOMP_RET_KILL_PROCESS
        else if unat (i_k insn) < length (b_mem s) then next_a s (b_mem s ! unat (i_k insn))
        else Fault
      else if mode = BPF_LEN then next_a s SECCOMP_DATA_SIZE
      else Done SECCOMP_RET_KILL_PROCESS)"

definition bpf_ldx :: "seccomp_insn \<Rightarrow> bpf_state \<Rightarrow> bpf_next" where
  "bpf_ldx insn s =
     (let code = ucast (i_code insn) :: u32; mode = code AND 0xe0 in
      if mode = BPF_IMM then next_x s (i_k insn)
      else if mode = BPF_MEM then
        if 16 \<le> i_k insn then Done SECCOMP_RET_KILL_PROCESS
        else if unat (i_k insn) < length (b_mem s) then next_x s (b_mem s ! unat (i_k insn))
        else Fault
      else if mode = BPF_LEN then next_x s SECCOMP_DATA_SIZE
      else Done SECCOMP_RET_KILL_PROCESS)"

definition bpf_st :: "u32 \<Rightarrow> seccomp_insn \<Rightarrow> bpf_state \<Rightarrow> bpf_next" where
  "bpf_st v insn s =
     (if 16 \<le> i_k insn then Done SECCOMP_RET_KILL_PROCESS
      else if unat (i_k insn) < length (b_mem s)
      then Next (s\<lparr>b_mem := (b_mem s)[unat (i_k insn) := v], b_pc := b_pc s + 1\<rparr>)
      else Fault)"

definition bpf_alu :: "seccomp_insn \<Rightarrow> bpf_state \<Rightarrow> bpf_next" where
  "bpf_alu insn s =
     (let code = ucast (i_code insn) :: u32; op = code AND 0xf0; src = code AND 0x08;
          rhs = (if src = BPF_X then b_x s else i_k insn); a = b_a s in
      if op = BPF_ADD then next_a s (a + rhs)
      else if op = BPF_SUB then next_a s (a - rhs)
      else if op = BPF_MUL then next_a s (a * rhs)
      else if op = BPF_DIV then
        if rhs = 0 then Done SECCOMP_RET_KILL_PROCESS else next_a s (a div rhs)
      else if op = BPF_OR then next_a s (a OR rhs)
      else if op = BPF_AND then next_a s (a AND rhs)
      else if op = BPF_LSH then if rhs < 32 then next_a s (push_bit (unat rhs) a) else Fault
      else if op = BPF_RSH then if rhs < 32 then next_a s (drop_bit (unat rhs) a) else Fault
      else if op = BPF_NEG then next_a s (- a)
      else if op = BPF_MOD then
        if rhs = 0 then Done SECCOMP_RET_KILL_PROCESS else next_a s (a mod rhs)
      else if op = BPF_XOR then next_a s (a XOR rhs)
      else Done SECCOMP_RET_KILL_PROCESS)"

definition bpf_jmp :: "seccomp_insn \<Rightarrow> bpf_state \<Rightarrow> bpf_next" where
  "bpf_jmp insn s =
     (let code = ucast (i_code insn) :: u32; op = code AND 0xf0; src = code AND 0x08; a = b_a s in
      if op = BPF_JA then Next (s\<lparr>b_pc := b_pc s + (1 + i_k insn)\<rparr>)
      else
        let rhs = (if src = BPF_X then b_x s else i_k insn);
            jump = (\<lambda>take. Next (s\<lparr>b_pc := b_pc s + (1 + ucast (if take then i_jt insn else i_jf insn))\<rparr>))
        in if op = BPF_JEQ then jump (a = rhs)
           else if op = BPF_JGT then jump (rhs < a)
           else if op = BPF_JGE then jump (rhs \<le> a)
           else if op = BPF_JSET then jump (a AND rhs \<noteq> 0)
           else Done SECCOMP_RET_KILL_PROCESS)"

definition bpf_ret :: "seccomp_insn \<Rightarrow> bpf_state \<Rightarrow> bpf_next" where
  "bpf_ret insn s =
     (let code = ucast (i_code insn) :: u32; op = code AND 0xf0 in
      if op = BPF_K then Done (i_k insn)
      else if op = 0x10 then Done (b_a s)
      else Done SECCOMP_RET_KILL_PROCESS)"

definition bpf_misc :: "seccomp_insn \<Rightarrow> bpf_state \<Rightarrow> bpf_next" where
  "bpf_misc insn s =
     (let code = ucast (i_code insn) :: u32; op = code AND 0xf0 in
      if op = BPF_TAX then next_x s (b_a s)
      else if op = BPF_TXA then next_a s (b_x s)
      else Done SECCOMP_RET_KILL_PROCESS)"

definition bpf_exec :: "u8 list \<Rightarrow> seccomp_insn \<Rightarrow> bpf_state \<Rightarrow> bpf_next" where
  "bpf_exec data insn s =
     (let cls = ucast (i_code insn) AND 0x07 in
      if cls = BPF_LD then bpf_ld data insn s
      else if cls = BPF_LDX then bpf_ldx insn s
      else if cls = BPF_ST then bpf_st (b_a s) insn s
      else if cls = BPF_STX then bpf_st (b_x s) insn s
      else if cls = BPF_ALU then bpf_alu insn s
      else if cls = BPF_JMP then bpf_jmp insn s
      else if cls = BPF_RET then bpf_ret insn s
      else if cls = BPF_MISC then bpf_misc insn s
      else Done SECCOMP_RET_KILL_PROCESS)"

definition bpf_step :: "seccomp_filter \<Rightarrow> u8 list \<Rightarrow> bpf_state \<Rightarrow> bpf_next" where
  "bpf_step flt data s =
     (if b_pc s < ucast (f_len flt) then
        if unat (b_pc s) < length (f_insns flt)
        then bpf_exec data (f_insns flt ! unat (b_pc s)) s
        else Fault
      else Done SECCOMP_RET_KILL_PROCESS)"

partial_function (option) bpf_loop :: "seccomp_filter \<Rightarrow> u8 list \<Rightarrow> bpf_state \<Rightarrow> bpf_result option" where
  "bpf_loop flt data s =
     (case bpf_step flt data s of
        Next s' \<Rightarrow> bpf_loop flt data s'
      | Done v \<Rightarrow> Some (Value v)
      | Fault \<Rightarrow> Some Undefined)"

definition bpf_init :: bpf_state where
  "bpf_init = \<lparr>b_a = 0, b_x = 0, b_mem = replicate 16 0, b_pc = 0\<rparr>"

definition bpf_run :: "seccomp_filter \<Rightarrow> u8 list \<Rightarrow> bpf_result option" where
  "bpf_run flt data = bpf_loop flt data bpf_init"

section \<open>Acceptance, construction and chains\<close>

definition bpf_insn_valid :: "u16 \<Rightarrow> u32 \<Rightarrow> seccomp_insn \<Rightarrow> bool" where
  "bpf_insn_valid len pc insn =
     (let cls = ucast (i_code insn) AND 0x07; op = ucast (i_code insn) AND 0xf0 :: u32 in
      if cls = BPF_JMP then
        if op = BPF_JA then \<not> ucast len \<le> pc + 1 + i_k insn
        else if op \<noteq> BPF_JEQ \<and> op \<noteq> BPF_JGT \<and> op \<noteq> BPF_JGE \<and> op \<noteq> BPF_JSET then False
        else \<not> ucast len \<le> pc + 1 + ucast (i_jt insn) \<and> \<not> ucast len \<le> pc + 1 + ucast (i_jf insn)
      else cls \<in> {BPF_LD, BPF_LDX, BPF_ST, BPF_STX, BPF_ALU, BPF_RET, BPF_MISC})"

definition bpf_valid :: "seccomp_insn list \<Rightarrow> u16 \<Rightarrow> bool" where
  "bpf_valid insns len \<longleftrightarrow>
     \<not> (len = 0 \<or> SECCOMP_MAX_INSNS < len) \<and>
     list_all (\<lambda>pc. bpf_insn_valid len (of_nat pc) (insns ! pc)) [0..<unat len]"

text \<open>
  The kernel heap, as far as this component sees it: the number of allocation requests made so far and
  the number of blocks it holds. Whether the \<open>n\<close>-th request succeeds is a parameter.
\<close>

record kheap =
  kh_requests :: nat
  kh_live :: nat

definition kmalloc_block :: "(nat \<Rightarrow> bool) \<Rightarrow> kheap \<Rightarrow> bool \<times> kheap" where
  "kmalloc_block grant h =
     (if grant (kh_requests h)
      then (True, h\<lparr>kh_requests := kh_requests h + 1, kh_live := kh_live h + 1\<rparr>)
      else (False, h\<lparr>kh_requests := kh_requests h + 1\<rparr>))"

definition seccomp_build ::
  "(nat \<Rightarrow> bool) \<Rightarrow> seccomp_insn list \<Rightarrow> u16 \<Rightarrow> kheap \<Rightarrow> seccomp_filter option \<times> kheap" where
  "seccomp_build grant insns len h =
     (if \<not> bpf_valid insns len then (None, h)
      else
        let (ok, h') = kmalloc_block grant h in
        if \<not> ok then (None, h')
        else (Some \<lparr>f_len = len, f_insns = take (unat len) insns\<rparr>, h'))"

fun seccomp_chain_free :: "seccomp_filter list \<Rightarrow> kheap \<Rightarrow> kheap" where
  "seccomp_chain_free [] h = h"
| "seccomp_chain_free (f # fs) h = seccomp_chain_free fs (h\<lparr>kh_live := kh_live h - 1\<rparr>)"

fun seccomp_clone_loop ::
  "(nat \<Rightarrow> bool) \<Rightarrow> seccomp_filter list \<Rightarrow> seccomp_filter list \<Rightarrow> kheap \<Rightarrow>
     seccomp_filter list \<times> kheap" where
  "seccomp_clone_loop grant [] copy h = (copy, h)"
| "seccomp_clone_loop grant (f # fs) copy h =
     (case seccomp_build grant (f_insns f) (f_len f) h of
        (None, h') \<Rightarrow> ([], seccomp_chain_free copy h')
      | (Some node, h') \<Rightarrow> seccomp_clone_loop grant fs (copy @ [node]) h')"

definition seccomp_chain_clone ::
  "(nat \<Rightarrow> bool) \<Rightarrow> seccomp_filter list \<Rightarrow> kheap \<Rightarrow> seccomp_filter list \<times> kheap" where
  "seccomp_chain_clone grant head h = seccomp_clone_loop grant head [] h"

definition action_rank :: "u32 \<Rightarrow> int" where
  "action_rank action =
     (if action = SECCOMP_RET_KILL_PROCESS \<or> action = SECCOMP_RET_KILL_THREAD then 0
      else if action = SECCOMP_RET_TRAP then 1
      else if action = SECCOMP_RET_ERRNO then 2
      else if action = SECCOMP_RET_USER_NOTIF then 3
      else if action = SECCOMP_RET_TRACE then 4
      else if action = SECCOMP_RET_LOG then 5
      else if action = SECCOMP_RET_ALLOW then 6
      else 0)"

fun chain_loop :: "seccomp_filter list \<Rightarrow> u8 list \<Rightarrow> u32 \<Rightarrow> bpf_result option" where
  "chain_loop [] data best = Some (Value best)"
| "chain_loop (f # fs) data best =
     (case bpf_run f data of
        None \<Rightarrow> None
      | Some Undefined \<Rightarrow> Some Undefined
      | Some (Value result) \<Rightarrow>
          chain_loop fs data
            (if action_rank (result AND 0xffff0000) < action_rank (best AND 0xffff0000)
             then result else best))"

definition chain_result :: "seccomp_filter list \<Rightarrow> u8 list \<Rightarrow> bpf_result option" where
  "chain_result head data = chain_loop head data SECCOMP_RET_ALLOW"

section \<open>Bytes of the argument block\<close>

lemma bpf_store_loop_length [simp]: "length (bpf_store_loop is data off v) = length data"
  by (induction "is" data off v rule: bpf_store_loop.induct) simp_all

lemma bpf_store_loop_nth:
  "k < length data \<Longrightarrow>
   bpf_store_loop is data off v ! k =
     (if unat off \<le> k \<and> k - unat off \<in> set is then ucast (drop_bit ((k - unat off) * 8) v)
      else data ! k)"
  by (induction "is" data off v rule: bpf_store_loop.induct) (auto simp: nth_list_update)

lemma bpf_store_length [simp]: "length (bpf_store data off n v) = length data"
  by (simp add: bpf_store_def)

lemma bpf_store_nth:
  assumes "unat off + unat n \<le> 64" "k < length data"
  shows "bpf_store data off n v ! k =
     (if unat off \<le> k \<and> k < unat off + unat n then ucast (drop_bit ((k - unat off) * 8) v)
      else data ! k)"
proof -
  have off: "unat off \<le> 64" using assms(1) by simp
  then have "\<not> SECCOMP_DATA_SIZE < off" by (simp add: bpf_const word_nat)
  moreover have "\<not> SECCOMP_DATA_SIZE - off < n"
    using assms(1) off by (simp add: bpf_const word_nat unat_sub)
  ultimately have "bpf_store data off n v = bpf_store_loop [0..<unat n] data off v"
    by (simp add: bpf_store_def)
  then show ?thesis using assms(2) by (auto simp: bpf_store_loop_nth)
qed

lemma bpf_load_unfold:
  assumes "unat off + unat n \<le> 64"
  shows "bpf_load data off n = bpf_load_loop [0..<unat n] data off 0"
proof -
  have off: "unat off \<le> 64" using assms by simp
  then have "\<not> SECCOMP_DATA_SIZE < off" by (simp add: bpf_const word_nat)
  moreover have "\<not> SECCOMP_DATA_SIZE - off < n"
    using assms off by (simp add: bpf_const word_nat unat_sub)
  ultimately show ?thesis by (simp add: bpf_load_def)
qed

lemma bpf_load_outside:
  "64 < unat off + unat n \<Longrightarrow> bpf_load data off n = Some 0"
proof -
  assume "64 < unat off + unat n"
  then have "SECCOMP_DATA_SIZE < off \<or> SECCOMP_DATA_SIZE - off < n"
    by (cases "unat off \<le> 64") (auto simp: bpf_const word_nat unat_sub)
  then show ?thesis by (simp add: bpf_load_def)
qed

lemma bpf_load_loop_defined:
  "(\<And>i. i \<in> set is \<Longrightarrow> unat off + i < length data) \<Longrightarrow> bpf_load_loop is data off v \<noteq> None"
  by (induction "is" data off v rule: bpf_load_loop.induct) simp_all

lemma bpf_load_defined:
  assumes "length data = 64"
  shows "bpf_load data off n \<noteq> None"
proof (cases "unat off + unat n \<le> 64")
  case True
  show ?thesis unfolding bpf_load_unfold [OF True]
    by (rule bpf_load_loop_defined) (use True assms in auto)
qed (simp add: bpf_load_outside)

text \<open>A four-byte load of a little-endian value gives its low half.\<close>

lemma join_bytes:
  fixes v :: u64
  assumes "b0 = ucast v" "b1 = ucast (drop_bit 8 v)" "b2 = ucast (drop_bit 16 v)"
    and "b3 = ucast (drop_bit 24 v)"
  shows "ucast (b0 :: u8) OR push_bit 8 (ucast (b1 :: u8)) OR push_bit 16 (ucast (b2 :: u8)) OR
     push_bit 24 (ucast (b3 :: u8)) = (ucast v :: u32)"
  unfolding assms
proof (rule bit_word_eqI)
  fix n
  assume "n < LENGTH(32)"
  then have n: "n < 32" by simp
  consider "n < 8" | "8 \<le> n" "n < 16" | "16 \<le> n" "n < 24" | "24 \<le> n" by linarith
  then show "bit (ucast (ucast v :: u8) OR push_bit 8 (ucast (ucast (drop_bit 8 v) :: u8)) OR
      push_bit 16 (ucast (ucast (drop_bit 16 v) :: u8)) OR
      push_bit 24 (ucast (ucast (drop_bit 24 v) :: u8)) :: u32) n = bit (ucast v :: u32) n"
    by cases (use n in \<open>auto simp: bit_simps\<close>)
qed

lemma bpf_load4:
  assumes off: "unat off + 4 \<le> 64" and len: "length data = 64"
    and bytes: "\<And>j. j < 4 \<Longrightarrow> data ! (unat off + j) = ucast (drop_bit (j * 8) v)"
  shows "bpf_load data off 4 = Some (ucast (v :: u64))"
proof -
  have l: "[0..<4] = [0, 1, 2, 3 :: nat]" by (simp add: upt_rec)
  have "bpf_load data off 4 = bpf_load_loop [0, 1, 2, 3] data off 0"
    using bpf_load_unfold [of off 4 data] off by (simp add: l)
  also have "\<dots> = Some (ucast (data ! unat off) OR push_bit 8 (ucast (data ! (unat off + 1))) OR
      push_bit 16 (ucast (data ! (unat off + 2))) OR push_bit 24 (ucast (data ! (unat off + 3))))"
    using off len by (simp add: or.assoc)
  also have "\<dots> = Some (ucast v)"
    using bytes [of 0] bytes [of 1] bytes [of 2] bytes [of 3]
    by (subst join_bytes [of _ v]) simp_all
  finally show ?thesis .
qed

section \<open>The interpreter on accepted filters\<close>

text \<open>
  Two properties of an instruction that the acceptance check does not establish: the target of an
  unconditional jump is computed without wrap-around, and a shift distance is a constant below 32.
\<close>

definition jump_forward :: "u16 \<Rightarrow> seccomp_insn \<Rightarrow> bool" where
  "jump_forward len insn \<longleftrightarrow>
     (ucast (i_code insn) AND 0x07 = BPF_JMP \<longrightarrow> ucast (i_code insn) AND 0xf0 = BPF_JA \<longrightarrow>
        i_k insn < ucast len)"

definition shift_const :: "seccomp_insn \<Rightarrow> bool" where
  "shift_const insn \<longleftrightarrow>
     (ucast (i_code insn) AND 0x07 = BPF_ALU \<longrightarrow>
      (ucast (i_code insn) AND 0xf0) \<in> {BPF_LSH, BPF_RSH} \<longrightarrow>
        ucast (i_code insn) AND 0x08 \<noteq> BPF_X \<and> i_k insn < 32)"

definition filter_wf :: "seccomp_filter \<Rightarrow> bool" where
  "filter_wf f \<longleftrightarrow> bpf_valid (f_insns f) (f_len f) \<and> length (f_insns f) = unat (f_len f)"

definition filter_tame :: "seccomp_filter \<Rightarrow> bool" where
  "filter_tame f \<longleftrightarrow> filter_wf f \<and>
     list_all (\<lambda>insn. jump_forward (f_len f) insn \<and> shift_const insn) (f_insns f)"

lemmas bpf_exec_defs = bpf_exec_def bpf_ld_def bpf_ldx_def bpf_st_def bpf_alu_def bpf_jmp_def
  bpf_ret_def bpf_misc_def Let_def

lemma bpf_exec_mem:
  "bpf_exec data insn s = Next s' \<Longrightarrow> length (b_mem s') = length (b_mem s)"
  by (auto simp: bpf_exec_defs split: if_splits option.splits)

lemma bpf_exec_no_fault:
  assumes "length (b_mem s) = 16" "length data = 64" "shift_const insn"
  shows "bpf_exec data insn s \<noteq> Fault"
proof -
  have small: "unat (k :: u32) < 16" if "\<not> 16 \<le> k" for k using that by (simp add: word_nat)
  have ld: "bpf_ld data insn s \<noteq> Fault"
  proof -
    let ?n = "bpf_width (ucast (i_code insn) AND 0x18)"
    obtain v w where "bpf_load data (i_k insn) ?n = Some v" "bpf_load data (b_x s + i_k insn) ?n = Some w"
      using bpf_load_defined [OF assms(2)] by blast
    then show ?thesis using assms(1) small [of "i_k insn"] by (simp add: bpf_ld_def Let_def)
  qed
  have "bpf_ldx insn s \<noteq> Fault" "bpf_st v insn s \<noteq> Fault" for v
    using assms(1) small [of "i_k insn"] by (auto simp: bpf_ldx_def bpf_st_def Let_def)
  moreover have "bpf_alu insn s \<noteq> Fault" if "ucast (i_code insn) AND 0x07 = BPF_ALU"
    using assms(3) that by (auto simp: bpf_alu_def Let_def shift_const_def)
  moreover have "bpf_jmp insn s \<noteq> Fault" "bpf_ret insn s \<noteq> Fault" "bpf_misc insn s \<noteq> Fault"
    by (simp_all add: bpf_jmp_def bpf_ret_def bpf_misc_def Let_def)
  ultimately show ?thesis using ld by (simp add: bpf_exec_def Let_def)
qed

text \<open>The program counter after one instruction.\<close>

lemma bpf_exec_pc:
  assumes "bpf_exec data insn s = Next s'"
  shows "b_pc s' = b_pc s + 1 \<and> ucast (i_code insn) AND 0x07 \<noteq> BPF_JMP \<or>
    ucast (i_code insn) AND 0x07 = BPF_JMP \<and>
      (ucast (i_code insn) AND 0xf0 = BPF_JA \<and> b_pc s' = b_pc s + 1 + i_k insn \<or>
       ucast (i_code insn) AND 0xf0 \<in> {BPF_JEQ, BPF_JGT, BPF_JGE, BPF_JSET} \<and>
         (b_pc s' = b_pc s + 1 + ucast (i_jt insn) \<or> b_pc s' = b_pc s + 1 + ucast (i_jf insn)))"
proof (cases "ucast (i_code insn) AND 0x07 = BPF_JMP")
  case True
  then have "bpf_exec data insn s = bpf_jmp insn s" by (simp add: bpf_exec_def bpf_const)
  with assms True show ?thesis
    by (auto simp: bpf_jmp_def Let_def add.assoc split: if_splits)
next
  case False
  with assms have "b_pc s' = b_pc s + 1"
    by (auto simp: bpf_exec_def bpf_ld_def bpf_ldx_def bpf_st_def bpf_alu_def bpf_ret_def
        bpf_misc_def Let_def split: if_splits option.splits)
  with False show ?thesis by simp
qed

lemma unat_u16_u32 [simp]: "unat (ucast (x :: u16) :: u32) = unat x"
  by (simp add: unat_ucast_up)

lemma unat_u8_u32 [simp]: "unat (ucast (x :: u8) :: u32) = unat x"
  by (simp add: unat_ucast_up)

lemma forward_no_wrap:
  assumes "unat (pc :: u32) < 4096" "unat (d :: u32) \<le> 4096"
  shows "unat (pc + 1 + d) = unat pc + 1 + unat d"
  using assms by (simp add: unat_word_ariths)

lemma bpf_valid_nth:
  assumes "bpf_valid insns len" "unat pc < unat len"
  shows "bpf_insn_valid len pc (insns ! unat (pc :: u32))"
proof -
  have "list_all (\<lambda>pc. bpf_insn_valid len (of_nat pc) (insns ! pc)) [0..<unat len]"
    using assms(1) by (simp add: bpf_valid_def)
  then have "bpf_insn_valid len (of_nat (unat pc)) (insns ! unat pc)"
    unfolding list_all_iff by (rule bspec) (use assms(2) in simp)
  then show ?thesis by (simp only: of_nat_unat)
qed

lemma bpf_valid_len: "bpf_valid insns len \<Longrightarrow> 0 < unat len \<and> unat len \<le> 4096"
  by (auto simp: bpf_valid_def bpf_const word_nat unat_gt_0)

lemma filter_step_forward:
  assumes t: "filter_tame f" and s: "length (b_mem s) = 16" and d: "length data = 64"
    and pc: "b_pc s < ucast (f_len f)"
  shows "(\<exists>v. bpf_step f data s = Done v) \<or>
    (\<exists>s'. bpf_step f data s = Next s' \<and> length (b_mem s') = 16 \<and>
       unat (b_pc s) < unat (b_pc s') \<and> unat (b_pc s') \<le> unat (f_len f))"
proof -
  let ?insn = "f_insns f ! unat (b_pc s)"
  from t have v: "bpf_valid (f_insns f) (f_len f)" and l: "length (f_insns f) = unat (f_len f)"
    by (auto simp: filter_tame_def filter_wf_def)
  from pc have pc': "unat (b_pc s) < unat (f_len f)" by (simp add: word_nat)
  with l t have j: "jump_forward (f_len f) ?insn" and sh: "shift_const ?insn"
    by (auto simp: filter_tame_def list_all_length)
  have iv: "bpf_insn_valid (f_len f) (b_pc s) ?insn" by (rule bpf_valid_nth [OF v pc'])
  note len = bpf_valid_len [OF v]
  have step: "bpf_step f data s = bpf_exec data ?insn s" using pc pc' l by (simp add: bpf_step_def)
  show ?thesis
  proof (cases "bpf_exec data ?insn s")
    case (Next s')
    have fwd: "unat (b_pc s + 1 + d) = unat (b_pc s) + 1 + unat d" if "unat d \<le> 4096" for d
      using forward_no_wrap [of "b_pc s" d] that pc' len by simp
    have b8: "unat (x :: u8) \<le> 4096" for x using unat_bound [of x] by simp
    have "unat (b_pc s) < unat (b_pc s') \<and> unat (b_pc s') \<le> unat (f_len f)"
      using bpf_exec_pc [OF Next]
    proof (elim disjE conjE)
      assume "b_pc s' = b_pc s + 1"
      with fwd [of 0] pc' show ?thesis by simp
    next
      assume JA: "ucast (i_code ?insn) AND 0x07 = BPF_JMP" "ucast (i_code ?insn) AND 0xf0 = BPF_JA"
        "b_pc s' = b_pc s + 1 + i_k ?insn"
      with j have "unat (i_k ?insn) \<le> 4096" using len by (simp add: jump_forward_def word_nat)
      with fwd iv JA show ?thesis by (simp add: bpf_insn_valid_def word_nat)
    next
      assume "ucast (i_code ?insn) AND 0x07 = BPF_JMP" "b_pc s' = b_pc s + 1 + ucast (i_jt ?insn)"
        "ucast (i_code ?insn) AND 0xf0 \<in> {BPF_JEQ, BPF_JGT, BPF_JGE, BPF_JSET}"
      with iv fwd [of "ucast (i_jt ?insn)"] b8 show ?thesis
        by (auto simp: bpf_insn_valid_def word_nat bpf_const)
    next
      assume "ucast (i_code ?insn) AND 0x07 = BPF_JMP" "b_pc s' = b_pc s + 1 + ucast (i_jf ?insn)"
        "ucast (i_code ?insn) AND 0xf0 \<in> {BPF_JEQ, BPF_JGT, BPF_JGE, BPF_JSET}"
      with iv fwd [of "ucast (i_jf ?insn)"] b8 show ?thesis
        by (auto simp: bpf_insn_valid_def word_nat bpf_const)
    qed
    with Next step bpf_exec_mem [OF Next] s show ?thesis by simp
  next
    case (Done v)
    with step show ?thesis by simp
  next
    case Fault
    with bpf_exec_no_fault [OF s d sh] show ?thesis by simp
  qed
qed

lemma bpf_loop_total:
  assumes t: "filter_tame f" and d: "length data = 64"
  shows "length (b_mem s) = 16 \<Longrightarrow> \<exists>v. bpf_loop f data s = Some (Value v)"
proof (induction "unat (f_len f) - unat (b_pc s)" arbitrary: s rule: less_induct)
  case less
  show ?case
  proof (cases "b_pc s < ucast (f_len f)")
    case False
    then have "bpf_step f data s = Done SECCOMP_RET_KILL_PROCESS" by (simp add: bpf_step_def)
    then show ?thesis by (simp add: bpf_loop.simps [of f data s])
  next
    case pc: True
    from filter_step_forward [OF t less.prems d pc] show ?thesis
    proof (elim disjE exE conjE)
      fix v
      assume "bpf_step f data s = Done v"
      then show ?thesis by (simp add: bpf_loop.simps [of f data s])
    next
      fix s'
      assume s': "bpf_step f data s = Next s'" "length (b_mem s') = 16"
        "unat (b_pc s) < unat (b_pc s')" "unat (b_pc s') \<le> unat (f_len f)"
      then have "\<exists>v. bpf_loop f data s' = Some (Value v)" by (intro less.hyps) auto
      with s'(1) show ?thesis by (simp add: bpf_loop.simps [of f data s])
    qed
  qed
qed

section \<open>Chains of filters\<close>

text \<open>
  The contract of a chain of filters for its clients: when every filter gives a verdict, so does the
  chain; the verdict is the default or the verdict of one of the filters, and it is at least as
  restrictive as each of them.
\<close>

locale restrict_chain =
  fixes run :: "'f \<Rightarrow> 'd \<Rightarrow> 'v option"
    and chain :: "'f list \<Rightarrow> 'd \<Rightarrow> 'v option"
    and rank :: "'v \<Rightarrow> int"
    and top :: 'v
  assumes chain_verdict: "(\<And>f. f \<in> set fs \<Longrightarrow> run f d \<noteq> None) \<Longrightarrow>
      \<exists>v. chain fs d = Some v \<and> (v = top \<or> (\<exists>f \<in> set fs. run f d = Some v)) \<and>
        rank v \<le> rank top \<and> (\<forall>f \<in> set fs. \<forall>u. run f d = Some u \<longrightarrow> rank v \<le> rank u)"
begin

lemma install_restricts:
  assumes "\<And>g. g \<in> set (f # fs) \<Longrightarrow> run g d \<noteq> None"
  shows "\<exists>v u. chain (f # fs) d = Some v \<and> chain fs d = Some u \<and> rank v \<le> rank u"
proof -
  have tl: "\<And>g. g \<in> set fs \<Longrightarrow> run g d \<noteq> None" using assms by simp
  obtain u where u: "chain fs d = Some u" "u = top \<or> (\<exists>f \<in> set fs. run f d = Some u)"
    using chain_verdict [of fs d, OF tl] by blast
  obtain v where v: "chain (f # fs) d = Some v" "rank v \<le> rank top"
    "\<forall>g \<in> set (f # fs). \<forall>u. run g d = Some u \<longrightarrow> rank v \<le> rank u"
    using chain_verdict [of "f # fs" d, OF assms] by blast
  from u(2) v(2,3) have "rank v \<le> rank u" by auto
  with u(1) v(1) show ?thesis by blast
qed

lemma passes_iff:
  assumes "\<And>f. f \<in> set fs \<Longrightarrow> run f d \<noteq> None" "t \<le> rank top" "chain fs d = Some v"
  shows "t \<le> rank v \<longleftrightarrow> (\<forall>f \<in> set fs. \<forall>u. run f d = Some u \<longrightarrow> t \<le> rank u)"
proof -
  have "v = top \<or> (\<exists>f \<in> set fs. run f d = Some v)"
    and *: "\<forall>f \<in> set fs. \<forall>u. run f d = Some u \<longrightarrow> rank v \<le> rank u"
    using chain_verdict [of fs d, OF assms(1)] assms(3) by auto
  from this(1) show ?thesis
  proof
    assume "v = top"
    with assms(2) * show ?thesis using order_trans by blast
  next
    assume "\<exists>f \<in> set fs. run f d = Some v"
    with * show ?thesis using order_trans by blast
  qed
qed

end

definition run_value :: "seccomp_filter \<Rightarrow> u8 list \<Rightarrow> u32 option" where
  "run_value f data = (case bpf_run f data of Some (Value v) \<Rightarrow> Some v | _ \<Rightarrow> None)"

definition chain_value :: "seccomp_filter list \<Rightarrow> u8 list \<Rightarrow> u32 option" where
  "chain_value fs data = (case chain_result fs data of Some (Value v) \<Rightarrow> Some v | _ \<Rightarrow> None)"

definition verdict_rank :: "u32 \<Rightarrow> int" where
  "verdict_rank v = action_rank (v AND 0xffff0000)"

lemma run_value_Some [simp]: "run_value f data = Some v \<longleftrightarrow> bpf_run f data = Some (Value v)"
  by (auto simp: run_value_def split: option.splits bpf_result.splits)

lemma chain_value_Some [simp]:
  "chain_value fs data = Some v \<longleftrightarrow> chain_result fs data = Some (Value v)"
  by (auto simp: chain_value_def split: option.splits bpf_result.splits)

lemma chain_loop_verdict:
  "(\<And>f. f \<in> set fs \<Longrightarrow> run_value f data \<noteq> None) \<Longrightarrow>
   \<exists>v. chain_loop fs data best = Some (Value v) \<and>
     (v = best \<or> (\<exists>f \<in> set fs. bpf_run f data = Some (Value v))) \<and>
     verdict_rank v \<le> verdict_rank best \<and>
     (\<forall>f \<in> set fs. \<forall>u. bpf_run f data = Some (Value u) \<longrightarrow> verdict_rank v \<le> verdict_rank u)"
proof (induction fs arbitrary: best)
  case (Cons f fs)
  from Cons.prems [of f] obtain r where r: "bpf_run f data = Some (Value r)" by auto
  let ?best = "if verdict_rank r < verdict_rank best then r else best"
  have "\<And>g. g \<in> set fs \<Longrightarrow> run_value g data \<noteq> None" using Cons.prems by auto
  from Cons.IH [OF this, of ?best] obtain v where
    v: "chain_loop fs data ?best = Some (Value v)"
      "v = ?best \<or> (\<exists>f \<in> set fs. bpf_run f data = Some (Value v))"
      "verdict_rank v \<le> verdict_rank ?best"
      "\<forall>f \<in> set fs. \<forall>u. bpf_run f data = Some (Value u) \<longrightarrow> verdict_rank v \<le> verdict_rank u" by blast
  have "chain_loop (f # fs) data best = Some (Value v)"
    using v(1) r by (simp add: verdict_rank_def)
  then show ?case using v(2-) r by (intro exI [of _ v]) (auto split: if_splits)
qed simp

interpretation sc: restrict_chain run_value chain_value verdict_rank SECCOMP_RET_ALLOW
proof
  fix fs data
  assume "\<And>f. f \<in> set fs \<Longrightarrow> run_value f data \<noteq> None"
  from chain_loop_verdict [OF this, where best = SECCOMP_RET_ALLOW]
  show "\<exists>v. chain_value fs data = Some v \<and>
      (v = SECCOMP_RET_ALLOW \<or> (\<exists>f \<in> set fs. run_value f data = Some v)) \<and>
      verdict_rank v \<le> verdict_rank SECCOMP_RET_ALLOW \<and>
      (\<forall>f \<in> set fs. \<forall>u. run_value f data = Some u \<longrightarrow> verdict_rank v \<le> verdict_rank u)"
    by (simp add: chain_result_def)
qed

lemma tame_runs:
  "filter_tame f \<Longrightarrow> length data = 64 \<Longrightarrow> run_value f data \<noteq> None"
  using bpf_loop_total [of f data bpf_init] by (auto simp: bpf_run_def bpf_init_def)

lemma run_value_defined: "run_value f data \<noteq> None \<longleftrightarrow> (\<exists>v. bpf_run f data = Some (Value v))"
  by auto

section \<open>Copying and releasing chains\<close>

lemma chain_free_live:
  "kh_live (seccomp_chain_free fs h) = kh_live h - length fs"
  by (induction fs h rule: seccomp_chain_free.induct) simp_all

lemma build_wf:
  assumes "filter_wf f"
  shows "seccomp_build grant (f_insns f) (f_len f) h =
    (if grant (kh_requests h)
     then (Some f, h\<lparr>kh_requests := kh_requests h + 1, kh_live := kh_live h + 1\<rparr>)
     else (None, h\<lparr>kh_requests := kh_requests h + 1\<rparr>))"
  using assms by (auto simp: seccomp_build_def filter_wf_def kmalloc_block_def)

lemma clone_loop_cases:
  assumes "\<And>f. f \<in> set fs \<Longrightarrow> filter_wf f" "length copy \<le> kh_live h"
    and "seccomp_clone_loop grant fs copy h = (out, h')"
  shows "(out = copy @ fs \<and> kh_live h' = kh_live h + length fs \<and>
      (\<forall>i < length fs. grant (kh_requests h + i))) \<or>
    (out = [] \<and> kh_live h' = kh_live h - length copy \<and>
      (\<exists>i < length fs. \<not> grant (kh_requests h + i)))"
  using assms
proof (induction fs arbitrary: copy h)
  case (Cons f fs)
  let ?h1 = "h\<lparr>kh_requests := kh_requests h + 1, kh_live := kh_live h + 1\<rparr>"
  show ?case
  proof (cases "grant (kh_requests h)")
    case False
    then have "out = []" "kh_live h' = kh_live h - length copy"
      using Cons.prems by (auto simp: build_wf chain_free_live)
    with False show ?thesis by (auto intro: exI [of _ 0])
  next
    case True
    then have "seccomp_clone_loop grant fs (copy @ [f]) ?h1 = (out, h')"
      using Cons.prems(1,3) by (simp add: build_wf)
    with Cons.IH [of "copy @ [f]" ?h1] Cons.prems(1,2)
    consider "out = copy @ f # fs" "kh_live h' = kh_live h + Suc (length fs)"
        "\<forall>i < length fs. grant (Suc (kh_requests h + i))"
      | "out = []" "kh_live h' = kh_live h - length copy"
        "\<exists>i < length fs. \<not> grant (Suc (kh_requests h + i))"
      by auto
    then show ?thesis
    proof cases
      case 1
      with True show ?thesis by (auto simp: less_Suc_eq_0_disj)
    next
      case 2
      then show ?thesis by (auto simp: Ex_less_Suc2)
    qed
  qed
qed simp

section \<open>Properties\<close>

text \<open>
  C11: An accepted filter whose unconditional jumps do not wrap and whose shifts are by constants below
  32 always returns a verdict on a 64-byte argument block, without any access outside the program, the
  scratch memory or the argument block: the interpreter terminates and is free of undefined behaviour.
\<close>

theorem bpf_run_total:
  assumes "filter_tame f" "length data = 64"
  shows "\<exists>v. bpf_run f data = Some (Value v)"
  using tame_runs [OF assms] by (simp add: run_value_defined)

definition deny_write :: seccomp_filter where
  "deny_write = \<lparr>f_len = 4, f_insns =
     [\<lparr>i_code = 0x20, i_jt = 0, i_jf = 0, i_k = 0\<rparr>,
      \<lparr>i_code = 0x15, i_jt = 1, i_jf = 0, i_k = 1\<rparr>,
      \<lparr>i_code = 0x06, i_jt = 0, i_jf = 0, i_k = 0x7fff0000\<rparr>,
      \<lparr>i_code = 0x06, i_jt = 0, i_jf = 0, i_k = 0\<rparr>]\<rparr>"

lemma deny_write_tame: "filter_tame deny_write"
  by (simp add: filter_tame_def filter_wf_def deny_write_def bpf_valid_def bpf_insn_valid_def
      jump_forward_def shift_const_def bpf_const upt_rec)

theorem bpf_run_total_witness:
  "\<exists>v. bpf_run deny_write (replicate 64 0) = Some (Value v)"
  using bpf_run_total [OF deny_write_tame, of "replicate 64 0"] by simp

text \<open>
  C37: Finding. The target check of an unconditional jump is computed modulo \<open>2^32\<close>, so the acceptance
  check passes a one-instruction filter that jumps to itself; running it never returns, whatever the
  system call.
\<close>

definition spin_insn :: seccomp_insn where
  "spin_insn = \<lparr>i_code = 0x05, i_jt = 0, i_jf = 0, i_k = 0xffffffff\<rparr>"

lemma spin_step:
  "b_pc s = 0 \<Longrightarrow> bpf_step \<lparr>f_len = 1, f_insns = [spin_insn]\<rparr> data s = Next s"
  by (cases s) (simp add: bpf_step_def bpf_exec_def bpf_jmp_def spin_insn_def bpf_const)

lemma spin_loop:
  assumes "bpf_loop flt data s = Some r"
  shows "\<not> (flt = \<lparr>f_len = 1, f_insns = [spin_insn]\<rparr> \<and> b_pc s = 0)"
proof (rule bpf_loop.raw_induct [OF _ assms])
  fix rec flt data s r
  assume ih: "\<And>flt data s r. rec flt data s = Some r \<Longrightarrow>
      \<not> (flt = \<lparr>f_len = 1, f_insns = [spin_insn]\<rparr> \<and> b_pc s = 0)"
    and run: "(case bpf_step flt data s of Next x \<Rightarrow> rec flt data x | Done v \<Rightarrow> Some (Value v)
      | Fault \<Rightarrow> Some Undefined) = Some r"
  then show "\<not> (flt = \<lparr>f_len = 1, f_insns = [spin_insn]\<rparr> \<and> b_pc s = 0)"
    by (auto simp: spin_step)
qed

theorem bpf_valid_accepts_divergence:
  "bpf_valid [spin_insn] 1 \<and> bpf_run \<lparr>f_len = 1, f_insns = [spin_insn]\<rparr> data = None"
proof
  have "\<not> 1 \<le> (0x100000000 :: u32)" by (simp add: word_nat)
  then show "bpf_valid [spin_insn] 1"
    by (simp add: bpf_valid_def bpf_insn_valid_def spin_insn_def bpf_const)
  show "bpf_run \<lparr>f_len = 1, f_insns = [spin_insn]\<rparr> data = None"
  proof (cases "bpf_run \<lparr>f_len = 1, f_insns = [spin_insn]\<rparr> data")
    case (Some r)
    with spin_loop show ?thesis by (fastforce simp: bpf_run_def bpf_init_def)
  qed
qed

text \<open>
  C14: The verdict of a chain of terminating filters is the most restrictive of their verdicts: it is the
  default or one of them, no filter has a more restrictive one, and putting a filter in front of the
  chain never relaxes the verdict.
\<close>

theorem chain_most_restrictive:
  assumes "\<And>f. f \<in> set (g # fs) \<Longrightarrow> \<exists>v. bpf_run f data = Some (Value v)"
  shows "\<exists>v w. chain_result fs data = Some (Value v) \<and> chain_result (g # fs) data = Some (Value w) \<and>
    (v = SECCOMP_RET_ALLOW \<or> (\<exists>f \<in> set fs. bpf_run f data = Some (Value v))) \<and>
    (\<forall>f \<in> set fs. \<forall>u. bpf_run f data = Some (Value u) \<longrightarrow>
       action_rank (v AND 0xffff0000) \<le> action_rank (u AND 0xffff0000)) \<and>
    action_rank (w AND 0xffff0000) \<le> action_rank (v AND 0xffff0000)"
proof -
  from assms have "\<And>f. f \<in> set (g # fs) \<Longrightarrow> run_value f data \<noteq> None"
    and *: "\<And>f. f \<in> set fs \<Longrightarrow> run_value f data \<noteq> None"
    by (simp_all add: run_value_defined)
  from sc.install_restricts [of g fs data, OF this(1)] sc.chain_verdict [of fs data, OF *]
  show ?thesis by (auto simp: verdict_rank_def)
qed

theorem chain_most_restrictive_witness:
  "\<exists>v w. chain_result [deny_write] (replicate 64 0) = Some (Value v) \<and>
     chain_result [deny_write, deny_write] (replicate 64 0) = Some (Value w) \<and>
     action_rank (w AND 0xffff0000) \<le> action_rank (v AND 0xffff0000)"
  using chain_most_restrictive [of deny_write "[deny_write]" "replicate 64 0"]
    tame_runs [OF deny_write_tame, of "replicate 64 0"] by (auto simp: run_value_defined)

text \<open>
  Copying a chain of accepted filters gives an exact copy with one block per filter, or, when some
  allocation is refused, the empty chain with every block of the partial copy released.
\<close>

theorem chain_clone_exact:
  assumes "\<And>f. f \<in> set fs \<Longrightarrow> filter_wf f" "seccomp_chain_clone grant fs h = (out, h')"
  shows "out = fs \<and> kh_live h' = kh_live h + length fs \<or>
    out = [] \<and> kh_live h' = kh_live h \<and> (\<exists>i < length fs. \<not> grant (kh_requests h + i))"
  using clone_loop_cases [of fs "[]" h grant out h'] assms by (auto simp: seccomp_chain_clone_def)

theorem chain_clone_exact_witness:
  "let (out, h') = seccomp_chain_clone (\<lambda>n. n \<noteq> 1) [deny_write, deny_write] \<lparr>kh_requests = 0, kh_live = 5\<rparr>
   in out = [] \<and> kh_live h' = 5"
proof -
  obtain out h' where r: "seccomp_chain_clone (\<lambda>n. n \<noteq> 1) [deny_write, deny_write]
      \<lparr>kh_requests = 0, kh_live = 5\<rparr> = (out, h')" by (metis surj_pair)
  have wf: "filter_wf deny_write" using deny_write_tame by (simp add: filter_tame_def)
  have "out = []" using r by (simp add: seccomp_chain_clone_def build_wf [OF wf])
  with chain_clone_exact [OF _ r] wf r show ?thesis by auto
qed


end
