(* ===== verification/Proc.thy ===== *)
theory Proc
  imports Bpf
begin

text \<open>
  The process table and the scheduler queue, \<open>src/kernel/proc/proc.h\<close> and \<open>src/kernel/proc/proc.c\<close>:
  slot allocation with its kernel stack, reference counts, lookup by process id, the ready bit mask, the
  round-robin choice of the next process, the claim of a process by a processor, blocking and the
  hand-over of a wake-up.

  A process is the index of its slot. Spin locks are not modelled: an operation that holds the table
  lock throughout is one step, and the lock-free ones are also given as separate atomic steps where their
  interleaving matters. Context switches are outcomes of the operation that performs them.
\<close>

section \<open>Data\<close>

datatype proc_state =
  PROC_UNUSED | PROC_RUNNING | PROC_READY | PROC_WAITING | PROC_ZOMBIE | PROC_DYING | PROC_STOPPED
| PROC_EMBRYO | PROC_QUARANTINED

definition PROC_MAX :: nat where "PROC_MAX = 64"
definition KSTACK_PAGES :: nat where "KSTACK_PAGES = 16"
definition PAGE_SIZE :: u64 where "PAGE_SIZE = 4096"
definition KSTACK_SIZE :: u64 where "KSTACK_SIZE = of_nat KSTACK_PAGES * 4096"
definition KSTACK_VA_BASE :: u64 where "KSTACK_VA_BASE = 0xffff920000000000"
definition KSTACK_VA_STRIDE :: u64 where "KSTACK_VA_STRIDE = (of_nat KSTACK_PAGES + 1) * PAGE_SIZE"
definition CAP_LAST_CAP :: nat where "CAP_LAST_CAP = 40"
definition CAP_FULL_MASK :: u64 where "CAP_FULL_MASK = mask_bit (CAP_LAST_CAP + 1) - 1"

record k_sigaction =
  sa_handler :: u64
  sa_flags :: u64
  sa_restorer :: u64
  sa_mask :: u64

text \<open>
  The fields of \<open>proc_t\<close> that the modelled components read or write. Character arrays are strings up
  to their terminator; pointers to address spaces, pipes and namespace
  proxies are optional indices, index 0 being the kernel space and the initial proxy.
\<close>

record proc =
  p_state :: proc_state
  p_pgid :: int
  p_pid :: u32
  p_ppid :: u32
  p_space :: "nat option"
  p_kstack :: u64
  p_kstack_top :: u64
  p_kstack_rsp :: u64
  p_exit_code :: int
  p_wait_for :: int
  p_refcount :: u32
  p_brk :: u64
  p_brk_base :: u64
  p_mmap_bump :: u64
  p_fds :: bool
  p_fds_refcnt :: "u32 option"
  p_pending_sigs :: u64
  p_sig_mask :: u64
  p_sig_actions :: "k_sigaction list"
  p_cwd :: string
  p_wakeup_tick :: u64
  p_alarm_tick :: u64
  p_exe_path :: string
  p_cleartid_addr :: u64
  p_is_thread :: u8
  p_tgid :: u32
  p_uid :: u32
  p_gid :: u32
  p_euid :: u32
  p_egid :: u32
  p_suid :: u32
  p_sgid :: u32
  p_fsuid :: u32
  p_fsgid :: u32
  p_umask :: u32
  p_kstack_guard :: u64
  p_itimer_value_ms :: u64
  p_itimer_interval_ms :: u64
  p_itimer_next_tick :: u64
  p_blocked_pipe :: "nat option"
  p_blocked_pipe_read :: int
  p_sig_altstack_sp :: u64
  p_sig_altstack_size :: u64
  p_on_sigstack :: u8
  p_jail_id :: u32
  p_jail_exempt :: u8
  p_tracer_pid :: u32
  p_ptrace_stopped :: u8
  p_ptrace_reported :: u8
  p_ptrace_stop_sig :: u8
  p_ptrace_step :: u8
  p_ptrace_frame_kind :: u8
  p_stop_sig :: u8
  p_stop_reported :: u8
  p_job_stopped :: u8
  p_sup_groups :: "u32 list"
  p_ngroups :: int
  p_nsproxy :: "nat option"
  p_cap_effective :: u64
  p_cap_permitted :: u64
  p_cap_inheritable :: u64
  p_cap_bounding :: u64
  p_cap_ambient :: u64
  p_seccomp_filter :: "seccomp_filter list"
  p_seccomp_mode :: u8
  p_no_new_privs :: u8
  p_keepcaps :: u8
  p_dumpable :: u8
  p_child_subreaper :: u8
  p_pdeathsig :: int
  p_comm :: string
  p_exit_signal :: u8

text \<open>\<open>memset(p, 0, sizeof(*p))\<close>.\<close>

definition zero_proc :: proc where
  "zero_proc = \<lparr>p_state = PROC_UNUSED, p_pgid = 0, p_pid = 0, p_ppid = 0, p_space = None, p_kstack = 0,
     p_kstack_top = 0, p_kstack_rsp = 0, p_exit_code = 0, p_wait_for = 0, p_refcount = 0, p_brk = 0,
     p_brk_base = 0, p_mmap_bump = 0, p_fds = False, p_fds_refcnt = None, p_pending_sigs = 0,
     p_sig_mask = 0, p_sig_actions = replicate 64 \<lparr>sa_handler = 0, sa_flags = 0, sa_restorer = 0,
       sa_mask = 0\<rparr>, p_cwd = [], p_wakeup_tick = 0, p_alarm_tick = 0, p_exe_path = [],
     p_cleartid_addr = 0, p_is_thread = 0, p_tgid = 0, p_uid = 0, p_gid = 0, p_euid = 0, p_egid = 0,
     p_suid = 0, p_sgid = 0, p_fsuid = 0, p_fsgid = 0, p_umask = 0, p_kstack_guard = 0,
     p_itimer_value_ms = 0, p_itimer_interval_ms = 0, p_itimer_next_tick = 0, p_blocked_pipe = None,
     p_blocked_pipe_read = 0, p_sig_altstack_sp = 0, p_sig_altstack_size = 0, p_on_sigstack = 0,
     p_jail_id = 0, p_jail_exempt = 0, p_tracer_pid = 0, p_ptrace_stopped = 0, p_ptrace_reported = 0,
     p_ptrace_stop_sig = 0, p_ptrace_step = 0, p_ptrace_frame_kind = 0, p_stop_sig = 0,
     p_stop_reported = 0, p_job_stopped = 0, p_sup_groups = replicate 64 0, p_ngroups = 0,
     p_nsproxy = None, p_cap_effective = 0, p_cap_permitted = 0, p_cap_inheritable = 0,
     p_cap_bounding = 0, p_cap_ambient = 0, p_seccomp_filter = [], p_seccomp_mode = 0,
     p_no_new_privs = 0, p_keepcaps = 0, p_dumpable = 0, p_child_subreaper = 0, p_pdeathsig = 0,
     p_comm = [], p_exit_signal = 0\<rparr>"

text \<open>
  The global state: the table and its masks, the position of the round robin and the idle process of
  each processor, the address of the next kernel stack, and the resources that slots hold: the kernel
  page mappings (0 is unmapped) and the numbers of physical pages and heap blocks in use.
\<close>

record kern =
  g_proctable :: "proc list"
  g_ready_mask :: u64
  g_used_mask :: u64
  g_timer_mask :: u64
  g_last_scheduled :: "u32 list"
  g_idle :: "nat option list"
  g_kstack_va_bump :: u64
  k_map :: "u64 \<Rightarrow> u64"
  k_pages :: nat
  k_blocks :: nat
  k_page_reqs :: nat
  k_map_reqs :: nat
  k_heap_reqs :: nat
  init_nsproxy_refcnt :: u32

text \<open>
  What the memory managers answer: the page that the \<open>n\<close>-th page request gets (0 when there is none),
  and whether the \<open>n\<close>-th mapping and the \<open>n\<close>-th heap request succeed.
\<close>

record mem_env =
  page_at :: "nat \<Rightarrow> u64"
  map_ok :: "nat \<Rightarrow> bool"
  heap_ok :: "nat \<Rightarrow> bool"

abbreviation proc_at :: "kern \<Rightarrow> nat \<Rightarrow> proc" where
  "proc_at k i \<equiv> g_proctable k ! i"

abbreviation upd_proc :: "nat \<Rightarrow> (proc \<Rightarrow> proc) \<Rightarrow> kern \<Rightarrow> kern" where
  "upd_proc i f k \<equiv> k\<lparr>g_proctable := (g_proctable k)[i := f (g_proctable k ! i)]\<rparr>"

abbreviation set_state :: "nat \<Rightarrow> proc_state \<Rightarrow> kern \<Rightarrow> kern" where
  "set_state i st \<equiv> upd_proc i (\<lambda>p. p\<lparr>p_state := st\<rparr>)"

section \<open>Slots and masks\<close>

definition proc_slot_of_pid :: "u32 \<Rightarrow> kern \<Rightarrow> nat option" where
  "proc_slot_of_pid pid k =
     (if pid = 0 \<or> of_nat PROC_MAX < pid then None
      else
        let i = unat (pid - 1) in
        if p_pid (proc_at k i) \<noteq> pid then None
        else if p_state (proc_at k i) = PROC_UNUSED \<or> p_state (proc_at k i) = PROC_EMBRYO then None
        else Some i)"

definition proc_set_ready :: "nat \<Rightarrow> kern \<Rightarrow> kern" where
  "proc_set_ready i k =
     k\<lparr>g_used_mask := g_used_mask k OR mask_bit i, g_ready_mask := g_ready_mask k OR mask_bit i\<rparr>"

definition proc_publish_ready :: "nat \<Rightarrow> kern \<Rightarrow> kern" where
  "proc_publish_ready i k = proc_set_ready i (set_state i PROC_READY k)"

definition proc_clear_ready :: "nat \<Rightarrow> kern \<Rightarrow> kern" where
  "proc_clear_ready i k = k\<lparr>g_ready_mask := g_ready_mask k AND NOT (mask_bit i)\<rparr>"

definition proc_set_used :: "nat \<Rightarrow> kern \<Rightarrow> kern" where
  "proc_set_used i k = k\<lparr>g_used_mask := g_used_mask k OR mask_bit i\<rparr>"

definition proc_clear_used :: "nat \<Rightarrow> kern \<Rightarrow> kern" where
  "proc_clear_used i k =
     k\<lparr>g_used_mask := g_used_mask k AND NOT (mask_bit i),
       g_ready_mask := g_ready_mask k AND NOT (mask_bit i),
       g_timer_mask := g_timer_mask k AND NOT (mask_bit i)\<rparr>"

definition proc_set_timer :: "nat \<Rightarrow> kern \<Rightarrow> kern" where
  "proc_set_timer i k = k\<lparr>g_timer_mask := g_timer_mask k OR mask_bit i\<rparr>"

definition proc_ref :: "nat \<Rightarrow> kern \<Rightarrow> kern" where
  "proc_ref i = upd_proc i (\<lambda>p. p\<lparr>p_refcount := p_refcount p + 1\<rparr>)"

section \<open>Kernel stacks\<close>

definition kstack_va :: "u64 \<Rightarrow> nat \<Rightarrow> u64" where
  "kstack_va guard pg = guard + PAGE_SIZE + of_nat pg * PAGE_SIZE"

text \<open>\<open>vmm_virt_to_phys\<close>, \<open>vmm_unmap\<close> and \<open>pmm_free\<close> on one page of a stack.\<close>

definition kstack_release_page :: "u64 \<Rightarrow> kern \<Rightarrow> kern" where
  "kstack_release_page va k =
     (let pa = k_map k va; k = k\<lparr>k_map := (k_map k)(va := 0)\<rparr> in
      if pa \<noteq> 0 then k\<lparr>k_pages := k_pages k - 1\<rparr> else k)"

definition kstack_release :: "u64 \<Rightarrow> nat list \<Rightarrow> kern \<Rightarrow> kern" where
  "kstack_release guard pgs k = fold (\<lambda>pg. kstack_release_page (kstack_va guard pg)) pgs k"

definition proc_kstack_free :: "nat \<Rightarrow> kern \<Rightarrow> kern" where
  "proc_kstack_free i k =
     (if p_kstack_guard (proc_at k i) = 0 then k
      else upd_proc i (\<lambda>p. p\<lparr>p_kstack_guard := 0, p_kstack := 0\<rparr>)
             (kstack_release (p_kstack_guard (proc_at k i)) [0..<KSTACK_PAGES] k))"

definition proc_unref :: "nat \<Rightarrow> kern \<Rightarrow> kern" where
  "proc_unref i k =
     (let old = p_refcount (proc_at k i);
          k = upd_proc i (\<lambda>p. p\<lparr>p_refcount := p_refcount p - 1\<rparr>) k
      in if old = 1
         then proc_clear_used i (set_state i PROC_UNUSED (proc_kstack_free i k))
         else k)"

text \<open>
  The mapping loop of a new stack: the page number at which a page or a mapping was refused, if any. A
  page that cannot be mapped is given back at once.
\<close>

fun kstack_map :: "mem_env \<Rightarrow> u64 \<Rightarrow> nat list \<Rightarrow> kern \<Rightarrow> nat option \<times> kern" where
  "kstack_map env guard [] k = (None, k)"
| "kstack_map env guard (pg # pgs) k =
     (let phys = page_at env (k_page_reqs k); k = k\<lparr>k_page_reqs := k_page_reqs k + 1\<rparr> in
      if phys = 0 then (Some pg, k)
      else
        let k = k\<lparr>k_pages := k_pages k + 1\<rparr>; ok = map_ok env (k_map_reqs k);
            k = k\<lparr>k_map_reqs := k_map_reqs k + 1\<rparr>
        in if \<not> ok then (Some pg, k\<lparr>k_pages := k_pages k - 1\<rparr>)
           else kstack_map env guard pgs (k\<lparr>k_map := (k_map k)(kstack_va guard pg := phys)\<rparr>))"

definition proc_release_slot :: "nat \<Rightarrow> kern \<Rightarrow> kern" where
  "proc_release_slot i k = proc_clear_used i (set_state i PROC_UNUSED k)"

definition kheap_request :: "mem_env \<Rightarrow> kern \<Rightarrow> bool \<times> kern" where
  "kheap_request env k =
     (let ok = heap_ok env (k_heap_reqs k); k = k\<lparr>k_heap_reqs := k_heap_reqs k + 1\<rparr> in
      (ok, if ok then k\<lparr>k_blocks := k_blocks k + 1\<rparr> else k))"

text \<open>The fresh slot: cleared, marked used, with its identity and the address of its stack taken.\<close>

definition alloc_slot :: "u32 \<Rightarrow> nat \<Rightarrow> kern \<Rightarrow> kern" where
  "alloc_slot ppid i k =
     proc_set_used i (k\<lparr>g_proctable := (g_proctable k)[i := zero_proc\<lparr>p_state := PROC_EMBRYO,
       p_pid := of_nat (i + 1), p_tgid := of_nat (i + 1), p_ppid := ppid, p_pgid := int (i + 1),
       p_wait_for := 0, p_refcount := 1\<rparr>], g_kstack_va_bump := g_kstack_va_bump k + KSTACK_VA_STRIDE\<rparr>)"

text \<open>
  \<open>proc_alloc\<close>. The table lock is held from the choice of the slot to the return. Heap blocks: the
  descriptor table and its reference count.
\<close>

definition proc_alloc :: "mem_env \<Rightarrow> u32 \<Rightarrow> kern \<Rightarrow> nat option \<times> kern" where
  "proc_alloc env ppid k =
     (case find_index (\<lambda>p. p_state p = PROC_UNUSED) (g_proctable k) of
        None \<Rightarrow> (None, k)
      | Some i \<Rightarrow>
          let guard_va = g_kstack_va_bump k; k = alloc_slot ppid i k
          in (case kstack_map env guard_va [0..<KSTACK_PAGES] k of
                (Some pg, k) \<Rightarrow> (None, proc_release_slot i (kstack_release guard_va [0..<pg] k))
              | (None, k) \<Rightarrow>
                  let k = upd_proc i (\<lambda>p. p\<lparr>p_kstack_guard := guard_va,
                        p_kstack := guard_va + PAGE_SIZE,
                        p_kstack_top := guard_va + KSTACK_VA_STRIDE\<rparr>) k;
                      (ok, k) = kheap_request env k
                  in if \<not> ok then (None, proc_release_slot i (proc_kstack_free i k))
                     else
                       let k = upd_proc i (\<lambda>p. p\<lparr>p_fds := True\<rparr>) k; (ok, k) = kheap_request env k
                       in if \<not> ok
                          then (None, proc_release_slot i (proc_kstack_free i
                                 (upd_proc i (\<lambda>p. p\<lparr>p_fds := False\<rparr>) (k\<lparr>k_blocks := k_blocks k - 1\<rparr>))))
                          else
                            let k = k\<lparr>init_nsproxy_refcnt := init_nsproxy_refcnt k + 1\<rparr>
                            in (Some i, upd_proc i (\<lambda>p. p\<lparr>p_fds_refcnt := Some 1, p_nsproxy := Some 0,
                                  p_mmap_bump := 0x0000500000000000, p_umask := 18, p_cwd := ''/'',
                                  p_cap_effective := CAP_FULL_MASK, p_cap_permitted := CAP_FULL_MASK,
                                  p_cap_inheritable := CAP_FULL_MASK, p_cap_bounding := CAP_FULL_MASK,
                                  p_dumpable := 1, p_comm := ''kx''\<rparr>) k)))"

definition proc_find :: "u32 \<Rightarrow> kern \<Rightarrow> nat option \<times> kern" where
  "proc_find pid k =
     (case find_index (\<lambda>p. p_state p \<noteq> PROC_UNUSED \<and> p_state p \<noteq> PROC_EMBRYO \<and> p_pid p = pid)
             (g_proctable k) of
        None \<Rightarrow> (None, k)
      | Some i \<Rightarrow> (Some i, proc_ref i k))"

section \<open>Choosing and claiming the next process\<close>

text \<open>One of the two scans of the ready mask: slots \<open>start + bit\<close>, lowest bit first.\<close>

function ready_scan :: "kern \<Rightarrow> nat option \<Rightarrow> nat \<Rightarrow> u64 \<Rightarrow> nat option" where
  "ready_scan k skip start m =
     (if m = 0 then None
      else
        let b = ctzll m + start in
        if skip \<noteq> Some b \<and> p_pid (proc_at k b) \<noteq> 0 then Some b
        else ready_scan k skip start (m AND (m - 1)))"
  by pat_completeness auto
termination
  by (relation "measure (\<lambda>(k, skip, start, m). unat m)") (auto simp: clear_lowest_less)

declare ready_scan.simps [simp del]

definition proc_next_ready :: "nat \<Rightarrow> nat option \<Rightarrow> kern \<Rightarrow> nat option \<times> kern" where
  "proc_next_ready cpu skip k =
     (let ready = g_ready_mask k; start = (unat (g_last_scheduled k ! cpu) + 1) mod PROC_MAX;
          found = (\<lambda>b. (Some b, k\<lparr>g_last_scheduled := (g_last_scheduled k)[cpu := of_nat b]\<rparr>))
      in case ready_scan k skip start (drop_bit start ready) of
           Some b \<Rightarrow> found b
         | None \<Rightarrow>
             (case ready_scan k skip 0 (ready AND (mask_bit start - 1)) of
                Some b \<Rightarrow> found b
              | None \<Rightarrow> (None, k)))"

definition state_cas :: "nat \<Rightarrow> proc_state \<Rightarrow> proc_state \<Rightarrow> kern \<Rightarrow> bool \<times> kern" where
  "state_cas i old new k =
     (if p_state (proc_at k i) = old then (True, set_state i new k) else (False, k))"

fun sched_claim_loop :: "nat \<Rightarrow> nat \<Rightarrow> nat option \<Rightarrow> kern \<Rightarrow> nat option \<times> kern" where
  "sched_claim_loop 0 cpu skip k = (None, k)"
| "sched_claim_loop (Suc tries) cpu skip k =
     (case proc_next_ready cpu skip k of
        (None, k) \<Rightarrow> (None, k)
      | (Some nxt, k) \<Rightarrow>
          let (won, k) = state_cas nxt PROC_READY PROC_RUNNING k in
          if won then (Some nxt, proc_clear_ready nxt k)
          else if p_state (proc_at k nxt) \<noteq> PROC_READY
          then sched_claim_loop tries cpu skip (proc_clear_ready nxt k)
          else sched_claim_loop tries cpu skip k)"

definition sched_claim_next :: "nat \<Rightarrow> nat option \<Rightarrow> kern \<Rightarrow> nat option \<times> kern" where
  "sched_claim_next cpu skip k = sched_claim_loop PROC_MAX cpu skip k"

section \<open>Blocking and yielding\<close>

text \<open>
  Where control goes: back to the caller at once, to another process (the caller is switched out), or
  into the interrupt-enabled wait of a processor that has nothing to run.
\<close>

datatype sched_out = Resumed kern | Switched nat kern | Spinning kern

definition sched_block_round :: "nat \<Rightarrow> nat \<Rightarrow> kern \<Rightarrow> sched_out" where
  "sched_block_round cpu p k =
     (case sched_claim_next cpu (Some p) k of
        (Some nxt, k) \<Rightarrow> Switched nxt k
      | (None, k) \<Rightarrow>
          (case g_idle k ! cpu of
             None \<Rightarrow> Spinning k
           | Some idle \<Rightarrow>
               if p_state (proc_at k idle) = PROC_UNUSED then Spinning k
               else Switched idle (set_state idle PROC_RUNNING k)))"

definition sched_block_current :: "nat \<Rightarrow> nat \<Rightarrow> kern \<Rightarrow> sched_out" where
  "sched_block_current cpu p k =
     (let k = proc_clear_ready p k; (won, k) = state_cas p PROC_READY PROC_RUNNING k in
      if won then Resumed (proc_clear_ready p k)
      else sched_block_round cpu p k)"

text \<open>The check after the wait, and the code after the switch back.\<close>

definition sched_block_poll :: "nat \<Rightarrow> nat \<Rightarrow> kern \<Rightarrow> sched_out" where
  "sched_block_poll cpu p k =
     (if p_state (proc_at k p) = PROC_READY
      then Resumed (set_state p PROC_RUNNING (proc_clear_ready p k))
      else sched_block_round cpu p k)"

definition sched_switch_back :: "nat \<Rightarrow> kern \<Rightarrow> kern" where
  "sched_switch_back p k = set_state p PROC_RUNNING k"

definition sched_yield_blocking :: "nat \<Rightarrow> nat \<Rightarrow> kern \<Rightarrow> sched_out" where
  "sched_yield_blocking cpu p k = sched_block_current cpu p (set_state p PROC_WAITING k)"

definition sched_yield :: "nat \<Rightarrow> nat option \<Rightarrow> kern \<Rightarrow> sched_out" where
  "sched_yield cpu cur k =
     (case cur of
        None \<Rightarrow> Resumed k
      | Some p \<Rightarrow>
          (case sched_claim_next cpu (Some p) k of
             (None, k) \<Rightarrow> Resumed k
           | (Some nxt, k) \<Rightarrow> Switched nxt (proc_set_ready p (set_state p PROC_READY k))))"

section \<open>Idle and kernel processes\<close>

text \<open>
  The rollback of \<open>proc_create_idle\<close> unmaps the pages and does not look up or free them.
\<close>

definition idle_unmap :: "u64 \<Rightarrow> nat list \<Rightarrow> kern \<Rightarrow> kern" where
  "idle_unmap guard pgs k =
     fold (\<lambda>pg k. k\<lparr>k_map := (k_map k)(kstack_va guard pg := 0)\<rparr>) pgs k"

definition idle_slot :: "nat \<Rightarrow> kern \<Rightarrow> kern" where
  "idle_slot i k =
     proc_set_ready i (k\<lparr>g_proctable := (g_proctable k)[i := zero_proc\<lparr>p_state := PROC_READY,
       p_pid := 0, p_ppid := 0, p_space := Some 0, p_fds := False\<rparr>],
       g_kstack_va_bump := g_kstack_va_bump k + KSTACK_VA_STRIDE\<rparr>)"

definition proc_create_idle :: "mem_env \<Rightarrow> kern \<Rightarrow> nat option \<times> kern" where
  "proc_create_idle env k =
     (case find_index (\<lambda>p. p_state p = PROC_UNUSED) (g_proctable k) of
        None \<Rightarrow> (None, k)
      | Some i \<Rightarrow>
          let guard_va = g_kstack_va_bump k; k = idle_slot i k
          in (case kstack_map env guard_va [0..<KSTACK_PAGES] k of
                (Some pg, k) \<Rightarrow> (None, proc_release_slot i (idle_unmap guard_va [0..<pg] k))
              | (None, k) \<Rightarrow>
                  (Some i, upd_proc i (\<lambda>p. p\<lparr>p_kstack_guard := guard_va,
                      p_kstack := guard_va + PAGE_SIZE, p_kstack_top := guard_va + KSTACK_VA_STRIDE,
                      p_kstack_rsp := guard_va + PAGE_SIZE + KSTACK_SIZE - 56\<rparr>) k)))"

definition proc_create_kernel :: "mem_env \<Rightarrow> string option \<Rightarrow> bool \<Rightarrow> kern \<Rightarrow> nat option \<times> kern" where
  "proc_create_kernel env name entry k =
     (if \<not> entry then (None, k)
      else
        (case proc_alloc env 0 k of
           (None, k) \<Rightarrow> (None, k)
         | (Some i, k) \<Rightarrow>
             let k = upd_proc i (\<lambda>p. p\<lparr>p_space := Some 0, p_is_thread := 1, p_jail_id := 0, p_jail_exempt := 1,
                   p_exe_path := (case name of None \<Rightarrow> p_exe_path p | Some n \<Rightarrow> take 511 n),
                   p_kstack_rsp := p_kstack p + KSTACK_SIZE - 56\<rparr>) k
             in (Some i, proc_publish_ready i k)))"

definition proc_init :: "kern \<Rightarrow> kern" where
  "proc_init k = k\<lparr>g_proctable := replicate PROC_MAX zero_proc\<rparr>"

section \<open>The table invariant\<close>

text \<open>
  Slot \<open>i\<close> of the table: a process id is 0 (idle processes and never-used slots) or \<open>i + 1\<close>; a slot
  is marked in the used mask exactly when it is not free; a ready bit belongs to a used slot; and a
  process in the ready state has its ready bit, so that the scheduler finds it.
\<close>

definition slot_wf :: "kern \<Rightarrow> nat \<Rightarrow> bool" where
  "slot_wf k i \<longleftrightarrow>
     (p_pid (proc_at k i) = 0 \<or> p_pid (proc_at k i) = of_nat (i + 1)) \<and>
     (bit (g_used_mask k) i \<longleftrightarrow> p_state (proc_at k i) \<noteq> PROC_UNUSED) \<and>
     (bit (g_ready_mask k) i \<longrightarrow> bit (g_used_mask k) i) \<and>
     (p_state (proc_at k i) = PROC_READY \<longrightarrow> bit (g_ready_mask k) i)"

definition kern_wf :: "kern \<Rightarrow> bool" where
  "kern_wf k \<longleftrightarrow> length (g_proctable k) = PROC_MAX \<and> list_all (slot_wf k) [0..<PROC_MAX]"

lemma PROC_MAX_64 [simp]: "PROC_MAX = 64"
  by (simp add: PROC_MAX_def)

lemma kern_wf_slot: "kern_wf k \<Longrightarrow> i < 64 \<Longrightarrow> slot_wf k i"
  by (simp add: kern_wf_def list_all_iff)

lemma kern_wf_length [simp]: "kern_wf k \<Longrightarrow> length (g_proctable k) = 64"
  by (simp add: kern_wf_def)

lemma kern_wfI:
  "length (g_proctable k) = 64 \<Longrightarrow> (\<And>i. i < 64 \<Longrightarrow> slot_wf k i) \<Longrightarrow> kern_wf k"
  by (simp add: kern_wf_def list_all_iff)

text \<open>Fields the invariant does not read.\<close>

lemma kern_wf_frame [simp]:
  "kern_wf (k\<lparr>g_timer_mask := tm\<rparr>) = kern_wf k"
  "kern_wf (k\<lparr>g_last_scheduled := ls\<rparr>) = kern_wf k"
  "kern_wf (k\<lparr>g_kstack_va_bump := va\<rparr>) = kern_wf k"
  "kern_wf (k\<lparr>k_map := km\<rparr>) = kern_wf k"
  "kern_wf (k\<lparr>k_pages := n\<rparr>) = kern_wf k"
  "kern_wf (k\<lparr>k_blocks := n\<rparr>) = kern_wf k"
  "kern_wf (k\<lparr>k_page_reqs := n\<rparr>) = kern_wf k"
  "kern_wf (k\<lparr>k_map_reqs := n\<rparr>) = kern_wf k"
  "kern_wf (k\<lparr>k_heap_reqs := n\<rparr>) = kern_wf k"
  "kern_wf (k\<lparr>init_nsproxy_refcnt := r\<rparr>) = kern_wf k"
  by (simp_all add: kern_wf_def slot_wf_def [abs_def])

text \<open>
  Every operation changes one slot and its mask bits. The invariant is kept when the changed slot
  satisfies it and the bits of the others stay.
\<close>

lemma kern_wf_change:
  assumes "kern_wf k" "i < 64" "length (g_proctable k') = 64" "slot_wf k' i"
    and "\<And>j. j < 64 \<Longrightarrow> j \<noteq> i \<Longrightarrow> proc_at k' j = proc_at k j \<and>
      bit (g_used_mask k') j = bit (g_used_mask k) j \<and> bit (g_ready_mask k') j = bit (g_ready_mask k) j"
  shows "kern_wf k'"
proof (rule kern_wfI)
  fix j :: nat
  assume "j < 64"
  then show "slot_wf k' j"
    using assms(4,5) kern_wf_slot [OF assms(1), of j] by (cases "j = i") (auto simp: slot_wf_def)
qed (fact assms(3))

lemma upd_proc_wf:
  assumes "kern_wf k" "i < 64" "p_pid (f (proc_at k i)) = p_pid (proc_at k i)"
    and "p_state (f (proc_at k i)) = p_state (proc_at k i)"
  shows "kern_wf (upd_proc i f k)"
  by (rule kern_wf_change [OF assms(1,2)])
    (use assms kern_wf_slot [OF assms(1,2)] in \<open>auto simp: slot_wf_def\<close>)

text \<open>Changing the state keeps the invariant unless it frees the slot or makes it ready.\<close>

lemma set_state_wf:
  assumes "kern_wf k" "i < 64" "p_state (proc_at k i) \<noteq> PROC_UNUSED" "st \<noteq> PROC_UNUSED"
    and "st \<noteq> PROC_READY \<or> bit (g_ready_mask k) i"
  shows "kern_wf (set_state i st k)"
  by (rule kern_wf_change [OF assms(1,2)])
    (use assms kern_wf_slot [OF assms(1,2)] in \<open>auto simp: slot_wf_def\<close>)

lemma publish_ready_wf:
  assumes "kern_wf k" "i < 64"
  shows "kern_wf (proc_set_ready i (set_state i PROC_READY k))"
  by (rule kern_wf_change [OF assms])
    (use assms kern_wf_slot [OF assms] in \<open>auto simp: slot_wf_def proc_set_ready_def\<close>)

lemma clear_ready_wf:
  assumes "kern_wf k" "i < 64" "p_state (proc_at k i) \<noteq> PROC_READY"
  shows "kern_wf (proc_clear_ready i k)"
  by (rule kern_wf_change [OF assms(1,2)])
    (use assms kern_wf_slot [OF assms(1,2)] in \<open>auto simp: slot_wf_def proc_clear_ready_def\<close>)

lemma release_slot_wf:
  assumes "kern_wf k" "i < 64"
  shows "kern_wf (proc_clear_used i (set_state i PROC_UNUSED k))"
  by (rule kern_wf_change [OF assms])
    (use assms kern_wf_slot [OF assms] in \<open>auto simp: slot_wf_def proc_clear_used_def\<close>)

lemma set_ready_wf:
  assumes "kern_wf k" "i < 64" "p_state (proc_at k i) \<noteq> PROC_UNUSED"
  shows "kern_wf (proc_set_ready i k)"
  by (rule kern_wf_change [OF assms(1,2)])
    (use assms kern_wf_slot [OF assms(1,2)] in \<open>auto simp: slot_wf_def proc_set_ready_def\<close>)

lemma proc_ref_wf: "kern_wf k \<Longrightarrow> i < 64 \<Longrightarrow> kern_wf (proc_ref i k)"
  by (simp add: proc_ref_def upd_proc_wf)

lemma kstack_release_page_wf [simp]: "kern_wf (kstack_release_page va k) = kern_wf k"
  by (simp add: kstack_release_page_def Let_def)

lemma kstack_release_wf [simp]: "kern_wf (kstack_release guard pgs k) = kern_wf k"
  by (induction pgs arbitrary: k) (simp_all add: kstack_release_def)

lemma kstack_release_page_frame [simp]:
  "g_proctable (kstack_release_page va k) = g_proctable k"
  "g_ready_mask (kstack_release_page va k) = g_ready_mask k"
  "g_used_mask (kstack_release_page va k) = g_used_mask k"
  by (simp_all add: kstack_release_page_def Let_def)

lemma kstack_release_frame [simp]:
  "g_proctable (kstack_release guard pgs k) = g_proctable k"
  "g_ready_mask (kstack_release guard pgs k) = g_ready_mask k"
  "g_used_mask (kstack_release guard pgs k) = g_used_mask k"
  by (induction pgs arbitrary: k) (simp_all add: kstack_release_def)

lemma proc_kstack_free_wf: "kern_wf k \<Longrightarrow> i < 64 \<Longrightarrow> kern_wf (proc_kstack_free i k)"
  using upd_proc_wf [of "kstack_release (p_kstack_guard (proc_at k i)) [0..<KSTACK_PAGES] k" i
      "\<lambda>p. p\<lparr>p_kstack_guard := 0, p_kstack := 0\<rparr>"]
  by (simp add: proc_kstack_free_def)

lemma proc_unref_wf: "kern_wf k \<Longrightarrow> i < 64 \<Longrightarrow> kern_wf (proc_unref i k)"
  by (auto simp: proc_unref_def Let_def intro!: release_slot_wf proc_kstack_free_wf upd_proc_wf)

text \<open>The three cases of one iteration of the mapping loop.\<close>

lemma kstack_map_Cons_cases:
  assumes "kstack_map env guard (pg # pgs) k = (r, k')"
  obtains (no_page) "r = Some pg" "k' = k\<lparr>k_page_reqs := k_page_reqs k + 1\<rparr>"
  | (no_map) "r = Some pg"
      "k' = k\<lparr>k_page_reqs := k_page_reqs k + 1, k_map_reqs := k_map_reqs k + 1\<rparr>"
  | (mapped) phys where "phys \<noteq> 0"
      "kstack_map env guard pgs (k\<lparr>k_page_reqs := k_page_reqs k + 1, k_pages := k_pages k + 1,
         k_map_reqs := k_map_reqs k + 1, k_map := (k_map k)(kstack_va guard pg := phys)\<rparr>) = (r, k')"
proof (cases "page_at env (k_page_reqs k) = 0")
  case True
  with assms no_page show ?thesis by (simp add: Let_def)
next
  case False
  show ?thesis
  proof (cases "map_ok env (k_map_reqs k)")
    case True
    with False assms mapped show ?thesis by (simp add: Let_def)
  next
    case not_ok: False
    with False assms no_map show ?thesis by (simp add: Let_def)
  qed
qed

lemma kstack_map_frame:
  "kstack_map env guard pgs k = (r, k') \<Longrightarrow>
   kern_wf k' = kern_wf k \<and> g_proctable k' = g_proctable k \<and> g_ready_mask k' = g_ready_mask k \<and>
   g_used_mask k' = g_used_mask k \<and> k_blocks k' = k_blocks k"
proof (induction pgs arbitrary: k)
  case (Cons pg pgs)
  from Cons.prems show ?case
  proof (cases rule: kstack_map_Cons_cases)
    case (mapped phys)
    from Cons.IH [OF mapped(2)] show ?thesis by simp
  qed simp_all
qed simp

lemma free_slot: "find_index (\<lambda>p. p_state p = PROC_UNUSED) (g_proctable k) = Some i \<Longrightarrow> kern_wf k \<Longrightarrow>
    i < 64 \<and> p_state (proc_at k i) = PROC_UNUSED"
  by (auto dest: find_index_SomeD)

section \<open>Choosing the next process\<close>

lemma ready_scan_find:
  "ready_scan k skip start m =
     find (\<lambda>b. skip \<noteq> Some b \<and> p_pid (proc_at k b) \<noteq> 0) (map (\<lambda>b. b + start) (bits_of m))"
proof (induction k skip start m rule: ready_scan.induct)
  case (1 k skip start m)
  show ?case
  proof (cases "m = 0")
    case True
    then show ?thesis by (simp add: ready_scan.simps [of k skip start 0] bits_of_def)
  next
    case False
    then show ?thesis
      using "1.IH" [OF False refl]
      by (auto simp: ready_scan.simps [of k skip start m] bits_of_step [OF False] Let_def)
  qed
qed

text \<open>The slots of the two scans, in the order in which they are visited.\<close>

lemma bits_of_drop:
  assumes "start < 64"
  shows "map (\<lambda>b. b + start) (bits_of (drop_bit start w)) = filter (bit w) [start..<64]"
proof -
  have up: "[0..<64] = [0..<64 - start] @ [64 - start..<64]"
    using assms upt_add_eq_append [of 0 "64 - start" start] by simp
  have none: "filter (bit (drop_bit start w)) [64 - start..<64] = []"
    by (auto simp: filter_empty_conv bit_drop_bit_eq dest: bit_imp_le_length)
  have "map (\<lambda>b. b + start) (filter (bit (drop_bit start w)) [0..<64 - start]) =
      filter (bit w) (map (\<lambda>b. b + start) [0..<64 - start])"
    by (simp add: filter_map o_def bit_drop_bit_eq add.commute)
  also have "map (\<lambda>b. b + start) [0..<64 - start] = [start..<64]"
    using assms by (simp add: map_add_upt)
  finally show ?thesis unfolding bits_of_def up using none by simp
qed

lemma bits_of_low:
  assumes "start < 64"
  shows "bits_of (w AND (mask_bit start - 1)) = filter (bit w) [0..<start]"
proof -
  have m: "bit (mask_bit start - 1) i \<longleftrightarrow> i < start" for i
  proof -
    have "mask_bit start - 1 = mask start" by (simp add: mask_bit_def mask_eq_exp_minus_1)
    then show ?thesis using assms by (auto simp: bit_mask_iff)
  qed
  have up: "[0..<64] = [0..<start] @ [start..<64]"
    using assms upt_add_eq_append [of 0 start "64 - start"] by simp
  have none: "filter (bit (w AND (mask_bit start - 1))) [start..<64] = []"
    by (auto simp: filter_empty_conv bit_and_iff m)
  have "filter (bit (w AND (mask_bit start - 1))) [0..<start] = filter (bit w) [0..<start]"
    by (rule filter_cong) (auto simp: bit_and_iff m)
  then show ?thesis unfolding bits_of_def up using none by simp
qed

text \<open>The round robin of a processor starts after the slot it scheduled last.\<close>

definition rr_start :: "nat \<Rightarrow> kern \<Rightarrow> nat" where
  "rr_start cpu k = (unat (g_last_scheduled k ! cpu) + 1) mod 64"

definition rr_order :: "nat \<Rightarrow> nat list" where
  "rr_order start = [start..<64] @ [0..<start]"

definition runnable :: "kern \<Rightarrow> nat option \<Rightarrow> nat \<Rightarrow> bool" where
  "runnable k skip b \<longleftrightarrow> bit (g_ready_mask k) b \<and> skip \<noteq> Some b \<and> p_pid (proc_at k b) \<noteq> 0"

lemma find_filter: "find P (filter Q xs) = find (\<lambda>x. Q x \<and> P x) xs"
  by (induction xs) auto

lemma find_append: "find P (xs @ ys) = (case find P xs of None \<Rightarrow> find P ys | Some x \<Rightarrow> Some x)"
  by (induction xs) auto

lemma rr_start_less [simp]: "rr_start cpu k < 64"
  by (simp add: rr_start_def)

lemma next_ready_find:
  "proc_next_ready cpu skip k =
     (case find (runnable k skip) (rr_order (rr_start cpu k)) of
        None \<Rightarrow> (None, k)
      | Some b \<Rightarrow> (Some b, k\<lparr>g_last_scheduled := (g_last_scheduled k)[cpu := of_nat b]\<rparr>))"
proof -
  let ?s = "rr_start cpu k"
  have 1: "ready_scan k skip ?s (drop_bit ?s (g_ready_mask k)) = find (runnable k skip) [?s..<64]"
    by (simp add: ready_scan_find bits_of_drop find_filter runnable_def [abs_def])
  have 2: "ready_scan k skip 0 (g_ready_mask k AND (mask_bit ?s - 1)) = find (runnable k skip) [0..<?s]"
    by (simp add: ready_scan_find bits_of_low find_filter runnable_def [abs_def])
  have 3: "(unat (g_last_scheduled k ! cpu) + 1) mod PROC_MAX = ?s" by (simp add: rr_start_def)
  show ?thesis
    unfolding proc_next_ready_def Let_def 3 1 2 rr_order_def find_append
    by (simp split: option.split)
qed

lemma set_rr_order: "start \<le> 64 \<Longrightarrow> set (rr_order start) = {..<64}"
  by (auto simp: rr_order_def)

lemma next_ready_None:
  "proc_next_ready cpu skip k = (None, k') \<Longrightarrow> k' = k \<and> (\<forall>b < 64. \<not> runnable k skip b)"
  by (auto simp: next_ready_find find_None_iff set_rr_order less_imp_le split: option.splits)

text \<open>Distance of a slot from the start of the round robin.\<close>

definition rr_dist :: "nat \<Rightarrow> nat \<Rightarrow> nat" where
  "rr_dist start b = (if start \<le> b then b - start else b + 64 - start)"

lemma rr_order_nth:
  assumes "start < 64" "b < 64"
  shows "rr_order start ! rr_dist start b = b" "rr_dist start b < 64"
  using assms by (auto simp: rr_order_def rr_dist_def nth_append)

lemma rr_order_dist:
  assumes "start < 64" "n < 64"
  shows "rr_dist start (rr_order start ! n) = n"
  using assms by (auto simp: rr_order_def rr_dist_def nth_append)

lemma next_ready_first:
  assumes "proc_next_ready cpu skip k = (Some b, k')"
  shows "b < 64" "runnable k skip b"
    "k' = k\<lparr>g_last_scheduled := (g_last_scheduled k)[cpu := of_nat b]\<rparr>"
    "\<And>j. j < 64 \<Longrightarrow> runnable k skip j \<Longrightarrow> rr_dist (rr_start cpu k) b \<le> rr_dist (rr_start cpu k) j"
proof -
  let ?s = "rr_start cpu k"
  from assms have f: "find (runnable k skip) (rr_order ?s) = Some b"
    and k': "k' = k\<lparr>g_last_scheduled := (g_last_scheduled k)[cpu := of_nat b]\<rparr>"
    by (auto simp: next_ready_find split: option.splits)
  from f obtain n where n: "n < length (rr_order ?s)" "runnable k skip (rr_order ?s ! n)"
    "b = rr_order ?s ! n" "\<forall>m < n. \<not> runnable k skip (rr_order ?s ! m)"
    by (auto simp: find_Some_iff)
  have len: "length (rr_order ?s) = 64" by (simp add: rr_order_def less_imp_le)
  from n(1,3) have "b \<in> set (rr_order ?s)" by simp
  then show "b < 64" by (simp add: set_rr_order less_imp_le)
  show "runnable k skip b" using n by simp
  show "k' = k\<lparr>g_last_scheduled := (g_last_scheduled k)[cpu := of_nat b]\<rparr>" by (fact k')
  fix j
  assume j: "j < 64" "runnable k skip j"
  from rr_order_nth [OF rr_start_less j(1)] j(2) n(4) have "\<not> rr_dist ?s j < n" by metis
  moreover have "rr_dist ?s b = n" using rr_order_dist [of ?s n] n(1,3) len by simp
  ultimately show "rr_dist ?s b \<le> rr_dist ?s j" by simp
qed

text \<open>
  One call of the scheduler either picks slot \<open>j\<close> or brings the start of the round robin closer to it.
\<close>

lemma rr_progress:
  assumes r: "proc_next_ready cpu skip k = (Some b, k')" and j: "j < 64" "runnable k skip j" "b \<noteq> j"
    and cpu: "cpu < length (g_last_scheduled k)"
  shows "rr_dist (rr_start cpu k') j < rr_dist (rr_start cpu k) j"
proof -
  note n = next_ready_first [OF r]
  have "unat (of_nat b :: u32) = b" using n(1) by (simp add: unat_of_nat)
  then have s': "rr_start cpu k' = (b + 1) mod 64" using n(3) cpu by (simp add: rr_start_def)
  obtain s where s: "rr_start cpu k = s" "s < 64" using rr_start_less by blast
  have "rr_dist s b \<le> rr_dist s j" using n(4) [OF j(1,2)] s(1) by simp
  then show ?thesis
    unfolding s(1) s' using n(1) j(1,3) s(2)
    by (cases "b = 63") (auto simp: rr_dist_def split: if_splits)
qed

lemma rr_bounded_wait:
  assumes j: "j < 64"
    and calls: "\<And>i. i < n \<Longrightarrow> proc_next_ready cpu (skip i) (k i) = (Some (r i), k' i)"
    and ready: "\<And>i. i < n \<Longrightarrow> runnable (k i) (skip i) j"
    and cpu: "\<And>i. i < n \<Longrightarrow> cpu < length (g_last_scheduled (k i))"
    and link: "\<And>i. Suc i < n \<Longrightarrow> g_last_scheduled (k (Suc i)) = g_last_scheduled (k' i)"
    and none: "\<And>i. i < n \<Longrightarrow> r i \<noteq> j"
    and i: "i < n"
  shows "rr_dist (rr_start cpu (k i)) j + i \<le> rr_dist (rr_start cpu (k 0)) j"
  using i
proof (induction i)
  case (Suc i)
  have "rr_start cpu (k (Suc i)) = rr_start cpu (k' i)"
    using link [OF Suc.prems] by (simp add: rr_start_def)
  moreover have "rr_dist (rr_start cpu (k' i)) j < rr_dist (rr_start cpu (k i)) j"
    using Suc.prems by (intro rr_progress [OF calls j ready none cpu]) simp_all
  ultimately show ?case using Suc by simp
qed simp

section \<open>Claiming a process\<close>

lemma set_state_simps [simp]:
  "i < length (g_proctable k) \<Longrightarrow> proc_at (set_state i st k) j =
     (if j = i then (proc_at k i)\<lparr>p_state := st\<rparr> else proc_at k j)"
  by (simp add: nth_list_update)

lemma mask_ops_simps [simp]:
  "g_proctable (proc_set_ready i k) = g_proctable k"
  "g_proctable (proc_clear_ready i k) = g_proctable k"
  "g_proctable (proc_clear_used i k) = g_proctable k"
  "g_proctable (proc_set_used i k) = g_proctable k"
  "g_last_scheduled (proc_set_ready i k) = g_last_scheduled k"
  "g_last_scheduled (proc_clear_ready i k) = g_last_scheduled k"
  "g_idle (proc_clear_ready i k) = g_idle k"
  by (simp_all add: proc_set_ready_def proc_clear_ready_def proc_clear_used_def proc_set_used_def)

lemma clear_ready_bit [simp]:
  "i < 64 \<Longrightarrow> bit (g_ready_mask (proc_clear_ready i k)) j \<longleftrightarrow> bit (g_ready_mask k) j \<and> j \<noteq> i"
  by (simp add: proc_clear_ready_def)

lemma card_bits_less:
  assumes "b < 64" "bit (w :: u64) b"
  shows "card {i. bit (w AND NOT (mask_bit b)) i} < card {i. bit w i}"
proof (rule psubset_card_mono)
  have "{i. bit w i} \<subseteq> {..<64}" by (auto dest: bit_imp_le_length)
  then show "finite {i. bit w i}" by (rule finite_subset) simp
  show "{i. bit (w AND NOT (mask_bit b)) i} \<subset> {i. bit w i}" using assms by auto
qed

lemma card_bits_le: "card {i. bit (w :: u64) i} \<le> 64"
proof -
  have "card {i. bit w i} \<le> card {..<64 :: nat}"
    by (rule card_mono) (auto dest: bit_imp_le_length)
  then show ?thesis by simp
qed

text \<open>
  The claim loop on a consistent table: it returns the first process in round-robin order that really is
  ready, after dropping stale ready bits, and gives up only when no ready process is left. The number of
  tries is enough because each failed try clears a bit of the mask.
\<close>

lemma claim_loop_cases:
  assumes "kern_wf k" "sched_claim_loop n cpu skip k = (res, k')" "card {i. bit (g_ready_mask k) i} \<le> n"
  shows "kern_wf k' \<and> length (g_last_scheduled k') = length (g_last_scheduled k) \<and> g_idle k' = g_idle k \<and>
    (case res of
       None \<Rightarrow> g_proctable k' = g_proctable k \<and>
         (\<forall>b < 64. p_state (proc_at k b) = PROC_READY \<longrightarrow> skip = Some b \<or> p_pid (proc_at k b) = 0)
     | Some b \<Rightarrow> b < 64 \<and> p_state (proc_at k b) = PROC_READY \<and> skip \<noteq> Some b \<and>
         p_pid (proc_at k b) \<noteq> 0 \<and> g_proctable k' = g_proctable (set_state b PROC_RUNNING k) \<and>
         \<not> bit (g_ready_mask k') b)"
  using assms
proof (induction n arbitrary: k)
  case 0
  have "finite {i. bit (g_ready_mask k) i}"
    by (rule finite_subset [of _ "{..<64}"]) (auto dest: bit_imp_le_length)
  with 0 have "\<not> bit (g_ready_mask k) b" for b by auto
  with 0 kern_wf_slot [OF 0(1)] show ?case by (auto simp: slot_wf_def)
next
  case (Suc n)
  show ?case
  proof (cases "proc_next_ready cpu skip k")
    case (Pair o1 k1)
    show ?thesis
    proof (cases o1)
      case None
      note nn = next_ready_None [OF Pair [unfolded None]]
      with Suc.prems Pair None kern_wf_slot [OF Suc.prems(1)] show ?thesis
        by (auto simp: runnable_def slot_wf_def)
    next
      case (Some b)
      note nf = next_ready_first [OF Pair [unfolded Some]]
      have k1: "kern_wf k1" "g_proctable k1 = g_proctable k" "g_ready_mask k1 = g_ready_mask k"
        "length (g_last_scheduled k1) = length (g_last_scheduled k)" "g_idle k1 = g_idle k"
        using nf(3) Suc.prems(1) by simp_all
      have b: "b < length (g_proctable k1)" using k1(1) nf(1) by simp
      have elig: "skip \<noteq> Some b" "p_pid (proc_at k b) \<noteq> 0" "bit (g_ready_mask k1) b"
        using nf(2) k1(3) by (simp_all add: runnable_def)
      show ?thesis
      proof (cases "p_state (proc_at k b) = PROC_READY")
        case True
        let ?k2 = "set_state b PROC_RUNNING k1"
        have res: "res = Some b" "k' = proc_clear_ready b ?k2"
          using Suc.prems(2) Pair Some True k1(2) by (simp_all add: state_cas_def)
        have "kern_wf ?k2"
          using set_state_wf [OF k1(1) nf(1), of PROC_RUNNING] True k1(2) by simp
        then have "kern_wf k'" unfolding res(2) using nf(1) k1(1)
          by (intro clear_ready_wf) simp_all
        with res elig nf(1) k1 True show ?thesis by (simp add: proc_clear_ready_def)
      next
        case False
        let ?k2 = "proc_clear_ready b k1"
        have rec: "sched_claim_loop n cpu skip ?k2 = (res, k')"
          using Suc.prems(2) Pair Some False k1(2) by (simp add: state_cas_def)
        have wf2: "kern_wf ?k2" using False k1 nf(1) by (intro clear_ready_wf) simp_all
        have "card {i. bit (g_ready_mask ?k2) i} < card {i. bit (g_ready_mask k1) i}"
          unfolding proc_clear_ready_def using card_bits_less [OF nf(1) elig(3)] by simp
        then have "card {i. bit (g_ready_mask ?k2) i} \<le> n" using Suc.prems(3) k1(3) by simp
        from Suc.IH [OF wf2 rec this] k1 show ?thesis by (cases res) simp_all
      qed
    qed
  qed
qed

lemma claim_next_cases:
  assumes "kern_wf k" "sched_claim_next cpu skip k = (res, k')"
  shows "kern_wf k' \<and> length (g_last_scheduled k') = length (g_last_scheduled k) \<and> g_idle k' = g_idle k \<and>
    (case res of
       None \<Rightarrow> g_proctable k' = g_proctable k \<and>
         (\<forall>b < 64. p_state (proc_at k b) = PROC_READY \<longrightarrow> skip = Some b \<or> p_pid (proc_at k b) = 0)
     | Some b \<Rightarrow> b < 64 \<and> p_state (proc_at k b) = PROC_READY \<and> skip \<noteq> Some b \<and>
         p_pid (proc_at k b) \<noteq> 0 \<and> g_proctable k' = g_proctable (set_state b PROC_RUNNING k) \<and>
         \<not> bit (g_ready_mask k') b)"
  using claim_loop_cases [OF assms(1), of PROC_MAX cpu skip res k'] assms(2) card_bits_le
  by (simp add: sched_claim_next_def)

section \<open>Blocking\<close>

definition sched_kern :: "sched_out \<Rightarrow> kern" where
  "sched_kern r = (case r of Resumed k \<Rightarrow> k | Switched _ k \<Rightarrow> k | Spinning k \<Rightarrow> k)"

lemma sched_kern_simps [simp]:
  "sched_kern (Resumed k) = k" "sched_kern (Switched i k) = k" "sched_kern (Spinning k) = k"
  by (simp_all add: sched_kern_def)

definition idle_wf :: "kern \<Rightarrow> bool" where
  "idle_wf k \<longleftrightarrow> (\<forall>c < length (g_idle k). \<forall>i. g_idle k ! c = Some i \<longrightarrow> i < 64)"

lemma block_round_wf:
  assumes "kern_wf k" "idle_wf k" "cpu < length (g_idle k)"
  shows "kern_wf (sched_kern (sched_block_round cpu p k))"
proof (cases "sched_claim_next cpu (Some p) k")
  case (Pair res k1)
  note c = claim_next_cases [OF assms(1) Pair]
  show ?thesis
  proof (cases res)
    case (Some b)
    with Pair c show ?thesis by (simp add: sched_block_round_def)
  next
    case None
    show ?thesis
    proof (cases "g_idle k1 ! cpu")
      case None2: None
      with Pair None c show ?thesis by (simp add: sched_block_round_def)
    next
      case (Some idle)
      then have i: "idle < 64" using assms(2,3) c by (simp add: idle_wf_def)
      show ?thesis
      proof (cases "p_state (proc_at k1 idle) = PROC_UNUSED")
        case True
        with Pair None Some c show ?thesis by (simp add: sched_block_round_def)
      next
        case False
        then have "kern_wf (set_state idle PROC_RUNNING k1)"
          using c i by (intro set_state_wf) simp_all
        with Pair None Some False show ?thesis by (simp add: sched_block_round_def)
      qed
    qed
  qed
qed

text \<open>
  The start of \<open>sched_block_current\<close>: the window in which the ready state of the caller and its cleared
  bit disagree is closed before anything else runs.
\<close>

lemma block_current_cases:
  "sched_block_current cpu p k =
     (if p_state (proc_at k p) = PROC_READY
      then Resumed (proc_clear_ready p (set_state p PROC_RUNNING (proc_clear_ready p k)))
      else sched_block_round cpu p (proc_clear_ready p k))"
  by (simp add: sched_block_current_def state_cas_def Let_def)

lemma block_current_wf:
  assumes "kern_wf k" "idle_wf k" "cpu < length (g_idle k)" "p < 64"
  shows "kern_wf (sched_kern (sched_block_current cpu p k))"
proof (cases "p_state (proc_at k p) = PROC_READY")
  case True
  have "kern_wf (proc_clear_ready p (set_state p PROC_RUNNING (proc_clear_ready p k)))"
    by (rule kern_wf_change [OF assms(1,4)])
      (use True assms kern_wf_slot [OF assms(1,4)] in \<open>auto simp: slot_wf_def proc_clear_ready_def\<close>)
  with True show ?thesis by (simp add: block_current_cases)
next
  case False
  have "kern_wf (proc_clear_ready p k)" by (rule clear_ready_wf [OF assms(1,4) False])
  moreover have "idle_wf (proc_clear_ready p k)" using assms(2) by (simp add: idle_wf_def)
  ultimately have "kern_wf (sched_kern (sched_block_round cpu p (proc_clear_ready p k)))"
    using assms(3) by (intro block_round_wf) simp_all
  with False show ?thesis by (simp add: block_current_cases)
qed

section \<open>Allocation\<close>

lemma kern_wf_fresh:
  assumes "kern_wf k" "i < 64" "p_pid p = 0 \<or> p_pid p = of_nat (i + 1)"
    and "p_state p \<noteq> PROC_UNUSED" "p_state p \<noteq> PROC_READY" "p_state (proc_at k i) = PROC_UNUSED"
  shows "kern_wf (proc_set_used i (k\<lparr>g_proctable := (g_proctable k)[i := p]\<rparr>))"
  by (rule kern_wf_change [OF assms(1,2)])
    (use assms kern_wf_slot [OF assms(1,2)] in \<open>auto simp: slot_wf_def proc_set_used_def\<close>)

lemma alloc_slot_wf:
  assumes "kern_wf k" "i < 64" "p_state (proc_at k i) = PROC_UNUSED"
  shows "kern_wf (alloc_slot ppid i k)"
proof -
  let ?p = "zero_proc\<lparr>p_state := PROC_EMBRYO, p_pid := of_nat (i + 1), p_tgid := of_nat (i + 1),
    p_ppid := ppid, p_pgid := int (i + 1), p_wait_for := 0, p_refcount := 1\<rparr>"
  have "alloc_slot ppid i k = (proc_set_used i (k\<lparr>g_proctable := (g_proctable k)[i := ?p]\<rparr>))
      \<lparr>g_kstack_va_bump := g_kstack_va_bump k + KSTACK_VA_STRIDE\<rparr>"
    by (simp add: alloc_slot_def proc_set_used_def)
  moreover have "kern_wf (proc_set_used i (k\<lparr>g_proctable := (g_proctable k)[i := ?p]\<rparr>))"
    by (rule kern_wf_fresh) (use assms in simp_all)
  ultimately show ?thesis by simp
qed

lemma kstack_va_inj:
  assumes "i < 16" "j < 16" "kstack_va guard i = kstack_va guard j"
  shows "i = j"
proof -
  have "unat (of_nat n * PAGE_SIZE) = n * 4096" if "n < 16" for n
    using that by (simp add: PAGE_SIZE_def unat_word_ariths unat_of_nat)
  moreover have "of_nat i * PAGE_SIZE = of_nat j * PAGE_SIZE" using assms(3) by (simp add: kstack_va_def)
  ultimately show ?thesis using assms(1,2) by (metis mult_cancel2 zero_neq_numeral)
qed

text \<open>The pages \<open>ys\<close> that the mapping loop has mapped when it ends.\<close>

lemma kstack_map_spec:
  assumes "distinct pgs" "set pgs \<subseteq> {..<16}" "kstack_map env guard pgs k = (r, k')"
  shows "\<exists>ys. (r = None \<and> ys = pgs \<or> (\<exists>q zs. r = Some q \<and> pgs = ys @ q # zs)) \<and>
    k_pages k' = k_pages k + length ys \<and> (\<forall>pg \<in> set ys. k_map k' (kstack_va guard pg) \<noteq> 0) \<and>
    (\<forall>a. a \<notin> kstack_va guard ` set ys \<longrightarrow> k_map k' a = k_map k a)"
  using assms
proof (induction pgs arbitrary: k)
  case Nil
  then show ?case by auto
next
  case (Cons pg pgs)
  from Cons.prems(3) show ?case
  proof (cases rule: kstack_map_Cons_cases)
    case no_page
    then show ?thesis by (intro exI [of _ "[]"]) auto
  next
    case no_map
    then show ?thesis by (intro exI [of _ "[]"]) auto
  next
    case (mapped phys)
    from Cons.IH [OF _ _ mapped(2)] Cons.prems(1,2) obtain ys where
      ys: "r = None \<and> ys = pgs \<or> (\<exists>q zs. r = Some q \<and> pgs = ys @ q # zs)"
        "k_pages k' = Suc (k_pages k) + length ys"
        "\<forall>q \<in> set ys. k_map k' (kstack_va guard q) \<noteq> 0"
        "\<forall>a. a \<notin> kstack_va guard ` set ys \<longrightarrow> k_map k' a = ((k_map k)(kstack_va guard pg := phys)) a"
      by auto
    have sub: "set ys \<subseteq> set pgs" using ys(1) by auto
    have "kstack_va guard pg \<notin> kstack_va guard ` set ys"
    proof
      assume "kstack_va guard pg \<in> kstack_va guard ` set ys"
      then obtain q where "q \<in> set ys" "kstack_va guard pg = kstack_va guard q" by blast
      moreover from this(1) have "pg \<noteq> q" "pg < 16" "q < 16" using sub Cons.prems(1,2) by auto
      ultimately show False using kstack_va_inj by blast
    qed
    then have "k_map k' (kstack_va guard pg) \<noteq> 0" using ys(4) mapped(1) by simp
    with ys show ?thesis by (intro exI [of _ "pg # ys"]) auto
  qed
qed

lemma kstack_release_spec:
  assumes "distinct ys" "set ys \<subseteq> {..<16}" "\<forall>pg \<in> set ys. k_map k (kstack_va guard pg) \<noteq> 0"
  shows "k_pages (kstack_release guard ys k) = k_pages k - length ys \<and>
    (\<forall>a. k_map (kstack_release guard ys k) a =
       (if a \<in> kstack_va guard ` set ys then 0 else k_map k a)) \<and>
    k_blocks (kstack_release guard ys k) = k_blocks k"
  using assms
proof (induction ys arbitrary: k)
  case (Cons pg ys)
  let ?k1 = "kstack_release_page (kstack_va guard pg) k"
  have k1: "k_pages ?k1 = k_pages k - 1" "k_map ?k1 = (k_map k)(kstack_va guard pg := 0)"
    "k_blocks ?k1 = k_blocks k"
    using Cons.prems(3) by (simp_all add: kstack_release_page_def Let_def)
  have "\<forall>q \<in> set ys. k_map ?k1 (kstack_va guard q) \<noteq> 0"
  proof
    fix q
    assume q: "q \<in> set ys"
    then have "q \<noteq> pg" "q < 16" "pg < 16" using Cons.prems(1,2) by auto
    then have "kstack_va guard q \<noteq> kstack_va guard pg" using kstack_va_inj by blast
    then show "k_map ?k1 (kstack_va guard q) \<noteq> 0" using q Cons.prems(3) k1(2) by simp
  qed
  with Cons.IH [of ?k1] Cons.prems(1,2)
  have "k_pages (kstack_release guard ys ?k1) = k_pages ?k1 - length ys \<and>
    (\<forall>a. k_map (kstack_release guard ys ?k1) a =
       (if a \<in> kstack_va guard ` set ys then 0 else k_map ?k1 a)) \<and>
    k_blocks (kstack_release guard ys ?k1) = k_blocks ?k1" by simp
  moreover have "kstack_release guard (pg # ys) k = kstack_release guard ys ?k1"
    by (simp add: kstack_release_def)
  ultimately show ?case using k1 by simp
qed (simp add: kstack_release_def)

lemma kstack_pages_16: "KSTACK_PAGES = 16"
  by (simp add: KSTACK_PAGES_def)

lemma kstack_map_upt:
  assumes "kstack_map env guard [0..<KSTACK_PAGES] k = (r, k')"
  shows "\<exists>n \<le> 16. (r = None \<and> n = 16 \<or> r = Some n \<and> n < 16) \<and> k_pages k' = k_pages k + n \<and>
    (\<forall>pg < n. k_map k' (kstack_va guard pg) \<noteq> 0) \<and>
    (\<forall>a. a \<notin> kstack_va guard ` {..<n} \<longrightarrow> k_map k' a = k_map k a)"
proof -
  have "distinct [0..<KSTACK_PAGES]" "set [0..<KSTACK_PAGES] \<subseteq> {..<16}"
    by (auto simp: kstack_pages_16)
  from kstack_map_spec [OF this assms] obtain ys where
    ys: "r = None \<and> ys = [0..<KSTACK_PAGES] \<or> (\<exists>q zs. r = Some q \<and> [0..<KSTACK_PAGES] = ys @ q # zs)"
      "k_pages k' = k_pages k + length ys" "\<forall>pg \<in> set ys. k_map k' (kstack_va guard pg) \<noteq> 0"
      "\<forall>a. a \<notin> kstack_va guard ` set ys \<longrightarrow> k_map k' a = k_map k a" by blast
  from ys(1) have "\<exists>n \<le> 16. (r = None \<and> n = 16 \<or> r = Some n \<and> n < 16) \<and> ys = [0..<n]"
  proof (elim disjE exE conjE)
    assume "r = None" "ys = [0..<KSTACK_PAGES]"
    then show ?thesis by (intro exI [of _ 16]) (simp add: kstack_pages_16)
  next
    fix q zs
    assume r: "r = Some q" "[0..<KSTACK_PAGES] = ys @ q # zs"
    from arg_cong [OF r(2), of length] have l: "length ys < KSTACK_PAGES" by simp
    from arg_cong [OF r(2), of "\<lambda>xs. xs ! length ys"] l have "q = length ys" by simp
    moreover from arg_cong [OF r(2), of "take (length ys)"] l have "ys = [0..<length ys]" by simp
    ultimately show ?thesis using r(1) l by (intro exI [of _ "length ys"]) (auto simp: kstack_pages_16)
  qed
  then obtain n where "n \<le> 16" "r = None \<and> n = 16 \<or> r = Some n \<and> n < 16" "ys = [0..<n]" by blast
  with ys(2-) show ?thesis by (intro exI [of _ n]) (auto simp: atLeast0LessThan)
qed

lemma kstack_release_upt:
  assumes "n \<le> 16" "\<forall>pg < n. k_map k (kstack_va guard pg) \<noteq> 0"
  shows "k_pages (kstack_release guard [0..<n] k) = k_pages k - n"
    "k_map (kstack_release guard [0..<n] k) a = (if a \<in> kstack_va guard ` {..<n} then 0 else k_map k a)"
    "k_blocks (kstack_release guard [0..<n] k) = k_blocks k"
  using kstack_release_spec [of "[0..<n]" k guard] assms by (auto simp: atLeast0LessThan)

lemma heap_request_simps [simp]:
  "fst (kheap_request env k) = heap_ok env (k_heap_reqs k)"
  "kern_wf (snd (kheap_request env k)) = kern_wf k"
  "g_proctable (snd (kheap_request env k)) = g_proctable k"
  "g_used_mask (snd (kheap_request env k)) = g_used_mask k"
  "g_ready_mask (snd (kheap_request env k)) = g_ready_mask k"
  "k_map (snd (kheap_request env k)) = k_map k"
  "k_pages (snd (kheap_request env k)) = k_pages k"
  "k_blocks (snd (kheap_request env k)) = k_blocks k + (if heap_ok env (k_heap_reqs k) then 1 else 0)"
  by (simp_all add: kheap_request_def Let_def)

text \<open>Slot \<open>i\<close> is free again and nothing else has changed, as far as resources go.\<close>

definition undone :: "kern \<Rightarrow> kern \<Rightarrow> nat \<Rightarrow> bool" where
  "undone k k' i \<longleftrightarrow> kern_wf k' \<and> p_state (proc_at k' i) = PROC_UNUSED \<and> k_pages k' = k_pages k \<and>
     k_blocks k' = k_blocks k \<and> k_map k' = k_map k \<and>
     (\<forall>j < 64. j \<noteq> i \<longrightarrow> proc_at k' j = proc_at k j)"

definition stack_free_at :: "u64 \<Rightarrow> kern \<Rightarrow> bool" where
  "stack_free_at guard k \<longleftrightarrow> (\<forall>pg < 16. k_map k (kstack_va guard pg) = 0)"

lemma release_undone:
  assumes "kern_wf k" "i < 64" "kern_wf k1" "k_pages k1 = k_pages k + n" "n \<le> 16" "k_blocks k1 = k_blocks k"
    and "\<forall>pg < n. k_map k1 (kstack_va guard pg) \<noteq> 0"
    and "\<forall>a. a \<notin> kstack_va guard ` {..<n} \<longrightarrow> k_map k1 a = k_map k a" "stack_free_at guard k"
    and "\<forall>j < 64. j \<noteq> i \<longrightarrow> proc_at k1 j = proc_at k j"
  shows "undone k (proc_release_slot i (kstack_release guard [0..<n] k1)) i"
proof -
  let ?k2 = "kstack_release guard [0..<n] k1"
  note r = kstack_release_upt [OF assms(5,7)]
  have m: "k_map ?k2 = k_map k"
  proof
    fix a
    show "k_map ?k2 a = k_map k a"
      using r(2) [of a] assms(5,8,9) by (auto simp: stack_free_at_def)
  qed
  have wf: "kern_wf (proc_clear_used i (set_state i PROC_UNUSED ?k2))"
    by (rule release_slot_wf) (use assms(2,3) in simp_all)
  show ?thesis
    unfolding undone_def proc_release_slot_def
    using wf m r(1,3) assms(2-6,10) by (simp add: proc_clear_used_def)
qed

text \<open>Freeing the complete stack of slot \<open>i\<close> and the slot.\<close>

lemma free_slot_undone:
  assumes "kern_wf k" "i < 64" "kern_wf k1" "k_pages k1 = k_pages k + 16" "k_blocks k1 = k_blocks k"
    and "\<forall>pg < 16. k_map k1 (kstack_va guard pg) \<noteq> 0"
    and "\<forall>a. a \<notin> kstack_va guard ` {..<16} \<longrightarrow> k_map k1 a = k_map k a" "stack_free_at guard k"
    and "\<forall>j < 64. j \<noteq> i \<longrightarrow> proc_at k1 j = proc_at k j"
    and "p_kstack_guard (proc_at k1 i) = guard" "guard \<noteq> 0"
  shows "undone k (proc_release_slot i (proc_kstack_free i k1)) i"
proof -
  have "undone k (proc_release_slot i (kstack_release guard [0..<16] k1)) i"
    by (rule release_undone [OF assms(1-4) _ assms(5-9)]) simp
  moreover have "kern_wf (proc_release_slot i (proc_kstack_free i k1))"
    unfolding proc_release_slot_def
    by (rule release_slot_wf [OF proc_kstack_free_wf [OF assms(3,2)] assms(2)])
  ultimately show ?thesis
    using assms(2,3,10,11)
    by (simp add: undone_def proc_release_slot_def proc_clear_used_def proc_kstack_free_def kstack_pages_16)
qed

lemma proc_alloc_cases:
  assumes wf: "kern_wf k" and res: "proc_alloc env ppid k = (res, k')"
  obtains (full) "res = None" "k' = k" "\<forall>j < 64. p_state (proc_at k j) \<noteq> PROC_UNUSED"
  | (failed) i where "res = None" "i < 64" "p_state (proc_at k i) = PROC_UNUSED" "kern_wf k'"
      "g_kstack_va_bump k \<noteq> 0 \<Longrightarrow> stack_free_at (g_kstack_va_bump k) k \<Longrightarrow> undone k k' i"
  | (ok) i where "res = Some i" "i < 64" "p_state (proc_at k i) = PROC_UNUSED" "kern_wf k'"
      "p_state (proc_at k' i) = PROC_EMBRYO" "p_pid (proc_at k' i) = of_nat (i + 1)"
      "p_refcount (proc_at k' i) = 1" "k_pages k' = k_pages k + 16" "k_blocks k' = k_blocks k + 2"
      "\<forall>j < 64. j \<noteq> i \<longrightarrow> proc_at k' j = proc_at k j"
proof (cases "find_index (\<lambda>p. p_state p = PROC_UNUSED) (g_proctable k)")
  case None
  with res have "res = None" "k' = k" by (simp_all add: proc_alloc_def)
  moreover have "\<forall>j < 64. p_state (proc_at k j) \<noteq> PROC_UNUSED"
  proof (intro allI impI)
    fix j :: nat
    assume "j < 64"
    then have "proc_at k j \<in> set (g_proctable k)" using wf by simp
    with None show "p_state (proc_at k j) \<noteq> PROC_UNUSED" by simp
  qed
  ultimately show thesis by (rule full)
next
  case (Some i)
  note i = free_slot [OF Some wf]
  let ?g = "g_kstack_va_bump k" and ?k0 = "alloc_slot ppid i k"
  note un = proc_alloc_def [of env ppid k, unfolded Some option.case]
  have wf0: "kern_wf ?k0" using alloc_slot_wf [OF wf] i by simp
  have k0: "k_pages ?k0 = k_pages k" "k_blocks ?k0 = k_blocks k" "k_map ?k0 = k_map k"
    by (simp_all add: alloc_slot_def proc_set_used_def)
  have k0i: "p_state (proc_at ?k0 i) = PROC_EMBRYO" "p_pid (proc_at ?k0 i) = of_nat (i + 1)"
    "p_refcount (proc_at ?k0 i) = 1" "\<forall>j < 64. j \<noteq> i \<longrightarrow> proc_at ?k0 j = proc_at k j"
    using i wf by (simp_all add: alloc_slot_def)
  obtain r k1 where m: "kstack_map env ?g [0..<KSTACK_PAGES] ?k0 = (r, k1)" by (metis surj_pair)
  note fr = kstack_map_frame [OF m]
  have wf1: "kern_wf k1" and t1: "g_proctable k1 = g_proctable ?k0" and b1: "k_blocks k1 = k_blocks k"
    using fr wf0 k0 by simp_all
  from kstack_map_upt [OF m] obtain n where n: "n \<le> 16"
    "r = None \<and> n = 16 \<or> r = Some n \<and> n < 16" "k_pages k1 = k_pages k + n"
    "\<forall>pg < n. k_map k1 (kstack_va ?g pg) \<noteq> 0"
    "\<forall>a. a \<notin> kstack_va ?g ` {..<n} \<longrightarrow> k_map k1 a = k_map k a"
    using k0 by auto
  show thesis
  proof (cases r)
    case (Some q)
    then have "q = n" using n(2) by simp
    have "undone k (proc_release_slot i (kstack_release ?g [0..<n] k1)) i" if "stack_free_at ?g k"
      by (rule release_undone [OF wf _ wf1 n(3,1) b1 n(4,5) that]) (use i t1 k0i(4) in simp_all)
    moreover have "kern_wf (proc_release_slot i (kstack_release ?g [0..<n] k1))"
      unfolding proc_release_slot_def using wf1 i by (intro release_slot_wf) simp_all
    ultimately show thesis
      using res un m Some \<open>q = n\<close> i by (intro failed [of i]) simp_all
  next
    case None
    then have n16: "n = 16" using n(2) by simp
    define k2 where "k2 = upd_proc i (\<lambda>p. p\<lparr>p_kstack_guard := ?g, p_kstack := ?g + PAGE_SIZE,
      p_kstack_top := ?g + KSTACK_VA_STRIDE\<rparr>) k1"
    define k3 where "k3 = snd (kheap_request env k2)"
    define k4 where "k4 = upd_proc i (\<lambda>p. p\<lparr>p_fds := True\<rparr>) k3"
    define k5 where "k5 = snd (kheap_request env k4)"
    have len1: "length (g_proctable k1) = 64" using wf1 by simp
    have wf2: "kern_wf k2" unfolding k2_def by (rule upd_proc_wf) (use wf1 i in simp_all)
    have wf3: "kern_wf k3" using wf2 by (simp add: k3_def)
    have wf4: "kern_wf k4" unfolding k4_def by (rule upd_proc_wf) (use wf3 i in simp_all)
    have wf5: "kern_wf k5" using wf4 by (simp add: k5_def)
    have acc: "k_pages k3 = k_pages k + 16" "k_map k3 = k_map k1" "k_pages k5 = k_pages k + 16"
      "k_map k5 = k_map k1" "k_blocks k3 = k_blocks k + (if heap_ok env (k_heap_reqs k2) then 1 else 0)"
      using n(3) n16 b1 by (simp_all add: k2_def k3_def k4_def k5_def)
    have g: "p_kstack_guard (proc_at k3 i) = ?g" "p_kstack_guard (proc_at k5 i) = ?g"
      using i len1 by (simp_all add: k2_def k3_def k4_def k5_def)
    have oth: "\<forall>j < 64. j \<noteq> i \<longrightarrow> proc_at k3 j = proc_at k j" "\<forall>j < 64. j \<noteq> i \<longrightarrow> proc_at k5 j = proc_at k j"
      using k0i(4) t1 by (simp_all add: k2_def k3_def k4_def k5_def)
    note mp = n(4,5) [unfolded n16]
    show thesis
    proof (cases "heap_ok env (k_heap_reqs k2)")
      case False
      have "undone k (proc_release_slot i (proc_kstack_free i k3)) i" if "?g \<noteq> 0" "stack_free_at ?g k"
        by (rule free_slot_undone [OF wf _ wf3 acc(1) _ _ _ that(2) oth(1) g(1) that(1)])
          (use False acc mp i in simp_all)
      moreover have "kern_wf (proc_release_slot i (proc_kstack_free i k3))"
        unfolding proc_release_slot_def using wf3 i by (intro release_slot_wf proc_kstack_free_wf) simp_all
      moreover have "res = None" "k' = proc_release_slot i (proc_kstack_free i k3)"
        using res un m None False
        by (simp_all add: k2_def [symmetric] k3_def Let_def split_beta)
      ultimately show thesis using i by (intro failed [of i]) simp_all
    next
      case ok1: True
      show thesis
      proof (cases "heap_ok env (k_heap_reqs k4)")
        case False
        let ?k6 = "upd_proc i (\<lambda>p. p\<lparr>p_fds := False\<rparr>) (k5\<lparr>k_blocks := k_blocks k5 - 1\<rparr>)"
        have wf6: "kern_wf ?k6" by (rule upd_proc_wf) (use wf5 i in simp_all)
        have b5: "k_blocks k5 = k_blocks k + 1" using False ok1 acc(5) by (simp add: k5_def k4_def)
        have "undone k (proc_release_slot i (proc_kstack_free i ?k6)) i" if "?g \<noteq> 0" "stack_free_at ?g k"
          by (rule free_slot_undone [OF wf _ wf6 _ _ _ _ that(2) _ _ that(1)])
            (use wf5 b5 acc g oth mp i in simp_all)
        moreover have "kern_wf (proc_release_slot i (proc_kstack_free i ?k6))"
          unfolding proc_release_slot_def using wf6 i by (intro release_slot_wf proc_kstack_free_wf) simp_all
        moreover have "res = None" "k' = proc_release_slot i (proc_kstack_free i ?k6)"
          using res un m None ok1 False
          by (simp_all add: k2_def [symmetric] k3_def [symmetric] k4_def [symmetric] k5_def Let_def split_beta)
        ultimately show thesis using i by (intro failed [of i]) simp_all
      next
        case ok2: True
        let ?f = "\<lambda>p. p\<lparr>p_fds_refcnt := Some 1, p_nsproxy := Some 0,
            p_mmap_bump := 0x0000500000000000, p_umask := 18, p_cwd := ''/'',
            p_cap_effective := CAP_FULL_MASK, p_cap_permitted := CAP_FULL_MASK,
            p_cap_inheritable := CAP_FULL_MASK, p_cap_bounding := CAP_FULL_MASK,
            p_dumpable := 1, p_comm := ''kx''\<rparr>"
        let ?k6 = "upd_proc i ?f (k5\<lparr>init_nsproxy_refcnt := init_nsproxy_refcnt k5 + 1\<rparr>)"
        have r: "res = Some i" "k' = ?k6"
          using res un m None ok1 ok2
          by (simp_all add: k2_def [symmetric] k3_def [symmetric] k4_def [symmetric] k5_def [symmetric]
              Let_def split_beta)
        have "kern_wf ?k6" by (rule upd_proc_wf) (use wf5 i in simp_all)
        moreover have "k_blocks k5 = k_blocks k + 2" using ok1 ok2 acc(5) by (simp add: k5_def k4_def)
        moreover have "p_state (proc_at k5 i) = PROC_EMBRYO" "p_pid (proc_at k5 i) = of_nat (i + 1)"
          "p_refcount (proc_at k5 i) = 1"
          using i len1 t1 k0i by (simp_all add: k2_def k3_def k4_def k5_def)
        ultimately show thesis
          using r i acc(3) oth(2) wf5 by (intro ok [of i]) simp_all
      qed
    qed
  qed
qed

section \<open>Waking a process\<close>

text \<open>
  The contract of the wake-up operations of the kernel, which pipes, futexes, timers and signals each
  write out: a waiting process becomes ready and can be found by the scheduler, any other process keeps
  its state, and the table stays consistent.
\<close>

locale waker =
  fixes wake :: "nat \<Rightarrow> kern \<Rightarrow> kern"
  assumes wake_wf: "kern_wf k \<Longrightarrow> i < 64 \<Longrightarrow> kern_wf (wake i k)"
    and wake_state: "kern_wf k \<Longrightarrow> i < 64 \<Longrightarrow> j < 64 \<Longrightarrow> p_state (proc_at (wake i k) j) =
      (if j = i \<and> p_state (proc_at k i) = PROC_WAITING then PROC_READY else p_state (proc_at k j))"
begin

lemma wake_all:
  assumes "kern_wf k" "\<forall>i \<in> set is. i < 64"
  shows "kern_wf (fold wake is k)"
    "j < 64 \<Longrightarrow> p_state (proc_at (fold wake is k) j) =
      (if j \<in> set is \<and> p_state (proc_at k j) = PROC_WAITING then PROC_READY else p_state (proc_at k j))"
  using assms by (induction "is" arbitrary: k) (auto simp: wake_wf wake_state)

text \<open>A process woken by any of the calls is found by the next scheduler call that may run it.\<close>

lemma woken_is_schedulable:
  assumes "kern_wf k" "\<forall>i \<in> set is. i < 64" "j \<in> set is" "p_state (proc_at k j) = PROC_WAITING"
    and "skip \<noteq> Some j" "p_pid (proc_at (fold wake is k) j) \<noteq> 0"
  shows "fst (sched_claim_next cpu skip (fold wake is k)) \<noteq> None"
proof
  obtain r k' where r: "sched_claim_next cpu skip (fold wake is k) = (r, k')" by (metis surj_pair)
  assume "fst (sched_claim_next cpu skip (fold wake is k)) = None"
  moreover have "j < 64" using assms(2,3) by blast
  ultimately show False
    using claim_next_cases [OF wake_all(1) [OF assms(1,2)] r] r wake_all(2) [OF assms(1,2), of j] assms
    by auto
qed

end

definition proc_wake :: "nat \<Rightarrow> kern \<Rightarrow> kern" where
  "proc_wake i k =
     (let (won, k) = state_cas i PROC_WAITING PROC_READY k in if won then proc_set_ready i k else k)"

lemma proc_wake_cases:
  "proc_wake i k = (if p_state (proc_at k i) = PROC_WAITING then proc_set_ready i (set_state i PROC_READY k)
     else k)"
  by (simp add: proc_wake_def state_cas_def)

interpretation pw: waker proc_wake
  by unfold_locales (auto simp: proc_wake_cases publish_ready_wf)

section \<open>The hand-over of a wake-up\<close>

text \<open>
  A process that blocks and a waker on another processor, at the granularity of their atomic accesses:
  the blocking side stores the waiting state, clears its ready bit and tries to take back a wake-up that
  came in between; the waking side swaps the state and then sets the ready bit.
\<close>

datatype sleeper = S_running | S_waiting | S_cleared | S_consumed | S_resumed | S_asleep

datatype wakeside = W_idle | W_won | W_done

record handoff =
  h_k :: kern
  h_s :: sleeper
  h_w :: wakeside

inductive handoff_step :: "nat \<Rightarrow> handoff \<Rightarrow> handoff \<Rightarrow> bool" for p where
  s_wait: "h_s h = S_running \<Longrightarrow>
    handoff_step p h (h\<lparr>h_k := set_state p PROC_WAITING (h_k h), h_s := S_waiting\<rparr>)"
| s_clear: "h_s h = S_waiting \<Longrightarrow>
    handoff_step p h (h\<lparr>h_k := proc_clear_ready p (h_k h), h_s := S_cleared\<rparr>)"
| s_cas: "h_s h = S_cleared \<Longrightarrow> state_cas p PROC_READY PROC_RUNNING (h_k h) = (won, k) \<Longrightarrow>
    handoff_step p h (h\<lparr>h_k := k, h_s := if won then S_consumed else S_asleep\<rparr>)"
| s_resume: "h_s h = S_consumed \<Longrightarrow>
    handoff_step p h (h\<lparr>h_k := proc_clear_ready p (h_k h), h_s := S_resumed\<rparr>)"
| w_cas: "h_w h = W_idle \<Longrightarrow> state_cas p PROC_WAITING PROC_READY (h_k h) = (won, k) \<Longrightarrow>
    handoff_step p h (h\<lparr>h_k := k, h_w := if won then W_won else W_idle\<rparr>)"
| w_set: "h_w h = W_won \<Longrightarrow>
    handoff_step p h (h\<lparr>h_k := proc_set_ready p (h_k h), h_w := W_done\<rparr>)"

definition handoff_init :: "nat \<Rightarrow> handoff \<Rightarrow> bool" where
  "handoff_init p h \<longleftrightarrow> h_s h = S_running \<and> h_w h = W_idle \<and> p < 64 \<and>
     length (g_proctable (h_k h)) = 64 \<and> p_state (proc_at (h_k h) p) = PROC_RUNNING"

definition handoff_inv :: "nat \<Rightarrow> handoff \<Rightarrow> bool" where
  "handoff_inv p h \<longleftrightarrow> p < 64 \<and> length (g_proctable (h_k h)) = 64 \<and>
     (case h_s h of
        S_running \<Rightarrow> h_w h = W_idle \<and> p_state (proc_at (h_k h) p) = PROC_RUNNING
      | S_waiting \<Rightarrow> p_state (proc_at (h_k h) p) = (if h_w h = W_idle then PROC_WAITING else PROC_READY)
      | S_cleared \<Rightarrow> p_state (proc_at (h_k h) p) = (if h_w h = W_idle then PROC_WAITING else PROC_READY)
      | S_consumed \<Rightarrow> h_w h \<noteq> W_idle \<and> p_state (proc_at (h_k h) p) = PROC_RUNNING
      | S_resumed \<Rightarrow> h_w h \<noteq> W_idle \<and> p_state (proc_at (h_k h) p) = PROC_RUNNING
      | S_asleep \<Rightarrow>
          p_state (proc_at (h_k h) p) = (if h_w h = W_idle then PROC_WAITING else PROC_READY) \<and>
          (h_w h = W_done \<longrightarrow> bit (g_ready_mask (h_k h)) p))"

interpretation hs: invariant_system "handoff_init p" "handoff_step p" "handoff_inv p" for p
proof
  fix h
  assume "handoff_init p h"
  then show "handoff_inv p h" by (simp add: handoff_init_def handoff_inv_def)
next
  fix h h'
  assume inv: "handoff_inv p h" and st: "handoff_step p h h'"
  from st show "handoff_inv p h'"
  proof cases
    case s_wait
    with inv show ?thesis by (simp add: handoff_inv_def)
  next
    case s_clear
    with inv show ?thesis by (simp add: handoff_inv_def)
  next
    case (s_cas won k)
    with inv show ?thesis by (cases "h_w h") (auto simp: handoff_inv_def state_cas_def)
  next
    case s_resume
    with inv show ?thesis by (simp add: handoff_inv_def)
  next
    case (w_cas won k)
    with inv show ?thesis by (cases "h_s h") (auto simp: handoff_inv_def state_cas_def)
  next
    case w_set
    with inv show ?thesis by (cases "h_s h") (simp_all add: handoff_inv_def proc_set_ready_def)
  qed
qed

section \<open>The table as a step system\<close>

lemma proc_alloc_wf:
  assumes "kern_wf k"
  shows "kern_wf (snd (proc_alloc env ppid k))"
proof -
  obtain res k' where r: "proc_alloc env ppid k = (res, k')" by (metis surj_pair)
  from proc_alloc_cases [OF assms r] assms have "kern_wf k'" by cases simp_all
  with r show ?thesis by simp
qed

lemma proc_find_wf: "kern_wf k \<Longrightarrow> kern_wf (snd (proc_find pid k))"
  by (auto simp: proc_find_def proc_ref_wf dest!: find_index_SomeD split: option.splits)

lemma idle_unmap_simps [simp]:
  "kern_wf (idle_unmap guard pgs k) = kern_wf k"
  "g_proctable (idle_unmap guard pgs k) = g_proctable k"
  "k_pages (idle_unmap guard pgs k) = k_pages k"
  by (induction pgs arbitrary: k) (simp_all add: idle_unmap_def)

lemma create_idle_cases:
  assumes wf: "kern_wf k" and res: "proc_create_idle env k = (res, k')"
  obtains (full) "res = None" "k' = k"
  | (failed) i n where "res = None" "i < 64" "n < 16" "kern_wf k'" "p_state (proc_at k' i) = PROC_UNUSED"
      "k_pages k' = k_pages k + n"
  | (ok) i where "res = Some i" "i < 64" "kern_wf k'" "k_pages k' = k_pages k + 16"
proof (cases "find_index (\<lambda>p. p_state p = PROC_UNUSED) (g_proctable k)")
  case None
  with res show thesis by (intro full) (simp_all add: proc_create_idle_def)
next
  case (Some i)
  note i = free_slot [OF Some wf]
  let ?g = "g_kstack_va_bump k"
  let ?k0 = "idle_slot i k"
  have wf0: "kern_wf ?k0"
    by (rule kern_wf_change [OF wf, of i])
      (use i wf in \<open>auto simp: idle_slot_def slot_wf_def proc_set_ready_def zero_proc_def\<close>)
  have k0: "k_pages ?k0 = k_pages k" by (simp add: idle_slot_def proc_set_ready_def)
  obtain r k1 where m: "kstack_map env ?g [0..<KSTACK_PAGES] ?k0 = (r, k1)" by (metis surj_pair)
  note eq = proc_create_idle_def [of env k, unfolded Some option.case]
  have wf1: "kern_wf k1" using kstack_map_frame [OF m] wf0 by simp
  from kstack_map_upt [OF m] obtain n where n: "n \<le> 16"
    "r = None \<and> n = 16 \<or> r = Some n \<and> n < 16" "k_pages k1 = k_pages k + n" using k0 by auto
  show thesis
  proof (cases r)
    case (Some q)
    then have q: "q = n" "n < 16" using n(2) by simp_all
    have r': "res = None" "k' = proc_release_slot i (idle_unmap ?g [0..<n] k1)"
      using res eq m Some q by (simp_all add: Let_def)
    have "kern_wf k'" unfolding r' proc_release_slot_def using wf1 i by (intro release_slot_wf) simp_all
    then show thesis
      using r' i q n(3) wf1 by (intro failed [of i n]) (simp_all add: proc_release_slot_def proc_clear_used_def)
  next
    case None
    have r': "res = Some i" "k' = upd_proc i (\<lambda>p. p\<lparr>p_kstack_guard := ?g, p_kstack := ?g + PAGE_SIZE,
        p_kstack_top := ?g + KSTACK_VA_STRIDE, p_kstack_rsp := ?g + PAGE_SIZE + KSTACK_SIZE - 56\<rparr>) k1"
      using res eq m None by (simp_all add: Let_def)
    have "kern_wf k'" unfolding r' by (rule upd_proc_wf) (use wf1 i in simp_all)
    with r' i n None show thesis by (intro ok [of i]) simp_all
  qed
qed

lemma create_idle_wf:
  assumes "kern_wf k"
  shows "kern_wf (snd (proc_create_idle env k))"
proof -
  obtain res k' where r: "proc_create_idle env k = (res, k')" by (metis surj_pair)
  from create_idle_cases [OF assms r] assms have "kern_wf k'" by cases simp_all
  with r show ?thesis by simp
qed

lemma create_kernel_wf:
  assumes "kern_wf k"
  shows "kern_wf (snd (proc_create_kernel env name entry k))"
proof -
  obtain res k' where r: "proc_alloc env 0 k = (res, k')" by (metis surj_pair)
  from proc_alloc_wf [OF assms, of env 0] r have wf': "kern_wf k'" by simp
  show ?thesis
  proof (cases res)
    case None
    with r wf' assms show ?thesis by (simp add: proc_create_kernel_def)
  next
    case (Some i)
    from proc_alloc_cases [OF assms r] Some have i: "i < 64" by cases simp_all
    let ?k2 = "upd_proc i (\<lambda>p. p\<lparr>p_space := Some 0, p_is_thread := 1, p_jail_id := 0, p_jail_exempt := 1,
        p_exe_path := (case name of None \<Rightarrow> p_exe_path p | Some n \<Rightarrow> take 511 n),
        p_kstack_rsp := p_kstack p + KSTACK_SIZE - 56\<rparr>) k'"
    have "kern_wf ?k2" by (rule upd_proc_wf) (use wf' i in simp_all)
    then have "kern_wf (proc_publish_ready i ?k2)"
      unfolding proc_publish_ready_def by (rule publish_ready_wf) (rule i)
    then show ?thesis using r Some assms by (simp add: proc_create_kernel_def Let_def)
  qed
qed

lemma sched_yield_wf:
  assumes "kern_wf k" "p < 64"
  shows "kern_wf (sched_kern (sched_yield cpu (Some p) k))"
proof -
  obtain res k' where r: "sched_claim_next cpu (Some p) k = (res, k')" by (metis surj_pair)
  from claim_next_cases [OF assms(1) r] have "kern_wf k'" by simp
  with r assms publish_ready_wf show ?thesis by (cases res) (simp_all add: sched_yield_def)
qed

text \<open>
  The operations of \<open>proc.c\<close> and \<open>proc.h\<close> on the table, in any order and with any outcome of the
  memory managers. A process that runs may store the waiting state before it blocks; the switch back
  marks it running.
\<close>

inductive proc_step :: "kern \<Rightarrow> kern \<Rightarrow> bool" where
  st_alloc: "proc_step k (snd (proc_alloc env ppid k))"
| st_kernel: "proc_step k (snd (proc_create_kernel env name entry k))"
| st_idle: "proc_step k (snd (proc_create_idle env k))"
| st_find: "proc_step k (snd (proc_find pid k))"
| st_unref: "i < 64 \<Longrightarrow> proc_step k (proc_unref i k)"
| st_publish: "i < 64 \<Longrightarrow> proc_step k (proc_publish_ready i k)"
| st_claim: "proc_step k (snd (sched_claim_next cpu skip k))"
| st_yield: "p < 64 \<Longrightarrow> proc_step k (sched_kern (sched_yield cpu (Some p) k))"
| st_wait: "i < 64 \<Longrightarrow> p_state (proc_at k i) = PROC_RUNNING \<Longrightarrow> proc_step k (set_state i PROC_WAITING k)"
| st_block: "p < 64 \<Longrightarrow> cpu < length (g_idle k) \<Longrightarrow> idle_wf k \<Longrightarrow>
    proc_step k (sched_kern (sched_block_current cpu p k))"
| st_back: "i < 64 \<Longrightarrow> p_state (proc_at k i) \<noteq> PROC_UNUSED \<Longrightarrow> proc_step k (sched_switch_back i k)"
| st_wake: "i < 64 \<Longrightarrow> proc_step k (proc_wake i k)"

definition proc_boot :: "kern \<Rightarrow> bool" where
  "proc_boot k \<longleftrightarrow> (\<exists>k0. k = proc_init k0 \<and> g_used_mask k0 = 0 \<and> g_ready_mask k0 = 0)"

lemma proc_init_wf: "g_used_mask k = 0 \<Longrightarrow> g_ready_mask k = 0 \<Longrightarrow> kern_wf (proc_init k)"
  by (rule kern_wfI) (simp_all add: proc_init_def slot_wf_def zero_proc_def)

interpretation ps: invariant_system proc_boot proc_step kern_wf
proof
  fix k
  assume "proc_boot k"
  then show "kern_wf k" by (auto simp: proc_boot_def intro: proc_init_wf)
next
  fix k k'
  assume wf: "kern_wf k" and "proc_step k k'"
  from this(2) show "kern_wf k'"
  proof cases
    case (st_alloc env ppid)
    then show ?thesis using proc_alloc_wf [OF wf] by simp
  next
    case (st_kernel env name entry)
    then show ?thesis using create_kernel_wf [OF wf] by simp
  next
    case (st_idle env)
    then show ?thesis using create_idle_wf [OF wf] by simp
  next
    case (st_find pid)
    then show ?thesis using proc_find_wf [OF wf] by simp
  next
    case (st_unref i)
    then show ?thesis using proc_unref_wf [OF wf] by simp
  next
    case (st_publish i)
    then show ?thesis using publish_ready_wf [OF wf] by (simp add: proc_publish_ready_def)
  next
    case (st_claim cpu skip)
    then show ?thesis using claim_next_cases [OF wf, of cpu skip] by (metis surjective_pairing)
  next
    case (st_yield p cpu)
    then show ?thesis using sched_yield_wf [OF wf] by simp
  next
    case (st_wait i)
    then show ?thesis using set_state_wf [OF wf, of i PROC_WAITING] by simp
  next
    case (st_block p cpu)
    then show ?thesis using block_current_wf [OF wf] by simp
  next
    case (st_back i)
    then show ?thesis using set_state_wf [OF wf, of i PROC_RUNNING] by (simp add: sched_switch_back_def)
  next
    case (st_wake i)
    then show ?thesis using pw.wake_wf [OF wf] by simp
  qed
qed

section \<open>Properties\<close>


definition boot_kern :: kern where
  "boot_kern = proc_init \<lparr>g_proctable = [], g_ready_mask = 0, g_used_mask = 0, g_timer_mask = 0,
     g_last_scheduled = replicate 16 0, g_idle = replicate 16 None, g_kstack_va_bump = KSTACK_VA_BASE,
     k_map = (\<lambda>_. 0), k_pages = 0, k_blocks = 0, k_page_reqs = 0, k_map_reqs = 0, k_heap_reqs = 0,
     init_nsproxy_refcnt = 1\<rparr>"

definition rich_env :: mem_env where
  "rich_env = \<lparr>page_at = (\<lambda>n. of_nat n * 4096 + 4096), map_ok = (\<lambda>_. True), heap_ok = (\<lambda>_. True)\<rparr>"

definition poor_env :: mem_env where
  "poor_env = \<lparr>page_at = (\<lambda>n. if n < 3 then 4096 else 0), map_ok = (\<lambda>_. True), heap_ok = (\<lambda>_. True)\<rparr>"

lemma boot_kern_boot: "proc_boot boot_kern"
  unfolding boot_kern_def proc_boot_def by (intro exI conjI, rule refl) simp_all

lemma boot_kern_wf: "kern_wf boot_kern"
  by (rule ps.inv_init) (rule boot_kern_boot)


text \<open>
  C17: \<open>proc_alloc\<close> either returns a slot that was free, with process id slot plus one, one reference,
  16 stack pages and 2 heap blocks taken; or it fails, and then every page, mapping and block it took has
  been given back and the slot is free again. No other slot changes.
\<close>

theorem proc_alloc_all_or_nothing:
  assumes "kern_wf k" "proc_alloc env ppid k = (res, k')"
    and "g_kstack_va_bump k \<noteq> 0" "stack_free_at (g_kstack_va_bump k) k"
  shows "case res of
      None \<Rightarrow> k_pages k' = k_pages k \<and> k_blocks k' = k_blocks k \<and> k_map k' = k_map k \<and>
        (\<forall>j < 64. p_state (proc_at k' j) = p_state (proc_at k j))
    | Some i \<Rightarrow> i < 64 \<and> p_state (proc_at k i) = PROC_UNUSED \<and> p_state (proc_at k' i) = PROC_EMBRYO \<and>
        p_pid (proc_at k' i) = of_nat (i + 1) \<and> p_refcount (proc_at k' i) = 1 \<and>
        k_pages k' = k_pages k + 16 \<and> k_blocks k' = k_blocks k + 2 \<and>
        (\<forall>j < 64. j \<noteq> i \<longrightarrow> proc_at k' j = proc_at k j)"
  using assms(1,2)
proof (cases rule: proc_alloc_cases)
  case (failed i)
  from failed(5) [OF assms(3,4)] failed(3) have "p_state (proc_at k' j) = p_state (proc_at k j)"
    if "j < 64" for j using that by (cases "j = i") (simp_all add: undone_def)
  with failed(1) failed(5) [OF assms(3,4)] show ?thesis by (simp add: undone_def)
qed simp_all

theorem proc_alloc_all_or_nothing_witness:
  "k_pages (snd (proc_alloc poor_env 1 boot_kern)) = 0 \<or>
   (\<exists>i. fst (proc_alloc poor_env 1 boot_kern) = Some i \<and> k_pages (snd (proc_alloc poor_env 1 boot_kern)) = 16)"
proof -
  obtain res k' where r: "proc_alloc poor_env 1 boot_kern = (res, k')" by (metis surj_pair)
  have "g_kstack_va_bump boot_kern \<noteq> 0" "stack_free_at (g_kstack_va_bump boot_kern) boot_kern"
    "k_pages boot_kern = 0"
    by (simp_all add: boot_kern_def proc_init_def KSTACK_VA_BASE_def stack_free_at_def)
  with proc_alloc_all_or_nothing [OF boot_kern_wf r] r show ?thesis by (cases res) simp_all
qed

text \<open>
  C18: \<open>sched_claim_next\<close> on a consistent table hands out a process only if it was ready, not the
  caller and not an idle process; it is then running and its ready bit is gone, so no other processor can
  claim it again. It returns nothing only when no such process exists.
\<close>

theorem sched_claim_next_correct:
  assumes "kern_wf k" "sched_claim_next cpu skip k = (res, k')"
  shows "kern_wf k' \<and>
    (case res of
       None \<Rightarrow> \<forall>b < 64. p_state (proc_at k b) = PROC_READY \<longrightarrow> skip = Some b \<or> p_pid (proc_at k b) = 0
     | Some b \<Rightarrow> b < 64 \<and> p_state (proc_at k b) = PROC_READY \<and> skip \<noteq> Some b \<and>
         p_pid (proc_at k b) \<noteq> 0 \<and> p_state (proc_at k' b) = PROC_RUNNING \<and>
         \<not> bit (g_ready_mask k') b \<and> (\<forall>j < 64. j \<noteq> b \<longrightarrow> proc_at k' j = proc_at k j))"
  using claim_next_cases [OF assms] assms(1) by (cases res) simp_all

theorem sched_claim_next_correct_witness:
  "kern_wf (snd (sched_claim_next 0 None boot_kern))"
  using sched_claim_next_correct [OF boot_kern_wf, of 0 None] by (metis prod.collapse)

text \<open>
  C19: Round-robin bound. A slot that stays runnable is returned by one of any 64 consecutive successful
  scheduler calls of a processor, whatever happens to the other slots and the skipped process between the
  calls.
\<close>

theorem sched_round_robin_bound:
  assumes "j < 64"
    and "\<And>i. i < 64 \<Longrightarrow> proc_next_ready cpu (skip i) (k i) = (Some (r i), k' i)"
    and "\<And>i. i < 64 \<Longrightarrow> bit (g_ready_mask (k i)) j \<and> skip i \<noteq> Some j \<and> p_pid (proc_at (k i) j) \<noteq> 0"
    and "\<And>i. i < 64 \<Longrightarrow> cpu < length (g_last_scheduled (k i))"
    and "\<And>i. Suc i < 64 \<Longrightarrow> g_last_scheduled (k (Suc i)) = g_last_scheduled (k' i)"
  shows "\<exists>i < 64. r i = j"
proof (rule ccontr)
  assume "\<not> (\<exists>i < 64. r i = j)"
  then have none: "\<And>i. i < 64 \<Longrightarrow> r i \<noteq> j" by blast
  have run: "\<And>i. i < 64 \<Longrightarrow> runnable (k i) (skip i) j" using assms(3) by (simp add: runnable_def)
  have b: "rr_dist (rr_start cpu (k 63)) j + 63 \<le> rr_dist (rr_start cpu (k 0)) j"
    by (rule rr_bounded_wait [where n = 64 and k = k and k' = k' and skip = skip and r = r])
      (use assms run none in simp_all)
  have "rr_dist (rr_start cpu (k' 63)) j < rr_dist (rr_start cpu (k 63)) j"
    by (rule rr_progress [OF assms(2) assms(1) run none assms(4)]) simp_all
  with b rr_order_nth(2) [OF rr_start_less assms(1), of cpu "k 0"] show False by simp
qed

definition rr_kern :: "u32 \<Rightarrow> kern" where
  "rr_kern l = boot_kern\<lparr>g_ready_mask := mask_bit 0 OR mask_bit 5,
     g_proctable := map (\<lambda>i. zero_proc\<lparr>p_pid := of_nat (i + 1)\<rparr>) [0..<64], g_last_scheduled := [l]\<rparr>"

lemma rr_kern_runnable: "runnable (rr_kern l) None b \<longleftrightarrow> b = 0 \<or> b = 5"
  by (auto simp: runnable_def rr_kern_def bit_or_iff)

lemma rr_kern_next:
  "proc_next_ready 0 None (rr_kern 0) = (Some 5, rr_kern 5)"
  "proc_next_ready 0 None (rr_kern 5) = (Some 0, rr_kern 0)"
proof -
  have "find (runnable (rr_kern 0) None) (rr_order 1) = Some 5"
    by (auto simp: find_Some_iff rr_kern_runnable rr_order_def nth_append intro!: exI [of _ 4])
  moreover have "find (runnable (rr_kern 5) None) (rr_order 6) = Some 0"
  proof -
    have "find (runnable (rr_kern 5) None) [6..<64] = None"
      by (auto simp: find_None_iff rr_kern_runnable)
    then show ?thesis by (simp add: rr_order_def find_append rr_kern_runnable upt_conv_Cons)
  qed
  moreover have "rr_start 0 (rr_kern 0) = 1" "rr_start 0 (rr_kern 5) = 6"
    by (simp_all add: rr_start_def rr_kern_def)
  ultimately show "proc_next_ready 0 None (rr_kern 0) = (Some 5, rr_kern 5)"
    "proc_next_ready 0 None (rr_kern 5) = (Some 0, rr_kern 0)"
    by (simp_all add: next_ready_find) (simp_all add: rr_kern_def)
qed

theorem sched_round_robin_bound_witness:
  "\<exists>i < 64 :: nat. fst (proc_next_ready 0 None (rr_kern (if even i then 0 else 5))) = Some 0"
proof -
  let ?l = "\<lambda>i :: nat. if even i then 0 else 5 :: u32" and ?r = "\<lambda>i :: nat. if even i then 5 else 0 :: nat"
  have "\<exists>i < 64. ?r i = 0"
  proof (rule sched_round_robin_bound [where cpu = 0 and skip = "\<lambda>_. None" and k = "\<lambda>i. rr_kern (?l i)"
        and k' = "\<lambda>i. rr_kern (?l (Suc i))"])
    fix i :: nat
    show "proc_next_ready 0 None (rr_kern (?l i)) = (Some (?r i), rr_kern (?l (Suc i)))"
      using rr_kern_next by simp
    show "bit (g_ready_mask (rr_kern (?l i))) 0 \<and> None \<noteq> Some 0 \<and> p_pid (proc_at (rr_kern (?l i)) 0) \<noteq> 0"
      by (simp add: rr_kern_def bit_or_iff)
    show "0 < length (g_last_scheduled (rr_kern (?l i)))" by (simp add: rr_kern_def)
  qed simp_all
  then obtain i :: nat where "i < 64" "odd i" by (auto split: if_splits)
  then show ?thesis using rr_kern_next by (intro exI [of _ i]) simp
qed

text \<open>
  The lock-free lookup by process id that interrupt handlers use agrees with the locked table search,
  for every id but 0, on every consistent table; the search also takes a reference to what it returns.
\<close>

theorem proc_find_lock_free:
  assumes "kern_wf k" "pid \<noteq> 0"
  shows "fst (proc_find pid k) = proc_slot_of_pid pid k"
proof -
  let ?P = "\<lambda>p. p_state p \<noteq> PROC_UNUSED \<and> p_state p \<noteq> PROC_EMBRYO \<and> p_pid p = pid"
  have only: "j = unat (pid - 1) \<and> unat pid \<le> 64" if "j < 64" "p_pid (proc_at k j) = pid" for j
  proof -
    have u: "unat (of_nat n :: u32) = n" if "n \<le> 64" for n using that by (simp add: unat_of_nat)
    have pid: "pid = of_nat (j + 1)"
      using kern_wf_slot [OF assms(1) that(1)] that(2) assms(2) by (simp add: slot_wf_def)
    then have "pid - 1 = of_nat j" by simp
    moreover have "unat pid = j + 1" unfolding pid by (rule u) (use that(1) in simp)
    ultimately show ?thesis using that(1) u [of j] by simp
  qed
  have find: "fst (proc_find pid k) = find_index ?P (g_proctable k)"
    by (cases "find_index ?P (g_proctable k)") (simp_all add: proc_find_def del: find_index_None)
  have slot: "p = proc_at k (unat (pid - 1)) \<and> unat pid \<le> 64" if "p \<in> set (g_proctable k)" "?P p" for p
  proof -
    from that(1) obtain j where "j < length (g_proctable k)" "p = proc_at k j" by (metis in_set_conv_nth)
    with only [of j] that(2) assms(1) show ?thesis by simp
  qed
  have big: "of_nat PROC_MAX < pid \<longleftrightarrow> 64 < unat pid" by (simp add: word_nat)
  show ?thesis
  proof (cases "64 < unat pid")
    case True
    then have "find_index ?P (g_proctable k) = None"
      unfolding find_index_None using slot leD by blast
    then show ?thesis using True find big by (simp add: proc_slot_of_pid_def del: find_index_None)
  next
    case False
    then have i: "unat (pid - 1) < 64"
      using assms(2) by (simp add: unat_minus_one word_nat)
    show ?thesis
    proof (cases "?P (proc_at k (unat (pid - 1)))")
      case True
      have "find_index ?P (g_proctable k) = Some (unat (pid - 1))"
      proof (rule find_index_unique [where P = ?P])
        fix j
        assume "j < length (g_proctable k)" "?P (proc_at k j)"
        with only [of j] assms(1) show "j = unat (pid - 1)" by simp
      qed (use True i assms(1) in simp_all)
      then show ?thesis using True False find big assms(2) by (simp add: proc_slot_of_pid_def Let_def)
    next
      case no: False
      then have "find_index ?P (g_proctable k) = None"
        unfolding find_index_None
      proof (intro ballI notI)
        fix p
        assume "p \<in> set (g_proctable k)" "?P p"
        with slot [of p] no show False by simp
      qed
      then have "fst (proc_find pid k) = None" using find by simp
      then show ?thesis using no False big assms(2) by (auto simp: proc_slot_of_pid_def Let_def)
    qed
  qed
qed

theorem proc_find_lock_free_witness:
  "fst (proc_find 3 boot_kern) = proc_slot_of_pid 3 boot_kern"
  using proc_find_lock_free [OF boot_kern_wf, of 3] by simp



text \<open>
  Finding. When the stack of an idle process cannot be completed, \<open>proc_create_idle\<close> unmaps the pages
  it had mapped without freeing them: with three pages available the call fails and the three pages are
  lost.
\<close>

lemma poor_stack:
  assumes "k_page_reqs k = 0" "k_map_reqs k = 0"
  shows "\<exists>k'. kstack_map poor_env guard [0..<KSTACK_PAGES] k = (Some 3, k')"
proof -
  have "[0..<KSTACK_PAGES] = 0 # 1 # 2 # 3 # [4..<16]"
    by (simp add: kstack_pages_16 upt_conv_Cons)
  with assms show ?thesis by (simp add: poor_env_def)
qed

theorem proc_create_idle_leaks:
  "\<exists>k'. proc_create_idle poor_env boot_kern = (None, k') \<and> k_pages boot_kern = 0 \<and> k_pages k' = 3"
proof -
  let ?g = "g_kstack_va_bump boot_kern"
  have f: "find_index (\<lambda>p. p_state p = PROC_UNUSED) (g_proctable boot_kern) = Some 0"
    by (rule find_index_SomeI) (simp_all add: boot_kern_def proc_init_def zero_proc_def)
  have z: "k_page_reqs (idle_slot 0 boot_kern) = 0" "k_map_reqs (idle_slot 0 boot_kern) = 0"
    "k_pages (idle_slot 0 boot_kern) = 0"
    by (simp_all add: boot_kern_def proc_init_def idle_slot_def proc_set_ready_def)
  from poor_stack [OF z(1,2), of ?g] obtain k1 where
    m: "kstack_map poor_env ?g [0..<KSTACK_PAGES] (idle_slot 0 boot_kern) = (Some 3, k1)" by blast
  from kstack_map_upt [OF m] z(3) have "k_pages k1 = 3" by auto
  moreover have "proc_create_idle poor_env boot_kern =
      (None, proc_release_slot 0 (idle_unmap ?g [0..<3] k1))"
    unfolding proc_create_idle_def f using m by (simp add: Let_def)
  moreover have "k_pages boot_kern = 0" by (simp add: boot_kern_def proc_init_def)
  ultimately show ?thesis by (simp add: proc_release_slot_def proc_clear_used_def)
qed

end
