(* ===== verification/Signal.thy ===== *)
theory Signal
  imports Proc
begin

text \<open>
  Signals: \<open>src/kernel/proc/signal.c\<close>, the signal system calls of \<open>src/kernel/syscall/sig.c\<close>, and
  the stop operations of \<open>src/kernel/proc/proc.c\<close> that deliver a child signal. Sending, the choice of
  the next signal to deliver, the handler frame on the user stack and its restoration are modelled;
  \<open>sys_kill\<close>, which also depends on namespaces and jails, is in theory \<open>Kill\<close>.

  User memory is a store of signal frames by address, and whether the kernel may write a user range is a
  parameter. A system call that blocks is given by its entry, the condition of its loop and its exit.
\<close>

section \<open>Data\<close>

named_theorems sig_const \<open>numbers of the signals and their flags\<close>

definition SIGKILL :: nat where [sig_const]: "SIGKILL = 9"
definition SIGSEGV :: nat where [sig_const]: "SIGSEGV = 11"
definition SIGCHLD :: nat where [sig_const]: "SIGCHLD = 17"
definition SIGCONT :: nat where [sig_const]: "SIGCONT = 18"
definition SIGSTOP :: nat where [sig_const]: "SIGSTOP = 19"
definition SIGTSTP :: nat where [sig_const]: "SIGTSTP = 20"
definition SIGTTIN :: nat where [sig_const]: "SIGTTIN = 21"
definition SIGTTOU :: nat where [sig_const]: "SIGTTOU = 22"
definition SIGWINCH :: nat where [sig_const]: "SIGWINCH = 28"
definition SIGSYS :: nat where [sig_const]: "SIGSYS = 31"
definition NSIG :: nat where [sig_const]: "NSIG = 64"
definition SIG_DFL :: u64 where [sig_const]: "SIG_DFL = 0"
definition SIG_IGN :: u64 where [sig_const]: "SIG_IGN = 1"
definition SA_ONSTACK :: u64 where [sig_const]: "SA_ONSTACK = 0x08000000"
definition SA_RESETHAND :: u64 where [sig_const]: "SA_RESETHAND = 0x80000000"
definition SA_NODEFER :: u64 where [sig_const]: "SA_NODEFER = 0x40000000"
definition SS_ONSTACK :: int where [sig_const]: "SS_ONSTACK = 1"
definition SS_DISABLE :: int where [sig_const]: "SS_DISABLE = 2"
declare USER_LIMIT_def [sig_const]
definition GDT_USER_CODE_SEL :: u16 where [sig_const]: "GDT_USER_CODE_SEL = 0x23"

record syscall_frame =
  sf_rax :: u64
  sf_rbx :: u64
  sf_rcx :: u64
  sf_rdx :: u64
  sf_rsi :: u64
  sf_rdi :: u64
  sf_rbp :: u64
  sf_r8 :: u64
  sf_r9 :: u64
  sf_r10 :: u64
  sf_r11 :: u64
  sf_r12 :: u64
  sf_r13 :: u64
  sf_r14 :: u64
  sf_r15 :: u64

record mcontext =
  mc_r8 :: u64
  mc_r9 :: u64
  mc_r10 :: u64
  mc_r11 :: u64
  mc_r12 :: u64
  mc_r13 :: u64
  mc_r14 :: u64
  mc_r15 :: u64
  mc_rdi :: u64
  mc_rsi :: u64
  mc_rbp :: u64
  mc_rbx :: u64
  mc_rdx :: u64
  mc_rax :: u64
  mc_rcx :: u64
  mc_rsp :: u64
  mc_rip :: u64
  mc_eflags :: u64
  mc_cs :: u16
  mc_fpstate :: u64

record rt_sigframe =
  fr_pretcode :: u64
  fr_signo :: nat
  fr_mcontext :: mcontext
  fr_sigmask :: u64

definition sizeof_rt_sigframe :: u64 where "sizeof_rt_sigframe = 440"
definition offsetof_info :: u64 where "offsetof_info = 8"
definition offsetof_uc :: u64 where "offsetof_uc = 136"

definition USER_RFLAGS_MASK :: u64 where "USER_RFLAGS_MASK = 0x00050DD5"
definition USER_RFLAGS_FIXED :: u64 where "USER_RFLAGS_FIXED = 0x00000202"

definition user_rflags :: "u64 \<Rightarrow> u64" where
  "user_rflags v = (v AND USER_RFLAGS_MASK) OR USER_RFLAGS_FIXED"

section \<open>Sending and choosing signals\<close>

definition SIG_BIT :: "nat \<Rightarrow> u64" where
  "SIG_BIT sig = mask_bit (sig - 1)"

definition SIG_UNBLOCKABLE :: u64 where
  "SIG_UNBLOCKABLE = SIG_BIT SIGKILL OR SIG_BIT SIGSTOP"

definition SIG_STOP_MASK :: u64 where
  "SIG_STOP_MASK = SIG_BIT SIGSTOP OR SIG_BIT SIGTSTP OR SIG_BIT SIGTTIN OR SIG_BIT SIGTTOU"

definition sig_default_fatal :: "nat \<Rightarrow> bool" where
  "sig_default_fatal sig \<longleftrightarrow> \<not> (sig = SIGCHLD \<or> sig = SIGCONT \<or> sig = SIGWINCH)"

definition blocking_mask_step :: "proc \<Rightarrow> nat \<Rightarrow> u64 \<Rightarrow> u64" where
  "blocking_mask_step p idx actionable =
     (let sig = idx + 1; handler = sa_handler (p_sig_actions p ! (sig - 1)) in
      if handler = SIG_IGN \<or> (handler = SIG_DFL \<and> \<not> sig_default_fatal sig)
      then actionable AND NOT (mask_bit idx) else actionable)"

definition proc_blocking_sig_mask :: "proc \<Rightarrow> u64" where
  "proc_blocking_sig_mask p =
     (let blocked = p_sig_mask p AND NOT SIG_UNBLOCKABLE;
          pending = p_pending_sigs p AND NOT blocked
      in bit_loop (blocking_mask_step p) pending pending)"

definition sig_default_stop :: "nat \<Rightarrow> bool" where
  "sig_default_stop sig \<longleftrightarrow> SIG_BIT sig AND SIG_STOP_MASK \<noteq> 0"

definition proc_send_signal :: "nat \<Rightarrow> int \<Rightarrow> kern \<Rightarrow> kern" where
  "proc_send_signal i sig k =
     (if sig < 1 \<or> int NSIG \<le> sig then k
      else if p_state (proc_at k i) = PROC_UNUSED then k
      else
        let s = nat sig;
            k = (if s = SIGCONT
                 then upd_proc i (\<lambda>p. p\<lparr>p_pending_sigs := p_pending_sigs p AND NOT SIG_STOP_MASK\<rparr>) k
                 else if sig_default_stop s
                 then upd_proc i (\<lambda>p. p\<lparr>p_pending_sigs := p_pending_sigs p AND NOT (SIG_BIT SIGCONT)\<rparr>) k
                 else k);
            k = upd_proc i (\<lambda>p. p\<lparr>p_pending_sigs := p_pending_sigs p OR SIG_BIT s\<rparr>) k
        in if p_job_stopped (proc_at k i) \<noteq> 0 \<and> (s = SIGCONT \<or> s = SIGKILL)
           then proc_set_ready i (set_state i PROC_READY (upd_proc i (\<lambda>p. p\<lparr>p_job_stopped := 0\<rparr>) k))
           else
             let (won, k) = state_cas i PROC_WAITING PROC_READY k in
             if won then proc_set_ready i k else k)"

section \<open>Stopping\<close>

text \<open>
  The common middle part of \<open>proc_ptrace_stop\<close> and \<open>proc_job_stop\<close>: the tracer or parent is
  looked up, gets a child signal and is woken, and its reference is dropped.
\<close>

definition notify_proc :: "u32 \<Rightarrow> kern \<Rightarrow> kern" where
  "notify_proc pid k =
     (case proc_find pid k of
        (None, k) \<Rightarrow> k
      | (Some t, k) \<Rightarrow>
          if p_state (proc_at k t) \<noteq> PROC_UNUSED then
            let k = proc_send_signal t (int SIGCHLD) k;
                k = (if p_state (proc_at k t) = PROC_WAITING
                     then proc_set_ready t (set_state t PROC_READY k) else k)
            in proc_unref t k
          else k)"

text \<open>The state in which \<open>proc_job_stop\<close> enters its waiting loop, and the end of the function.\<close>

definition proc_job_stop_enter :: "nat \<Rightarrow> nat \<Rightarrow> kern \<Rightarrow> kern" where
  "proc_job_stop_enter i sig k =
     notify_proc (p_ppid (proc_at k i))
       (proc_clear_ready i (upd_proc i (\<lambda>p. p\<lparr>p_stop_sig := of_nat sig, p_stop_reported := 0,
          p_job_stopped := 1, p_state := PROC_STOPPED\<rparr>) k))"

definition proc_job_stop_again :: "nat \<Rightarrow> kern \<Rightarrow> kern" where
  "proc_job_stop_again i k =
     (if p_job_stopped (proc_at k i) \<noteq> 0 then proc_clear_ready i (set_state i PROC_STOPPED k) else k)"

definition proc_job_stop_leave :: "nat \<Rightarrow> kern \<Rightarrow> kern" where
  "proc_job_stop_leave i k = set_state i PROC_RUNNING k"

definition proc_ptrace_stop_enter :: "nat \<Rightarrow> nat \<Rightarrow> u8 \<Rightarrow> kern \<Rightarrow> kern" where
  "proc_ptrace_stop_enter i sig frame_kind k =
     notify_proc (p_tracer_pid (proc_at k i))
       (proc_clear_ready i (upd_proc i (\<lambda>p. p\<lparr>p_ptrace_stop_sig := of_nat sig,
          p_ptrace_frame_kind := frame_kind, p_ptrace_stopped := 1, p_state := PROC_WAITING\<rparr>) k))"

definition proc_ptrace_stop_leave :: "nat \<Rightarrow> u64 option \<Rightarrow> kern \<Rightarrow> u64 option \<times> kern" where
  "proc_ptrace_stop_leave i rflags k =
     (map_option (\<lambda>v. if p_ptrace_step (proc_at k i) \<noteq> 0 then v OR 0x100 else v AND NOT 0x100) rflags,
      upd_proc i (\<lambda>p. p\<lparr>p_ptrace_step := 0, p_ptrace_frame_kind := 0, p_state := PROC_RUNNING\<rparr>) k)"

section \<open>Delivery\<close>

text \<open>The machine state that delivery works on.\<close>

record sigctx =
  sc_k :: kern
  sc_f :: syscall_frame
  sc_rsp :: u64
  sc_frames :: "u64 \<Rightarrow> rt_sigframe option"

datatype deliver = Delivered sigctx | Exit_signal nat sigctx | Job_stop nat sigctx | Trace_stop nat sigctx

definition use_altstack :: "proc \<Rightarrow> nat \<Rightarrow> bool" where
  "use_altstack p sig \<longleftrightarrow>
     sa_flags (p_sig_actions p ! (sig - 1)) AND SA_ONSTACK \<noteq> 0 \<and> p_on_sigstack p = 0 \<and>
     sizeof_rt_sigframe + 16 \<le> p_sig_altstack_size p"

definition sigframe_addr :: "proc \<Rightarrow> nat \<Rightarrow> u64 \<Rightarrow> u64" where
  "sigframe_addr p sig user_rsp =
     (let base = (if use_altstack p sig then p_sig_altstack_sp p + p_sig_altstack_size p
                  else user_rsp - 128);
          sp = base - sizeof_rt_sigframe
      in ((sp - 8) AND NOT 0xF) + 8)"

definition sigframe_of :: "proc \<Rightarrow> nat \<Rightarrow> syscall_frame \<Rightarrow> u64 \<Rightarrow> rt_sigframe" where
  "sigframe_of p sig f user_rsp =
     \<lparr>fr_pretcode = sa_restorer (p_sig_actions p ! (sig - 1)), fr_signo = sig,
      fr_mcontext = \<lparr>mc_r8 = sf_r8 f, mc_r9 = sf_r9 f, mc_r10 = sf_r10 f, mc_r11 = sf_r11 f,
        mc_r12 = sf_r12 f, mc_r13 = sf_r13 f, mc_r14 = sf_r14 f, mc_r15 = sf_r15 f,
        mc_rdi = sf_rdi f, mc_rsi = sf_rsi f, mc_rbp = sf_rbp f, mc_rbx = sf_rbx f,
        mc_rdx = sf_rdx f, mc_rax = sf_rax f, mc_rcx = sf_rcx f, mc_rsp = user_rsp,
        mc_rip = sf_rcx f, mc_eflags = sf_r11 f, mc_cs = GDT_USER_CODE_SEL, mc_fpstate = 0\<rparr>,
      fr_sigmask = p_sig_mask p\<rparr>"

definition setup_sigframe :: "(u64 \<Rightarrow> u64 \<Rightarrow> bool) \<Rightarrow> nat \<Rightarrow> nat \<Rightarrow> sigctx \<Rightarrow> deliver" where
  "setup_sigframe uptr_ok_w i sig c =
     (let p = proc_at (sc_k c) i; act = p_sig_actions p ! (sig - 1);
          use_alt = use_altstack p sig; sp = sigframe_addr p sig (sc_rsp c)
      in if \<not> uptr_ok_w sp sizeof_rt_sigframe then Exit_signal SIGSEGV c
         else
           let frame = sigframe_of p sig (sc_f c) (sc_rsp c);
               block = (if sa_flags act AND SA_NODEFER = 0 then sa_mask act OR SIG_BIT sig
                        else sa_mask act);
               p' = p\<lparr>p_sig_mask := (p_sig_mask p OR block) AND NOT SIG_UNBLOCKABLE,
                      p_on_sigstack := (if use_alt then 1 else p_on_sigstack p),
                      p_sig_actions := (if sa_flags act AND SA_RESETHAND \<noteq> 0
                        then (p_sig_actions p)[sig - 1 := act\<lparr>sa_handler := SIG_DFL\<rparr>]
                        else p_sig_actions p)\<rparr>
           in Delivered (c\<lparr>sc_k := upd_proc i (\<lambda>_. p') (sc_k c),
                sc_f := (sc_f c)\<lparr>sf_rcx := sa_handler act, sf_rdi := of_nat sig,
                  sf_rsi := sp + offsetof_info, sf_rdx := sp + offsetof_uc, sf_r11 := 0x202\<rparr>,
                sc_rsp := sp, sc_frames := (sc_frames c)(sp := Some frame)\<rparr>))"

definition deliver_signal :: "(u64 \<Rightarrow> u64 \<Rightarrow> bool) \<Rightarrow> nat \<Rightarrow> nat \<Rightarrow> sigctx \<Rightarrow> deliver" where
  "deliver_signal uptr_ok_w i sig c =
     (let act = p_sig_actions (proc_at (sc_k c) i) ! (sig - 1); handler = sa_handler act in
      if sig = SIGKILL then Exit_signal SIGKILL c
      else if sig_default_stop sig \<and> (sig = SIGSTOP \<or> handler = SIG_DFL) then Job_stop sig c
      else if handler = SIG_IGN then Delivered c
      else if handler = SIG_DFL then
        if sig_default_fatal sig then Exit_signal sig c else Delivered c
      else if sa_restorer act = 0 then Exit_signal sig c
      else setup_sigframe uptr_ok_w i sig c)"

definition signal_check :: "(u64 \<Rightarrow> u64 \<Rightarrow> bool) \<Rightarrow> nat \<Rightarrow> sigctx \<Rightarrow> deliver" where
  "signal_check uptr_ok_w i c =
     (let p = proc_at (sc_k c) i; blocked = p_sig_mask p AND NOT SIG_UNBLOCKABLE;
          pending = p_pending_sigs p AND NOT blocked
      in if pending = 0 then Delivered c
         else
           let idx = ctzll pending; sig = idx + 1;
               c = c\<lparr>sc_k := upd_proc i (\<lambda>p. p\<lparr>p_pending_sigs := p_pending_sigs p AND NOT (mask_bit idx)\<rparr>)
                        (sc_k c)\<rparr>
           in if p_tracer_pid p \<noteq> 0 \<and> sig \<noteq> SIGKILL then Trace_stop sig c
              else deliver_signal uptr_ok_w i sig c)"

section \<open>System calls\<close>

text \<open>
  The parameter \<open>fault\<close> says that a user pointer of the call fails its range check. Old values that the
  calls copy out are part of the result.
\<close>

definition sys_rt_sigaction ::
  "bool \<Rightarrow> nat \<Rightarrow> int \<Rightarrow> k_sigaction option \<Rightarrow> kern \<Rightarrow> int \<times> k_sigaction option \<times> kern" where
  "sys_rt_sigaction fault i sig act k =
     (if sig < 1 \<or> int NSIG \<le> sig then (- EINVAL, None, k)
      else if sig = int SIGKILL \<or> sig = int SIGSTOP then (- EINVAL, None, k)
      else if fault then (- EFAULT, None, k)
      else
        let old = p_sig_actions (proc_at k i) ! (nat sig - 1) in
        (case act of
           None \<Rightarrow> (0, Some old, k)
         | Some a \<Rightarrow>
             if sa_handler a \<noteq> SIG_DFL \<and> sa_handler a \<noteq> SIG_IGN \<and> USER_LIMIT \<le> sa_handler a
             then (- EINVAL, None, k)
             else (0, Some old, upd_proc i (\<lambda>p. p\<lparr>p_sig_actions := (p_sig_actions p)[nat sig - 1 := a]\<rparr>) k)))"

definition sys_rt_sigprocmask :: "bool \<Rightarrow> nat \<Rightarrow> int \<Rightarrow> u64 option \<Rightarrow> kern \<Rightarrow> int \<times> kern" where
  "sys_rt_sigprocmask fault i how nset k =
     (if fault then (- EFAULT, k)
      else case nset of
        None \<Rightarrow> (0, k)
      | Some s \<Rightarrow>
          let bits = s AND NOT (mask_bit (SIGKILL - 1) OR mask_bit (SIGSTOP - 1)) in
          if how = 0 then (0, upd_proc i (\<lambda>p. p\<lparr>p_sig_mask := p_sig_mask p OR bits\<rparr>) k)
          else if how = 1 then (0, upd_proc i (\<lambda>p. p\<lparr>p_sig_mask := p_sig_mask p AND NOT bits\<rparr>) k)
          else if how = 2 then (0, upd_proc i (\<lambda>p. p\<lparr>p_sig_mask := bits\<rparr>) k)
          else (- EINVAL, k))"

definition sys_rt_sigreturn :: "(u64 \<Rightarrow> bool) \<Rightarrow> nat \<Rightarrow> sigctx \<Rightarrow> u64 option \<times> sigctx" where
  "sys_rt_sigreturn uptr_ok i c =
     (case sc_frames c (sc_rsp c - 8) of
        None \<Rightarrow> (None, c)
      | Some frame \<Rightarrow>
          if \<not> uptr_ok (sc_rsp c - 8) then (None, c)
          else
            let mc = fr_mcontext frame in
            if USER_LIMIT \<le> mc_rip mc then (None, c)
            else
              (Some (mc_rax mc),
               c\<lparr>sc_f := (sc_f c)\<lparr>sf_r8 := mc_r8 mc, sf_r9 := mc_r9 mc, sf_r10 := mc_r10 mc,
                   sf_r11 := user_rflags (mc_eflags mc), sf_r12 := mc_r12 mc, sf_r13 := mc_r13 mc,
                   sf_r14 := mc_r14 mc, sf_r15 := mc_r15 mc, sf_rdi := mc_rdi mc,
                   sf_rsi := mc_rsi mc, sf_rbp := mc_rbp mc, sf_rbx := mc_rbx mc,
                   sf_rdx := mc_rdx mc, sf_rcx := mc_rip mc\<rparr>,
                 sc_rsp := mc_rsp mc,
                 sc_k := upd_proc i (\<lambda>p. p\<lparr>p_sig_mask := fr_sigmask frame AND
                     NOT (mask_bit (SIGKILL - 1) OR mask_bit (SIGSTOP - 1)), p_on_sigstack := 0\<rparr>) (sc_k c)\<rparr>))"

definition pause_waits :: "proc \<Rightarrow> bool" where
  "pause_waits p \<longleftrightarrow> p_pending_sigs p AND NOT (p_sig_mask p) = 0"

text \<open>
  \<open>sys_rt_sigsuspend\<close>: the mask installed on entry and the saved one, and the exit of the waiting loop.
\<close>

definition sigsuspend_enter :: "nat \<Rightarrow> u64 option \<Rightarrow> kern \<Rightarrow> u64 \<times> kern" where
  "sigsuspend_enter i m k =
     (p_sig_mask (proc_at k i),
      case m of None \<Rightarrow> k
      | Some s \<Rightarrow> upd_proc i (\<lambda>p. p\<lparr>p_sig_mask := s AND
          NOT (mask_bit (SIGKILL - 1) OR mask_bit (SIGSTOP - 1))\<rparr>) k)"

definition sigsuspend_leave :: "nat \<Rightarrow> u64 \<Rightarrow> kern \<Rightarrow> int \<times> kern" where
  "sigsuspend_leave i saved k = (- EINTR, upd_proc i (\<lambda>p. p\<lparr>p_sig_mask := saved\<rparr>) k)"

definition sys_sigaltstack ::
  "bool \<Rightarrow> nat \<Rightarrow> (u64 \<times> int \<times> u64) option \<Rightarrow> kern \<Rightarrow> int \<times> (u64 \<times> int \<times> u64) \<times> kern" where
  "sys_sigaltstack fault i ss k =
     (let p = proc_at k i;
          old = (p_sig_altstack_sp p,
                 if p_on_sigstack p \<noteq> 0 then SS_ONSTACK
                 else if p_sig_altstack_size p \<noteq> 0 then 0 else SS_DISABLE,
                 p_sig_altstack_size p)
      in if fault then (- EFAULT, old, k)
         else case ss of
           None \<Rightarrow> (0, old, k)
         | Some (sp, flags, n) \<Rightarrow>
             if p_on_sigstack p \<noteq> 0 then (- EPERM, old, k)
             else if flags AND SS_DISABLE \<noteq> 0
             then (0, old, upd_proc i (\<lambda>p. p\<lparr>p_sig_altstack_sp := 0, p_sig_altstack_size := 0\<rparr>) k)
             else (0, old, upd_proc i (\<lambda>p. p\<lparr>p_sig_altstack_sp := sp, p_sig_altstack_size := n\<rparr>) k))"

text \<open>
  \<open>sys_rt_sigtimedwait\<close>: the deadline computed from the timeout in seconds and nanoseconds, one test
  of the waiting loop, and the signal taken.
\<close>

definition sigtimedwait_deadline :: "u64 \<Rightarrow> (u64 \<times> u64) option \<Rightarrow> u64" where
  "sigtimedwait_deadline ticks timeout =
     (case timeout of
        None \<Rightarrow> - 1
      | Some (sec, nsec) \<Rightarrow> let ms = sec * 1000 + nsec div 1000000 in
          if ms \<noteq> 0 then ticks + ms else - 1)"

definition sigtimedwait_test :: "nat \<Rightarrow> u64 \<Rightarrow> u64 \<Rightarrow> u64 \<Rightarrow> kern \<Rightarrow> (int \<times> kern) option" where
  "sigtimedwait_test i m deadline ticks k =
     (let found = p_pending_sigs (proc_at k i) AND m in
      if found = 0 then
        if deadline \<noteq> - 1 \<and> deadline \<le> ticks then Some (- ETIMEDOUT, k) else None
      else
        let sig = ctzll found + 1 in
        Some (int sig, upd_proc i (\<lambda>p. p\<lparr>p_pending_sigs := p_pending_sigs p AND
          NOT (mask_bit (sig - 1))\<rparr>) k))"

section \<open>Signal sets\<close>

lemma bit_SIG_BIT: "0 < s \<Longrightarrow> s \<le> 64 \<Longrightarrow> bit (SIG_BIT s) j \<longleftrightarrow> j = s - 1"
  by (auto simp: SIG_BIT_def)

lemma bit_unblockable: "bit SIG_UNBLOCKABLE j \<longleftrightarrow> j = 8 \<or> j = 18"
  by (auto simp: SIG_UNBLOCKABLE_def bit_or_iff bit_SIG_BIT sig_const)

lemma bit_stop_mask: "bit SIG_STOP_MASK j \<longleftrightarrow> j \<in> {18, 19, 20, 21}"
  by (auto simp: SIG_STOP_MASK_def bit_or_iff bit_SIG_BIT sig_const)

lemma unblockable_bits [simp]:
  "mask_bit (SIGKILL - Suc 0) OR mask_bit (SIGSTOP - Suc 0) = SIG_UNBLOCKABLE"
  by (simp add: SIG_UNBLOCKABLE_def SIG_BIT_def)

lemma default_stop_iff:
  assumes "0 < s" "s \<le> 64"
  shows "sig_default_stop s \<longleftrightarrow> s \<in> {19, 20, 21, 22}"
proof -
  have "SIG_BIT s AND SIG_STOP_MASK \<noteq> 0 \<longleftrightarrow> (\<exists>j < 64. bit (SIG_BIT s AND SIG_STOP_MASK) j)"
    by (rule word64_nonzero_bit)
  also have "\<dots> \<longleftrightarrow> s \<in> {19, 20, 21, 22}"
    using assms by (auto simp: bit_and_iff bit_SIG_BIT bit_stop_mask)
  finally show ?thesis by (simp add: sig_default_stop_def)
qed

text \<open>The pending signals that the mask lets through: \<open>SIGKILL\<close> and \<open>SIGSTOP\<close> always.\<close>

definition sig_open :: "proc \<Rightarrow> nat set" where
  "sig_open p = {j. bit (p_pending_sigs p) j \<and> (\<not> bit (p_sig_mask p) j \<or> j = 8 \<or> j = 18)}"

definition open_word :: "proc \<Rightarrow> u64" where
  "open_word p = p_pending_sigs p AND NOT (p_sig_mask p AND NOT SIG_UNBLOCKABLE)"

lemma open_word_fold [simp]:
  "p_pending_sigs p AND NOT (p_sig_mask p AND NOT SIG_UNBLOCKABLE) = open_word p"
  "p_pending_sigs p AND (NOT (p_sig_mask p) OR SIG_UNBLOCKABLE) = open_word p"
  by (simp_all add: open_word_def)

lemma open_bits: "bit (open_word p) j \<longleftrightarrow> j \<in> sig_open p"
  unfolding open_word_def sig_open_def bit_and_iff bit_not_iff bit_unblockable
  by (auto dest: bit_imp_le_length)

lemma open_less: "j \<in> sig_open p \<Longrightarrow> j < 64"
  by (auto simp: sig_open_def dest: bit_imp_le_length)

lemma open_empty:
  "open_word p = 0 \<longleftrightarrow> sig_open p = {}"
proof -
  let ?w = "open_word p"
  have "?w = 0 \<longleftrightarrow> (\<forall>j < 64. \<not> bit ?w j)" using word64_nonzero_bit [of ?w] by blast
  then show ?thesis using open_less by (auto simp: open_bits)
qed

lemma open_least:
  assumes "sig_open p \<noteq> {}"
  shows "ctzll (open_word p) = (LEAST j. j \<in> sig_open p)"
proof (rule ctzll_eqI)
  from assms obtain j where j: "j \<in> sig_open p" by blast
  then have l: "(LEAST j. j \<in> sig_open p) \<in> sig_open p" by (rule LeastI)
  then show "(LEAST j. j \<in> sig_open p) < 64" by (rule open_less)
  show "bit (open_word p) (LEAST j. j \<in> sig_open p)"
    using l by (simp add: open_bits)
  fix i
  assume "i < (LEAST j. j \<in> sig_open p)"
  then have "i \<notin> sig_open p" by (rule not_less_Least)
  then show "\<not> bit (open_word p) i"
    by (simp add: open_bits)
qed

definition sig_ignored :: "proc \<Rightarrow> nat \<Rightarrow> bool" where
  "sig_ignored p j \<longleftrightarrow>
     sa_handler (p_sig_actions p ! j) = SIG_IGN \<or>
     sa_handler (p_sig_actions p ! j) = SIG_DFL \<and> j + 1 \<in> {SIGCHLD, SIGCONT, SIGWINCH}"

lemma blocking_fold:
  "\<forall>x \<in> set xs. x < 64 \<Longrightarrow>
   bit (fold (blocking_mask_step p) xs acc) j \<longleftrightarrow> bit acc j \<and> \<not> (j \<in> set xs \<and> sig_ignored p j)"
proof (induction xs arbitrary: acc)
  case (Cons x xs)
  have "bit (blocking_mask_step p x acc) j \<longleftrightarrow> bit acc j \<and> \<not> (j = x \<and> sig_ignored p j)"
    using Cons.prems by (auto simp: blocking_mask_step_def Let_def sig_ignored_def sig_default_fatal_def)
  with Cons show ?case by auto
qed simp

lemma blocking_mask_bits:
  "bit (proc_blocking_sig_mask p) j \<longleftrightarrow> j \<in> sig_open p \<and> \<not> sig_ignored p j"
proof -
  let ?w = "open_word p"
  have "\<forall>x \<in> set (bits_of ?w). x < 64" by (auto dest: bit_imp_le_length)
  from blocking_fold [OF this, of p ?w j] show ?thesis
    by (auto simp: proc_blocking_sig_mask_def Let_def bit_loop_fold open_bits)
qed

section \<open>Sending\<close>

text \<open>The pending set after a signal: stop signals and the continue signal cancel each other.\<close>

definition pend_after :: "nat \<Rightarrow> u64 \<Rightarrow> u64" where
  "pend_after s w =
     (if s = SIGCONT then w AND NOT SIG_STOP_MASK
      else if sig_default_stop s then w AND NOT (SIG_BIT SIGCONT) else w) OR SIG_BIT s"

lemma pend_after_bits:
  assumes "0 < s" "s < 64"
  shows "bit (pend_after s w) j \<longleftrightarrow>
    j = s - 1 \<or> bit w j \<and> \<not> (s = 18 \<and> j \<in> {18, 19, 20, 21}) \<and> \<not> (s \<in> {19, 20, 21, 22} \<and> j = 17)"
proof -
  have j: "bit w j \<Longrightarrow> j < 64" by (auto dest: bit_imp_le_length)
  consider "s = 18" | "s \<in> {19, 20, 21, 22}" | "s \<noteq> 18" "s \<notin> {19, 20, 21, 22}" by blast
  then show ?thesis
  proof cases
    case 1
    with j show ?thesis
      by (auto simp: pend_after_def sig_const bit_or_iff bit_and_iff bit_not_iff bit_SIG_BIT bit_stop_mask)
  next
    case 2
    then have "sig_default_stop s" "s \<noteq> 18" using assms default_stop_iff [of s] by auto
    with j 2 assms show ?thesis
      by (auto simp: pend_after_def sig_const bit_or_iff bit_and_iff bit_not_iff bit_SIG_BIT)
  next
    case 3
    then have "\<not> sig_default_stop s" using assms default_stop_iff [of s] by auto
    with j 3 assms show ?thesis
      by (auto simp: pend_after_def sig_const bit_or_iff bit_SIG_BIT)
  qed
qed

lemma proc_send_signal_eq:
  assumes "i < length (g_proctable k)" "1 \<le> sig" "sig < 64" "p_state (proc_at k i) \<noteq> PROC_UNUSED"
  shows "proc_send_signal i sig k =
    (let s = nat sig; p = (proc_at k i)\<lparr>p_pending_sigs := pend_after s (p_pending_sigs (proc_at k i))\<rparr> in
     if p_job_stopped p \<noteq> 0 \<and> (s = 18 \<or> s = 9)
     then proc_set_ready i (k\<lparr>g_proctable := (g_proctable k)[i := p\<lparr>p_job_stopped := 0, p_state := PROC_READY\<rparr>]\<rparr>)
     else if p_state p = PROC_WAITING
     then proc_set_ready i (k\<lparr>g_proctable := (g_proctable k)[i := p\<lparr>p_state := PROC_READY\<rparr>]\<rparr>)
     else k\<lparr>g_proctable := (g_proctable k)[i := p]\<rparr>)"
  using assms
  by (simp add: proc_send_signal_def pend_after_def Let_def state_cas_def sig_const)

lemma send_signal_invalid:
  "sig < 1 \<or> 64 \<le> sig \<or> p_state (proc_at k i) = PROC_UNUSED \<Longrightarrow> proc_send_signal i sig k = k"
  by (auto simp: proc_send_signal_def sig_const)

text \<open>The entry that replaces slot \<open>i\<close> keeps its process id and stays in use.\<close>

lemma put_live_wf:
  assumes "kern_wf k" "i < 64" "p_pid p = p_pid (proc_at k i)" "p_state p \<noteq> PROC_UNUSED"
    and "p_state (proc_at k i) \<noteq> PROC_UNUSED"
  shows "kern_wf (proc_set_ready i (k\<lparr>g_proctable := (g_proctable k)[i := p]\<rparr>))"
    "p_state p \<noteq> PROC_READY \<or> p_state (proc_at k i) = PROC_READY \<Longrightarrow>
      kern_wf (k\<lparr>g_proctable := (g_proctable k)[i := p]\<rparr>)"
  using assms kern_wf_slot [OF assms(1,2)]
  by (auto simp: slot_wf_def proc_set_ready_def intro!: kern_wf_change [OF assms(1,2)])

lemma send_signal_wf:
  assumes "kern_wf k" "i < 64"
  shows "kern_wf (proc_send_signal i sig k)"
proof (cases "sig < 1 \<or> 64 \<le> sig \<or> p_state (proc_at k i) = PROC_UNUSED")
  case True
  then show ?thesis using assms(1) by (simp add: send_signal_invalid)
next
  case False
  then have "i < length (g_proctable k)" "1 \<le> sig" "sig < 64" "p_state (proc_at k i) \<noteq> PROC_UNUSED"
    using assms by simp_all
  from proc_send_signal_eq [OF this] this(4) show ?thesis
    by (simp add: Let_def put_live_wf [OF assms])
qed

lemma send_signal_state:
  assumes "kern_wf k" "i < 64" "j < 64"
  shows "p_state (proc_at (proc_send_signal i sig k) j) =
    (if j = i \<and> 1 \<le> sig \<and> sig < 64 \<and> p_state (proc_at k i) \<noteq> PROC_UNUSED \<and>
        (p_state (proc_at k i) = PROC_WAITING \<or> p_job_stopped (proc_at k i) \<noteq> 0 \<and> (sig = 18 \<or> sig = 9))
     then PROC_READY else p_state (proc_at k j))"
proof (cases "sig < 1 \<or> 64 \<le> sig \<or> p_state (proc_at k i) = PROC_UNUSED")
  case True
  then show ?thesis by (auto simp: send_signal_invalid)
next
  case False
  have "nat sig = 18 \<longleftrightarrow> sig = 18" "nat sig = 9 \<longleftrightarrow> sig = 9" using False by auto
  then show ?thesis
    using assms False by (subst proc_send_signal_eq) (auto simp: Let_def nth_list_update)
qed

text \<open>A child signal is a wake-up in the sense of the process table.\<close>

interpretation cw: waker "\<lambda>i. proc_send_signal i (int SIGCHLD)"
  by unfold_locales (auto simp: send_signal_wf send_signal_state sig_const)

section \<open>Placing and restoring the handler frame\<close>

lemma align_down:
  fixes x :: u64
  shows "unat (x AND NOT 0xF) = unat x - unat x mod 16"
proof -
  have m: "(0xF :: u64) = mask 4" by (simp add: mask_eq_exp_minus_1)
  have "x = (x AND mask 4) OR (x AND NOT (mask 4))"
    by (simp add: bit.conj_disj_distrib [symmetric])
  also have "\<dots> = (x AND mask 4) + (x AND NOT (mask 4))"
    by (rule disjunctive_add_eq_or [symmetric]) (simp add: and.assoc and.left_commute)
  finally have "x AND NOT (mask 4) = x - take_bit 4 x"
    unfolding take_bit_eq_mask by (metis add_diff_cancel_left')
  moreover have t: "unat (take_bit 4 x) = unat x mod 16"
    by (simp only: unsigned_take_bit_eq) (simp add: take_bit_eq_mod)
  moreover have "take_bit 4 x \<le> x" unfolding word_le_nat_alt t by simp
  ultimately show ?thesis unfolding m by (simp add: unat_sub)
qed

text \<open>A frame below \<open>base\<close>: aligned as the ABI wants it and at most 15 bytes lower than necessary.\<close>

lemma frame_below:
  assumes "464 \<le> unat base"
  defines "sp \<equiv> ((base - sizeof_rt_sigframe - 8) AND NOT 0xF) + 8"
  shows "unat sp mod 16 = 8" "unat sp + 440 \<le> unat base" "unat base \<le> unat sp + 455"
proof -
  have x: "unat (base - sizeof_rt_sigframe - 8) = unat base - 448"
    using assms(1) by (simp add: sizeof_rt_sigframe_def unat_sub word_nat)
  define y where "y = (base - sizeof_rt_sigframe - 8) AND NOT 0xF"
  have y: "unat y = unat base - 448 - (unat base - 448) mod 16"
    unfolding y_def by (simp only: align_down x)
  have "unat y + 8 < 2 ^ 64" using unat_bound [of base] assms(1) y by simp
  then have "unat (y + 8) = unat y + 8" by (simp add: unat_word_ariths)
  then have sp: "unat sp = unat base - 448 - (unat base - 448) mod 16 + 8"
    by (simp only: sp_def y_def [symmetric] y)
  have d: "unat base - 448 - (unat base - 448) mod 16 = 16 * ((unat base - 448) div 16)"
    by (simp add: minus_mod_eq_mult_div)
  show "unat sp mod 16 = 8" unfolding sp d by simp
  have "(unat base - 448) mod 16 \<le> 15" by (simp add: less_Suc_eq_le [symmetric])
  moreover have "(unat base - 448) mod 16 \<le> unat base - 448" by simp
  ultimately show "unat sp + 440 \<le> unat base" "unat base \<le> unat sp + 455"
    unfolding sp using assms(1) by linarith+
qed

lemma sigframe_addr_eq:
  "sigframe_addr p sig rsp =
     (((if use_altstack p sig then p_sig_altstack_sp p + p_sig_altstack_size p else rsp - 128)
       - sizeof_rt_sigframe - 8) AND NOT 0xF) + 8"
  by (simp add: sigframe_addr_def Let_def)

lemma setup_sigframe_Delivered:
  assumes "setup_sigframe w i sig c = Delivered c'" "i < length (g_proctable (sc_k c))"
  defines "sp \<equiv> sigframe_addr (proc_at (sc_k c) i) sig (sc_rsp c)"
  shows "sc_rsp c' = sp" "sc_frames c' sp = Some (sigframe_of (proc_at (sc_k c) i) sig (sc_f c) (sc_rsp c))"
    "sf_rcx (sc_f c') = sa_handler (p_sig_actions (proc_at (sc_k c) i) ! (sig - 1))"
    "p_sig_mask (proc_at (sc_k c') i) AND SIG_UNBLOCKABLE = 0"
    "p_on_sigstack (proc_at (sc_k c') i) =
       (if use_altstack (proc_at (sc_k c) i) sig then 1 else p_on_sigstack (proc_at (sc_k c) i))"
    "p_pending_sigs (proc_at (sc_k c') i) = p_pending_sigs (proc_at (sc_k c) i)"
    "length (g_proctable (sc_k c')) = length (g_proctable (sc_k c))"
    "p_sig_altstack_sp (proc_at (sc_k c') i) = p_sig_altstack_sp (proc_at (sc_k c) i)"
    "p_sig_altstack_size (proc_at (sc_k c') i) = p_sig_altstack_size (proc_at (sc_k c) i)"
  using assms(1,2)
  by (auto simp: setup_sigframe_def Let_def sp_def and.assoc split: if_splits)

section \<open>Invariants of the signal state\<close>

text \<open>
  The mask of a process never contains \<open>SIGKILL\<close> or \<open>SIGSTOP\<close>, and a pending \<open>SIGCONT\<close>
  excludes pending stop signals.
\<close>

definition sig_wf :: "proc \<Rightarrow> bool" where
  "sig_wf p \<longleftrightarrow> p_sig_mask p AND SIG_UNBLOCKABLE = 0 \<and>
     \<not> (bit (p_pending_sigs p) 17 \<and> (\<exists>j \<in> {18, 19, 20, 21}. bit (p_pending_sigs p) j))"

lemma mask_no_unblockable: "(w AND NOT SIG_UNBLOCKABLE) AND SIG_UNBLOCKABLE = 0"
  by (simp add: and.assoc)

lemma mask_or_unblockable:
  "(a :: u64) AND u = 0 \<Longrightarrow> b AND u = 0 \<Longrightarrow> (a OR b) AND u = 0"
  by (simp add: bit.conj_disj_distrib2)

lemma mask_and_unblockable: "(a :: u64) AND u = 0 \<Longrightarrow> (a AND b) AND u = 0"
  by (metis and.assoc and.commute and_zero_eq)

lemma send_signal_sig_wf:
  assumes "i < length (g_proctable k)" "sig_wf (proc_at k i)"
  shows "sig_wf (proc_at (proc_send_signal i sig k) i)"
proof (cases "sig < 1 \<or> 64 \<le> sig \<or> p_state (proc_at k i) = PROC_UNUSED")
  case True
  then show ?thesis using assms(2) by (simp add: send_signal_invalid)
next
  case False
  let ?p = "proc_at (proc_send_signal i sig k) i"
  have m: "p_sig_mask ?p = p_sig_mask (proc_at k i)"
    and pend: "p_pending_sigs ?p = pend_after (nat sig) (p_pending_sigs (proc_at k i))"
    using False assms(1) by (simp_all add: proc_send_signal_eq Let_def)
  have b: "bit (p_pending_sigs ?p) j \<longleftrightarrow> j = nat sig - 1 \<or> bit (p_pending_sigs (proc_at k i)) j \<and>
      \<not> (nat sig = 18 \<and> j \<in> {18, 19, 20, 21}) \<and> \<not> (nat sig \<in> {19, 20, 21, 22} \<and> j = 17)" for j
    unfolding pend by (rule pend_after_bits) (use False in auto)
  show ?thesis using assms(2) False unfolding sig_wf_def m b by auto
qed

lemma clear_pending_sig_wf: "sig_wf p \<Longrightarrow> sig_wf (p\<lparr>p_pending_sigs := p_pending_sigs p AND m\<rparr>)"
  by (auto simp: sig_wf_def bit_and_iff)

text \<open>
  What a process and its environment do to the signal state of slot \<open>i\<close>. A mask that is restored was
  the mask of the process before.
\<close>

inductive sig_step :: "nat \<Rightarrow> sigctx \<Rightarrow> sigctx \<Rightarrow> bool" for i where
  ss_send: "sig_step i c (c\<lparr>sc_k := proc_send_signal i sig (sc_k c)\<rparr>)"
| ss_mask: "sig_step i c (c\<lparr>sc_k := snd (sys_rt_sigprocmask fault i how nset (sc_k c))\<rparr>)"
| ss_suspend: "sig_step i c (c\<lparr>sc_k := snd (sigsuspend_enter i m (sc_k c))\<rparr>)"
| ss_resume: "saved AND SIG_UNBLOCKABLE = 0 \<Longrightarrow> sig_step i c (c\<lparr>sc_k := snd (sigsuspend_leave i saved (sc_k c))\<rparr>)"
| ss_return: "sig_step i c (snd (sys_rt_sigreturn u i c))"
| ss_check: "signal_check w i c = Delivered c' \<Longrightarrow> sig_step i c c'"
| ss_wait: "sigtimedwait_test i m d t (sc_k c) = Some (rc, k) \<Longrightarrow> sig_step i c (c\<lparr>sc_k := k\<rparr>)"
| ss_user: "sig_step i c (c\<lparr>sc_f := f, sc_rsp := rsp, sc_frames := fr\<rparr>)"

definition sig_start :: "nat \<Rightarrow> sigctx \<Rightarrow> bool" where
  "sig_start i c \<longleftrightarrow> i < length (g_proctable (sc_k c)) \<and> p_sig_mask (proc_at (sc_k c) i) = 0 \<and>
     p_pending_sigs (proc_at (sc_k c) i) = 0"

definition sig_inv :: "nat \<Rightarrow> sigctx \<Rightarrow> bool" where
  "sig_inv i c \<longleftrightarrow> i < length (g_proctable (sc_k c)) \<and> sig_wf (proc_at (sc_k c) i)"

lemma send_signal_length [simp]: "length (g_proctable (proc_send_signal i sig k)) = length (g_proctable k)"
  by (simp add: proc_send_signal_def Let_def state_cas_def)

lemma setup_sigframe_inv:
  assumes "sig_inv i c" "setup_sigframe w i sig c = Delivered c'"
  shows "sig_inv i c'"
  using setup_sigframe_Delivered [OF assms(2)] assms(1) by (simp add: sig_inv_def sig_wf_def)

lemma deliver_signal_inv:
  assumes "sig_inv i c" "deliver_signal w i sig c = Delivered c'"
  shows "sig_inv i c'"
  using assms setup_sigframe_inv [OF assms(1), of w sig c']
  by (auto simp: deliver_signal_def Let_def split: if_splits)

lemma signal_check_inv:
  assumes "sig_inv i c" "signal_check w i c = Delivered c'"
  shows "sig_inv i c'"
proof (cases "sig_open (proc_at (sc_k c) i) = {}")
  case True
  with assms show ?thesis by (simp add: signal_check_def Let_def open_empty)
next
  case False
  let ?idx = "ctzll (open_word (proc_at (sc_k c) i))"
  let ?c = "c\<lparr>sc_k := upd_proc i (\<lambda>p. p\<lparr>p_pending_sigs := p_pending_sigs p AND NOT (mask_bit ?idx)\<rparr>) (sc_k c)\<rparr>"
  have "sig_inv i ?c" using assms(1) by (simp add: sig_inv_def clear_pending_sig_wf)
  moreover have "deliver_signal w i (?idx + 1) ?c = Delivered c'"
    using assms(2) False by (simp add: signal_check_def Let_def open_empty split: if_splits)
  ultimately show ?thesis by (rule deliver_signal_inv)
qed

interpretation sg: invariant_system "sig_start i" "sig_step i" "sig_inv i" for i
proof
  fix c
  assume "sig_start i c"
  then show "sig_inv i c" by (simp add: sig_start_def sig_inv_def sig_wf_def)
next
  fix c c'
  assume inv: "sig_inv i c" and "sig_step i c c'"
  from this(2) show "sig_inv i c'"
  proof cases
    case (ss_send sig)
    with inv send_signal_sig_wf show ?thesis by (simp add: sig_inv_def)
  next
    case (ss_mask fault how nset)
    with inv show ?thesis
      by (cases nset) (auto simp: sig_inv_def sig_wf_def sys_rt_sigprocmask_def Let_def
          intro: mask_or_unblockable mask_and_unblockable mask_no_unblockable)
  next
    case (ss_suspend m)
    with inv show ?thesis
      by (cases m) (auto simp: sig_inv_def sig_wf_def sigsuspend_enter_def mask_no_unblockable)
  next
    case (ss_resume saved)
    with inv show ?thesis by (simp add: sig_inv_def sig_wf_def sigsuspend_leave_def)
  next
    case (ss_return u)
    with inv show ?thesis
      by (cases "sc_frames c (sc_rsp c - 8)")
        (auto simp: sig_inv_def sig_wf_def sys_rt_sigreturn_def Let_def mask_no_unblockable)
  next
    case (ss_check w)
    with signal_check_inv [OF inv] show ?thesis by simp
  next
    case (ss_wait m d t rc k)
    with inv show ?thesis
      by (auto simp: sig_inv_def sigtimedwait_test_def Let_def clear_pending_sig_wf split: if_splits)
  next
    case (ss_user f rsp fr)
    with inv show ?thesis by (simp add: sig_inv_def)
  qed
qed

section \<open>Properties\<close>

text \<open>
  \<open>proc_blocking_sig_mask\<close>, which decides whether a blocking system call is interrupted, contains
  exactly the pending signals that are not blocked (\<open>SIGKILL\<close> and \<open>SIGSTOP\<close> cannot be) and whose action
  is not to ignore them, explicitly or by default.
\<close>

theorem proc_blocking_sig_mask_exact:
  "bit (proc_blocking_sig_mask p) j \<longleftrightarrow>
     bit (p_pending_sigs p) j \<and> \<not> (bit (p_sig_mask p) j \<and> j + 1 \<notin> {SIGKILL, SIGSTOP}) \<and>
     \<not> (sa_handler (p_sig_actions p ! j) = SIG_IGN \<or>
        sa_handler (p_sig_actions p ! j) = SIG_DFL \<and> j + 1 \<in> {SIGCHLD, SIGCONT, SIGWINCH})"
  by (auto simp: blocking_mask_bits sig_open_def sig_ignored_def sig_const)


definition wit_ctx :: "proc \<Rightarrow> sigctx" where
  "wit_ctx p = \<lparr>sc_k = boot_kern\<lparr>g_proctable := [p]\<rparr>,
     sc_f = \<lparr>sf_rax = 1, sf_rbx = 2, sf_rcx = 0x400000, sf_rdx = 4, sf_rsi = 5, sf_rdi = 6, sf_rbp = 7,
       sf_r8 = 8, sf_r9 = 9, sf_r10 = 10, sf_r11 = 0x246, sf_r12 = 12, sf_r13 = 13, sf_r14 = 14,
       sf_r15 = 15\<rparr>, sc_rsp = 0x7ffff000, sc_frames = (\<lambda>_. None)\<rparr>"




text \<open>
  C28: A handler frame on the alternate stack lies inside that stack; otherwise it lies below the 128
  bytes under the stack pointer that the ABI lets the interrupted code use. In both cases the frame
  address is 8 modulo 16, as on entry to a C function. (The stack tops are not so low that the frame
  would wrap around address 0.)
\<close>

theorem sigframe_placement:
  assumes "use_altstack p sig \<Longrightarrow> unat (p_sig_altstack_sp p) + unat (p_sig_altstack_size p) < 2 ^ 64 \<and>
      8 \<le> unat (p_sig_altstack_sp p)"
    and "\<not> use_altstack p sig \<Longrightarrow> 592 \<le> unat rsp"
  shows "unat (sigframe_addr p sig rsp) mod 16 = 8 \<and>
    (if use_altstack p sig
     then unat (p_sig_altstack_sp p) \<le> unat (sigframe_addr p sig rsp) \<and>
       unat (sigframe_addr p sig rsp) + 440 \<le> unat (p_sig_altstack_sp p) + unat (p_sig_altstack_size p)
     else unat (sigframe_addr p sig rsp) + 440 + 128 \<le> unat rsp)"
proof (cases "use_altstack p sig")
  case True
  let ?base = "p_sig_altstack_sp p + p_sig_altstack_size p"
  have sz: "456 \<le> unat (p_sig_altstack_size p)"
    using True by (simp add: use_altstack_def sizeof_rt_sigframe_def word_nat)
  have b: "unat ?base = unat (p_sig_altstack_sp p) + unat (p_sig_altstack_size p)"
    using assms(1) [OF True] by (simp add: unat_word_ariths)
  have "464 \<le> unat ?base" using b sz assms(1) [OF True] by linarith
  from frame_below [OF this] show ?thesis
    using True b sz by (simp add: sigframe_addr_eq)
next
  case False
  have b: "unat (rsp - 128) = unat rsp - 128" using assms(2) [OF False] by (simp add: unat_sub word_nat)
  have "464 \<le> unat (rsp - 128)" using b assms(2) [OF False] by simp
  from frame_below [OF this] show ?thesis
    using False b by (simp add: sigframe_addr_eq)
qed

theorem sigframe_placement_witness:
  "unat (sigframe_addr zero_proc 10 0x7ffff000) mod 16 = 8"
  using sigframe_placement [of zero_proc 10 "0x7ffff000"]
  by (simp add: use_altstack_def zero_proc_def)

text \<open>
  C29: Round trip. When a handler frame has been set up and the handler returns through its restorer with
  the frame intact, \<open>rt_sigreturn\<close> restores every saved register, the stack pointer, the program counter,
  the result register and the signal mask; the flags are restored up to the bits that user code may not
  set.
\<close>

theorem sigreturn_restores:
  assumes "i < length (g_proctable (sc_k c))" "setup_sigframe w i sig c = Delivered c1"
    and "sf_rcx (sc_f c) < USER_LIMIT" "p_sig_mask (proc_at (sc_k c) i) AND SIG_UNBLOCKABLE = 0"
    and "sc_rsp c2 = sc_rsp c1 + 8" "sc_frames c2 (sc_rsp c1) = sc_frames c1 (sc_rsp c1)"
    and "i < length (g_proctable (sc_k c2))" "u (sc_rsp c1)"
  shows "\<exists>c3. sys_rt_sigreturn u i c2 = (Some (sf_rax (sc_f c)), c3) \<and>
    sc_f c3 = (sc_f c)\<lparr>sf_rax := sf_rax (sc_f c2), sf_r11 := user_rflags (sf_r11 (sc_f c))\<rparr> \<and>
    sc_rsp c3 = sc_rsp c \<and> p_sig_mask (proc_at (sc_k c3) i) = p_sig_mask (proc_at (sc_k c) i)"
proof -
  let ?p = "proc_at (sc_k c) i"
  note d = setup_sigframe_Delivered [OF assms(2,1)]
  have fr: "sc_frames c2 (sc_rsp c2 - 8) = Some (sigframe_of ?p sig (sc_f c) (sc_rsp c))"
    using d(1,2) assms(5,6) by simp
  have m: "p_sig_mask ?p AND NOT SIG_UNBLOCKABLE = p_sig_mask ?p"
  proof -
    have "p_sig_mask ?p = p_sig_mask ?p AND (SIG_UNBLOCKABLE OR NOT SIG_UNBLOCKABLE)" by simp
    also have "\<dots> = p_sig_mask ?p AND NOT SIG_UNBLOCKABLE"
      unfolding bit.conj_disj_distrib using assms(4) by simp
    finally show ?thesis by simp
  qed
  have "\<not> USER_LIMIT \<le> sf_rcx (sc_f c)" using assms(3) by simp
  then show ?thesis
    using fr assms(5,7,8) m
    by (cases "sc_f c2"; cases "sc_f c")
      (simp add: sys_rt_sigreturn_def Let_def sigframe_of_def)
qed

theorem sigreturn_restores_witness:
  "\<exists>c1 c3. setup_sigframe (\<lambda>_ _. True) 0 10 (wit_ctx zero_proc) = Delivered c1 \<and>
     sys_rt_sigreturn (\<lambda>_. True) 0 (c1\<lparr>sc_rsp := sc_rsp c1 + 8\<rparr>) = (Some 1, c3) \<and> sc_rsp c3 = 0x7ffff000"
proof -
  obtain c1 where c1: "setup_sigframe (\<lambda>_ _. True) 0 10 (wit_ctx zero_proc) = Delivered c1"
    by (simp add: setup_sigframe_def Let_def)
  have l: "0 < length (g_proctable (sc_k (wit_ctx zero_proc)))" by (simp add: wit_ctx_def)
  have "\<exists>c3. sys_rt_sigreturn (\<lambda>_. True) 0 (c1\<lparr>sc_rsp := sc_rsp c1 + 8\<rparr>) =
        (Some (sf_rax (sc_f (wit_ctx zero_proc))), c3) \<and>
      sc_f c3 = (sc_f (wit_ctx zero_proc))\<lparr>sf_rax := sf_rax (sc_f (c1\<lparr>sc_rsp := sc_rsp c1 + 8\<rparr>)),
        sf_r11 := user_rflags (sf_r11 (sc_f (wit_ctx zero_proc)))\<rparr> \<and>
      sc_rsp c3 = sc_rsp (wit_ctx zero_proc) \<and>
      p_sig_mask (proc_at (sc_k c3) 0) = p_sig_mask (proc_at (sc_k (wit_ctx zero_proc)) 0)"
    by (rule sigreturn_restores [OF l c1])
      (use setup_sigframe_Delivered(7) [OF c1 l] in \<open>simp_all add: wit_ctx_def zero_proc_def sig_const word_nat\<close>)
  then show ?thesis using c1 by (auto simp: wit_ctx_def)
qed

text \<open>
  Finding. Returning from a handler always marks the alternate stack as free, also when a handler on
  that stack is only interrupted by another one. After the inner handler has returned, the next signal
  with \<open>SA_ONSTACK\<close> gets the same frame address as the outer handler, whose frame is still in use.
\<close>

theorem altstack_frame_reused:
  assumes "i < length (g_proctable (sc_k c))" "use_altstack (proc_at (sc_k c) i) sig1"
    and "setup_sigframe w i sig1 c = Delivered c1" "setup_sigframe w i sig2 c1 = Delivered c2"
    and "sys_rt_sigreturn u i (c2\<lparr>sc_rsp := sc_rsp c2 + 8\<rparr>) = (Some r, c3)"
    and "sa_flags (p_sig_actions (proc_at (sc_k c3) i) ! (sig3 - 1)) AND SA_ONSTACK \<noteq> 0"
    and "setup_sigframe w i sig3 c3 = Delivered c4"
  shows "sc_rsp c4 = sc_rsp c1"
proof -
  note d1 = setup_sigframe_Delivered [OF assms(3,1)]
  have l1: "i < length (g_proctable (sc_k c1))" using d1(7) assms(1) by simp
  note d2 = setup_sigframe_Delivered [OF assms(4) l1]
  have l2: "i < length (g_proctable (sc_k c2))" using d2(7) l1 by simp
  have c3: "p_on_sigstack (proc_at (sc_k c3) i) = 0" "length (g_proctable (sc_k c3)) = length (g_proctable (sc_k c2))"
    "p_sig_altstack_sp (proc_at (sc_k c3) i) = p_sig_altstack_sp (proc_at (sc_k c2) i)"
    "p_sig_altstack_size (proc_at (sc_k c3) i) = p_sig_altstack_size (proc_at (sc_k c2) i)"
    using assms(5) l2 by (auto simp: sys_rt_sigreturn_def Let_def split: option.splits if_splits)
  have alt: "p_sig_altstack_sp (proc_at (sc_k c3) i) = p_sig_altstack_sp (proc_at (sc_k c) i)"
    "p_sig_altstack_size (proc_at (sc_k c3) i) = p_sig_altstack_size (proc_at (sc_k c) i)"
    using c3 d1(8,9) d2(8,9) by simp_all
  then have use: "use_altstack (proc_at (sc_k c3) i) sig3"
    using assms(2,6) c3(1) by (simp add: use_altstack_def)
  have "i < length (g_proctable (sc_k c3))" using c3(2) l2 by simp
  from setup_sigframe_Delivered(1) [OF assms(7) this] d1(1) show ?thesis
    using use assms(2) alt by (simp add: sigframe_addr_eq)
qed

definition alt_proc :: proc where
  "alt_proc = zero_proc\<lparr>p_sig_altstack_sp := 0x10000, p_sig_altstack_size := 0x4000,
     p_sig_actions := replicate 64 \<lparr>sa_handler = 0x5000, sa_flags = SA_ONSTACK, sa_restorer = 0x6000,
       sa_mask = 0\<rparr>\<rparr>"

theorem altstack_frame_reused_witness:
  "\<exists>c1 c2 r c3 c4. setup_sigframe (\<lambda>_ _. True) 0 10 (wit_ctx alt_proc) = Delivered c1 \<and>
     setup_sigframe (\<lambda>_ _. True) 0 12 c1 = Delivered c2 \<and>
     sys_rt_sigreturn (\<lambda>_. True) 0 (c2\<lparr>sc_rsp := sc_rsp c2 + 8\<rparr>) = (Some r, c3) \<and>
     setup_sigframe (\<lambda>_ _. True) 0 13 c3 = Delivered c4 \<and> sc_rsp c4 = sc_rsp c1"
proof -
  let ?c = "wit_ctx alt_proc"
  obtain c1 where c1: "setup_sigframe (\<lambda>_ _. True) 0 10 ?c = Delivered c1"
    by (simp add: setup_sigframe_def Let_def)
  obtain c2 where c2: "setup_sigframe (\<lambda>_ _. True) 0 12 c1 = Delivered c2"
    by (simp add: setup_sigframe_def Let_def)
  have l: "0 < length (g_proctable (sc_k ?c))" by (simp add: wit_ctx_def)
  note d1 = setup_sigframe_Delivered [OF c1 l]
  have l1: "0 < length (g_proctable (sc_k c1))" using d1(7) l by simp
  note d2 = setup_sigframe_Delivered [OF c2 l1]
  have l2: "0 < length (g_proctable (sc_k c2))" using d2(7) l1 by simp
  have acts: "p_sig_actions (proc_at (sc_k c2) 0) = p_sig_actions alt_proc"
    using c1 c2 by (auto simp: setup_sigframe_def Let_def wit_ctx_def alt_proc_def sig_const)
  have rip: "sf_rcx (sc_f c1) = 0x5000" using d1(3) by (simp add: wit_ctx_def alt_proc_def)
  let ?c2 = "c2\<lparr>sc_rsp := sc_rsp c2 + 8\<rparr>"
  have fr: "sc_frames ?c2 (sc_rsp ?c2 - 8) = Some (sigframe_of (proc_at (sc_k c1) 0) 12 (sc_f c1) (sc_rsp c1))"
    using d2(1,2) by simp
  obtain r c3 where c3: "sys_rt_sigreturn (\<lambda>_. True) 0 ?c2 = (Some r, c3)"
    "p_sig_actions (proc_at (sc_k c3) 0) = p_sig_actions alt_proc"
    using fr rip l2 acts by (simp add: sys_rt_sigreturn_def Let_def sigframe_of_def sig_const word_nat)
  obtain c4 where c4: "setup_sigframe (\<lambda>_ _. True) 0 13 c3 = Delivered c4"
    by (simp add: setup_sigframe_def Let_def)
  have use: "use_altstack (proc_at (sc_k ?c) 0) 10"
    by (simp add: use_altstack_def wit_ctx_def alt_proc_def zero_proc_def sizeof_rt_sigframe_def sig_const word_nat)
  have "sa_flags (p_sig_actions (proc_at (sc_k c3) 0) ! (13 - 1)) AND SA_ONSTACK \<noteq> 0"
    using c3(2) by (simp add: alt_proc_def sig_const)
  from altstack_frame_reused [OF l use c1 c2 c3(1) this c4] c1 c2 c3(1) c4 show ?thesis by blast
qed

text \<open>
  Finding. \<open>sigsuspend\<close> puts the caller's mask back before the signal that ended the wait is
  delivered: when that mask blocks the signal, which is the usual way to call it, the check that follows
  delivers nothing and the handler does not run.
\<close>

theorem sigsuspend_no_delivery:
  assumes "i < length (g_proctable k)" "sigsuspend_enter i (Some m) k0 = (saved, k1)"
    and "p_pending_sigs (proc_at k i) = mask_bit j" "j < 64" "\<not> bit m j" "bit saved j"
    and "j \<noteq> SIGKILL - 1" "j \<noteq> SIGSTOP - 1" "sigsuspend_leave i saved k = (rc, k2)"
  shows "signal_check w i (c\<lparr>sc_k := k2\<rparr>) = Delivered (c\<lparr>sc_k := k2\<rparr>)"
proof -
  have "sig_open (proc_at k2 i) = {}"
    using assms(1,3,4,6-9) by (auto simp: sigsuspend_leave_def sig_open_def sig_const)
  then show ?thesis by (simp add: signal_check_def Let_def open_empty)
qed

definition sus_kern :: kern where
  "sus_kern = boot_kern\<lparr>g_proctable := [zero_proc\<lparr>p_sig_mask := mask_bit 9\<rparr>]\<rparr>"

theorem sigsuspend_no_delivery_witness:
  "\<exists>k1 k2. sigsuspend_enter 0 (Some 0) sus_kern = (mask_bit 9, k1) \<and>
     sigsuspend_leave 0 (mask_bit 9) (upd_proc 0 (\<lambda>p. p\<lparr>p_pending_sigs := mask_bit 9\<rparr>) k1) = (- EINTR, k2) \<and>
     signal_check (\<lambda>_ _. True) 0 ((wit_ctx zero_proc)\<lparr>sc_k := k2\<rparr>) =
       Delivered ((wit_ctx zero_proc)\<lparr>sc_k := k2\<rparr>)"
proof -
  define k1 where "k1 = snd (sigsuspend_enter 0 (Some 0) sus_kern)"
  define k2 where "k2 = snd (sigsuspend_leave 0 (mask_bit 9) (upd_proc 0 (\<lambda>p. p\<lparr>p_pending_sigs := mask_bit 9\<rparr>) k1))"
  have e: "sigsuspend_enter 0 (Some 0) sus_kern = (mask_bit 9, k1)"
    by (simp add: k1_def sigsuspend_enter_def sus_kern_def)
  have l: "sigsuspend_leave 0 (mask_bit 9) (upd_proc 0 (\<lambda>p. p\<lparr>p_pending_sigs := mask_bit 9\<rparr>) k1) = (- EINTR, k2)"
    by (simp add: k2_def sigsuspend_leave_def)
  have n: "length (g_proctable k1) = 1" by (simp add: k1_def sigsuspend_enter_def sus_kern_def)
  have "signal_check (\<lambda>_ _. True) 0 ((wit_ctx zero_proc)\<lparr>sc_k := k2\<rparr>) =
      Delivered ((wit_ctx zero_proc)\<lparr>sc_k := k2\<rparr>)"
    by (rule sigsuspend_no_delivery [OF _ e _ _ _ _ _ _ l, of 9]) (use n in \<open>simp_all add: sig_const\<close>)
  with e l show ?thesis by blast
qed

text \<open>
  A zero timeout of \<open>rt_sigtimedwait\<close>, which should poll, is treated like no timeout: the wait never
  ends on its own.
\<close>

lemma sigtimedwait_zero_timeout:
  "sigtimedwait_deadline t (Some (0, 0)) = sigtimedwait_deadline t None"
  "p_pending_sigs (proc_at k i) AND m = 0 \<Longrightarrow>
     sigtimedwait_test i m (sigtimedwait_deadline t (Some (0, 0))) ticks k = None"
  by (simp_all add: sigtimedwait_deadline_def sigtimedwait_test_def)

end
