(* ===== verification/Seccomp.thy ===== *)
theory Seccomp
  imports Signal
begin

text \<open>
  System call filtering of processes: installation and evaluation of filters in
  \<open>src/kernel/security/seccomp.c\<close>, inheritance at process creation in \<open>src/kernel/proc/proc.c\<close>, and
  the \<open>seccomp\<close> and \<open>prctl\<close> entry points of \<open>src/kernel/syscall/syscall.c\<close>. The filter machine
  itself is in theory \<open>Bpf\<close>.
\<close>

section \<open>Operations\<close>

definition SECCOMP_MODE_DISABLED :: u8 where [bpf_const]: "SECCOMP_MODE_DISABLED = 0"
definition SECCOMP_MODE_STRICT :: u8 where [bpf_const]: "SECCOMP_MODE_STRICT = 1"
definition SECCOMP_MODE_FILTER :: u8 where [bpf_const]: "SECCOMP_MODE_FILTER = 2"
definition SECCOMP_SET_MODE_STRICT :: u32 where [bpf_const]: "SECCOMP_SET_MODE_STRICT = 0"
definition SECCOMP_SET_MODE_FILTER :: u32 where [bpf_const]: "SECCOMP_SET_MODE_FILTER = 1"
definition SECCOMP_GET_ACTION_AVAIL :: u32 where [bpf_const]: "SECCOMP_GET_ACTION_AVAIL = 2"
definition SECCOMP_GET_NOTIF_SIZES :: u32 where [bpf_const]: "SECCOMP_GET_NOTIF_SIZES = 3"
definition CAP_SYS_ADMIN :: nat where "CAP_SYS_ADMIN = 21"

abbreviation (input) EACCES :: int where "EACCES \<equiv> 13"

definition seccomp_install :: "seccomp_filter \<Rightarrow> proc \<Rightarrow> proc" where
  "seccomp_install f p =
     p\<lparr>p_seccomp_filter := f # p_seccomp_filter p, p_seccomp_mode := SECCOMP_MODE_FILTER\<rparr>"

text \<open>The 64-byte argument block: system call number, architecture, and six arguments from offset 16.\<close>

definition seccomp_data :: "u64 \<Rightarrow> u64 list \<Rightarrow> u8 list" where
  "seccomp_data nr args =
     (let data = replicate 64 0;
          data = bpf_store data 0 4 (ucast (ucast nr :: u32));
          data = bpf_store data 4 4 0xc000003e
      in fold (\<lambda>i data. bpf_store data (16 + of_nat i * 8) 8 (args ! i)) [0..<6] data)"

text \<open>
  Result of the check: the call goes on, is answered with a value (after the signal, if one is sent),
  or the process ends with \<open>SIGSYS\<close>; \<open>Broken\<close> is undefined behaviour of a filter, and the whole result
  is \<^term>\<open>None\<close> when a filter does not return.
\<close>

datatype verdict = Proceed kern | Answer int kern | Kill_sys kern | Broken

definition seccomp_verdict :: "nat \<Rightarrow> u32 \<Rightarrow> kern \<Rightarrow> verdict" where
  "seccomp_verdict i result k =
     (let action = result AND 0xffff0000; value = result AND 0x0000ffff in
      if action = SECCOMP_RET_ALLOW \<or> action = SECCOMP_RET_LOG then Proceed k
      else if action = SECCOMP_RET_ERRNO then Answer (- uint value) k
      else if action = SECCOMP_RET_TRAP then Answer (- ENOSYS) (proc_send_signal i (int SIGSYS) k)
      else if action = SECCOMP_RET_TRACE then Answer (- ENOSYS) k
      else if action = SECCOMP_RET_USER_NOTIF then Answer (- ENOSYS) k
      else Kill_sys k)"

definition seccomp_check :: "nat \<Rightarrow> u64 \<Rightarrow> u64 list \<Rightarrow> kern \<Rightarrow> verdict option" where
  "seccomp_check i nr args k =
     (let p = proc_at k i in
      if p_seccomp_mode p = SECCOMP_MODE_DISABLED then Some (Proceed k)
      else if p_seccomp_mode p = SECCOMP_MODE_STRICT then
        if nr = 0 \<or> nr = 1 \<or> nr = 15 \<or> nr = 60 \<or> nr = 231 then Some (Proceed k)
        else Some (Kill_sys k)
      else
        (case chain_result (p_seccomp_filter p) (seccomp_data nr args) of
           None \<Rightarrow> None
         | Some Undefined \<Rightarrow> Some Broken
         | Some (Value result) \<Rightarrow> Some (seccomp_verdict i result k)))"

definition proc_security_inherit ::
  "(nat \<Rightarrow> bool) \<Rightarrow> proc \<Rightarrow> proc \<Rightarrow> kheap \<Rightarrow> bool \<times> proc \<times> kheap" where
  "proc_security_inherit grant child parent h =
     (let child = child\<lparr>p_cap_effective := p_cap_effective parent, p_cap_permitted := p_cap_permitted parent,
            p_cap_inheritable := p_cap_inheritable parent, p_cap_bounding := p_cap_bounding parent,
            p_cap_ambient := p_cap_ambient parent, p_no_new_privs := p_no_new_privs parent,
            p_keepcaps := p_keepcaps parent, p_dumpable := p_dumpable parent,
            p_seccomp_mode := p_seccomp_mode parent, p_comm := p_comm parent, p_pdeathsig := 0,
            p_child_subreaper := 0\<rparr>;
          (copy, h) = seccomp_chain_clone grant (p_seccomp_filter parent) h;
          child = child\<lparr>p_seccomp_filter := copy\<rparr>
      in if p_seccomp_filter parent \<noteq> [] \<and> copy = [] then (False, child, h) else (True, child, h))"

definition proc_security_release :: "proc \<Rightarrow> kheap \<Rightarrow> proc \<times> kheap" where
  "proc_security_release p h =
     (p\<lparr>p_seccomp_filter := [], p_seccomp_mode := SECCOMP_MODE_DISABLED\<rparr>,
      seccomp_chain_free (p_seccomp_filter p) h)"

text \<open>
  The user program of a filter installation, as far as the kernel could read it: \<open>None\<close> when a user range
  check fails, otherwise the length field, whether the pointer is non-null, and the instructions
  (\<open>None\<close> when their range check fails). The capability test is a parameter of the call.
\<close>

type_synonym fprog = "(u16 \<times> bool \<times> seccomp_insn list option) option"

definition sys_seccomp_apply ::
  "(nat \<Rightarrow> bool) \<Rightarrow> (proc \<Rightarrow> nat \<Rightarrow> bool) \<Rightarrow> u32 \<Rightarrow> fprog \<Rightarrow> proc \<Rightarrow> kheap \<Rightarrow> int \<times> proc \<times> kheap" where
  "sys_seccomp_apply grant cred_has_cap mode uarg p h =
     (if mode = 1 then (0, p\<lparr>p_seccomp_mode := SECCOMP_MODE_STRICT\<rparr>, h)
      else if mode \<noteq> 2 then (- EINVAL, p, h)
      else if p_no_new_privs p = 0 \<and> \<not> cred_has_cap p CAP_SYS_ADMIN then (- EACCES, p, h)
      else
        (case uarg of
           None \<Rightarrow> (- EFAULT, p, h)
         | Some (len, nonnull, insns) \<Rightarrow>
             if len = 0 \<or> 4096 < len \<or> \<not> nonnull then (- EINVAL, p, h)
             else
               (case insns of
                  None \<Rightarrow> (- EFAULT, p, h)
                | Some is \<Rightarrow>
                    (case seccomp_build grant is len h of
                       (None, h) \<Rightarrow> (- EINVAL, p, h)
                     | (Some f, h) \<Rightarrow> (0, seccomp_install f p, h)))))"

definition sys_seccomp ::
  "(nat \<Rightarrow> bool) \<Rightarrow> (proc \<Rightarrow> nat \<Rightarrow> bool) \<Rightarrow> u32 \<Rightarrow> u32 \<Rightarrow> fprog \<Rightarrow> u32 option \<Rightarrow> proc \<Rightarrow> kheap \<Rightarrow>
     int \<times> proc \<times> kheap" where
  "sys_seccomp grant cred_has_cap op flags uprog uaction p h =
     (if op = SECCOMP_SET_MODE_STRICT then
        if flags \<noteq> 0 then (- EINVAL, p, h) else sys_seccomp_apply grant cred_has_cap 1 None p h
      else if op = SECCOMP_SET_MODE_FILTER then
        if flags AND NOT (1 OR 2 OR 4) \<noteq> 0 then (- EINVAL, p, h)
        else sys_seccomp_apply grant cred_has_cap 2 uprog p h
      else if op = SECCOMP_GET_ACTION_AVAIL then
        (case uaction of
           None \<Rightarrow> (- EFAULT, p, h)
         | Some action \<Rightarrow>
             if action \<in> {SECCOMP_RET_KILL_THREAD, SECCOMP_RET_KILL_PROCESS, SECCOMP_RET_TRAP,
                  SECCOMP_RET_ERRNO, SECCOMP_RET_TRACE, SECCOMP_RET_LOG, SECCOMP_RET_ALLOW}
             then (0, p, h) else (- 95, p, h))
      else if op = SECCOMP_GET_NOTIF_SIZES then
        (case uaction of None \<Rightarrow> (- EFAULT, p, h) | Some _ \<Rightarrow> (0, p, h))
      else (- EINVAL, p, h))"

section \<open>The argument block\<close>

lemma seccomp_data_length [simp]: "length (seccomp_data nr args) = 64"
proof -
  have "length (fold (\<lambda>i data. bpf_store data (16 + of_nat i * 8) 8 (args ! i)) is d) = length d" for "is" d
    by (induction "is" arbitrary: d) simp_all
  then show ?thesis by (simp add: seccomp_data_def Let_def)
qed

lemma unat_arg_off: "i < 6 \<Longrightarrow> unat (16 + of_nat i * 8 :: u32) = 16 + i * 8"
  by (simp add: unat_word_ariths unat_of_nat)

lemma args_fold_nth:
  assumes "k < length d" "length d = 64" "n \<le> 6"
  shows "fold (\<lambda>i data. bpf_store data (16 + of_nat i * 8) 8 (args ! i)) [0..<n] d ! k =
    (if 16 \<le> k \<and> k < 16 + n * 8 then ucast (drop_bit ((k - 16) mod 8 * 8) (args ! ((k - 16) div 8)))
     else d ! k)"
  using assms(3)
proof (induction n)
  case (Suc n)
  let ?d = "fold (\<lambda>i data. bpf_store data (16 + of_nat i * 8) 8 (args ! i)) [0..<n] d"
  have l: "length ?d = 64"
  proof -
    have "length (fold (\<lambda>i data. bpf_store data (16 + of_nat i * 8) 8 (args ! i)) is d) = length d" for "is" d
      by (induction "is" arbitrary: d) simp_all
    then show ?thesis using assms(2) by simp
  qed
  have o: "unat (16 + of_nat n * 8 :: u32) = 16 + n * 8" using Suc.prems by (simp add: unat_arg_off)
  have st: "bpf_store ?d (16 + of_nat n * 8) 8 (args ! n) ! k =
      (if 16 + n * 8 \<le> k \<and> k < 16 + n * 8 + 8 then ucast (drop_bit ((k - (16 + n * 8)) * 8) (args ! n))
       else ?d ! k)"
    using bpf_store_nth [of "16 + of_nat n * 8" 8 k ?d] o l assms(1,2) Suc.prems by simp
  show ?case
  proof (cases "16 + n * 8 \<le> k \<and> k < 16 + n * 8 + 8")
    case True
    then obtain r where r: "k = 16 + n * 8 + r" "r < 8" by (metis add_less_cancel_left le_Suc_ex)
    then have "(k - 16) div 8 = n" "(k - 16) mod 8 = r" "k - (16 + n * 8) = r" by simp_all
    with st True r show ?thesis by simp
  next
    case False
    then have "(16 \<le> k \<and> k < 16 + Suc n * 8) = (16 \<le> k \<and> k < 16 + n * 8)" by auto
    with st False Suc show ?thesis by auto
  qed
qed auto

lemma head_nth:
  assumes "k < 64"
  shows "bpf_store (bpf_store (replicate 64 0) 0 4 v) 4 4 w ! k =
    (if k < 4 then ucast (drop_bit (k * 8) v)
     else if k < 8 then ucast (drop_bit ((k - 4) * 8) w) else 0)"
  using assms by (simp add: bpf_store_nth)

lemma seccomp_data_nth:
  assumes "k < 64"
  shows "seccomp_data nr args ! k =
    (if k < 4 then ucast (drop_bit (k * 8) (ucast (ucast nr :: u32) :: u64))
     else if k < 8 then ucast (drop_bit ((k - 4) * 8) (0xc000003e :: u64))
     else if k < 16 then 0
     else ucast (drop_bit ((k - 16) mod 8 * 8) (args ! ((k - 16) div 8))))"
  using assms by (simp add: seccomp_data_def Let_def args_fold_nth head_nth)

section \<open>Properties\<close>

text \<open>
  What a filter reads is the system call: the word at offset 0 is the low half of the number, the one
  at 4 the architecture, those at 8 and 12 (the instruction pointer) are 0, and argument \<open>i\<close> is found low
  half first at offset \<open>16 + 8 * i\<close>.
\<close>

theorem seccomp_data_layout:
  assumes "i < 6"
  shows "bpf_load (seccomp_data nr args) 0 4 = Some (ucast nr) \<and>
    bpf_load (seccomp_data nr args) 4 4 = Some 0xc000003e \<and>
    bpf_load (seccomp_data nr args) 8 4 = Some 0 \<and> bpf_load (seccomp_data nr args) 12 4 = Some 0 \<and>
    bpf_load (seccomp_data nr args) (16 + of_nat i * 8) 4 = Some (ucast (args ! i)) \<and>
    bpf_load (seccomp_data nr args) (20 + of_nat i * 8) 4 = Some (ucast (drop_bit 32 (args ! i)))"
proof (intro conjI)
  have "ucast (ucast (ucast nr :: u32) :: u64) = (ucast nr :: u32)"
    by (rule bit_word_eqI) (auto simp: bit_simps)
  then show "bpf_load (seccomp_data nr args) 0 4 = Some (ucast nr)"
    using bpf_load4 [of 0 "seccomp_data nr args" "ucast (ucast nr :: u32)"]
    by (simp add: seccomp_data_nth)
  show "bpf_load (seccomp_data nr args) 4 4 = Some 0xc000003e"
    using bpf_load4 [of 4 "seccomp_data nr args" "0xc000003e"] by (simp add: seccomp_data_nth)
  show "bpf_load (seccomp_data nr args) 8 4 = Some 0"
    using bpf_load4 [of 8 "seccomp_data nr args" 0] by (simp add: seccomp_data_nth)
  show "bpf_load (seccomp_data nr args) 12 4 = Some 0"
    using bpf_load4 [of 12 "seccomp_data nr args" 0] by (simp add: seccomp_data_nth)
  have lo: "unat (16 + of_nat i * 8 :: u32) = 16 + i * 8" by (rule unat_arg_off [OF assms])
  have hi: "unat (20 + of_nat i * 8 :: u32) = 20 + i * 8"
    using assms by (simp add: unat_word_ariths unat_of_nat)
  show "bpf_load (seccomp_data nr args) (16 + of_nat i * 8) 4 = Some (ucast (args ! i))"
  proof (rule bpf_load4)
    fix j :: nat
    assume "j < 4"
    then have "(i * 8 + j) mod 8 = j" "(i * 8 + j) div 8 = i" by simp_all
    with assms \<open>j < 4\<close> show "seccomp_data nr args ! (unat (16 + of_nat i * 8 :: u32) + j) =
        ucast (drop_bit (j * 8) (args ! i))" by (simp add: lo seccomp_data_nth)
  qed (use assms lo in simp_all)
  show "bpf_load (seccomp_data nr args) (20 + of_nat i * 8) 4 = Some (ucast (drop_bit 32 (args ! i)))"
  proof (rule bpf_load4)
    fix j :: nat
    assume j: "j < 4"
    have e: "20 + i * 8 + j - 16 = (j + 4) + 8 * i" by simp
    have d: "(20 + i * 8 + j - 16) mod 8 = j + 4" "(20 + i * 8 + j - 16) div 8 = i"
      unfolding e using j by simp_all
    have "20 + i * 8 + j < 64" using assms j by simp
    from seccomp_data_nth [OF this, of nr args, unfolded d]
    have "seccomp_data nr args ! (20 + i * 8 + j) = ucast (drop_bit ((j + 4) * 8) (args ! i))" by simp
    also have "(j + 4) * 8 = j * 8 + 32" by simp
    finally show "seccomp_data nr args ! (unat (20 + of_nat i * 8 :: u32) + j) =
        ucast (drop_bit (j * 8) (drop_bit 32 (args ! i)))"
      by (simp add: hi drop_bit_drop_bit add.commute)
  qed (use assms hi in simp_all)
qed

theorem seccomp_data_layout_witness:
  "bpf_load (seccomp_data 1 [7, 0x123456789a, 9, 10, 11, 12]) 24 4 = Some 0x3456789a"
  using seccomp_data_layout [of 1 1 "[7, 0x123456789a, 9, 10, 11, 12]"] by simp

text \<open>
  C15: With terminating, fault-free filters, a system call is let through exactly when every installed
  filter answers allow or log; it is never let through because of an action value the kernel does not
  know.
\<close>

lemma rank_pass: "5 \<le> action_rank a \<longleftrightarrow> a = SECCOMP_RET_ALLOW \<or> a = SECCOMP_RET_LOG"
  by (auto simp: action_rank_def bpf_const)

lemma verdict_proceeds:
  "(\<exists>k'. seccomp_verdict i r k = Proceed k') \<longleftrightarrow> 5 \<le> verdict_rank r"
  by (auto simp: seccomp_verdict_def verdict_rank_def rank_pass Let_def)

theorem seccomp_pass_iff_all_allow:
  assumes "p_seccomp_mode (proc_at k i) = SECCOMP_MODE_FILTER"
    and "\<And>f. f \<in> set (p_seccomp_filter (proc_at k i)) \<Longrightarrow> filter_tame f"
  shows "(\<exists>k'. seccomp_check i nr args k = Some (Proceed k')) \<longleftrightarrow>
    (\<forall>f \<in> set (p_seccomp_filter (proc_at k i)). \<forall>v. bpf_run f (seccomp_data nr args) = Some (Value v) \<longrightarrow>
       v AND 0xffff0000 \<in> {SECCOMP_RET_ALLOW, SECCOMP_RET_LOG})"
proof -
  let ?fs = "p_seccomp_filter (proc_at k i)" and ?d = "seccomp_data nr args"
  have def: "\<And>f. f \<in> set ?fs \<Longrightarrow> run_value f ?d \<noteq> None" by (rule tame_runs) (simp_all add: assms(2))
  from sc.chain_verdict [of ?fs ?d, OF def] obtain v where v: "chain_value ?fs ?d = Some v" by blast
  then have c: "seccomp_check i nr args k = Some (seccomp_verdict i v k)"
    using assms(1) by (simp add: seccomp_check_def Let_def bpf_const)
  have top: "5 \<le> verdict_rank SECCOMP_RET_ALLOW"
    by (simp add: verdict_rank_def action_rank_def bpf_const)
  have "(\<exists>k'. seccomp_check i nr args k = Some (Proceed k')) \<longleftrightarrow> 5 \<le> verdict_rank v"
    using c by (simp add: verdict_proceeds)
  also have "\<dots> \<longleftrightarrow> (\<forall>f \<in> set ?fs. \<forall>u. run_value f ?d = Some u \<longrightarrow> 5 \<le> verdict_rank u)"
    by (rule sc.passes_iff [of ?fs ?d, OF def top v])
  finally show ?thesis by (simp add: verdict_rank_def rank_pass)
qed

definition filtered_kern :: kern where
  "filtered_kern = boot_kern\<lparr>g_proctable := [zero_proc\<lparr>p_seccomp_mode := 2, p_seccomp_filter := [deny_write]\<rparr>]\<rparr>"

text \<open>The example filter returns 0 (kill) for \<open>write\<close> and allows everything else.\<close>

lemma deny_write_run:
  assumes "bpf_load data 0 4 = Some nr"
  shows "bpf_run deny_write data = Some (Value (if nr = 1 then 0 else 0x7fff0000))"
proof (cases "nr = 1")
  case True
  with assms show ?thesis
    by (simp add: bpf_run_def bpf_loop.simps bpf_step_def bpf_init_def deny_write_def bpf_exec_defs
        bpf_width_def bpf_const)
next
  case False
  with assms show ?thesis
    by (simp add: bpf_run_def bpf_loop.simps bpf_step_def bpf_init_def deny_write_def bpf_exec_defs
        bpf_width_def bpf_const)
qed

theorem seccomp_pass_iff_all_allow_witness:
  "\<not> (\<exists>k'. seccomp_check 0 1 [0, 0, 0, 0, 0, 0] filtered_kern = Some (Proceed k'))"
proof -
  have l: "bpf_load (seccomp_data 1 [0, 0, 0, 0, 0, 0]) 0 4 = Some 1"
    using bpf_load4 [of 0 "seccomp_data 1 [0, 0, 0, 0, 0, 0]" 1] by (simp add: seccomp_data_nth)
  have "(\<exists>k'. seccomp_check 0 1 [0, 0, 0, 0, 0, 0] filtered_kern = Some (Proceed k')) \<longleftrightarrow>
    (\<forall>f \<in> set (p_seccomp_filter (proc_at filtered_kern 0)).
       \<forall>v. bpf_run f (seccomp_data 1 [0, 0, 0, 0, 0, 0]) = Some (Value v) \<longrightarrow>
         v AND 0xffff0000 \<in> {SECCOMP_RET_ALLOW, SECCOMP_RET_LOG})"
    by (rule seccomp_pass_iff_all_allow) (auto simp: filtered_kern_def bpf_const deny_write_tame)
  then show ?thesis using deny_write_run [OF l] by (simp add: filtered_kern_def bpf_const)
qed

text \<open>
  A child created successfully is exactly as restricted as its parent: same mode, same filters in the
  same order, same capabilities and the same no-new-privileges flag, so every system call gets the same
  verdict. If the filters cannot be copied the creation is refused.
\<close>

theorem security_inherited:
  assumes "\<And>f. f \<in> set (p_seccomp_filter parent) \<Longrightarrow> filter_wf f"
    and "proc_security_inherit grant child parent h = (ok, child', h')"
  shows "if ok then p_seccomp_mode child' = p_seccomp_mode parent \<and>
      p_seccomp_filter child' = p_seccomp_filter parent \<and> p_no_new_privs child' = p_no_new_privs parent \<and>
      p_cap_effective child' = p_cap_effective parent \<and> p_cap_bounding child' = p_cap_bounding parent
    else p_seccomp_filter parent \<noteq> [] \<and> kh_live h' = kh_live h \<and>
      (\<exists>n < length (p_seccomp_filter parent). \<not> grant (kh_requests h + n))"
proof -
  obtain copy h1 where c: "seccomp_chain_clone grant (p_seccomp_filter parent) h = (copy, h1)"
    by (metis surj_pair)
  from clone_loop_cases [of "p_seccomp_filter parent" "[]" h grant copy h1] assms(1) c
  have "copy = p_seccomp_filter parent \<or> copy = [] \<and> kh_live h1 = kh_live h \<and>
      (\<exists>n < length (p_seccomp_filter parent). \<not> grant (kh_requests h + n))"
    by (auto simp: seccomp_chain_clone_def)
  with assms(2) c show ?thesis
    by (auto simp: proc_security_inherit_def Let_def split: if_splits)
qed

theorem security_inherited_witness:
  "p_seccomp_filter (fst (snd (proc_security_inherit (\<lambda>_. True) zero_proc
     (zero_proc\<lparr>p_seccomp_mode := 2, p_seccomp_filter := [deny_write]\<rparr>) \<lparr>kh_requests = 0, kh_live = 0\<rparr>))) =
   [deny_write]"
proof -
  let ?parent = "zero_proc\<lparr>p_seccomp_mode := 2, p_seccomp_filter := [deny_write]\<rparr>"
  obtain ok child h where r: "proc_security_inherit (\<lambda>_. True) zero_proc ?parent
      \<lparr>kh_requests = 0, kh_live = 0\<rparr> = (ok, child, h)" by (metis surj_pair)
  have wf: "f \<in> set (p_seccomp_filter ?parent) \<Longrightarrow> filter_wf f" for f
    using deny_write_tame by (simp add: filter_tame_def)
  from security_inherited [OF wf r] r show ?thesis by (cases ok) simp_all
qed

text \<open>
  Finding. A filtered process can leave filter mode for strict mode with one call that always
  succeeds. Strict mode lets \<open>read\<close>, \<open>write\<close> and \<open>exit\<close> through without looking at the filters, so a
  \<open>write\<close> that an installed filter answers with kill is allowed afterwards.
\<close>

theorem strict_mode_drops_filters:
  "seccomp_check 0 1 [0, 0, 0, 0, 0, 0] filtered_kern = Some (Kill_sys filtered_kern) \<and>
   (\<exists>p. sys_seccomp_apply grant cap 1 None (proc_at filtered_kern 0) h = (0, p, h) \<and>
     p_seccomp_filter p = [deny_write] \<and>
     seccomp_check 0 1 [0, 0, 0, 0, 0, 0] (upd_proc 0 (\<lambda>_. p) filtered_kern) =
       Some (Proceed (upd_proc 0 (\<lambda>_. p) filtered_kern)))"
proof
  have l: "bpf_load (seccomp_data 1 [0, 0, 0, 0, 0, 0]) 0 4 = Some 1"
    using bpf_load4 [of 0 "seccomp_data 1 [0, 0, 0, 0, 0, 0]" 1] by (simp add: seccomp_data_nth)
  have "chain_result [deny_write] (seccomp_data 1 [0, 0, 0, 0, 0, 0]) = Some (Value 0)"
    using deny_write_run [OF l] by (simp add: chain_result_def action_rank_def bpf_const)
  then show "seccomp_check 0 1 [0, 0, 0, 0, 0, 0] filtered_kern = Some (Kill_sys filtered_kern)"
    by (simp add: seccomp_check_def Let_def filtered_kern_def bpf_const seccomp_verdict_def)
  show "\<exists>p. sys_seccomp_apply grant cap 1 None (proc_at filtered_kern 0) h = (0, p, h) \<and>
     p_seccomp_filter p = [deny_write] \<and>
     seccomp_check 0 1 [0, 0, 0, 0, 0, 0] (upd_proc 0 (\<lambda>_. p) filtered_kern) =
       Some (Proceed (upd_proc 0 (\<lambda>_. p) filtered_kern))"
    by (simp add: sys_seccomp_apply_def seccomp_check_def Let_def filtered_kern_def bpf_const)
qed

end
