(* ===== verification/Pipe.thy ===== *)
theory Pipe
  imports Signal
begin

text \<open>
  Pipes, \<open>src/kernel/fs/pipe.c\<close> and \<open>src/kernel/fs/pipe.h\<close>: the ring buffer, reading, peeking and
  writing with blocking and wake-up of the processes at the other end, the reference counts of the two
  ends, and the queue of descriptors passed along a socket. A pipe is addressed by an index; the pipe and
  the process table are passed as explicit state.

  The loops of \<open>pipe_read\<close>, \<open>pipe_peek\<close> and \<open>pipe_write\<close> run under the lock of the pipe until they
  return or block; such a round is one step of the model, and a blocked call continues with a new round.
  The address test of \<open>pipe_valid\<close> (inside the heap, aligned) holds for every pointer that \<open>pipe_alloc\<close>
  returns, so only the magic number is kept. \<open>poll_notify_object\<close> belongs to the poll component.
\<close>

section \<open>Data\<close>

definition PIPE_BUFSZ :: nat where "PIPE_BUFSZ = 65536"
definition PIPE_ANC_SLOTS :: u32 where "PIPE_ANC_SLOTS = 8"
definition PIPE_ANC_MAXFDS :: int where "PIPE_ANC_MAXFDS = 4"
definition PIPE_MAGIC :: u64 where "PIPE_MAGIC = 0x4b59504950454d47"
definition SIGPIPE :: int where "SIGPIPE = 13"

text \<open>A message of passed descriptors; a file is a number, and \<open>nfds\<close> is the length of the list.\<close>

type_synonym pipe_anc = "nat list"

record pipe =
  pp_magic :: u64
  pp_buf :: "u8 list"
  pp_rpos :: u32
  pp_count :: u32
  pp_write_refs :: u32
  pp_read_refs :: u32
  pp_endpoint_refs :: u32
  pp_reader_waiters :: u64
  pp_writer_waiters :: u64
  pp_anc_q :: "pipe_anc list"
  pp_anc_wr :: u32
  pp_anc_rd :: u32

section \<open>Operations\<close>

definition pipe_pending_signals :: "proc \<Rightarrow> u64" where
  "pipe_pending_signals p = proc_blocking_sig_mask p"

definition pipe_alloc :: pipe where
  "pipe_alloc = \<lparr>pp_magic = PIPE_MAGIC, pp_buf = replicate PIPE_BUFSZ 0, pp_rpos = 0, pp_count = 0,
     pp_write_refs = 0, pp_read_refs = 0, pp_endpoint_refs = 0, pp_reader_waiters = 0,
     pp_writer_waiters = 0, pp_anc_q = replicate 8 [], pp_anc_wr = 0, pp_anc_rd = 0\<rparr>"

definition wake_waiter :: "nat \<Rightarrow> int \<Rightarrow> nat \<Rightarrow> kern \<Rightarrow> kern" where
  "wake_waiter pn want_read slot k =
     (if p_blocked_pipe (proc_at k slot) = Some pn \<and> p_blocked_pipe_read (proc_at k slot) = want_read
      then proc_wake slot k else k)"

definition pipe_wake :: "nat \<Rightarrow> int \<Rightarrow> pipe \<times> kern \<Rightarrow> pipe \<times> kern" where
  "pipe_wake pn want_read s =
     (let (p, k) = s;
          waiters = (if want_read \<noteq> 0 then pp_reader_waiters p else pp_writer_waiters p);
          p = (if want_read \<noteq> 0 then p\<lparr>pp_reader_waiters := 0\<rparr> else p\<lparr>pp_writer_waiters := 0\<rparr>)
      in (p, bit_loop (wake_waiter pn want_read) waiters k))"

definition free_waiter :: "nat \<Rightarrow> nat \<Rightarrow> kern \<Rightarrow> kern" where
  "free_waiter pn slot k =
     proc_wake slot
       (if p_blocked_pipe (proc_at k slot) = Some pn
        then upd_proc slot (\<lambda>t. t\<lparr>p_blocked_pipe := None\<rparr>) k else k)"

text \<open>The messages of the descriptor queue from \<open>rd\<close> up to \<open>wr\<close>, at most one turn of the ring.\<close>

fun anc_pending :: "nat \<Rightarrow> pipe_anc list \<Rightarrow> u32 \<Rightarrow> u32 \<Rightarrow> pipe_anc list" where
  "anc_pending 0 q rd wr = []"
| "anc_pending (Suc n) q rd wr =
     (if rd = wr then [] else q ! unat rd # anc_pending n q ((rd + 1) mod PIPE_ANC_SLOTS) wr)"

text \<open>
  \<open>pipe_free\<close>: wakes everybody, closes the files that were never received (the second component) and
  invalidates the pipe.
\<close>

definition pipe_free :: "nat \<Rightarrow> pipe \<times> kern \<Rightarrow> nat list \<times> pipe \<times> kern" where
  "pipe_free pn s =
     (let (p, k) = s; waiters = pp_reader_waiters p OR pp_writer_waiters p;
          k = bit_loop (free_waiter pn) waiters k
      in (concat (anc_pending 8 (pp_anc_q p) (pp_anc_rd p) (pp_anc_wr p)),
          p\<lparr>pp_reader_waiters := 0, pp_writer_waiters := 0, pp_anc_rd := pp_anc_wr p, pp_magic := 0\<rparr>, k))"

definition pipe_endpoint_put :: "nat \<Rightarrow> pipe \<times> kern \<Rightarrow> nat list \<times> pipe \<times> kern" where
  "pipe_endpoint_put pn s =
     (let (p, k) = s; p = p\<lparr>pp_endpoint_refs := pp_endpoint_refs p - 1\<rparr> in
      if pp_endpoint_refs p = 0 then pipe_free pn (p, k) else ([], p, k))"

definition pipe_ref_read :: "pipe \<Rightarrow> pipe" where
  "pipe_ref_read p = p\<lparr>pp_endpoint_refs := pp_endpoint_refs p + 1, pp_read_refs := pp_read_refs p + 1\<rparr>"

definition pipe_ref_write :: "pipe \<Rightarrow> pipe" where
  "pipe_ref_write p = p\<lparr>pp_endpoint_refs := pp_endpoint_refs p + 1, pp_write_refs := pp_write_refs p + 1\<rparr>"

definition pipe_unref_read :: "nat \<Rightarrow> pipe \<times> kern \<Rightarrow> nat list \<times> pipe \<times> kern" where
  "pipe_unref_read pn s =
     (let (p, k) = s; refs = pp_read_refs p in
      if refs = 0 then ([], p, k)
      else
        let s = (p\<lparr>pp_read_refs := refs - 1\<rparr>, k) in
        pipe_endpoint_put pn (if refs = 1 then pipe_wake pn 0 s else s))"

definition pipe_unref_write :: "nat \<Rightarrow> pipe \<times> kern \<Rightarrow> nat list \<times> pipe \<times> kern" where
  "pipe_unref_write pn s =
     (let (p, k) = s; refs = pp_write_refs p in
      if refs = 0 then ([], p, k)
      else
        let s = (p\<lparr>pp_write_refs := refs - 1\<rparr>, k) in
        pipe_endpoint_put pn (if refs = 1 then pipe_wake pn 1 s else s))"

definition pipe_valid :: "pipe \<Rightarrow> bool" where
  "pipe_valid p \<longleftrightarrow> pp_magic p = PIPE_MAGIC"

definition pipe_cancel_wait :: "nat \<Rightarrow> nat \<Rightarrow> pipe \<times> kern \<Rightarrow> pipe \<times> kern" where
  "pipe_cancel_wait pn task s =
     (let (p, k) = s in
      if p_blocked_pipe (proc_at k task) \<noteq> Some pn then (p, k)
      else (p\<lparr>pp_reader_waiters := pp_reader_waiters p AND NOT (mask_bit task),
              pp_writer_waiters := pp_writer_waiters p AND NOT (mask_bit task)\<rparr>,
            upd_proc task (\<lambda>t. t\<lparr>p_blocked_pipe := None\<rparr>) k))"

definition pipe_block_locked :: "nat \<Rightarrow> nat \<Rightarrow> int \<Rightarrow> pipe \<times> kern \<Rightarrow> pipe \<times> kern" where
  "pipe_block_locked pn task want_read s =
     (let (p, k) = s;
          k = upd_proc task (\<lambda>t. t\<lparr>p_blocked_pipe := Some pn, p_blocked_pipe_read := want_read,
                p_state := PROC_WAITING\<rparr>) k
      in (if want_read \<noteq> 0 then p\<lparr>pp_reader_waiters := pp_reader_waiters p OR mask_bit task\<rparr>
          else p\<lparr>pp_writer_waiters := pp_writer_waiters p OR mask_bit task\<rparr>, k))"

definition block_current :: "nat \<Rightarrow> nat option \<Rightarrow> int \<Rightarrow> pipe \<times> kern \<Rightarrow> pipe \<times> kern" where
  "block_current pn cur want_read s =
     (case cur of None \<Rightarrow> s | Some task \<Rightarrow> pipe_block_locked pn task want_read s)"

text \<open>The start of \<open>pipe_block_or_consume_signal\<close>: a pending signal is turned into a wake-up.\<close>

definition pipe_publish_signal :: "nat \<Rightarrow> kern \<Rightarrow> kern" where
  "pipe_publish_signal task k =
     (if pipe_pending_signals (proc_at k task) \<noteq> 0 then proc_wake task k else k)"

section \<open>The ring\<close>

text \<open>Taking \<open>n\<close> bytes out of the ring, in at most two pieces, and putting bytes in.\<close>

definition ring_take :: "pipe \<Rightarrow> u32 \<Rightarrow> nat \<Rightarrow> u8 list" where
  "ring_take p pos n =
     (let first = (if PIPE_BUFSZ - unat pos < n then PIPE_BUFSZ - unat pos else n) in
      take first (drop (unat pos) (pp_buf p)) @ (if first < n then take (n - first) (pp_buf p) else []))"

definition ring_get :: "nat \<Rightarrow> pipe \<Rightarrow> u8 list \<times> pipe" where
  "ring_get n p =
     (ring_take p (pp_rpos p) n,
      p\<lparr>pp_rpos := (pp_rpos p + of_nat n) mod of_nat PIPE_BUFSZ, pp_count := pp_count p - of_nat n\<rparr>)"

definition buf_copy :: "u8 list \<Rightarrow> nat \<Rightarrow> u8 list \<Rightarrow> u8 list" where
  "buf_copy buf pos src = take pos buf @ src @ drop (pos + length src) buf"

definition ring_put :: "u8 list \<Rightarrow> pipe \<Rightarrow> pipe" where
  "ring_put src p =
     (let wpos = unat ((pp_rpos p + pp_count p) mod of_nat PIPE_BUFSZ); n = length src;
          first = (if PIPE_BUFSZ - wpos < n then PIPE_BUFSZ - wpos else n);
          buf = buf_copy (pp_buf p) wpos (take first src);
          buf = (if first < n then buf_copy buf 0 (drop first src) else buf)
      in p\<lparr>pp_buf := buf, pp_count := pp_count p + of_nat n\<rparr>)"

section \<open>Reading and writing\<close>

text \<open>
  How a round ends: the call returns a value, or it is blocked with \<open>done\<close> bytes transferred so far.
\<close>

datatype pipe_end = Ret int | Blocked nat

text \<open>
  One round of \<open>pipe_read\<close>: the loop \<open>while (done < len)\<close>, with \<open>dn\<close> for \<open>done\<close> and the bytes copied
  out so far in \<open>out\<close>. With no current process the call spins; it is represented as blocked.
\<close>

function pipe_read_loop ::
  "nat \<Rightarrow> nat option \<Rightarrow> nat \<Rightarrow> nat \<Rightarrow> u8 list \<Rightarrow> pipe \<times> kern \<Rightarrow> pipe_end \<times> u8 list \<times> pipe \<times> kern" where
  "pipe_read_loop pn cur len dn out s =
     (let (p, k) = s in
      if dn < len then
        if pp_count p = 0 then
          if pp_write_refs p = 0 then (Ret (int dn), out, p, k)
          else if 0 < dn then (Ret (int dn), out, p, k)
          else (Blocked dn, out, block_current pn cur 1 (p, k))
        else
          let n = (if unat (pp_count p) < len - dn then unat (pp_count p) else len - dn);
              (bytes, p) = ring_get n p
          in pipe_read_loop pn cur len (dn + n) (out @ bytes) (p, k)
      else (Ret (int dn), out, pipe_wake pn 0 (p, k)))"
  by pat_completeness auto
termination
  by (relation "measure (\<lambda>(pn, cur, len, dn, out, s). len - dn)")
    (auto simp: unat_gt_0 intro!: diff_less_mono2)

declare pipe_read_loop.simps [simp del]

definition pipe_read ::
  "nat \<Rightarrow> nat option \<Rightarrow> nat \<Rightarrow> pipe \<times> kern \<Rightarrow> pipe_end \<times> u8 list \<times> pipe \<times> kern" where
  "pipe_read pn cur len s =
     (if \<not> pipe_valid (fst s) then (Ret (- EIO), [], s) else pipe_read_loop pn cur len 0 [] s)"

text \<open>
  After the process runs again: the registration is removed; a pending signal ends the call with the
  bytes done so far or \<open>EINTR\<close>, otherwise (\<^term>\<open>None\<close>) a new round starts.
\<close>

definition pipe_resume :: "nat \<Rightarrow> nat \<Rightarrow> nat \<Rightarrow> pipe \<times> kern \<Rightarrow> int option \<times> pipe \<times> kern" where
  "pipe_resume pn task dn s =
     (let (p, k) = pipe_cancel_wait pn task s in
      (if pipe_pending_signals (proc_at k task) \<noteq> 0
       then Some (if dn \<noteq> 0 then int dn else - EINTR) else None, p, k))"

lemma word_diff_gt: "\<not> c \<le> a + b \<Longrightarrow> c - a \<noteq> (b :: u64)"
  by auto

function pipe_peek_loop ::
  "nat \<Rightarrow> nat option \<Rightarrow> nat \<Rightarrow> u64 \<Rightarrow> nat \<Rightarrow> u8 list \<Rightarrow> pipe \<times> kern \<Rightarrow>
     pipe_end \<times> u8 list \<times> pipe \<times> kern" where
  "pipe_peek_loop pn cur len skip dn out s =
     (let (p, k) = s in
      if dn < len then
        if ucast (pp_count p) \<le> skip + of_nat dn then
          if pp_write_refs p = 0 then (Ret (int dn), out, p, k)
          else if 0 < dn then (Ret (int dn), out, p, k)
          else (Blocked dn, out, block_current pn cur 1 (p, k))
        else
          let available = unat (ucast (pp_count p) - skip - of_nat dn);
              n = (if available < len - dn then available else len - dn);
              pos = (pp_rpos p + ucast skip + of_nat dn) mod of_nat PIPE_BUFSZ
          in pipe_peek_loop pn cur len skip (dn + n) (out @ ring_take p pos n) (p, k)
      else (Ret (int dn), out, p, k))"
  by pat_completeness auto
termination
  by (relation "measure (\<lambda>(pn, cur, len, skip, dn, out, s). len - dn)")
    (auto simp: unat_gt_0 dest: word_diff_gt intro!: diff_less_mono2)

declare pipe_peek_loop.simps [simp del]

definition pipe_peek ::
  "nat \<Rightarrow> nat option \<Rightarrow> nat \<Rightarrow> u64 \<Rightarrow> pipe \<times> kern \<Rightarrow> pipe_end \<times> u8 list \<times> pipe \<times> kern" where
  "pipe_peek pn cur len skip s =
     (if \<not> pipe_valid (fst s) then (Ret (- EIO), [], s) else pipe_peek_loop pn cur len skip 0 [] s)"

text \<open>
  One round of \<open>pipe_write\<close>: the bytes of the buffer from \<open>done\<close> on are \<open>src\<close>. A round entered again after
  blocking continues with the same arguments.
\<close>

definition sigpipe :: "nat option \<Rightarrow> kern \<Rightarrow> kern" where
  "sigpipe cur k = (case cur of None \<Rightarrow> k | Some task \<Rightarrow> proc_send_signal task SIGPIPE k)"

function pipe_write_loop ::
  "nat \<Rightarrow> nat option \<Rightarrow> u8 list \<Rightarrow> nat \<Rightarrow> pipe \<times> kern \<Rightarrow> pipe_end \<times> pipe \<times> kern" where
  "pipe_write_loop pn cur src dn s =
     (let (p, k) = s in
      if src \<noteq> [] then
        if pp_count p = of_nat PIPE_BUFSZ then
          if pp_read_refs p = 0 then
            (Ret (if dn \<noteq> 0 then int dn else - EPIPE), p, sigpipe cur k)
          else (Blocked dn, pipe_wake pn 1 (block_current pn cur 0 (p, k)))
        else
          let space = unat (of_nat PIPE_BUFSZ - pp_count p);
              n = (if space < length src then space else length src)
          in pipe_write_loop pn cur (drop n src) (dn + n) (ring_put (take n src) p, k)
      else (Ret (int dn), pipe_wake pn 1 (p, k)))"
  by pat_completeness auto
termination
  by (relation "measure (\<lambda>(pn, cur, src, dn, s). length src)") (auto simp: unat_gt_0)

declare pipe_write_loop.simps [simp del]

definition pipe_write :: "nat \<Rightarrow> nat option \<Rightarrow> u8 list \<Rightarrow> pipe \<times> kern \<Rightarrow> pipe_end \<times> pipe \<times> kern" where
  "pipe_write pn cur src s =
     (if \<not> pipe_valid (fst s) then (Ret (- EIO), s)
      else if pp_read_refs (fst s) = 0 then (Ret (- EPIPE), fst s, sigpipe cur (snd s))
      else if src = [] then (Ret 0, s)
      else pipe_write_loop pn cur src 0 s)"

section \<open>Passed descriptors\<close>

definition pipe_anc_send :: "nat list \<Rightarrow> pipe \<Rightarrow> int \<times> pipe" where
  "pipe_anc_send files p =
     (if \<not> pipe_valid p \<or> files = [] \<or> PIPE_ANC_MAXFDS < int (length files) then (- 1, p)
      else
        let nxt = (pp_anc_wr p + 1) mod PIPE_ANC_SLOTS in
        if nxt = pp_anc_rd p then (- 1, p)
        else (0, p\<lparr>pp_anc_q := (pp_anc_q p)[unat (pp_anc_wr p) := files], pp_anc_wr := nxt\<rparr>))"

definition pipe_anc_recv :: "int \<Rightarrow> pipe \<Rightarrow> nat list \<times> pipe" where
  "pipe_anc_recv mx p =
     (if \<not> pipe_valid p \<or> mx \<le> 0 then ([], p)
      else if pp_anc_rd p = pp_anc_wr p then ([], p)
      else
        let slot = pp_anc_q p ! unat (pp_anc_rd p) in
        (take (nat mx) slot, p\<lparr>pp_anc_rd := (pp_anc_rd p + 1) mod PIPE_ANC_SLOTS\<rparr>))"

section \<open>The ring as a queue\<close>

text \<open>
  The queue the ring stands for, and the well-formedness of the ring: the read position and the fill count
  stay within the buffer.
\<close>

definition contents :: "pipe \<Rightarrow> u8 list" where
  "contents p = map (\<lambda>i. pp_buf p ! ((unat (pp_rpos p) + i) mod PIPE_BUFSZ)) [0..<unat (pp_count p)]"

definition ring_wf :: "pipe \<Rightarrow> bool" where
  "ring_wf p \<longleftrightarrow> length (pp_buf p) = PIPE_BUFSZ \<and> unat (pp_rpos p) < PIPE_BUFSZ \<and>
     unat (pp_count p) \<le> PIPE_BUFSZ"

lemma bufsz_pos [simp]: "0 < PIPE_BUFSZ"
  by (simp add: PIPE_BUFSZ_def)

lemma unat_bufsz [simp]: "unat (word_of_nat PIPE_BUFSZ :: u32) = PIPE_BUFSZ"
  by (simp add: PIPE_BUFSZ_def)

lemma unat_u32_of_nat: "n \<le> 2 * PIPE_BUFSZ \<Longrightarrow> unat (of_nat n :: u32) = n"
  by (simp add: PIPE_BUFSZ_def unat_of_nat take_bit_nat_eq_self)

lemma unat_u32_add:
  "unat (a :: u32) \<le> PIPE_BUFSZ \<Longrightarrow> unat b \<le> PIPE_BUFSZ \<Longrightarrow> unat (a + b) = unat a + unat b"
  by (simp add: PIPE_BUFSZ_def unat_word_ariths)

lemma length_contents [simp]: "length (contents p) = unat (pp_count p)"
  by (simp add: contents_def)

lemma mod_wrap: "m \<le> a \<Longrightarrow> a < m + m \<Longrightarrow> a mod m = a - (m :: nat)"
  by (simp add: le_mod_geq)

lemma ring_take_spec:
  assumes "length (pp_buf p) = PIPE_BUFSZ" "unat pos < PIPE_BUFSZ" "n \<le> PIPE_BUFSZ"
  shows "ring_take p pos n = map (\<lambda>i. pp_buf p ! ((unat pos + i) mod PIPE_BUFSZ)) [0..<n]"
proof (cases "PIPE_BUFSZ - unat pos < n")
  case True
  show ?thesis
  proof (rule nth_equalityI)
    show "length (ring_take p pos n) = length (map (\<lambda>i. pp_buf p ! ((unat pos + i) mod PIPE_BUFSZ)) [0..<n])"
      using True assms by (simp add: ring_take_def)
    fix i
    assume "i < length (ring_take p pos n)"
    then have i: "i < n" using True assms by (simp add: ring_take_def)
    show "ring_take p pos n ! i = map (\<lambda>i. pp_buf p ! ((unat pos + i) mod PIPE_BUFSZ)) [0..<n] ! i"
    proof (cases "i < PIPE_BUFSZ - unat pos")
      case False
      then have "(unat pos + i) mod PIPE_BUFSZ = i - (PIPE_BUFSZ - unat pos)"
        using i assms by (subst mod_wrap) auto
      with False True i assms show ?thesis by (simp add: ring_take_def nth_append)
    qed (use True i assms in \<open>simp add: ring_take_def nth_append\<close>)
  qed
next
  case False
  with assms show ?thesis
    by (intro nth_equalityI) (auto simp: ring_take_def)
qed

lemma ring_get_spec:
  assumes "ring_wf p" "n \<le> unat (pp_count p)" "ring_get n p = (bytes, p')"
  shows "bytes = take n (contents p)" "contents p' = drop n (contents p)" "ring_wf p'"
proof -
  have nB: "n \<le> PIPE_BUFSZ" using assms(1,2) by (simp add: ring_wf_def)
  have bytes: "bytes = ring_take p (pp_rpos p) n"
    and rpos: "pp_rpos p' = (pp_rpos p + of_nat n) mod of_nat PIPE_BUFSZ"
    and cnt: "pp_count p' = pp_count p - of_nat n" and buf: "pp_buf p' = pp_buf p"
    using assms(3) by (auto simp: ring_get_def)
  have un: "unat (of_nat n :: u32) = n" using nB by (simp add: unat_u32_of_nat)
  have r: "unat (pp_rpos p') = (unat (pp_rpos p) + n) mod PIPE_BUFSZ"
    using assms(1) nB by (simp add: rpos unat_mod unat_u32_add un ring_wf_def)
  have c: "unat (pp_count p') = unat (pp_count p) - n"
    using assms(2) un by (simp add: cnt unat_sub word_le_nat_alt)
  show "bytes = take n (contents p)"
    using assms(1,2) nB by (simp add: bytes ring_take_spec ring_wf_def contents_def take_map)
  show "contents p' = drop n (contents p)"
    by (rule nth_equalityI)
      (auto simp: contents_def c r buf mod_add_left_eq mod_add_right_eq algebra_simps)
  show "ring_wf p'"
    using assms(1) by (auto simp: ring_wf_def r c buf)
qed

lemma buf_copy_nth:
  "pos + length src \<le> length buf \<Longrightarrow> i < length buf \<Longrightarrow>
   buf_copy buf pos src ! i = (if pos \<le> i \<and> i < pos + length src then src ! (i - pos) else buf ! i)"
  by (auto simp: buf_copy_def nth_append)

lemma buf_copy_length [simp]: "pos + length src \<le> length buf \<Longrightarrow> length (buf_copy buf pos src) = length buf"
  by (simp add: buf_copy_def)

text \<open>The bytes of the buffer after \<open>ring_put\<close>.\<close>

lemma ring_put_buf:
  assumes "ring_wf p" "length src \<le> PIPE_BUFSZ - unat (pp_count p)"
    and w: "w = (unat (pp_rpos p) + unat (pp_count p)) mod PIPE_BUFSZ"
  shows "length (pp_buf (ring_put src p)) = PIPE_BUFSZ"
    "i < length src \<Longrightarrow> pp_buf (ring_put src p) ! ((w + i) mod PIPE_BUFSZ) = src ! i"
    "j < PIPE_BUFSZ \<Longrightarrow> \<forall>i < length src. j \<noteq> (w + i) mod PIPE_BUFSZ \<Longrightarrow>
      pp_buf (ring_put src p) ! j = pp_buf p ! j"
proof -
  have wB: "w < PIPE_BUFSZ" and len: "length (pp_buf p) = PIPE_BUFSZ"
    using assms(1) by (auto simp: w ring_wf_def)
  have wu: "unat ((pp_rpos p + pp_count p) mod of_nat PIPE_BUFSZ) = w"
    using assms(1) by (simp add: w unat_mod unat_u32_add ring_wf_def)
  have le: "length src \<le> PIPE_BUFSZ" using assms(2) by simp
  have buf: "pp_buf (ring_put src p) =
      (if PIPE_BUFSZ - w < length src
       then buf_copy (buf_copy (pp_buf p) w (take (PIPE_BUFSZ - w) src)) 0 (drop (PIPE_BUFSZ - w) src)
       else buf_copy (pp_buf p) w src)"
    by (simp add: ring_put_def wu Let_def)
  show "length (pp_buf (ring_put src p)) = PIPE_BUFSZ"
    using wB len le by (simp add: buf)
  show "pp_buf (ring_put src p) ! ((w + i) mod PIPE_BUFSZ) = src ! i" if i: "i < length src"
  proof (cases "w + i < PIPE_BUFSZ")
    case True
    moreover have "\<not> w + i < length src + w - PIPE_BUFSZ" using le by linarith
    ultimately show ?thesis using wB len le i by (simp add: buf buf_copy_nth)
  next
    case False
    then have "(w + i) mod PIPE_BUFSZ = w + i - PIPE_BUFSZ" "PIPE_BUFSZ - w < length src"
      using wB le i by (simp add: mod_wrap, linarith)
    moreover have "w + i - PIPE_BUFSZ < length src + w - PIPE_BUFSZ" using False i by linarith
    ultimately show ?thesis using False wB len le i by (simp add: buf buf_copy_nth)
  qed
  show "pp_buf (ring_put src p) ! j = pp_buf p ! j"
    if j: "j < PIPE_BUFSZ" and out: "\<forall>i < length src. j \<noteq> (w + i) mod PIPE_BUFSZ"
  proof -
    have "\<not> (w \<le> j \<and> j < w + length src)"
    proof
      assume a: "w \<le> j \<and> j < w + length src"
      then have "j - w < length src" by linarith
      with out a j show False by auto
    qed
    moreover have "\<not> (j < w \<and> j + PIPE_BUFSZ < w + length src)"
    proof
      assume a: "j < w \<and> j + PIPE_BUFSZ < w + length src"
      then have "j + PIPE_BUFSZ - w < length src" using wB by linarith
      moreover have "(w + (j + PIPE_BUFSZ - w)) mod PIPE_BUFSZ = j" using a j wB by simp
      ultimately show False using out by metis
    qed
    ultimately have far: "\<not> (w \<le> j \<and> j < w + length src)" "\<not> (j < w \<and> j + PIPE_BUFSZ < w + length src)"
      by blast+
    show ?thesis
    proof (cases "PIPE_BUFSZ - w < length src")
      case True
      then have "\<not> j < length src + w - PIPE_BUFSZ" "\<not> w \<le> j" using far le j wB by linarith+
      with True wB len le j show ?thesis by (simp add: buf buf_copy_nth)
    qed (use far wB len le j in \<open>simp add: buf buf_copy_nth, blast\<close>)
  qed
qed

lemma mod_add_inj:
  fixes i j m :: nat
  assumes "(a + i) mod m = (a + j) mod m" "i < m" "j < m"
  shows "i = j"
proof (cases "i \<le> j")
  case True
  then have "m dvd j - i" using mod_eq_dvd_iff_nat [of "a + i" "a + j" m] assms(1) by simp
  with True assms(3) show ?thesis by (auto dest!: dvd_imp_le)
next
  case False
  then have "m dvd i - j" using mod_eq_dvd_iff_nat [of "a + j" "a + i" m] assms(1) by simp
  with False assms(2) show ?thesis by (auto dest!: dvd_imp_le)
qed

lemma ring_put_spec:
  assumes "ring_wf p" "length src \<le> PIPE_BUFSZ - unat (pp_count p)"
  shows "contents (ring_put src p) = contents p @ src" "ring_wf (ring_put src p)"
proof -
  define w where "w = (unat (pp_rpos p) + unat (pp_count p)) mod PIPE_BUFSZ"
  note b = ring_put_buf [OF assms w_def]
  have cle: "unat (pp_count p) \<le> PIPE_BUFSZ" using assms(1) by (simp add: ring_wf_def)
  have c: "unat (pp_count (ring_put src p)) = unat (pp_count p) + length src"
    using assms cle by (simp add: ring_put_def Let_def unat_u32_add unat_u32_of_nat)
  have r: "pp_rpos (ring_put src p) = pp_rpos p" by (simp add: ring_put_def Let_def)
  show "ring_wf (ring_put src p)"
    using assms cle b(1) by (auto simp: ring_wf_def c r)
  show "contents (ring_put src p) = contents p @ src"
  proof (rule nth_equalityI)
    fix i
    assume "i < length (contents (ring_put src p))"
    then have i: "i < unat (pp_count p) + length src" by (simp add: c)
    show "contents (ring_put src p) ! i = (contents p @ src) ! i"
    proof (cases "i < unat (pp_count p)")
      case True
      have "(unat (pp_rpos p) + i) mod PIPE_BUFSZ \<noteq> (w + j) mod PIPE_BUFSZ" if "j < length src" for j
      proof
        assume "(unat (pp_rpos p) + i) mod PIPE_BUFSZ = (w + j) mod PIPE_BUFSZ"
        then have "(unat (pp_rpos p) + i) mod PIPE_BUFSZ =
            (unat (pp_rpos p) + (unat (pp_count p) + j)) mod PIPE_BUFSZ"
          by (simp add: w_def mod_add_left_eq add.assoc)
        then have "i = unat (pp_count p) + j"
          by (rule mod_add_inj) (use True that assms(2) in auto)
        with True show False by simp
      qed
      with True i c show ?thesis by (simp add: contents_def r nth_append b(3))
    next
      case False
      then obtain j where j: "i = unat (pp_count p) + j" by (metis le_Suc_ex not_less)
      have "(unat (pp_rpos p) + i) mod PIPE_BUFSZ = (w + j) mod PIPE_BUFSZ"
        by (simp add: w_def j mod_add_left_eq add.assoc)
      with i j c b(2) [of j] show ?thesis by (simp add: contents_def r nth_append)
    qed
  qed (simp add: c)
qed


section \<open>Blocked processes\<close>

text \<open>
  A process sleeps on a pipe in one direction, and every sleeping process is registered in the waiter mask
  of its direction.
\<close>

definition waiting_on :: "nat \<Rightarrow> int \<Rightarrow> kern \<Rightarrow> nat \<Rightarrow> bool" where
  "waiting_on pn want_read k j \<longleftrightarrow> p_state (proc_at k j) = PROC_WAITING \<and>
     p_blocked_pipe (proc_at k j) = Some pn \<and> p_blocked_pipe_read (proc_at k j) = want_read"

definition registered :: "nat \<Rightarrow> pipe \<Rightarrow> kern \<Rightarrow> bool" where
  "registered pn p k \<longleftrightarrow> (\<forall>j < 64. p_state (proc_at k j) = PROC_WAITING \<and> p_blocked_pipe (proc_at k j) = Some pn \<longrightarrow>
     waiting_on pn 1 k j \<and> bit (pp_reader_waiters p) j \<or> waiting_on pn 0 k j \<and> bit (pp_writer_waiters p) j)"

definition pipe_inv :: "nat \<Rightarrow> pipe \<times> kern \<Rightarrow> bool" where
  "pipe_inv pn s \<longleftrightarrow> ring_wf (fst s) \<and> kern_wf (snd s) \<and> registered pn (fst s) (snd s)"

lemma bits_of_64: "\<forall>i \<in> set (bits_of w). i < 64"
  by (auto dest: bit_imp_le_length)

lemma proc_wake_at:
  "kern_wf k \<Longrightarrow> i < 64 \<Longrightarrow> j < 64 \<Longrightarrow> proc_at (proc_wake i k) j =
     (if j = i \<and> p_state (proc_at k i) = PROC_WAITING then (proc_at k i)\<lparr>p_state := PROC_READY\<rparr> else proc_at k j)"
  by (simp add: proc_wake_cases proc_set_ready_def)

lemma wake_waiters_at:
  assumes "kern_wf k" "\<forall>i \<in> set is. i < 64"
  shows "kern_wf (fold (wake_waiter pn w) is k) \<and> (\<forall>j < 64. proc_at (fold (wake_waiter pn w) is k) j =
    (if j \<in> set is \<and> waiting_on pn w k j then (proc_at k j)\<lparr>p_state := PROC_READY\<rparr> else proc_at k j))"
  using assms
proof (induction "is" arbitrary: k)
  case (Cons i "is")
  then have i: "i < 64" and wf: "kern_wf k" by auto
  have wf': "kern_wf (wake_waiter pn w i k)"
    using wf i by (simp add: wake_waiter_def pw.wake_wf)
  have at: "proc_at (wake_waiter pn w i k) j =
      (if j = i \<and> waiting_on pn w k j then (proc_at k j)\<lparr>p_state := PROC_READY\<rparr> else proc_at k j)"
    if "j < 64" for j
    using that wf i by (auto simp: wake_waiter_def waiting_on_def proc_wake_at)
  show ?case
  proof (intro conjI allI impI)
    show "kern_wf (fold (wake_waiter pn w) (i # is) k)" using Cons wf' by simp
    fix j :: nat
    assume j: "j < 64"
    have "waiting_on pn w (wake_waiter pn w i k) j \<longleftrightarrow> waiting_on pn w k j \<and> j \<noteq> i"
      using at [OF j] by (auto simp: waiting_on_def)
    then show "proc_at (fold (wake_waiter pn w) (i # is) k) j =
        (if j \<in> set (i # is) \<and> waiting_on pn w k j then (proc_at k j)\<lparr>p_state := PROC_READY\<rparr> else proc_at k j)"
      using Cons.IH [OF wf'] Cons.prems(2) j at [OF j] by auto
  qed
qed simp

text \<open>After a wake-up nobody sleeps in that direction, and the sleepers of the other one are untouched.\<close>

lemma pipe_wake_spec:
  assumes "pipe_inv pn (p, k)" "w = 0 \<or> w = 1" "pipe_wake pn w (p, k) = (p', k')"
  shows "pipe_inv pn (p', k')" "contents p' = contents p"
    "\<forall>j < 64. \<not> waiting_on pn w k' j"
    "\<forall>j < 64. waiting_on pn (1 - w) k' j = waiting_on pn (1 - w) k j"
proof -
  let ?m = "if w \<noteq> 0 then pp_reader_waiters p else pp_writer_waiters p"
  have k': "k' = fold (wake_waiter pn w) (bits_of ?m) k"
    and p': "p' = (if w \<noteq> 0 then p\<lparr>pp_reader_waiters := 0\<rparr> else p\<lparr>pp_writer_waiters := 0\<rparr>)"
    using assms(3) by (auto simp: pipe_wake_def bit_loop_fold split: if_splits)
  have inv: "kern_wf k" "registered pn p k" "ring_wf p" using assms(1) by (auto simp: pipe_inv_def)
  have at: "proc_at k' j = (if waiting_on pn w k j then (proc_at k j)\<lparr>p_state := PROC_READY\<rparr> else proc_at k j)"
    if "j < 64" for j
  proof -
    have "waiting_on pn w k j \<Longrightarrow> bit ?m j"
      using inv(2) that assms(2) unfolding registered_def waiting_on_def by (cases "w = 0") force+
    then show ?thesis
      using wake_waiters_at [OF inv(1) bits_of_64, of pn w ?m] that unfolding k' by auto
  qed
  show "\<forall>j < 64. \<not> waiting_on pn w k' j" by (simp add: at waiting_on_def)
  show other: "\<forall>j < 64. waiting_on pn (1 - w) k' j = waiting_on pn (1 - w) k j"
    using assms(2) by (auto simp: at waiting_on_def)
  show "contents p' = contents p" by (simp add: p' contents_def)
  have "registered pn p' k'"
    unfolding registered_def
  proof (intro allI impI)
    fix j :: nat
    assume j: "j < 64" and w: "p_state (proc_at k' j) = PROC_WAITING \<and> p_blocked_pipe (proc_at k' j) = Some pn"
    then have n: "\<not> waiting_on pn w k j" and same: "proc_at k' j = proc_at k j"
      by (auto simp: at split: if_splits)
    with j w inv(2) have "waiting_on pn 1 k j \<and> bit (pp_reader_waiters p) j \<or>
        waiting_on pn 0 k j \<and> bit (pp_writer_waiters p) j"
      unfolding registered_def by metis
    with n same assms(2) show "waiting_on pn 1 k' j \<and> bit (pp_reader_waiters p') j \<or>
        waiting_on pn 0 k' j \<and> bit (pp_writer_waiters p') j"
      unfolding p' waiting_on_def by (cases "w = 0") auto
  qed
  then show "pipe_inv pn (p', k')"
    using inv(3) wake_waiters_at [OF inv(1) bits_of_64, of pn w ?m]
    by (simp add: pipe_inv_def k' p' ring_wf_def)
qed

lemma registered_change:
  assumes "registered pn p k"
    and "\<And>j. j < 64 \<Longrightarrow> j \<noteq> t \<Longrightarrow> proc_at k' j = proc_at k j \<and>
      bit (pp_reader_waiters p') j = bit (pp_reader_waiters p) j \<and>
      bit (pp_writer_waiters p') j = bit (pp_writer_waiters p) j"
    and "p_state (proc_at k' t) = PROC_WAITING \<Longrightarrow> p_blocked_pipe (proc_at k' t) = Some pn \<Longrightarrow>
      waiting_on pn 1 k' t \<and> bit (pp_reader_waiters p') t \<or> waiting_on pn 0 k' t \<and> bit (pp_writer_waiters p') t"
  shows "registered pn p' k'"
  unfolding registered_def
proof (intro allI impI, elim conjE)
  fix j :: nat
  assume "j < 64" "p_state (proc_at k' j) = PROC_WAITING" "p_blocked_pipe (proc_at k' j) = Some pn"
  with assms show "waiting_on pn 1 k' j \<and> bit (pp_reader_waiters p') j \<or>
      waiting_on pn 0 k' j \<and> bit (pp_writer_waiters p') j"
    unfolding registered_def waiting_on_def by (cases "j = t") auto
qed

lemma pipe_block_spec:
  assumes "pipe_inv pn (p, k)" "w = 0 \<or> w = 1" "block_current pn cur w (p, k) = (p', k')"
    and "\<forall>i. cur = Some i \<longrightarrow> i < 64 \<and> p_state (proc_at k i) \<noteq> PROC_UNUSED"
  shows "pipe_inv pn (p', k')" "contents p' = contents p"
    "cur = Some i \<Longrightarrow> waiting_on pn w k' i"
proof -
  have "pipe_inv pn (p', k') \<and> contents p' = contents p \<and> (cur = Some i \<longrightarrow> waiting_on pn w k' i)"
  proof (cases cur)
    case (Some t)
    then have t: "t < 64" "p_state (proc_at k t) \<noteq> PROC_UNUSED" using assms(4) by auto
    have wf: "kern_wf k" using assms(1) by (simp add: pipe_inv_def)
    let ?f = "\<lambda>t. t\<lparr>p_blocked_pipe := Some pn, p_blocked_pipe_read := w, p_state := PROC_WAITING\<rparr>"
    have k': "k' = upd_proc t ?f k" and p': "p' = (if w \<noteq> 0 then p\<lparr>pp_reader_waiters := pp_reader_waiters p OR mask_bit t\<rparr>
        else p\<lparr>pp_writer_waiters := pp_writer_waiters p OR mask_bit t\<rparr>)"
      using assms(3) Some by (auto simp: block_current_def pipe_block_locked_def Let_def)
    have "kern_wf k'"
      by (rule kern_wf_change [OF wf t(1)])
        (use t wf kern_wf_slot [OF wf t(1)] in \<open>auto simp: k' slot_wf_def\<close>)
    moreover have "registered pn p' k'"
      by (rule registered_change [where p = p and k = k and t = t])
        (use assms(1,2) t(1) wf in \<open>auto simp: k' p' waiting_on_def pipe_inv_def\<close>)
    ultimately show ?thesis
      using assms(1) t(1) wf Some by (auto simp: pipe_inv_def p' ring_wf_def contents_def k' waiting_on_def)
  qed (use assms in \<open>simp add: block_current_def\<close>)
  then show "pipe_inv pn (p', k')" "contents p' = contents p" "cur = Some i \<Longrightarrow> waiting_on pn w k' i"
    by auto
qed

lemma pipe_cancel_spec:
  assumes "pipe_inv pn (p, k)" "t < 64" "pipe_cancel_wait pn t (p, k) = (p', k')"
  shows "pipe_inv pn (p', k')" "contents p' = contents p"
proof -
  have wf: "kern_wf k" using assms(1) by (simp add: pipe_inv_def)
  show "contents p' = contents p"
    using assms(3) by (auto simp: pipe_cancel_wait_def contents_def split: if_splits)
  show "pipe_inv pn (p', k')"
  proof (cases "p_blocked_pipe (proc_at k t) = Some pn")
    case True
    then have eq: "p' = p\<lparr>pp_reader_waiters := pp_reader_waiters p AND NOT (mask_bit t),
        pp_writer_waiters := pp_writer_waiters p AND NOT (mask_bit t)\<rparr>"
      "k' = upd_proc t (\<lambda>t. t\<lparr>p_blocked_pipe := None\<rparr>) k"
      using assms(3) by (auto simp: pipe_cancel_wait_def)
    have "kern_wf k'" unfolding eq using wf assms(2) by (intro upd_proc_wf) auto
    moreover have "registered pn p' k'"
      by (rule registered_change [where p = p and k = k and t = t])
        (use assms(1,2) wf in \<open>auto simp: eq pipe_inv_def\<close>)
    ultimately show ?thesis using assms(1) by (simp add: pipe_inv_def eq ring_wf_def)
  qed (use assms in \<open>simp add: pipe_cancel_wait_def\<close>)
qed


section \<open>A round of reading or writing\<close>

definition cur_ok :: "nat option \<Rightarrow> kern \<Rightarrow> bool" where
  "cur_ok cur k \<longleftrightarrow> (case cur of None \<Rightarrow> True | Some i \<Rightarrow> i < 64 \<and> p_state (proc_at k i) \<noteq> PROC_UNUSED)"

lemma cur_okD: "cur_ok cur k \<Longrightarrow> \<forall>i. cur = Some i \<longrightarrow> i < 64 \<and> p_state (proc_at k i) \<noteq> PROC_UNUSED"
  by (auto simp: cur_ok_def)

lemma read_loop_done: "len \<le> dn \<Longrightarrow> pipe_read_loop pn cur len dn out (p, k) = (Ret (int dn), out, pipe_wake pn 0 (p, k))"
  by (simp add: pipe_read_loop.simps)

lemma read_loop_empty:
  "dn < len \<Longrightarrow> pp_count p = 0 \<Longrightarrow> pipe_read_loop pn cur len dn out (p, k) =
     (if pp_write_refs p = 0 \<or> 0 < dn then (Ret (int dn), out, p, k)
      else (Blocked dn, out, block_current pn cur 1 (p, k)))"
  by (simp add: pipe_read_loop.simps)

lemma read_loop_some:
  assumes "ring_wf p" "0 < len" "pp_count p \<noteq> 0" "ring_get (min len (unat (pp_count p))) p = (bytes, p1)"
  shows "pipe_read_loop pn cur len 0 [] (p, k) =
    (if len \<le> unat (pp_count p) then (Ret (int len), bytes, pipe_wake pn 0 (p1, k))
     else (Ret (int (unat (pp_count p))), bytes, p1, k))"
proof (cases "len \<le> unat (pp_count p)")
  case True
  with assms have "ring_get len p = (bytes, p1)" by simp
  with True assms show ?thesis
    by (subst pipe_read_loop.simps) (simp add: read_loop_done)
next
  case False
  with assms have g: "ring_get (unat (pp_count p)) p = (bytes, p1)" by simp
  then have "pp_count p1 = 0" by (auto simp: ring_get_def)
  with False assms g show ?thesis
    by (subst pipe_read_loop.simps) (simp add: read_loop_empty unat_gt_0)
qed

lemma ring_get_frame:
  assumes "ring_get n p = (bytes, p1)"
  shows "registered pn p1 k = registered pn p k" "pp_writer_waiters p1 = pp_writer_waiters p"
    "pp_write_refs p1 = pp_write_refs p" "pp_magic p1 = pp_magic p"
  using assms by (auto simp: ring_get_def registered_def)

lemma ring_put_frame [simp]:
  "registered pn (ring_put src p) k = registered pn p k"
  "pp_read_refs (ring_put src p) = pp_read_refs p" "pp_magic (ring_put src p) = pp_magic p"
  by (auto simp: ring_put_def registered_def Let_def)

text \<open>
  A read of \<open>len\<close> bytes takes what is there, up to \<open>len\<close>, from the front of the queue; it sleeps only when
  there is nothing and somebody may still write; a read that gets all it asked for wakes every writer.
\<close>

lemma pipe_read_round:
  assumes inv: "pipe_inv pn (p, k)" and "pipe_valid p" "cur_ok cur k"
    and rd: "pipe_read pn cur len (p, k) = (e, out, p', k')"
  shows "pipe_inv pn (p', k')" "out = take len (contents p)" "contents p' = drop len (contents p)"
    "e = (if 0 < len \<and> contents p = [] \<and> pp_write_refs p \<noteq> 0 then Blocked 0 else Ret (int (length out)))"
    "length out = len \<Longrightarrow> j < 64 \<Longrightarrow> \<not> waiting_on pn 0 k' j"
    "length out < len \<Longrightarrow> contents p \<noteq> [] \<Longrightarrow> k' = k"
proof -
  have loop: "pipe_read_loop pn cur len 0 [] (p, k) = (e, out, p', k')"
    using rd assms(2) by (simp add: pipe_read_def)
  have empty: "pp_count p = 0 \<longleftrightarrow> contents p = []"
    by (metis length_0_conv length_contents unat_eq_zero)
  consider (none) "len = 0" | (dry) "0 < len" "pp_count p = 0" | (some) "0 < len" "pp_count p \<noteq> 0" by blast
  then have "pipe_inv pn (p', k') \<and> out = take len (contents p) \<and> contents p' = drop len (contents p) \<and>
    e = (if 0 < len \<and> contents p = [] \<and> pp_write_refs p \<noteq> 0 then Blocked 0 else Ret (int (length out))) \<and>
    (length out = len \<longrightarrow> (\<forall>j < 64. \<not> waiting_on pn 0 k' j)) \<and> (length out < len \<longrightarrow> contents p \<noteq> [] \<longrightarrow> k' = k)"
  proof cases
    case none
    with loop have "pipe_wake pn 0 (p, k) = (p', k')" "out = []" "e = Ret 0"
      by (auto simp: read_loop_done)
    with none pipe_wake_spec [OF inv _ this(1)] show ?thesis by simp
  next
    case dry
    show ?thesis
    proof (cases "pp_write_refs p = 0")
      case True
      with dry loop inv empty show ?thesis by (auto simp: read_loop_empty)
    next
      case False
      with dry loop have b: "block_current pn cur 1 (p, k) = (p', k')" and "out = []" "e = Blocked 0"
        by (auto simp: read_loop_empty)
      with dry False empty pipe_block_spec [OF inv _ b cur_okD [OF assms(3)]] show ?thesis by auto
    qed
  next
    case some
    obtain bytes p1 where g: "ring_get (min len (unat (pp_count p))) p = (bytes, p1)" by (metis surj_pair)
    have wf: "ring_wf p" using inv by (simp add: pipe_inv_def)
    note get = ring_get_spec [OF wf _ g]
    have inv1: "pipe_inv pn (p1, k)" using inv get(3) ring_get_frame(1) [OF g] by (simp add: pipe_inv_def)
    have bytes: "bytes = take len (contents p)" "contents p1 = drop len (contents p)"
      using get(1,2) by (auto simp: min_def)
    show ?thesis
    proof (cases "len \<le> unat (pp_count p)")
      case True
      with loop some g have w: "pipe_wake pn 0 (p1, k) = (p', k')" and "out = bytes" "e = Ret (int len)"
        by (auto simp: read_loop_some [OF wf])
      with True some empty bytes pipe_wake_spec [OF inv1 _ w] show ?thesis by auto
    next
      case False
      with loop some g have "p' = p1" "k' = k" "out = bytes" "e = Ret (int (unat (pp_count p)))"
        by (auto simp: read_loop_some [OF wf])
      with False some empty bytes inv1 show ?thesis by auto
    qed
  qed
  then show "pipe_inv pn (p', k')" "out = take len (contents p)" "contents p' = drop len (contents p)"
    "e = (if 0 < len \<and> contents p = [] \<and> pp_write_refs p \<noteq> 0 then Blocked 0 else Ret (int (length out)))"
    "length out = len \<Longrightarrow> j < 64 \<Longrightarrow> \<not> waiting_on pn 0 k' j"
    "length out < len \<Longrightarrow> contents p \<noteq> [] \<Longrightarrow> k' = k" by blast+
qed

lemma write_loop_done: "pipe_write_loop pn cur [] dn (p, k) = (Ret (int dn), pipe_wake pn 1 (p, k))"
  by (simp add: pipe_write_loop.simps)

lemma write_loop_full:
  "src \<noteq> [] \<Longrightarrow> pp_count p = of_nat PIPE_BUFSZ \<Longrightarrow> pipe_write_loop pn cur src dn (p, k) =
     (if pp_read_refs p = 0 then (Ret (if dn \<noteq> 0 then int dn else - EPIPE), p, sigpipe cur k)
      else (Blocked dn, pipe_wake pn 1 (block_current pn cur 0 (p, k))))"
  by (simp add: pipe_write_loop.simps)

lemma count_full: "unat (pp_count p) = PIPE_BUFSZ \<Longrightarrow> pp_count p = of_nat PIPE_BUFSZ"
  by (metis of_nat_unat)

lemma write_loop_some:
  assumes "ring_wf p" "src \<noteq> []"
  defines "n \<equiv> min (length src) (PIPE_BUFSZ - unat (pp_count p))"
  shows "pipe_write_loop pn cur src dn (p, k) =
    (if n < length src then pipe_write_loop pn cur (drop n src) (dn + n) (ring_put (take n src) p, k)
     else (Ret (int (dn + length src)), pipe_wake pn 1 (ring_put src p, k)))"
    "n < length src \<Longrightarrow> pp_count (ring_put (take n src) p) = of_nat PIPE_BUFSZ"
proof -
  have sp: "unat (of_nat PIPE_BUFSZ - pp_count p) = PIPE_BUFSZ - unat (pp_count p)"
    using assms(1) by (simp add: unat_sub word_le_nat_alt ring_wf_def)
  show "pp_count (ring_put (take n src) p) = of_nat PIPE_BUFSZ" if "n < length src"
    by (rule count_full) (use that assms(1) ring_put_spec(1) [OF assms(1), of "take n src"]
      in \<open>auto simp: n_def ring_wf_def min_def dest!: arg_cong [where f = length]\<close>)
  have [simp]: "ring_put [] p = p" if "pp_count p = of_nat PIPE_BUFSZ"
    by (simp add: ring_put_def buf_copy_def Let_def)
  show "pipe_write_loop pn cur src dn (p, k) =
    (if n < length src then pipe_write_loop pn cur (drop n src) (dn + n) (ring_put (take n src) p, k)
     else (Ret (int (dn + length src)), pipe_wake pn 1 (ring_put src p, k)))"
  proof (cases "pp_count p = of_nat PIPE_BUFSZ")
    case True
    then have "n = 0" by (simp add: n_def)
    with assms(2) True show ?thesis by simp
  next
    case False
    then show ?thesis
      using assms(2) sp by (subst pipe_write_loop.simps) (auto simp: n_def min_def write_loop_done Let_def)
  qed
qed

text \<open>
  A write appends what fits; it sleeps when the ring is full and somebody may still read, and in every
  case no reader is left sleeping.
\<close>

lemma sigpipe_inv:
  assumes "pipe_inv pn (p, k)" "cur_ok cur k"
  shows "pipe_inv pn (p, sigpipe cur k)"
proof (cases cur)
  case (Some t)
  with assms(2) have t: "t < 64" "p_state (proc_at k t) \<noteq> PROC_UNUSED" by (auto simp: cur_ok_def)
  have wf: "kern_wf k" and reg: "registered pn p k" and ring: "ring_wf p"
    using assms(1) by (auto simp: pipe_inv_def)
  have eq: "sigpipe cur k = proc_send_signal t SIGPIPE k" by (simp add: sigpipe_def Some)
  have "p_state (proc_at (proc_send_signal t SIGPIPE k) t) \<noteq> PROC_WAITING"
    by (simp add: send_signal_state [OF wf t(1) t(1)] SIGPIPE_def t(2))
  moreover have "proc_at (proc_send_signal t SIGPIPE k) j = proc_at k j" if "j \<noteq> t" for j
    using that t wf by (subst proc_send_signal_eq) (auto simp: SIGPIPE_def Let_def)
  ultimately have "registered pn p (proc_send_signal t SIGPIPE k)"
    by (intro registered_change [OF reg, where t = t]) auto
  then show ?thesis
    using ring send_signal_wf [OF wf t(1)] by (simp add: eq pipe_inv_def)
qed (use assms in \<open>simp add: sigpipe_def\<close>)

definition accepted :: "nat \<Rightarrow> pipe_end \<Rightarrow> nat" where
  "accepted dn e = (case e of Ret r \<Rightarrow> nat r - dn | Blocked d \<Rightarrow> d - dn)"

lemma write_full_round:
  assumes inv: "pipe_inv pn (p, k)" and "src \<noteq> []" "cur_ok cur k" "pp_count p = of_nat PIPE_BUFSZ"
    and wr: "pipe_write_loop pn cur src dn (p, k) = (e, p', k')"
  shows "pipe_inv pn (p', k')" "contents p' = contents p"
    "e = (if pp_read_refs p \<noteq> 0 then Blocked dn else Ret (if dn \<noteq> 0 then int dn else - EPIPE))"
    "pp_read_refs p \<noteq> 0 \<Longrightarrow> \<forall>j < 64. \<not> waiting_on pn 1 k' j"
proof -
  have "pipe_inv pn (p', k') \<and> contents p' = contents p \<and>
    e = (if pp_read_refs p \<noteq> 0 then Blocked dn else Ret (if dn \<noteq> 0 then int dn else - EPIPE)) \<and>
    (pp_read_refs p \<noteq> 0 \<longrightarrow> (\<forall>j < 64. \<not> waiting_on pn 1 k' j))"
  proof (cases "pp_read_refs p = 0")
    case True
    with wr assms(2,4) have "p' = p" "k' = sigpipe cur k" "e = Ret (if dn \<noteq> 0 then int dn else - EPIPE)"
      by (auto simp: write_loop_full)
    with True sigpipe_inv [OF inv assms(3)] show ?thesis by simp
  next
    case False
    obtain p1 k1 where b: "block_current pn cur 0 (p, k) = (p1, k1)" by (metis surj_pair)
    with wr assms(2,4) False have w: "pipe_wake pn 1 (p1, k1) = (p', k')" and e: "e = Blocked dn"
      by (auto simp: write_loop_full)
    note bs = pipe_block_spec [OF inv _ b cur_okD [OF assms(3)]]
    from pipe_wake_spec [OF bs(1) _ w] bs(2) e False show ?thesis by simp
  qed
  then show "pipe_inv pn (p', k')" "contents p' = contents p"
    "e = (if pp_read_refs p \<noteq> 0 then Blocked dn else Ret (if dn \<noteq> 0 then int dn else - EPIPE))"
    "pp_read_refs p \<noteq> 0 \<Longrightarrow> \<forall>j < 64. \<not> waiting_on pn 1 k' j" by blast+
qed

lemma write_loop_round:
  assumes inv: "pipe_inv pn (p, k)" and "cur_ok cur k"
    and wr: "pipe_write_loop pn cur src dn (p, k) = (e, p', k')"
  defines "n \<equiv> min (length src) (PIPE_BUFSZ - length (contents p))"
  shows "pipe_inv pn (p', k')" "contents p' = contents p @ take n src" "accepted dn e = n"
    "pp_read_refs p \<noteq> 0 \<Longrightarrow> e = (if n = length src then Ret (int (dn + n)) else Blocked (dn + n)) \<and>
      (\<forall>j < 64. \<not> waiting_on pn 1 k' j)"
proof -
  have wf: "ring_wf p" using inv by (simp add: pipe_inv_def)
  have n: "n = min (length src) (PIPE_BUFSZ - unat (pp_count p))" by (simp add: n_def)
  have inv': "pipe_inv pn (ring_put (take n src) p, k)" and
    c': "contents (ring_put (take n src) p) = contents p @ take n src"
    using ring_put_spec [OF wf, of "take n src"] inv by (auto simp: n pipe_inv_def)
  have "pipe_inv pn (p', k') \<and> contents p' = contents p @ take n src \<and> accepted dn e = n \<and>
    (pp_read_refs p \<noteq> 0 \<longrightarrow> e = (if n = length src then Ret (int (dn + n)) else Blocked (dn + n)) \<and>
      (\<forall>j < 64. \<not> waiting_on pn 1 k' j))"
  proof (cases "n < length src")
    case True
    then have src: "src \<noteq> []" by auto
    have r: "pipe_write_loop pn cur (drop n src) (dn + n) (ring_put (take n src) p, k) = (e, p', k')"
      using wr True write_loop_some(1) [OF wf src, of pn cur dn k, folded n] by simp
    note full = write_full_round [OF inv' _ assms(2) write_loop_some(2) [OF wf src, folded n, OF True] r]
    show ?thesis using full(1) full(2-4) True c' by (auto simp: accepted_def)
  next
    case False
    then have [simp]: "n = length src" by (simp add: n)
    have w: "pipe_wake pn 1 (ring_put src p, k) = (p', k') \<and> e = Ret (int (dn + length src))"
    proof (cases "src = []")
      case True
      have "ring_put [] p = p" by (simp add: ring_put_def buf_copy_def Let_def)
      with True wr show ?thesis by (simp add: write_loop_done)
    next
      case src: False
      show ?thesis using wr write_loop_some(1) [OF wf src, of pn cur dn k, folded n] by simp
    qed
    with pipe_wake_spec [OF inv', of 1 p' k'] c' show ?thesis by (simp add: accepted_def)
  qed
  then show "pipe_inv pn (p', k')" "contents p' = contents p @ take n src" "accepted dn e = n"
    "pp_read_refs p \<noteq> 0 \<Longrightarrow> e = (if n = length src then Ret (int (dn + n)) else Blocked (dn + n)) \<and>
      (\<forall>j < 64. \<not> waiting_on pn 1 k' j)" by blast+
qed

text \<open>\<open>pipe_peek\<close> changes the pipe only by registering a process that goes to sleep.\<close>

lemma peek_loop_inv:
  "pipe_peek_loop pn cur len skip dn out (p, k) = (e, out', p', k') \<Longrightarrow> pipe_inv pn (p, k) \<Longrightarrow> cur_ok cur k \<Longrightarrow>
   pipe_inv pn (p', k') \<and> contents p' = contents p"
proof (induction "len - dn" arbitrary: dn out rule: less_induct)
  case less
  show ?case
  proof (cases "dn < len \<and> \<not> ucast (pp_count p) \<le> skip + of_nat dn")
    case True
    define n where "n = (let a = unat (ucast (pp_count p) - skip - of_nat dn) in if a < len - dn then a else len - dn)"
    obtain out1 where r: "pipe_peek_loop pn cur len skip (dn + n) out1 (p, k) = (e, out', p', k')"
      using less.prems(1) True by (subst (asm) pipe_peek_loop.simps) (simp add: n_def Let_def)
    have "0 < n" using True word_diff_gt [of "ucast (pp_count p)" skip "of_nat dn"]
      by (auto simp: n_def Let_def unat_gt_0)
    with True have "len - (dn + n) < len - dn" by linarith
    from less.hyps [OF this r less.prems(2,3)] show ?thesis .
  next
    case False
    show ?thesis
    proof (cases "dn < len \<and> pp_write_refs p \<noteq> 0 \<and> dn = 0")
      case True
      with False less.prems(1) have "block_current pn cur 1 (p, k) = (p', k')"
        by (subst (asm) pipe_peek_loop.simps) auto
      with pipe_block_spec(1,2) [OF less.prems(2) _ this cur_okD [OF less.prems(3)]] show ?thesis by simp
    next
      case stay: False
      with False less.prems show ?thesis
        by (subst (asm) pipe_peek_loop.simps) (auto split: if_splits)
    qed
  qed
qed

lemma ring_take_skip:
  assumes "ring_wf p" "s + n \<le> unat (pp_count p)" "pos = (pp_rpos p + of_nat s) mod of_nat PIPE_BUFSZ"
  shows "ring_take p pos n = take n (drop s (contents p))"
proof -
  have s: "s \<le> PIPE_BUFSZ" "n \<le> PIPE_BUFSZ" using assms(1,2) by (auto simp: ring_wf_def)
  have "unat pos = (unat (pp_rpos p) + s) mod PIPE_BUFSZ"
    using assms(1) s by (simp add: assms(3) unat_mod unat_u32_add unat_u32_of_nat ring_wf_def)
  then have "ring_take p pos n = map (\<lambda>i. pp_buf p ! (((unat (pp_rpos p) + s) mod PIPE_BUFSZ + i) mod PIPE_BUFSZ)) [0..<n]"
    using assms(1) s by (subst ring_take_spec) (auto simp: ring_wf_def)
  also have "\<dots> = take n (drop s (contents p))"
    by (rule nth_equalityI) (use assms(2) in \<open>auto simp: contents_def mod_add_left_eq add.assoc\<close>)
  finally show ?thesis .
qed

text \<open>It copies what a read after \<open>skip\<close> bytes would return, and leaves them in the pipe.\<close>

lemma pipe_peek_spec:
  assumes "ring_wf p" "pipe_valid p" "unat skip < unat (pp_count p)"
  shows "pipe_peek pn cur len skip (p, k) =
    (Ret (int (min len (unat (pp_count p) - unat skip))), take len (drop (unat skip) (contents p)), p, k)"
proof -
  define n where "n = min len (unat (pp_count p) - unat skip)"
  have le: "unat (pp_count p) \<le> PIPE_BUFSZ" using assms(1) by (simp add: ring_wf_def)
  have uc: "unat (ucast (pp_count p) :: u64) = unat (pp_count p)" by (simp add: unat_ucast_up)
  have av: "unat (ucast (pp_count p) - skip) = unat (pp_count p) - unat skip"
    using assms(3) by (simp add: unat_sub word_le_nat_alt uc)
  have "(ucast skip :: u32) = of_nat (unat skip)" by (simp add: word_unat_eq_iff unat_of_nat unsigned_ucast_eq take_bit_eq_mod)
  then have take: "ring_take p ((pp_rpos p + ucast skip) mod of_nat PIPE_BUFSZ) n = take n (drop (unat skip) (contents p))"
    using assms(1,3) by (intro ring_take_skip) (auto simp: n_def)
  have tn: "take n (drop (unat skip) (contents p)) = take len (drop (unat skip) (contents p))"
    by (simp add: n_def min_def)
  have nb: "unat (skip + of_nat n) = unat skip + n"
    using assms(3) le by (simp add: n_def unat_word_ariths unat_of_nat PIPE_BUFSZ_def)
  have stop: "pipe_peek_loop pn cur len skip n out (p, k) = (Ret (int n), out, p, k)" if "0 < n" for out
  proof (cases "n < len")
    case True
    then have "ucast (pp_count p) \<le> skip + of_nat n"
      by (simp add: word_le_nat_alt nb uc) (simp add: n_def)
    with True that show ?thesis by (simp add: pipe_peek_loop.simps)
  next
    case False
    then show ?thesis by (simp add: pipe_peek_loop.simps)
  qed
  have "pipe_peek_loop pn cur len skip 0 [] (p, k) =
      (Ret (int n), take len (drop (unat skip) (contents p)), p, k)"
  proof (cases "len = 0")
    case True
    then show ?thesis by (simp add: pipe_peek_loop.simps n_def)
  next
    case False
    then have "0 < n" using assms(3) by (simp add: n_def)
    moreover have "\<not> ucast (pp_count p) \<le> skip" using assms(3) by (simp add: word_le_nat_alt uc)
    ultimately have "pipe_peek_loop pn cur len skip 0 [] (p, k) = pipe_peek_loop pn cur len skip n
        (ring_take p ((pp_rpos p + ucast skip) mod of_nat PIPE_BUFSZ) n) (p, k)"
      using False by (subst pipe_peek_loop.simps) (simp add: Let_def n_def av min_def)
    then show ?thesis
      using stop [OF \<open>0 < n\<close>] take tn by simp
  qed
  then show ?thesis using assms(2) by (simp add: pipe_peek_def n_def)
qed

lemma free_waiters_state:
  assumes "kern_wf k" "\<forall>i \<in> set is. i < 64"
  shows "kern_wf (fold (free_waiter pn) is k) \<and> (\<forall>j < 64.
    (j \<in> set is \<longrightarrow> p_state (proc_at (fold (free_waiter pn) is k) j) \<noteq> PROC_WAITING) \<and>
    (j \<notin> set is \<longrightarrow> proc_at (fold (free_waiter pn) is k) j = proc_at k j))"
  using assms
proof (induction "is" rule: rev_induct)
  case (snoc i "is")
  let ?k = "fold (free_waiter pn) is k"
  have i: "i < 64" and IH: "kern_wf ?k" "\<And>j. j < 64 \<Longrightarrow> j \<in> set is \<Longrightarrow> p_state (proc_at ?k j) \<noteq> PROC_WAITING"
    "\<And>j. j < 64 \<Longrightarrow> j \<notin> set is \<Longrightarrow> proc_at ?k j = proc_at k j"
    using snoc by auto
  let ?k1 = "if p_blocked_pipe (proc_at ?k i) = Some pn
    then upd_proc i (\<lambda>t. t\<lparr>p_blocked_pipe := None\<rparr>) ?k else ?k"
  have wf1: "kern_wf ?k1" using IH(1) i by (auto intro!: upd_proc_wf)
  have st: "p_state (proc_at ?k1 j) = p_state (proc_at ?k j)" if "j < 64" for j
    using that IH(1) i by (cases "j = i") auto
  have other: "proc_at ?k1 j = proc_at ?k j" if "j < 64" "j \<noteq> i" for j
    using that by auto
  have fw: "free_waiter pn i ?k = proc_wake i ?k1" by (simp add: free_waiter_def)
  have at: "proc_at (free_waiter pn i ?k) j = (if j = i \<and> p_state (proc_at ?k1 i) = PROC_WAITING
      then (proc_at ?k1 i)\<lparr>p_state := PROC_READY\<rparr> else proc_at ?k1 j)" if "j < 64" for j
    unfolding fw by (rule proc_wake_at [OF wf1 i that])
  show ?case
  proof (intro conjI allI impI)
    show "kern_wf (fold (free_waiter pn) (is @ [i]) k)"
      using pw.wake_wf [OF wf1 i] by (simp add: fw)
    fix j :: nat
    assume j: "j < 64"
    show "p_state (proc_at (fold (free_waiter pn) (is @ [i]) k) j) \<noteq> PROC_WAITING" if "j \<in> set (is @ [i])"
      using that at [OF j] st [OF j] IH(2) [OF j] by (auto split del: if_split split: if_splits)
    show "proc_at (fold (free_waiter pn) (is @ [i]) k) j = proc_at k j" if "j \<notin> set (is @ [i])"
      using that at [OF j] other [OF j] IH(3) [OF j] by (auto split del: if_split)
  qed
qed simp

lemma pipe_free_inv:
  assumes "pipe_inv pn (p, k)" "pipe_free pn (p, k) = (fs, p', k')"
  shows "pipe_inv pn (p', k')" "contents p' = contents p"
    "\<forall>j < 64. \<not> (p_state (proc_at k' j) = PROC_WAITING \<and> p_blocked_pipe (proc_at k' j) = Some pn)"
proof -
  let ?m = "pp_reader_waiters p OR pp_writer_waiters p"
  have k': "k' = fold (free_waiter pn) (bits_of ?m) k" and
    p': "p' = p\<lparr>pp_reader_waiters := 0, pp_writer_waiters := 0, pp_anc_rd := pp_anc_wr p, pp_magic := 0\<rparr>"
    using assms(2) by (auto simp: pipe_free_def bit_loop_fold Let_def)
  have inv: "kern_wf k" "registered pn p k" "ring_wf p" using assms(1) by (auto simp: pipe_inv_def)
  note fw = free_waiters_state [OF inv(1) bits_of_64, of pn ?m]
  show nobody: "\<forall>j < 64. \<not> (p_state (proc_at k' j) = PROC_WAITING \<and> p_blocked_pipe (proc_at k' j) = Some pn)"
  proof (intro allI impI notI)
    fix j :: nat
    assume j: "j < 64" and w: "p_state (proc_at k' j) = PROC_WAITING \<and> p_blocked_pipe (proc_at k' j) = Some pn"
    with fw have "\<not> bit ?m j" and "proc_at k' j = proc_at k j" unfolding k' by auto
    with w j inv(2) show False unfolding registered_def by (auto simp: bit_or_iff)
  qed
  show "contents p' = contents p" by (simp add: p' contents_def)
  show "pipe_inv pn (p', k')"
    using nobody inv(3) fw by (auto simp: pipe_inv_def p' k' ring_wf_def registered_def)
qed


section \<open>The pipe as a stream\<close>

text \<open>
  Any interleaving of the operations on one pipe by any processes. Next to the pipe and the process table
  the state keeps the bytes that the write calls reported as accepted and the bytes that the read calls
  delivered, each in the order of the calls.
\<close>

record stream =
  sm_s :: "pipe \<times> kern"
  sm_wr :: "u8 list"
  sm_rd :: "u8 list"

definition stream_init :: "nat \<Rightarrow> stream \<Rightarrow> bool" where
  "stream_init pn st \<longleftrightarrow> fst (sm_s st) = pipe_alloc \<and> kern_wf (snd (sm_s st)) \<and> sm_wr st = [] \<and> sm_rd st = [] \<and>
     (\<forall>j < 64. p_blocked_pipe (proc_at (snd (sm_s st)) j) \<noteq> Some pn)"

inductive pipe_step :: "nat \<Rightarrow> stream \<Rightarrow> stream \<Rightarrow> bool" for pn where
  pi_read: "cur_ok cur (snd (sm_s st)) \<Longrightarrow> pipe_read pn cur len (sm_s st) = (e, out, s') \<Longrightarrow>
     pipe_step pn st (st\<lparr>sm_s := s', sm_rd := sm_rd st @ out\<rparr>)"
| pi_peek: "cur_ok cur (snd (sm_s st)) \<Longrightarrow> pipe_peek pn cur len skip (sm_s st) = (e, out, s') \<Longrightarrow>
     pipe_step pn st (st\<lparr>sm_s := s'\<rparr>)"
| pi_write: "cur_ok cur (snd (sm_s st)) \<Longrightarrow> pipe_write pn cur src (sm_s st) = (e, s') \<Longrightarrow>
     pipe_step pn st (st\<lparr>sm_s := s', sm_wr := sm_wr st @ take (accepted 0 e) src\<rparr>)"
| pi_write_on: "cur_ok cur (snd (sm_s st)) \<Longrightarrow> pipe_write_loop pn cur src dn (sm_s st) = (e, s') \<Longrightarrow>
     pipe_step pn st (st\<lparr>sm_s := s', sm_wr := sm_wr st @ take (accepted dn e) src\<rparr>)"
| pi_resume: "t < 64 \<Longrightarrow> pipe_resume pn t dn (sm_s st) = (r, s') \<Longrightarrow> pipe_step pn st (st\<lparr>sm_s := s'\<rparr>)"
| pi_wake: "w = 0 \<or> w = 1 \<Longrightarrow> pipe_step pn st (st\<lparr>sm_s := pipe_wake pn w (sm_s st)\<rparr>)"
| pi_publish: "t < 64 \<Longrightarrow>
     pipe_step pn st (st\<lparr>sm_s := (fst (sm_s st), pipe_publish_signal t (snd (sm_s st)))\<rparr>)"
| pi_ref_read: "pipe_step pn st (st\<lparr>sm_s := (pipe_ref_read (fst (sm_s st)), snd (sm_s st))\<rparr>)"
| pi_ref_write: "pipe_step pn st (st\<lparr>sm_s := (pipe_ref_write (fst (sm_s st)), snd (sm_s st))\<rparr>)"
| pi_unref_read: "pipe_unref_read pn (sm_s st) = (fs, s') \<Longrightarrow> pipe_step pn st (st\<lparr>sm_s := s'\<rparr>)"
| pi_unref_write: "pipe_unref_write pn (sm_s st) = (fs, s') \<Longrightarrow> pipe_step pn st (st\<lparr>sm_s := s'\<rparr>)"
| pi_anc_send: "pipe_anc_send fs (fst (sm_s st)) = (r, p') \<Longrightarrow>
     pipe_step pn st (st\<lparr>sm_s := (p', snd (sm_s st))\<rparr>)"
| pi_anc_recv: "pipe_anc_recv mx (fst (sm_s st)) = (fs, p') \<Longrightarrow>
     pipe_step pn st (st\<lparr>sm_s := (p', snd (sm_s st))\<rparr>)"

definition stream_inv :: "nat \<Rightarrow> stream \<Rightarrow> bool" where
  "stream_inv pn st \<longleftrightarrow> pipe_inv pn (sm_s st) \<and> sm_wr st = sm_rd st @ contents (fst (sm_s st))"

text \<open>Operations that keep the invariant of the pipe and its contents.\<close>

definition quiet :: "nat \<Rightarrow> pipe \<times> kern \<Rightarrow> pipe \<times> kern \<Rightarrow> bool" where
  "quiet pn s s' \<longleftrightarrow> (pipe_inv pn s \<longrightarrow> pipe_inv pn s' \<and> contents (fst s') = contents (fst s))"

lemma quiet_refl: "quiet pn s s"
  by (simp add: quiet_def)

lemma quiet_trans: "quiet pn s t \<Longrightarrow> quiet pn t u \<Longrightarrow> quiet pn s u"
  by (simp add: quiet_def)

lemma quiet_inv: "stream_inv pn st \<Longrightarrow> quiet pn (sm_s st) s' \<Longrightarrow> stream_inv pn (st\<lparr>sm_s := s'\<rparr>)"
  by (simp add: stream_inv_def quiet_def)

lemma quiet_wake: "w = 0 \<or> w = 1 \<Longrightarrow> quiet pn s (pipe_wake pn w s)"
  using pipe_wake_spec(1,2) [of pn "fst s" "snd s" w]
  by (cases "pipe_wake pn w s") (auto simp: quiet_def)

lemma quiet_frame:
  "pp_buf p' = pp_buf (fst s) \<Longrightarrow> pp_rpos p' = pp_rpos (fst s) \<Longrightarrow> pp_count p' = pp_count (fst s) \<Longrightarrow>
   pp_reader_waiters p' = pp_reader_waiters (fst s) \<Longrightarrow> pp_writer_waiters p' = pp_writer_waiters (fst s) \<Longrightarrow>
   quiet pn s (p', snd s)"
  by (simp add: quiet_def pipe_inv_def ring_wf_def registered_def contents_def)

lemma quiet_put: "pipe_endpoint_put pn s = (fs, s') \<Longrightarrow> quiet pn s s'"
proof (cases s)
  case (Pair p k)
  let ?p = "p\<lparr>pp_endpoint_refs := pp_endpoint_refs p - 1\<rparr>"
  assume "pipe_endpoint_put pn s = (fs, s')"
  then have "pipe_free pn (?p, k) = (fs, s') \<or> s' = (?p, k)"
    by (auto simp: pipe_endpoint_put_def Pair Let_def split: if_splits)
  moreover have "quiet pn (p, k) (?p, k)" using quiet_frame [of ?p "(p, k)"] by simp
  moreover have "quiet pn (?p, k) s'" if "pipe_free pn (?p, k) = (fs, s')"
    using pipe_free_inv [of pn ?p k fs] that by (cases s') (auto simp: quiet_def)
  ultimately show ?thesis unfolding Pair by (auto intro: quiet_trans)
qed

lemma quiet_put_after: "quiet pn s s1 \<Longrightarrow> pipe_endpoint_put pn s1 = (fs, s') \<Longrightarrow> quiet pn s s'"
  by (blast intro: quiet_trans quiet_put)

lemma quiet_wake_after: "quiet pn s s1 \<Longrightarrow> w = 0 \<or> w = 1 \<Longrightarrow> quiet pn s (pipe_wake pn w s1)"
  by (blast intro: quiet_trans quiet_wake)

lemma quiet_unref:
  "pipe_unref_read pn s = (fs, s') \<Longrightarrow> quiet pn s s'"
  "pipe_unref_write pn s = (fs, s') \<Longrightarrow> quiet pn s s'"
proof -
  obtain p k where s: "s = (p, k)" by fastforce
  have r: "quiet pn (p, k) (p\<lparr>pp_read_refs := n\<rparr>, k)" "quiet pn (p, k) (p\<lparr>pp_write_refs := n\<rparr>, k)" for n
    using quiet_frame [of "p\<lparr>pp_read_refs := n\<rparr>" "(p, k)"] quiet_frame [of "p\<lparr>pp_write_refs := n\<rparr>" "(p, k)"]
    by simp_all
  show "quiet pn s s'" if "pipe_unref_read pn s = (fs, s')"
  proof (cases "pp_read_refs p = 0")
    case False
    let ?s = "(p\<lparr>pp_read_refs := pp_read_refs p - 1\<rparr>, k)"
    from False that have "pipe_endpoint_put pn (if pp_read_refs p = 1 then pipe_wake pn 0 ?s else ?s) = (fs, s')"
      by (simp add: pipe_unref_read_def s Let_def)
    moreover have "quiet pn s (if pp_read_refs p = 1 then pipe_wake pn 0 ?s else ?s)"
      using r quiet_wake_after [OF r(1), of 0] by (simp add: s)
    ultimately show ?thesis by (rule quiet_put_after [rotated])
  qed (use that in \<open>simp add: pipe_unref_read_def s quiet_refl\<close>)
  show "quiet pn s s'" if "pipe_unref_write pn s = (fs, s')"
  proof (cases "pp_write_refs p = 0")
    case False
    let ?s = "(p\<lparr>pp_write_refs := pp_write_refs p - 1\<rparr>, k)"
    from False that have "pipe_endpoint_put pn (if pp_write_refs p = 1 then pipe_wake pn 1 ?s else ?s) = (fs, s')"
      by (simp add: pipe_unref_write_def s Let_def)
    moreover have "quiet pn s (if pp_write_refs p = 1 then pipe_wake pn 1 ?s else ?s)"
      using r quiet_wake_after [OF r(2), of 1] by (simp add: s)
    ultimately show ?thesis by (rule quiet_put_after [rotated])
  qed (use that in \<open>simp add: pipe_unref_write_def s quiet_refl\<close>)
qed

lemma quiet_publish: "t < 64 \<Longrightarrow> quiet pn s (fst s, pipe_publish_signal t (snd s))"
  unfolding quiet_def
proof
  obtain p k where s: "s = (p, k)" by fastforce
  assume t: "t < 64" and "pipe_inv pn s"
  then have inv: "pipe_inv pn (p, k)" by (simp add: s)
  from this have wf: "kern_wf k" and reg: "registered pn p k" by (auto simp: pipe_inv_def)
  have "registered pn p (proc_wake t k)"
    by (rule registered_change [OF reg, where t = t]) (auto simp: proc_wake_at [OF wf t] t split: if_splits)
  with inv pw.wake_wf [OF wf t] show "pipe_inv pn (fst s, pipe_publish_signal t (snd s)) \<and>
      contents (fst (fst s, pipe_publish_signal t (snd s))) = contents (fst s)"
    by (simp add: s pipe_inv_def pipe_publish_signal_def)
qed

lemma quiet_anc:
  "pipe_anc_send files (fst s) = (r, p') \<Longrightarrow> quiet pn s (p', snd s)"
  "pipe_anc_recv mx (fst s) = (files, p') \<Longrightarrow> quiet pn s (p', snd s)"
  by (rule quiet_frame; auto simp: pipe_anc_send_def pipe_anc_recv_def Let_def split: if_splits)+

lemma quiet_peek:
  assumes "cur_ok cur (snd s)" "pipe_peek pn cur len skip s = (e, out, s')"
  shows "quiet pn s s'"
proof (cases "pipe_valid (fst s)")
  case True
  with assms peek_loop_inv [of pn cur len skip 0 "[]" "fst s" "snd s" e out "fst s'" "snd s'"] show ?thesis
    by (simp add: quiet_def pipe_peek_def)
qed (use assms in \<open>simp add: pipe_peek_def quiet_def\<close>)

lemma quiet_resume:
  assumes "t < 64" "pipe_resume pn t dn s = (r, s')"
  shows "quiet pn s s'"
  using assms pipe_cancel_spec [of pn "fst s" "snd s" t "fst s'" "snd s'"]
  by (auto simp: quiet_def pipe_resume_def split: prod.splits)

lemma write_step_inv:
  assumes "stream_inv pn st" "cur_ok cur (snd (sm_s st))" "pipe_write_loop pn cur src dn (sm_s st) = (e, s')"
  shows "stream_inv pn (st\<lparr>sm_s := s', sm_wr := sm_wr st @ take (accepted dn e) src\<rparr>)"
  using assms write_loop_round(1-3) [of pn "fst (sm_s st)" "snd (sm_s st)" cur src dn e "fst s'" "snd s'"]
  by (simp add: stream_inv_def)

interpretation sm: invariant_system "stream_init pn" "pipe_step pn" "stream_inv pn" for pn
proof
  fix st
  assume "stream_init pn st"
  then show "stream_inv pn st"
    by (auto simp: stream_init_def stream_inv_def pipe_inv_def pipe_alloc_def ring_wf_def registered_def contents_def)
next
  fix st st'
  assume inv: "stream_inv pn st" and "pipe_step pn st st'"
  from this(2) show "stream_inv pn st'"
  proof cases
    case (pi_read cur len e out s')
    show ?thesis
    proof (cases "pipe_valid (fst (sm_s st))")
      case True
      with pi_read inv pipe_read_round(1-3) [of pn "fst (sm_s st)" "snd (sm_s st)" cur len e out "fst s'" "snd s'"]
      show ?thesis by (simp add: stream_inv_def)
    qed (use pi_read inv in \<open>simp add: pipe_read_def stream_inv_def\<close>)
  next
    case (pi_write cur src e s')
    let ?p = "fst (sm_s st)" and ?k = "snd (sm_s st)"
    consider "\<not> pipe_valid ?p" | "pipe_valid ?p" "pp_read_refs ?p = 0" | "pipe_valid ?p" "pp_read_refs ?p \<noteq> 0" "src = []"
      | "pipe_write_loop pn cur src 0 (sm_s st) = (e, s')"
      using pi_write(3) by (auto simp: pipe_write_def split: if_splits)
    then show ?thesis
    proof cases
      case 4
      from write_step_inv [OF inv pi_write(2) this] show ?thesis by (simp add: pi_write)
    qed (use pi_write inv sigpipe_inv [of pn ?p ?k cur] in
      \<open>auto simp: pipe_write_def stream_inv_def accepted_def\<close>)
  next
    case (pi_write_on cur src dn e s')
    from write_step_inv [OF inv pi_write_on(2,3)] show ?thesis by (simp add: pi_write_on)
  next
    case (pi_peek cur len skip e out s')
    then show ?thesis using quiet_inv [OF inv] quiet_peek by simp
  next
    case (pi_resume t dn r s')
    then show ?thesis using quiet_inv [OF inv] quiet_resume by simp
  next
    case (pi_wake w)
    then show ?thesis using quiet_inv [OF inv quiet_wake] by simp
  next
    case (pi_publish t)
    then show ?thesis using quiet_inv [OF inv quiet_publish] by simp
  next
    case pi_ref_read
    then show ?thesis using quiet_inv [OF inv quiet_frame] by (simp add: pipe_ref_read_def)
  next
    case pi_ref_write
    then show ?thesis using quiet_inv [OF inv quiet_frame] by (simp add: pipe_ref_write_def)
  next
    case (pi_unref_read fs s')
    then show ?thesis using quiet_inv [OF inv quiet_unref(1)] by simp
  next
    case (pi_unref_write fs s')
    then show ?thesis using quiet_inv [OF inv quiet_unref(2)] by simp
  next
    case (pi_anc_send fs r p')
    then show ?thesis using quiet_inv [OF inv quiet_anc(1)] by simp
  next
    case (pi_anc_recv mx fs p')
    then show ?thesis using quiet_inv [OF inv quiet_anc(2)] by simp
  qed
qed


section \<open>Properties\<close>

text \<open>
  C30: a pipe is a first-in first-out stream. Whatever the processes do with it, in whatever order (reads,
  writes that continue after blocking, peeks, wake-ups, signals, references taken and dropped, descriptors
  passed), the bytes that the write calls reported as accepted are the bytes delivered to the readers
  followed by the bytes in the ring; the ring positions stay within the buffer, the process table stays
  consistent, and every process asleep on the pipe is registered in the waiter mask of its direction.
\<close>

theorem pipe_stream_fifo:
  assumes "reach (stream_init pn) (pipe_step pn) st"
  shows "sm_wr st = sm_rd st @ contents (fst (sm_s st)) \<and> pipe_inv pn (sm_s st)"
  using sm.reach_inv [OF assms] by (simp add: stream_inv_def)

lemma pipe_alloc_wf: "ring_wf pipe_alloc" "contents pipe_alloc = []" "pipe_valid pipe_alloc"
  by (simp_all add: pipe_alloc_def ring_wf_def contents_def pipe_valid_def)

lemma boot_not_blocked: "j < 64 \<Longrightarrow> p_blocked_pipe (proc_at boot_kern j) = None"
  by (simp add: boot_kern_def proc_init_def zero_proc_def)

lemma pipe_alloc_inv: "pipe_inv pn (pipe_alloc, boot_kern)"
  by (auto simp: pipe_inv_def pipe_alloc_wf boot_kern_wf registered_def boot_not_blocked)

definition opened :: pipe where
  "opened = pipe_ref_read pipe_alloc"

lemma opened_inv: "pipe_inv pn (opened, boot_kern)" "contents opened = []" "pipe_valid opened" "pp_read_refs opened \<noteq> 0"
  using pipe_alloc_inv [of pn] pipe_alloc_wf
  by (auto simp: opened_def pipe_ref_read_def pipe_inv_def ring_wf_def registered_def contents_def pipe_valid_def
    pipe_alloc_def)

lemma write_opened:
  "src \<noteq> [] \<Longrightarrow> pipe_write pn cur src (opened, k) = pipe_write_loop pn cur src 0 (opened, k)"
  by (simp add: pipe_write_def opened_inv)

theorem pipe_stream_fifo_witness:
  "\<exists>st. reach (stream_init 0) (pipe_step 0) st \<and> sm_wr st = [1, 2, 3] \<and> sm_rd st = [] \<and>
     contents (fst (sm_s st)) = [1, 2, 3]"
proof -
  let ?s0 = "\<lparr>sm_s = (pipe_alloc, boot_kern), sm_wr = [], sm_rd = []\<rparr>"
  have "stream_init 0 ?s0" by (simp add: stream_init_def boot_kern_wf boot_not_blocked)
  then have "reach (stream_init 0) (pipe_step 0) ?s0" by (rule reach_init)
  from reach_step [OF this pi_ref_read] have "reach (stream_init 0) (pipe_step 0) (?s0\<lparr>sm_s := (opened, boot_kern)\<rparr>)"
    by (simp add: opened_def)
  moreover obtain e s' where w: "pipe_write 0 None [1, 2, 3] (opened, boot_kern) = (e, s')" by (metis surj_pair)
  ultimately have r: "reach (stream_init 0) (pipe_step 0)
      (?s0\<lparr>sm_s := s', sm_wr := take (accepted 0 e) [1, 2, 3]\<rparr>)"
    using pi_write [of None "?s0\<lparr>sm_s := (opened, boot_kern)\<rparr>" 0 "[1, 2, 3]" e s']
    by (auto simp: cur_ok_def intro: reach_step)
  have "accepted 0 e = 3"
    using write_loop_round(3) [OF opened_inv(1), of None 0 "[1, 2, 3]" 0 e "fst s'" "snd s'"] w
    by (simp add: write_opened cur_ok_def opened_inv PIPE_BUFSZ_def)
  with pipe_stream_fifo [OF r] have "contents (fst s') = [1, 2, 3]" by simp
  with r \<open>accepted 0 e = 3\<close> show ?thesis
    by (intro exI [of _ "?s0\<lparr>sm_s := s', sm_wr := take (accepted 0 e) [1, 2, 3]\<rparr>"]) simp
qed

text \<open>
  C31: one round of \<open>pipe_write\<close> with a reader present. It appends the longest prefix of the data that fits to
  the queue, returns the full length when everything fitted and otherwise blocks having counted exactly what
  was stored; and when it ends no process is left asleep as a reader of the pipe, whether the call returned or
  went to sleep itself.
\<close>

theorem pipe_write_wakes_readers:
  assumes "pipe_inv pn (p, k)" "pipe_valid p" "pp_read_refs p \<noteq> 0" "src \<noteq> []" "cur_ok cur k"
    and "pipe_write pn cur src (p, k) = (e, p', k')"
  defines "n \<equiv> min (length src) (PIPE_BUFSZ - length (contents p))"
  shows "contents p' = contents p @ take n src \<and> e = (if n = length src then Ret (int n) else Blocked n) \<and>
    (\<forall>j < 64. \<not> waiting_on pn 1 k' j)"
proof -
  have "pipe_write_loop pn cur src 0 (p, k) = (e, p', k')" using assms(2-4,6) by (simp add: pipe_write_def)
  from write_loop_round [OF assms(1,5) this] assms(3) show ?thesis by (simp add: n_def)
qed

theorem pipe_write_wakes_readers_witness:
  "\<exists>p' k'. pipe_write 0 None (replicate 70000 7) (opened, boot_kern) = (Blocked 65536, p', k') \<and>
     contents p' = replicate 65536 7"
proof -
  obtain e p' k' where w: "pipe_write 0 None (replicate 70000 7) (opened, boot_kern) = (e, p', k')"
    by (metis surj_pair)
  have ne: "replicate 70000 (7 :: u8) \<noteq> []" by (metis length_replicate list.size(3) zero_neq_numeral)
  from pipe_write_wakes_readers [OF opened_inv(1,3,4) ne _ w] w show ?thesis
    by (simp add: cur_ok_def opened_inv PIPE_BUFSZ_def)
qed

text \<open>
  a read that asks for more than is there, on a pipe that is not empty, empties the ring and returns
  without waking the writers: a process asleep because the ring was full stays asleep, although the whole
  buffer is free. Only a read that gets every byte it asked for reaches the wake-up.
\<close>

theorem pipe_short_read_leaves_writers:
  assumes "pipe_inv pn (p, k)" "pipe_valid p" "cur_ok cur k" "contents p \<noteq> []" "length (contents p) < len"
    and "j < 64" "waiting_on pn 0 k j"
  shows "\<exists>p'. pipe_read pn cur len (p, k) = (Ret (int (length (contents p))), contents p, p', k) \<and>
    contents p' = [] \<and> waiting_on pn 0 k j"
proof -
  obtain e out p' k' where r: "pipe_read pn cur len (p, k) = (e, out, p', k')" by (metis surj_pair)
  from pipe_read_round [OF assms(1-3) r] assms r show ?thesis by auto
qed

definition sleeping_kern :: kern where
  "sleeping_kern = boot_kern\<lparr>g_proctable := (g_proctable boot_kern)[0 := zero_proc\<lparr>p_state := PROC_WAITING,
     p_pid := 1, p_blocked_pipe := Some 0, p_blocked_pipe_read := 0\<rparr>], g_used_mask := mask_bit 0\<rparr>"

definition late_pipe :: pipe where
  "late_pipe = (ring_put [7] opened)\<lparr>pp_writer_waiters := mask_bit 0\<rparr>"

lemma sleeping_table:
  "length (g_proctable sleeping_kern) = 64" "0 < j \<Longrightarrow> j < 64 \<Longrightarrow> proc_at sleeping_kern j = zero_proc"
  "proc_at sleeping_kern 0 = zero_proc\<lparr>p_state := PROC_WAITING, p_pid := 1, p_blocked_pipe := Some 0,
     p_blocked_pipe_read := 0\<rparr>" "g_used_mask sleeping_kern = mask_bit 0" "g_ready_mask sleeping_kern = 0"
  by (simp_all add: sleeping_kern_def boot_kern_def proc_init_def)

lemma late_pipe_inv: "pipe_inv 0 (late_pipe, sleeping_kern)" "pipe_valid late_pipe" "contents late_pipe = [7]"
proof -
  have "ring_wf opened" using opened_inv(1) [of 0] by (simp add: pipe_inv_def)
  note put = ring_put_spec [OF this, of "[7]"]
  have cnt: "pp_count opened = 0" by (simp add: opened_def pipe_ref_read_def pipe_alloc_def)
  show "contents late_pipe = [7]"
    using put(1) opened_inv(2) cnt by (simp add: late_pipe_def contents_def PIPE_BUFSZ_def)
  have ring: "ring_wf late_pipe"
    using put(2) cnt by (simp add: late_pipe_def ring_wf_def PIPE_BUFSZ_def)
  have kern: "kern_wf sleeping_kern"
  proof (rule kern_wfI)
    fix i :: nat
    assume "i < 64"
    then show "slot_wf sleeping_kern i"
      by (cases "i = 0") (auto simp: slot_wf_def sleeping_table zero_proc_def)
  qed (simp add: sleeping_table)
  have "registered 0 late_pipe sleeping_kern"
    unfolding registered_def
  proof (intro allI impI)
    fix j :: nat
    assume "j < 64" "p_state (proc_at sleeping_kern j) = PROC_WAITING \<and> p_blocked_pipe (proc_at sleeping_kern j) = Some 0"
    then show "waiting_on 0 1 sleeping_kern j \<and> bit (pp_reader_waiters late_pipe) j \<or>
        waiting_on 0 0 sleeping_kern j \<and> bit (pp_writer_waiters late_pipe) j"
      by (cases "j = 0") (auto simp: sleeping_table zero_proc_def waiting_on_def late_pipe_def)
  qed
  with ring kern show "pipe_inv 0 (late_pipe, sleeping_kern)" by (simp add: pipe_inv_def)
  show "pipe_valid late_pipe"
    using opened_inv(3) by (simp add: late_pipe_def pipe_valid_def)
qed

theorem pipe_short_read_leaves_writers_witness:
  "\<exists>p'. pipe_read 0 None 100 (late_pipe, sleeping_kern) = (Ret 1, [7], p', sleeping_kern) \<and> contents p' = [] \<and>
     waiting_on 0 0 sleeping_kern 0"
proof -
  have "waiting_on 0 0 sleeping_kern 0" by (simp add: waiting_on_def sleeping_table zero_proc_def)
  with pipe_short_read_leaves_writers [OF late_pipe_inv(1,2), of None 100 0] show ?thesis
    by (simp add: late_pipe_inv(3) cur_ok_def)
qed

end
