(* ===== verification/Idmap.thy ===== *)
theory Idmap
  imports Prelude
begin

text \<open>
  The user and group id maps of user namespaces, from \<open>src/kernel/proc/ns.c\<close> and \<open>src/kernel/proc/ns.h\<close>:
  translation in both directions, and the text format in which a map is written and read.
\<close>

section \<open>Data\<close>

definition NS_UID_GID_MAP_MAX :: nat where "NS_UID_GID_MAP_MAX = 5"

record idmap =
  m_inside :: u32
  m_outside :: u32
  m_count :: u32

text \<open>
  A user namespace without its reference count and parent. The first \<open>nuid_map\<close> entries of the array
  \<open>uid_map\<close> are the list \<open>u_uid_map\<close>, likewise for the groups.
\<close>

record user_ns =
  u_owner :: u32
  u_map_written :: bool
  u_gid_map_written :: bool
  u_groups_disabled :: bool
  u_uid_map :: "idmap list"
  u_gid_map :: "idmap list"

section \<open>Translation\<close>

text \<open>
  The loops of \<open>ns_uid_to_local\<close> and \<open>ns_local_to_kuid\<close>, which the group versions repeat: the first entry
  whose range holds the id.
\<close>

fun map_to_local :: "idmap list \<Rightarrow> u32 \<Rightarrow> u32 option" where
  "map_to_local [] kid = None"
| "map_to_local (m # ms) kid =
     (let off = (ucast kid - ucast (m_outside m) :: u64) in
      if m_outside m \<le> kid \<and> off < ucast (m_count m) then Some (m_inside m + ucast off)
      else map_to_local ms kid)"

fun map_to_kid :: "idmap list \<Rightarrow> u32 \<Rightarrow> u32 option" where
  "map_to_kid [] lid = None"
| "map_to_kid (m # ms) lid =
     (let off = (ucast lid - ucast (m_inside m) :: u64) in
      if m_inside m \<le> lid \<and> off < ucast (m_count m) then Some (m_outside m + ucast off)
      else map_to_kid ms lid)"

text \<open>
  The namespace argument is \<^term>\<open>None\<close> for a null pointer and for the initial namespace, which are treated
  alike: ids are not translated. Result: the return code and the value stored in \<open>*out\<close>.
\<close>

definition ns_uid_to_local :: "user_ns option \<Rightarrow> u32 \<Rightarrow> int \<times> u32" where
  "ns_uid_to_local ns kuid =
     (case ns of None \<Rightarrow> (0, kuid)
      | Some u \<Rightarrow> (case map_to_local (u_uid_map u) kuid of None \<Rightarrow> (- 1, 65534) | Some l \<Rightarrow> (0, l)))"

definition ns_gid_to_local :: "user_ns option \<Rightarrow> u32 \<Rightarrow> int \<times> u32" where
  "ns_gid_to_local ns kgid =
     (case ns of None \<Rightarrow> (0, kgid)
      | Some u \<Rightarrow> (case map_to_local (u_gid_map u) kgid of None \<Rightarrow> (- 1, 65534) | Some l \<Rightarrow> (0, l)))"

text \<open>On failure \<open>*out\<close> keeps its value (\<^term>\<open>None\<close>).\<close>

definition ns_local_to_kuid :: "user_ns option \<Rightarrow> u32 \<Rightarrow> int \<times> u32 option" where
  "ns_local_to_kuid ns uid =
     (case ns of None \<Rightarrow> (0, Some uid)
      | Some u \<Rightarrow> (case map_to_kid (u_uid_map u) uid of None \<Rightarrow> (- 1, None) | Some k \<Rightarrow> (0, Some k)))"

definition ns_local_to_kgid :: "user_ns option \<Rightarrow> u32 \<Rightarrow> int \<times> u32 option" where
  "ns_local_to_kgid ns gid =
     (case ns of None \<Rightarrow> (0, Some gid)
      | Some u \<Rightarrow> (case map_to_kid (u_gid_map u) gid of None \<Rightarrow> (- 1, None) | Some k \<Rightarrow> (0, Some k)))"

section \<open>The text format\<close>

definition is_digit :: "char \<Rightarrow> bool" where
  "is_digit c \<longleftrightarrow> (48 :: nat) \<le> of_char c \<and> (of_char c :: nat) \<le> 57"

definition digit_val :: "char \<Rightarrow> nat" where
  "digit_val c = of_char c - 48"

definition is_blank :: "char \<Rightarrow> bool" where
  "is_blank c \<longleftrightarrow> c = CHR 0x20 \<or> c = CHR 0x09"

definition is_newline :: "char \<Rightarrow> bool" where
  "is_newline c \<longleftrightarrow> c = CHR 0x0A \<or> c = CHR 0x0D"

fun parse_digits :: "string \<Rightarrow> nat \<Rightarrow> (nat \<times> string) option" where
  "parse_digits [] v = Some (v, [])"
| "parse_digits (c # s) v =
     (if is_digit c then
        let v' = v * 10 + digit_val c in
        if 0xffffffff < v' then None else parse_digits s v'
      else Some (v, c # s))"

text \<open>\<open>parse_u32_span\<close>: the value and the rest of the text.\<close>

definition parse_u32_span :: "string \<Rightarrow> (u32 \<times> string) option" where
  "parse_u32_span inp =
     (case dropWhile is_blank inp of
        [] \<Rightarrow> None
      | c # s \<Rightarrow>
          if \<not> is_digit c then None
          else (case parse_digits (c # s) 0 of
                  None \<Rightarrow> None
                | Some (v, r) \<Rightarrow> Some (of_nat v, dropWhile is_blank r)))"

definition ranges_overlap :: "u32 \<Rightarrow> u32 \<Rightarrow> u32 \<Rightarrow> u32 \<Rightarrow> bool" where
  "ranges_overlap a n b m \<longleftrightarrow>
     (ucast a :: u64) < ucast b + ucast m \<and> (ucast b :: u64) < ucast a + ucast n"

definition map_entry_ok :: "idmap list \<Rightarrow> idmap \<Rightarrow> bool" where
  "map_entry_ok maps e \<longleftrightarrow> m_count e \<noteq> 0 \<and>
     (ucast (m_inside e) + ucast (m_count e) :: u64) \<le> 0x100000000 \<and>
     (ucast (m_outside e) + ucast (m_count e) :: u64) \<le> 0x100000000 \<and>
     (\<forall>m \<in> set maps. \<not> ranges_overlap (m_inside e) (m_count e) (m_inside m) (m_count m) \<and>
        \<not> ranges_overlap (m_outside e) (m_count e) (m_outside m) (m_count m))"

text \<open>One line: three numbers.\<close>

definition parse_entry :: "string \<Rightarrow> (idmap \<times> string) option" where
  "parse_entry s =
     (case parse_u32_span s of None \<Rightarrow> None | Some (i, s) \<Rightarrow>
      (case parse_u32_span s of None \<Rightarrow> None | Some (out, s) \<Rightarrow>
       (case parse_u32_span s of None \<Rightarrow> None | Some (n, s) \<Rightarrow>
          Some (\<lparr>m_inside = i, m_outside = out, m_count = n\<rparr>, s))))"

lemma parse_digits_length: "parse_digits s v = Some (w, r) \<Longrightarrow> length r \<le> length s"
  by (induction s v rule: parse_digits.induct) (auto simp: Let_def split: if_splits)

lemma parse_span_length:
  assumes "parse_u32_span s = Some (v, r)"
  shows "length r < length s"
proof -
  from assms obtain c t w q where c: "dropWhile is_blank s = c # t" "is_digit c"
    "parse_digits (c # t) 0 = Some (w, q)" "r = dropWhile is_blank q"
    by (auto simp: parse_u32_span_def split: list.splits option.splits if_splits)
  have "length q \<le> length t"
    using c(2,3) parse_digits_length [of t] by (auto simp: Let_def split: if_splits)
  moreover have "length (c # t) \<le> length s" by (metis c(1) length_dropWhile_le)
  moreover have "length r \<le> length q" using c(4) by (simp add: length_dropWhile_le)
  ultimately show ?thesis by simp
qed

lemma parse_entry_length: "parse_entry s = Some (e, r) \<Longrightarrow> length r < length s"
  by (auto simp: parse_entry_def split: option.splits dest!: parse_span_length)

text \<open>The loop of \<open>user_map_write\<close>: \<^term>\<open>None\<close> stands for \<open>EINVAL\<close>.\<close>

function parse_map :: "string \<Rightarrow> idmap list \<Rightarrow> idmap list option" where
  "parse_map s maps =
     (let t = dropWhile (\<lambda>c. is_newline c \<or> is_blank c) s in
      if t = [] then Some maps
      else if NS_UID_GID_MAP_MAX \<le> length maps then None
      else
        (case parse_entry t of
           None \<Rightarrow> None
         | Some (e, r) \<Rightarrow>
             if \<not> map_entry_ok maps e then None
             else
               let r = dropWhile is_blank r in
               if r \<noteq> [] \<and> \<not> is_newline (hd r) then None else parse_map r (maps @ [e])))"
  by pat_completeness auto
termination
proof (relation "measure (\<lambda>(s, maps). length s)", goal_cases)
  case (2 s maps t er e r r')
  then have "length r < length t" using parse_entry_length [of t e r] by auto
  moreover have "length t \<le> length s" using 2 by (simp add: length_dropWhile_le)
  moreover have "length r' \<le> length r" using 2 by (simp add: length_dropWhile_le)
  ultimately show ?case by simp
qed simp

declare parse_map.simps [simp del]

text \<open>
  \<open>user_map_write\<close>: \<open>ok\<close> says whether the user buffer can be read. Writing is possible once; the group map
  only after \<open>setgroups\<close> has been denied.
\<close>

definition user_map_write :: "user_ns \<Rightarrow> bool \<Rightarrow> bool \<Rightarrow> string \<Rightarrow> int \<times> user_ns" where
  "user_map_write ns gid ok buf =
     (if buf = [] \<or> 512 \<le> length buf then (- EINVAL, ns)
      else if \<not> ok then (- EFAULT, ns)
      else if gid \<and> u_gid_map_written ns \<or> \<not> gid \<and> u_map_written ns then (- EPERM, ns)
      else if gid \<and> \<not> u_groups_disabled ns then (- EPERM, ns)
      else
        (case parse_map buf [] of
           None \<Rightarrow> (- EINVAL, ns)
         | Some maps \<Rightarrow>
             if maps = [] then (- EINVAL, ns)
             else if gid then (0, ns\<lparr>u_gid_map := maps, u_gid_map_written := True\<rparr>)
             else (0, ns\<lparr>u_uid_map := maps, u_map_written := True\<rparr>)))"

text \<open>\<open>%u\<close> of \<open>snprintf\<close>, and the line that \<open>ns_user_map_read\<close> prints for an entry.\<close>

fun dec :: "nat \<Rightarrow> string" where
  "dec n = (if n < 10 then [char_of (48 + n)] else dec (n div 10) @ [char_of (48 + n mod 10)])"

declare dec.simps [simp del]

definition map_line :: "idmap \<Rightarrow> string" where
  "map_line m = dec (unat (m_inside m)) @ '' '' @ dec (unat (m_outside m)) @ '' '' @ dec (unat (m_count m)) @ [CHR 0x0A]"

text \<open>The loop stops before a line that does not fit with its terminating zero.\<close>

fun print_map :: "idmap list \<Rightarrow> nat \<Rightarrow> string \<Rightarrow> string" where
  "print_map [] len used = used"
| "print_map (m # ms) len used =
     (if len - length used \<le> length (map_line m) then used else print_map ms len (used @ map_line m))"

definition ns_user_map_read :: "user_ns option \<Rightarrow> bool \<Rightarrow> nat \<Rightarrow> string" where
  "ns_user_map_read ns gid len =
     (case ns of
        None \<Rightarrow> take len (''0 0 4294967295'' @ [CHR 0x0A])
      | Some u \<Rightarrow> print_map (if gid then u_gid_map u else u_uid_map u) len [])"

text \<open>
  \<open>ns_user_map_write\<close>, \<open>ns_user_setgroups_read\<close> and \<open>ns_user_setgroups_write\<close> on the namespace of the
  target (\<^term>\<open>None\<close> is the initial one); \<open>self\<close> says that the target is the caller and \<open>priv\<close> that the
  caller has the privileges of the host.
\<close>

definition ns_user_map_write :: "user_ns option \<Rightarrow> bool \<Rightarrow> bool \<Rightarrow> bool \<Rightarrow> bool \<Rightarrow> string \<Rightarrow> int \<times> user_ns option" where
  "ns_user_map_write ns self priv gid ok buf =
     (case ns of
        None \<Rightarrow> (- EPERM, None)
      | Some u \<Rightarrow>
          if \<not> self \<and> \<not> priv then (- EPERM, ns)
          else let (r, u) = user_map_write u gid ok buf in (r, Some u))"

definition ns_user_setgroups_read :: "user_ns option \<Rightarrow> nat \<Rightarrow> string" where
  "ns_user_setgroups_read ns len =
     take len ((case ns of None \<Rightarrow> ''allow'' | Some u \<Rightarrow> if u_groups_disabled u then ''deny'' else ''allow'')
       @ [CHR 0x0A])"

definition ns_user_setgroups_write :: "user_ns option \<Rightarrow> bool \<Rightarrow> bool \<Rightarrow> bool \<Rightarrow> string \<Rightarrow> int \<times> user_ns option" where
  "ns_user_setgroups_write ns self priv ok buf =
     (case ns of
        None \<Rightarrow> (- EPERM, None)
      | Some u \<Rightarrow>
          if \<not> self \<and> \<not> priv then (- EPERM, ns)
          else if u_gid_map_written u then (- EPERM, ns)
          else if buf = [] \<or> 16 \<le> length buf then (- EINVAL, ns)
          else if \<not> ok then (- EFAULT, ns)
          else if take 4 buf = ''deny'' then (0, Some (u\<lparr>u_groups_disabled := True\<rparr>))
          else if take 5 buf = ''allow'' then (0, Some (u\<lparr>u_groups_disabled := False\<rparr>))
          else (- EINVAL, ns))"

section \<open>Well-formed maps\<close>

definition entry_in_range :: "idmap \<Rightarrow> bool" where
  "entry_in_range m \<longleftrightarrow> m_count m \<noteq> 0 \<and> unat (m_inside m) + unat (m_count m) \<le> 2 ^ 32 \<and>
     unat (m_outside m) + unat (m_count m) \<le> 2 ^ 32"

definition disjoint_from :: "nat \<Rightarrow> nat \<Rightarrow> nat \<Rightarrow> nat \<Rightarrow> bool" where
  "disjoint_from a n b m \<longleftrightarrow> a + n \<le> b \<or> b + m \<le> a"

definition entries_disjoint :: "idmap \<Rightarrow> idmap \<Rightarrow> bool" where
  "entries_disjoint e m \<longleftrightarrow>
     disjoint_from (unat (m_inside e)) (unat (m_count e)) (unat (m_inside m)) (unat (m_count m)) \<and>
     disjoint_from (unat (m_outside e)) (unat (m_count e)) (unat (m_outside m)) (unat (m_count m))"

fun maps_wf :: "idmap list \<Rightarrow> bool" where
  "maps_wf [] \<longleftrightarrow> True"
| "maps_wf (m # ms) \<longleftrightarrow> entry_in_range m \<and> (\<forall>e \<in> set ms. entries_disjoint e m) \<and> maps_wf ms"

lemma unat_u64_of_u32 [simp]: "unat (ucast (x :: u32) :: u64) = unat x"
  by (rule unat_ucast_up) simp

lemma u32_small: "unat (x :: u32) < 2 ^ 32"
  using unat_bound [of x] by simp

lemma unat_u64_sum [simp]: "unat (ucast (a :: u32) + ucast (b :: u32) :: u64) = unat a + unat b"
  using u32_small [of a] u32_small [of b] by (simp add: unat_word_ariths)

lemma overlap_iff: "ranges_overlap a n b m \<longleftrightarrow> \<not> disjoint_from (unat a) (unat n) (unat b) (unat m)"
  by (auto simp: ranges_overlap_def disjoint_from_def word_less_nat_alt)

lemma entry_ok_iff:
  "map_entry_ok maps e \<longleftrightarrow> entry_in_range e \<and> (\<forall>m \<in> set maps. entries_disjoint e m)"
  by (auto simp: map_entry_ok_def entry_in_range_def entries_disjoint_def overlap_iff word_le_nat_alt)

lemma disjoint_sym: "entries_disjoint e m = entries_disjoint m e"
  by (auto simp: entries_disjoint_def disjoint_from_def)

lemma maps_wf_append:
  "maps_wf (ms @ [e]) \<longleftrightarrow> maps_wf ms \<and> map_entry_ok ms e"
  by (induction ms) (auto simp: entry_ok_iff disjoint_sym)

section \<open>Translation in both directions\<close>

text \<open>An entry relates a local id and a kernel id at the same offset of its two ranges.\<close>

definition in_map :: "idmap \<Rightarrow> u32 \<Rightarrow> u32 \<Rightarrow> bool" where
  "in_map m l k \<longleftrightarrow> (\<exists>d < unat (m_count m). unat l = unat (m_inside m) + d \<and> unat k = unat (m_outside m) + d)"

lemma shift_hit:
  fixes a b n x :: u32
  assumes "unat a + unat n \<le> 2 ^ 32" "unat b + unat n \<le> 2 ^ 32"
  shows "a \<le> x \<and> (ucast x - ucast a :: u64) < ucast n \<longleftrightarrow> (\<exists>d < unat n. unat x = unat a + d)"
    "d < unat n \<Longrightarrow> unat x = unat a + d \<Longrightarrow> unat (b + ucast (ucast x - ucast a :: u64)) = unat b + d"
proof -
  have sub: "unat (ucast x - ucast a :: u64) = unat x - unat a" if "a \<le> x"
    using that by (simp add: unat_sub word_le_nat_alt)
  show "a \<le> x \<and> (ucast x - ucast a :: u64) < ucast n \<longleftrightarrow> (\<exists>d < unat n. unat x = unat a + d)"
    using sub by (auto simp: word_less_nat_alt word_le_nat_alt intro!: exI [of _ "unat x - unat a"])
  show "unat (b + ucast (ucast x - ucast a :: u64)) = unat b + d" if d: "d < unat n" "unat x = unat a + d"
  proof -
    have "unat (ucast x - ucast a :: u64) = d" using sub d(2) by (simp add: word_le_nat_alt)
    then have "unat (ucast (ucast x - ucast a :: u64) :: u32) = d"
      using d(1) u32_small [of n] by (simp add: unsigned_ucast_eq take_bit_nat_eq_self)
    with assms(2) d(1) show ?thesis by (simp add: unat_word_ariths)
  qed
qed

lemma to_kid_iff: "maps_wf ms \<Longrightarrow> map_to_kid ms l = Some k \<longleftrightarrow> (\<exists>m \<in> set ms. in_map m l k)"
proof (induction ms)
  case (Cons m ms)
  have r: "unat (m_inside m) + unat (m_count m) \<le> 2 ^ 32" "unat (m_outside m) + unat (m_count m) \<le> 2 ^ 32"
    using Cons.prems by (auto simp: entry_in_range_def)
  show ?case
  proof (cases "\<exists>d < unat (m_count m). unat l = unat (m_inside m) + d")
    case True
    then obtain d where d: "d < unat (m_count m)" "unat l = unat (m_inside m) + d" by blast
    have "map_to_kid (m # ms) l = Some (m_outside m + ucast (ucast l - ucast (m_inside m) :: u64))"
      using shift_hit(1) [OF r] True by (simp add: Let_def)
    moreover have "unat (m_outside m + ucast (ucast l - ucast (m_inside m) :: u64)) = unat (m_outside m) + d"
      by (rule shift_hit(2) [OF r d])
    moreover have "\<not> in_map e l k" if "e \<in> set ms" for e
      using Cons.prems that d by (auto simp: in_map_def entries_disjoint_def disjoint_from_def)
    moreover have "in_map m l k \<longleftrightarrow> unat k = unat (m_outside m) + d"
      using d by (auto simp: in_map_def)
    ultimately show ?thesis by (auto simp: word_unat_eq_iff)
  next
    case False
    then have "\<not> (m_inside m \<le> l \<and> (ucast l - ucast (m_inside m) :: u64) < ucast (m_count m))"
      using shift_hit(1) [OF r] by simp
    then have "map_to_kid (m # ms) l = map_to_kid ms l" by (auto simp: Let_def)
    moreover have "\<not> in_map m l k" using False by (auto simp: in_map_def)
    ultimately show ?thesis using Cons by simp
  qed
qed simp

text \<open>The map read backwards.\<close>

definition flip_entry :: "idmap \<Rightarrow> idmap" where
  "flip_entry m = \<lparr>m_inside = m_outside m, m_outside = m_inside m, m_count = m_count m\<rparr>"

lemma to_local_flip: "map_to_local ms k = map_to_kid (map flip_entry ms) k"
  by (induction ms) (simp_all add: flip_entry_def Let_def)

lemma flip_wf: "maps_wf ms \<Longrightarrow> maps_wf (map flip_entry ms)"
  by (induction ms) (auto simp: entry_in_range_def flip_entry_def entries_disjoint_def)

lemma in_map_flip: "in_map (flip_entry m) k l = in_map m l k"
  by (auto simp: in_map_def flip_entry_def)

lemma translation_inverse:
  assumes "maps_wf ms"
  shows "map_to_kid ms l = Some k \<longleftrightarrow> map_to_local ms k = Some l"
  by (simp add: to_kid_iff [OF assms] to_local_flip to_kid_iff [OF flip_wf [OF assms]] in_map_flip)

section \<open>Parsing\<close>

lemma parse_map_wf:
  "parse_map s maps = Some ms \<Longrightarrow> maps_wf maps \<Longrightarrow> length maps \<le> 5 \<Longrightarrow> maps_wf ms \<and> length ms \<le> 5"
proof (induction s maps rule: parse_map.induct)
  case (1 s maps)
  let ?t = "dropWhile (\<lambda>c. is_newline c \<or> is_blank c) s"
  show ?case
  proof (cases "?t = []")
    case True
    with 1 show ?thesis by (simp add: parse_map.simps [of s])
  next
    case t: False
    note step = "1.prems"(1) [unfolded parse_map.simps [of s maps] Let_def]
    from step t obtain e r where e: "parse_entry ?t = Some (e, r)" "map_entry_ok maps e" "length maps < 5"
      "dropWhile is_blank r = [] \<or> is_newline (hd (dropWhile is_blank r))"
      "parse_map (dropWhile is_blank r) (maps @ [e]) = Some ms"
      by (auto simp: NS_UID_GID_MAP_MAX_def split: if_splits option.splits prod.splits simp del: dropWhile_eq_Nil_conv)
    have "maps_wf (maps @ [e])" using "1.prems"(2) e(2) by (simp add: maps_wf_append)
    with e t "1.IH" [of ?t "(e, r)" e r "dropWhile is_blank r"] show ?thesis
      by (auto simp: NS_UID_GID_MAP_MAX_def simp del: dropWhile_eq_Nil_conv)
  qed
qed

definition user_ns_wf :: "user_ns \<Rightarrow> bool" where
  "user_ns_wf u \<longleftrightarrow> maps_wf (u_uid_map u) \<and> maps_wf (u_gid_map u)"

lemma user_map_write_wf: "user_ns_wf u \<Longrightarrow> user_ns_wf (snd (user_map_write u gid ok buf))"
  using parse_map_wf [of buf "[]"]
  by (auto simp: user_map_write_def user_ns_wf_def split: option.splits)

section \<open>Printing and parsing\<close>

definition digits_value :: "string \<Rightarrow> nat \<Rightarrow> nat" where
  "digits_value s v = fold (\<lambda>c v. v * 10 + digit_val c) s v"

lemma digits_value_mono: "v \<le> digits_value s v"
proof (induction s arbitrary: v)
  case (Cons c s)
  have "v \<le> v * 10 + digit_val c" by simp
  also have "\<dots> \<le> digits_value s (v * 10 + digit_val c)" by (rule Cons.IH)
  finally show ?case by (simp add: digits_value_def)
qed (simp add: digits_value_def)

lemma parse_digits_append:
  "list_all is_digit s \<Longrightarrow> digits_value s v \<le> 0xffffffff \<Longrightarrow>
   parse_digits (s @ r) v = parse_digits r (digits_value s v)"
proof (induction s arbitrary: v)
  case (Cons c s)
  then have "v * 10 + digit_val c \<le> 0xffffffff"
    using digits_value_mono [of "v * 10 + digit_val c" s] by (simp add: digits_value_def)
  with Cons show ?case by (simp add: digits_value_def Let_def)
qed (simp add: digits_value_def)

lemma digit_char: "d < 10 \<Longrightarrow> is_digit (char_of (48 + d)) \<and> digit_val (char_of (48 + d)) = d"
  by (simp add: is_digit_def digit_val_def)

lemma dec_digits: "list_all is_digit (dec n) \<and> dec n \<noteq> [] \<and> digits_value (dec n) 0 = n"
proof (induction n rule: less_induct)
  case (less n)
  show ?case
  proof (cases "n < 10")
    case True
    then show ?thesis using digit_char [of n] by (simp add: dec.simps [of n] digits_value_def)
  next
    case False
    with less [of "n div 10"] digit_char [of "n mod 10"] show ?thesis
      by (simp add: dec.simps [of n] digits_value_def)
  qed
qed

lemma digit_not_blank: "is_digit c \<Longrightarrow> \<not> is_blank c \<and> \<not> is_newline c"
  by (auto simp: is_digit_def is_blank_def is_newline_def)

lemma parse_span_dec:
  assumes "\<not> is_digit c"
  shows "parse_u32_span (dec (unat n) @ c # r) = Some (n, dropWhile is_blank (c # r))"
proof -
  note d = dec_digits [of "unat n"]
  then obtain x xs where x: "dec (unat n) = x # xs" "is_digit x" by (cases "dec (unat n)") auto
  have "unat n \<le> 0xffffffff" using u32_small [of n] by simp
  then have "parse_digits (dec (unat n) @ c # r) 0 = Some (unat n, c # r)"
    using d assms by (simp add: parse_digits_append)
  with x digit_not_blank [OF x(2)] show ?thesis by (simp add: parse_u32_span_def)
qed

lemma blank_skip: "dropWhile is_blank (dec n @ r) = dec n @ r"
proof -
  obtain x xs where x: "dec n = x # xs" "is_digit x" using dec_digits [of n] by (cases "dec n") auto
  with digit_not_blank [OF x(2)] show ?thesis by simp
qed

lemma parse_entry_line: "parse_entry (map_line m @ r) = Some (m, CHR 0x0A # r)"
proof -
  have sp: "\<not> is_digit (CHR 0x20)" "\<not> is_digit (CHR 0x0A)" "\<not> is_blank (CHR 0x0A)" "is_blank (CHR 0x20)"
    by (simp_all add: is_digit_def is_blank_def)
  show ?thesis
    by (simp add: parse_entry_def map_line_def parse_span_dec sp blank_skip)
qed

lemma parse_map_lines:
  assumes "maps_wf (acc @ ms)" "length (acc @ ms) \<le> 5" "pre = [] \<or> pre = [CHR 0x0A]"
  shows "parse_map (pre @ concat (map map_line ms)) acc = Some (acc @ ms)"
  using assms
proof (induction ms arbitrary: acc pre)
  case Nil
  then show ?case by (auto simp: parse_map.simps is_newline_def)
next
  case (Cons m ms)
  let ?r = "concat (map map_line ms)"
  obtain x xs where x: "dec (unat (m_inside m)) = x # xs" "is_digit x"
    using dec_digits [of "unat (m_inside m)"] by (cases "dec (unat (m_inside m))") auto
  have nl: "is_newline (CHR 0x0A)" "\<not> is_blank (CHR 0x0A)" by (simp_all add: is_newline_def is_blank_def)
  have skip: "dropWhile (\<lambda>c. is_newline c \<or> is_blank c) (pre @ map_line m @ ?r) = map_line m @ ?r"
    using Cons.prems(3) digit_not_blank [OF x(2)] nl(1) by (auto simp: map_line_def x)
  have "maps_wf ((acc @ [m]) @ ms)" using Cons.prems(1) by simp
  then have "maps_wf (acc @ [m])" by (induction acc) auto
  then have ok: "map_entry_ok acc m" by (simp add: maps_wf_append)
  have ne: "map_line m \<noteq> []" by (simp add: map_line_def)
  have "parse_map (pre @ map_line m @ ?r) acc = parse_map ([CHR 0x0A] @ ?r) (acc @ [m])"
    using Cons.prems(2) ok ne nl
    by (subst parse_map.simps) (simp add: skip parse_entry_line NS_UID_GID_MAP_MAX_def Let_def)
  also have "\<dots> = Some ((acc @ [m]) @ ms)"
    using Cons.prems by (intro Cons.IH) auto
  finally show ?case by simp
qed

lemma print_map_fits:
  "length used + length (concat (map map_line ms)) < len \<Longrightarrow> print_map ms len used = used @ concat (map map_line ms)"
  by (induction ms arbitrary: used) auto


section \<open>Properties\<close>

text \<open>
  C32: a map that \<open>user_map_write\<close> accepts, whatever text it came from, makes the two translations inverse to
  each other: a local id translates to a kernel id exactly when that kernel id translates back to it. So two
  ids of a namespace never stand for the same kernel id, and no kernel id has two names.
\<close>

theorem idmap_translations_inverse:
  assumes "user_map_write u gid ok buf = (0, u')"
  shows "if gid then (ns_local_to_kgid (Some u') l = (0, Some k)) = (ns_gid_to_local (Some u') k = (0, l))
    else (ns_local_to_kuid (Some u') l = (0, Some k)) = (ns_uid_to_local (Some u') k = (0, l))"
proof -
  from assms obtain ms where ms: "parse_map buf [] = Some ms"
    "u' = (if gid then u\<lparr>u_gid_map := ms, u_gid_map_written := True\<rparr> else u\<lparr>u_uid_map := ms, u_map_written := True\<rparr>)"
    by (auto simp: user_map_write_def split: if_splits option.splits)
  have "maps_wf ms" using parse_map_wf [OF ms(1)] by simp
  note inv = translation_inverse [OF this, of l k]
  show ?thesis
    using inv unfolding ms(2) ns_local_to_kgid_def ns_gid_to_local_def ns_local_to_kuid_def ns_uid_to_local_def
    by (cases "map_to_kid ms l"; cases "map_to_local ms k"; cases gid) auto
qed

definition fresh_ns :: user_ns where
  "fresh_ns = \<lparr>u_owner = 1000, u_map_written = False, u_gid_map_written = False, u_groups_disabled = True,
     u_uid_map = [], u_gid_map = []\<rparr>"

definition two_maps :: "idmap list" where
  "two_maps = [\<lparr>m_inside = 0, m_outside = 1000, m_count = 1\<rparr>, \<lparr>m_inside = 1, m_outside = 100000, m_count = 65535\<rparr>]"

lemma two_maps_wf: "maps_wf two_maps"
  by (simp add: two_maps_def entry_in_range_def entries_disjoint_def disjoint_from_def)

lemma two_maps_text: "concat (map map_line two_maps) = ''0 1000 1'' @ [CHR 0x0A] @ ''1 100000 65535'' @ [CHR 0x0A]"
  by (simp add: two_maps_def map_line_def dec.simps char_of_def bit_0)

lemma two_maps_facts: "two_maps \<noteq> []" "length two_maps = 2"
  by (simp_all add: two_maps_def)

lemma write_two_maps:
  "user_map_write fresh_ns False True (''0 1000 1'' @ [CHR 0x0A] @ ''1 100000 65535'' @ [CHR 0x0A]) =
     (0, fresh_ns\<lparr>u_uid_map := two_maps, u_map_written := True\<rparr>)"
proof -
  have "parse_map (''0 1000 1'' @ [CHR 0x0A] @ ''1 100000 65535'' @ [CHR 0x0A]) [] = Some two_maps"
    using parse_map_lines [of "[]" two_maps "[]"] two_maps_wf by (simp add: two_maps_text two_maps_facts)
  then show ?thesis by (simp add: user_map_write_def fresh_ns_def two_maps_facts)
qed

theorem idmap_translations_inverse_witness:
  "ns_local_to_kuid (Some (fresh_ns\<lparr>u_uid_map := two_maps, u_map_written := True\<rparr>)) 7 = (0, Some 100006) \<and>
   ns_uid_to_local (Some (fresh_ns\<lparr>u_uid_map := two_maps, u_map_written := True\<rparr>)) 100006 = (0, 7)"
proof -
  have "ns_uid_to_local (Some (fresh_ns\<lparr>u_uid_map := two_maps, u_map_written := True\<rparr>)) 100006 = (0, 7)"
    by (simp add: ns_uid_to_local_def two_maps_def Let_def)
  with idmap_translations_inverse [OF write_two_maps, of 7 100006] show ?thesis by simp
qed

text \<open>
  C40: the text that \<open>ns_user_map_read\<close> prints for a map is accepted by \<open>user_map_write\<close>, which reconstructs
  the same map from it, whenever the text fits into the two buffers.
\<close>

theorem idmap_text_roundtrip:
  assumes "maps_wf (u_uid_map u)" "u_uid_map u \<noteq> []" "length (u_uid_map u) \<le> NS_UID_GID_MAP_MAX"
    and "length (concat (map map_line (u_uid_map u))) < min len 512" "\<not> u_map_written v"
  shows "user_map_write v False True (ns_user_map_read (Some u) False len) =
    (0, v\<lparr>u_uid_map := u_uid_map u, u_map_written := True\<rparr>)"
proof -
  have tx: "ns_user_map_read (Some u) False len = concat (map map_line (u_uid_map u))"
    using print_map_fits [of "[]" "u_uid_map u" len] assms(4) by (simp add: ns_user_map_read_def)
  have "concat (map map_line (u_uid_map u)) \<noteq> []"
    using assms(2) by (cases "u_uid_map u") (auto simp: map_line_def)
  moreover have "parse_map (concat (map map_line (u_uid_map u))) [] = Some (u_uid_map u)"
    using parse_map_lines [of "[]" "u_uid_map u" "[]"] assms(1,3) by (simp add: NS_UID_GID_MAP_MAX_def)
  ultimately show ?thesis
    using assms(2,4,5) by (simp add: user_map_write_def tx)
qed

theorem idmap_text_roundtrip_witness:
  "user_map_write fresh_ns False True (ns_user_map_read (Some (fresh_ns\<lparr>u_uid_map := two_maps\<rparr>)) False 100) =
     (0, fresh_ns\<lparr>u_uid_map := two_maps, u_map_written := True\<rparr>)"
  using idmap_text_roundtrip [of "fresh_ns\<lparr>u_uid_map := two_maps\<rparr>" 100 fresh_ns] two_maps_wf
  by (simp add: two_maps_text two_maps_facts fresh_ns_def NS_UID_GID_MAP_MAX_def)

end
