(* ===== verification/Ns.thy ===== *)
theory Ns
  imports Idmap Proc "HOL-Library.Multiset"
begin

text \<open>
  Namespaces, \<open>src/kernel/proc/ns.c\<close> and \<open>src/kernel/proc/ns.h\<close>: the namespace objects with their reference
  counts, the bundles (\<open>nsproxy\<close>) that processes share, the tables of process ids, and the operations
  behind \<open>clone\<close>, \<open>unshare\<close> and \<open>setns\<close>.

  Objects and bundles live in lists; a pointer is an index, and a freed entry is \<^term>\<open>None\<close> and never used
  again. Whether a heap request succeeds is given by \<open>nh_kmalloc_ok\<close>. The flag \<open>nh_bad\<close> records an access
  through a pointer to a freed or mistyped object, which would be undefined in C. Counters are natural numbers.
\<close>

section \<open>Data\<close>

definition NS_TYPE_USER :: u32 where "NS_TYPE_USER = 1"
definition NS_TYPE_PID :: u32 where "NS_TYPE_PID = 2"
definition NS_TYPE_MNT :: u32 where "NS_TYPE_MNT = 3"
definition NS_TYPE_UTS :: u32 where "NS_TYPE_UTS = 4"
definition NS_TYPE_IPC :: u32 where "NS_TYPE_IPC = 5"
definition NS_TYPE_NET :: u32 where "NS_TYPE_NET = 6"
definition NS_TYPE_CGROUP :: u32 where "NS_TYPE_CGROUP = 7"

definition NS_PID_MAX :: u32 where "NS_PID_MAX = 64"
definition NS_MNT_MAX :: nat where "NS_MNT_MAX = 64"

definition CLONE_NEWNS :: u64 where "CLONE_NEWNS = 0x00020000"
definition CLONE_NEWCGROUP :: u64 where "CLONE_NEWCGROUP = 0x02000000"
definition CLONE_NEWUTS :: u64 where "CLONE_NEWUTS = 0x04000000"
definition CLONE_NEWIPC :: u64 where "CLONE_NEWIPC = 0x08000000"
definition CLONE_NEWUSER :: u64 where "CLONE_NEWUSER = 0x10000000"
definition CLONE_NEWPID :: u64 where "CLONE_NEWPID = 0x20000000"
definition CLONE_NEWNET :: u64 where "CLONE_NEWNET = 0x40000000"
definition NS_CLONE_ALL :: u64 where
  "NS_CLONE_ALL = CLONE_NEWNS OR CLONE_NEWCGROUP OR CLONE_NEWUTS OR CLONE_NEWIPC OR CLONE_NEWUSER OR
     CLONE_NEWPID OR CLONE_NEWNET"

record pid_ns =
  pn_level :: int
  pn_next_pid :: u32
  pn_local_of_global :: "u32 list"
  pn_global_of_local :: "u32 list"

record mnt_mount =
  mt_target :: string
  mt_source :: string
  mt_fstype :: string
  mt_root :: "nat option"
  mt_flags :: u32
  mt_used :: bool

record mnt_ns =
  mn_root :: "nat option"
  mn_root_flags :: u32
  mn_nmounts :: u32
  mn_mounts :: "mnt_mount list"

datatype ns_body = Ns_user user_ns | Ns_pid pid_ns | Ns_mnt mnt_ns | Ns_uts string | Ns_simple

record ns_common =
  o_type :: u32
  o_refcnt :: nat
  o_dynamic :: bool
  o_parent :: "nat option"
  o_body :: ns_body

record nsproxy =
  np_refcnt :: nat
  np_dynamic :: bool
  np_user_ns :: nat
  np_pid_ns :: nat
  np_pid_ns_for_children :: nat
  np_mnt_ns :: nat
  np_uts_ns :: nat
  np_ipc_ns :: nat
  np_net_ns :: nat
  np_cgroup_ns :: nat

text \<open>\<open>nh_nodes\<close> is the number of references the namespaces hold on each file-system node.\<close>

record nsheap =
  nh_objs :: "ns_common option list"
  nh_prox :: "nsproxy option list"
  nh_nodes :: "nat \<Rightarrow> int"
  nh_vfs_root :: nat
  nh_kmalloc_ok :: "nat \<Rightarrow> bool"
  nh_reqs :: nat
  nh_bad :: bool

text \<open>The statically allocated initial namespaces and the initial bundle.\<close>

definition init_user_ns :: nat where "init_user_ns = 0"
definition init_pid_ns :: nat where "init_pid_ns = 1"
definition init_mnt_ns :: nat where "init_mnt_ns = 2"
definition init_uts_ns :: nat where "init_uts_ns = 3"
definition init_ipc_ns :: nat where "init_ipc_ns = 4"
definition init_net_ns :: nat where "init_net_ns = 5"
definition init_cgroup_ns :: nat where "init_cgroup_ns = 6"
definition init_nsproxy :: nat where "init_nsproxy = 0"

definition obj :: "nsheap \<Rightarrow> nat \<Rightarrow> ns_common option" where
  "obj h a = (if a < length (nh_objs h) then nh_objs h ! a else None)"

definition prox :: "nsheap \<Rightarrow> nat \<Rightarrow> nsproxy option" where
  "prox h i = (if i < length (nh_prox h) then nh_prox h ! i else None)"

definition bad_access :: "nsheap \<Rightarrow> nsheap" where
  "bad_access h = h\<lparr>nh_bad := True\<rparr>"

definition put_obj :: "nat \<Rightarrow> ns_common option \<Rightarrow> nsheap \<Rightarrow> nsheap" where
  "put_obj a x h = h\<lparr>nh_objs := (nh_objs h)[a := x]\<rparr>"

definition put_prox :: "nat \<Rightarrow> nsproxy option \<Rightarrow> nsheap \<Rightarrow> nsheap" where
  "put_prox i x h = h\<lparr>nh_prox := (nh_prox h)[i := x]\<rparr>"

section \<open>Reference counts\<close>

definition ns_common_get :: "nat \<Rightarrow> nsheap \<Rightarrow> nsheap" where
  "ns_common_get a h =
     (case obj h a of
        None \<Rightarrow> bad_access h
      | Some x \<Rightarrow> put_obj a (Some (x\<lparr>o_refcnt := o_refcnt x + 1\<rparr>)) h)"

definition node_unref :: "nat option \<Rightarrow> nsheap \<Rightarrow> nsheap" where
  "node_unref n h = (case n of None \<Rightarrow> h | Some v \<Rightarrow> h\<lparr>nh_nodes := (nh_nodes h)(v := nh_nodes h v - 1)\<rparr>)"

definition node_ref :: "nat option \<Rightarrow> nsheap \<Rightarrow> nsheap" where
  "node_ref n h = (case n of None \<Rightarrow> h | Some v \<Rightarrow> h\<lparr>nh_nodes := (nh_nodes h)(v := nh_nodes h v + 1)\<rparr>)"

definition mnt_release :: "mnt_ns \<Rightarrow> nsheap \<Rightarrow> nsheap" where
  "mnt_release m h =
     node_unref (mn_root m)
       (fold (\<lambda>t h. if mt_used t then node_unref (mt_root t) h else h) (mn_mounts m) h)"

lemma node_ref_frame [simp]:
  "nh_objs (node_unref n h) = nh_objs h" "nh_prox (node_unref n h) = nh_prox h" "nh_bad (node_unref n h) = nh_bad h"
  "nh_objs (node_ref n h) = nh_objs h" "nh_prox (node_ref n h) = nh_prox h" "nh_bad (node_ref n h) = nh_bad h"
  by (simp_all add: node_unref_def node_ref_def split: option.splits)

text \<open>
  \<open>ns_common_put\<close> and \<open>ns_common_free\<close>. The object dies with its last reference and drops the one it holds
  on its parent; the recursion ends because every call that goes on takes one off the sum of all counts.
\<close>

definition total_refs :: "nsheap \<Rightarrow> nat" where
  "total_refs h = sum_list (map (\<lambda>x. case x of None \<Rightarrow> 0 | Some x \<Rightarrow> o_refcnt x) (nh_objs h))"

lemma total_refs_drop:
  assumes "obj h a = Some x" "o_refcnt x = 1"
  shows "total_refs (put_obj a (Some (x\<lparr>o_refcnt := 0\<rparr>)) h) < total_refs h"
proof -
  have a: "a < length (nh_objs h)" "nh_objs h ! a = Some x" using assms(1) by (auto simp: obj_def split: if_splits)
  let ?f = "\<lambda>x. case x of None \<Rightarrow> 0 | Some x \<Rightarrow> o_refcnt x"
  have "sum_list (map ?f ((nh_objs h)[a := Some (x\<lparr>o_refcnt := 0\<rparr>)])) + 1 = sum_list (map ?f (nh_objs h))"
    using a assms(2) by (subst (2) id_take_nth_drop [OF a(1)], subst upd_conv_take_nth_drop [OF a(1)]) simp
  then show ?thesis by (simp add: total_refs_def put_obj_def)
qed

function ns_common_put :: "nat \<Rightarrow> nsheap \<Rightarrow> nsheap" where
  "ns_common_put a h =
     (case obj h a of
        None \<Rightarrow> bad_access h
      | Some x \<Rightarrow>
          if o_refcnt x = 1 then
            let h = put_obj a (Some (x\<lparr>o_refcnt := 0\<rparr>)) h in
            if \<not> o_dynamic x then h
            else
              let h = (case o_body x of
                         Ns_mnt m \<Rightarrow> mnt_release m h
                       | _ \<Rightarrow> (case o_parent x of None \<Rightarrow> h | Some q \<Rightarrow> ns_common_put q h))
              in put_obj a None h
          else put_obj a (Some (x\<lparr>o_refcnt := o_refcnt x - 1\<rparr>)) h)"
  by pat_completeness auto
termination
  by (relation "measure (\<lambda>(a, h). total_refs h)") (auto simp: total_refs_drop split: if_splits)

declare ns_common_put.simps [simp del]

section \<open>Creation\<close>

definition kmalloc_ns :: "ns_common \<Rightarrow> nsheap \<Rightarrow> nat option \<times> nsheap" where
  "kmalloc_ns x h =
     (let ok = nh_kmalloc_ok h (nh_reqs h); h = h\<lparr>nh_reqs := nh_reqs h + 1\<rparr> in
      if ok then (Some (length (nh_objs h)), h\<lparr>nh_objs := nh_objs h @ [Some x]\<rparr>) else (None, h))"

definition user_ns_create :: "nat \<Rightarrow> u32 \<Rightarrow> nsheap \<Rightarrow> nat option \<times> nsheap" where
  "user_ns_create parent owner h =
     (case kmalloc_ns \<lparr>o_type = NS_TYPE_USER, o_refcnt = 1, o_dynamic = True, o_parent = Some parent,
        o_body = Ns_user \<lparr>u_owner = owner, u_map_written = False, u_gid_map_written = False,
          u_groups_disabled = False, u_uid_map = [], u_gid_map = []\<rparr>\<rparr> h of
        (None, h) \<Rightarrow> (None, h)
      | (Some a, h) \<Rightarrow> (Some a, ns_common_get parent h))"

definition pid_level :: "nat \<Rightarrow> nsheap \<Rightarrow> int" where
  "pid_level a h = (case obj h a of Some x \<Rightarrow> (case o_body x of Ns_pid p \<Rightarrow> pn_level p | _ \<Rightarrow> 0) | None \<Rightarrow> 0)"

definition pid_ns_create :: "nat \<Rightarrow> nsheap \<Rightarrow> nat option \<times> nsheap" where
  "pid_ns_create parent h =
     (case kmalloc_ns \<lparr>o_type = NS_TYPE_PID, o_refcnt = 1, o_dynamic = True, o_parent = Some parent,
        o_body = Ns_pid \<lparr>pn_level = pid_level parent h + 1, pn_next_pid = 1,
          pn_local_of_global = replicate 64 0, pn_global_of_local = replicate 64 0\<rparr>\<rparr> h of
        (None, h) \<Rightarrow> (None, h)
      | (Some a, h) \<Rightarrow> (Some a, ns_common_get parent h))"

definition mnt_set_root :: "nat \<Rightarrow> nsheap \<Rightarrow> nsheap" where
  "mnt_set_root src h =
     (case obj h src of
        Some x \<Rightarrow>
          (case o_body x of
             Ns_mnt m \<Rightarrow>
               if mn_root m = None
               then put_obj src (Some (x\<lparr>o_body := Ns_mnt (m\<lparr>mn_root := Some (nh_vfs_root h)\<rparr>)\<rparr>)) h else h
           | _ \<Rightarrow> bad_access h)
      | None \<Rightarrow> bad_access h)"

definition ns_mnt_current :: "proc option \<Rightarrow> nsheap \<Rightarrow> nat \<times> nsheap" where
  "ns_mnt_current cur h =
     (let a = (case cur of
                 None \<Rightarrow> init_mnt_ns
               | Some p \<Rightarrow>
                   (case p_nsproxy p of
                      None \<Rightarrow> init_mnt_ns
                    | Some i \<Rightarrow> (case prox h i of None \<Rightarrow> init_mnt_ns | Some np \<Rightarrow> np_mnt_ns np)))
      in (a, mnt_set_root a h))"

definition mnt_hold :: "mnt_ns \<Rightarrow> nsheap \<Rightarrow> nsheap" where
  "mnt_hold m h =
     fold (\<lambda>t h. if mt_used t then node_ref (mt_root t) h else h) (mn_mounts m) (node_ref (mn_root m) h)"

definition ns_mnt_clone :: "nat \<Rightarrow> nsheap \<Rightarrow> nat option \<times> nsheap" where
  "ns_mnt_clone src h =
     (let h = mnt_set_root src h in
      case obj h src of
        Some x \<Rightarrow>
          (case o_body x of
             Ns_mnt m \<Rightarrow>
               (case kmalloc_ns \<lparr>o_type = NS_TYPE_MNT, o_refcnt = 1, o_dynamic = True, o_parent = None,
                  o_body = Ns_mnt m\<rparr> h of
                  (None, h) \<Rightarrow> (None, h)
                | (Some a, h) \<Rightarrow> (Some a, mnt_hold m h))
           | _ \<Rightarrow> (None, bad_access h))
      | None \<Rightarrow> (None, bad_access h))"

definition uts_ns_create :: "nat \<Rightarrow> nsheap \<Rightarrow> nat option \<times> nsheap" where
  "uts_ns_create src h =
     (case obj h src of
        Some x \<Rightarrow>
          (case o_body x of
             Ns_uts name \<Rightarrow> kmalloc_ns \<lparr>o_type = NS_TYPE_UTS, o_refcnt = 1, o_dynamic = True, o_parent = None,
               o_body = Ns_uts name\<rparr> h
           | _ \<Rightarrow> (None, bad_access h))
      | None \<Rightarrow> (None, bad_access h))"

definition simple_ns_create :: "u32 \<Rightarrow> nsheap \<Rightarrow> nat option \<times> nsheap" where
  "simple_ns_create type h =
     kmalloc_ns \<lparr>o_type = type, o_refcnt = 1, o_dynamic = True, o_parent = None, o_body = Ns_simple\<rparr> h"

section \<open>Bundles\<close>

definition nsproxy_get :: "nat \<Rightarrow> nsheap \<Rightarrow> nsheap" where
  "nsproxy_get i h =
     (case prox h i of None \<Rightarrow> bad_access h | Some p \<Rightarrow> put_prox i (Some (p\<lparr>np_refcnt := np_refcnt p + 1\<rparr>)) h)"

text \<open>The eight pointers of a bundle, in the order in which they are taken and dropped.\<close>

definition np_list :: "nsproxy \<Rightarrow> nat list" where
  "np_list p = [np_user_ns p, np_pid_ns p, np_pid_ns_for_children p, np_mnt_ns p, np_uts_ns p, np_ipc_ns p,
     np_net_ns p, np_cgroup_ns p]"

definition nsproxy_put :: "nat \<Rightarrow> nsheap \<Rightarrow> nsheap" where
  "nsproxy_put i h =
     (case prox h i of
        None \<Rightarrow> bad_access h
      | Some p \<Rightarrow>
          if \<not> np_dynamic p then h
          else if np_refcnt p \<noteq> 1 then put_prox i (Some (p\<lparr>np_refcnt := np_refcnt p - 1\<rparr>)) h
          else put_prox i None (fold ns_common_put (np_list p) h))"

definition nsproxy_clone :: "nat option \<Rightarrow> nsheap \<Rightarrow> nat option \<times> nsheap" where
  "nsproxy_clone src h =
     (case prox h (case src of None \<Rightarrow> init_nsproxy | Some i \<Rightarrow> i) of
        None \<Rightarrow> (None, bad_access h)
      | Some p \<Rightarrow>
          let ok = nh_kmalloc_ok h (nh_reqs h); h = h\<lparr>nh_reqs := nh_reqs h + 1\<rparr> in
          if \<not> ok then (None, h)
          else (Some (length (nh_prox h)),
                fold ns_common_get (np_list p)
                  (h\<lparr>nh_prox := nh_prox h @ [Some (p\<lparr>np_refcnt := 1, np_dynamic := True\<rparr>)]\<rparr>)))"

text \<open>The pointers of a bundle by name, and the replacement of one of them.\<close>

datatype ns_slot = S_user | S_pid | S_pid_children | S_mnt | S_uts | S_ipc | S_net | S_cgroup

fun slot_ns :: "ns_slot \<Rightarrow> nsproxy \<Rightarrow> nat" where
  "slot_ns S_user p = np_user_ns p"
| "slot_ns S_pid p = np_pid_ns p"
| "slot_ns S_pid_children p = np_pid_ns_for_children p"
| "slot_ns S_mnt p = np_mnt_ns p"
| "slot_ns S_uts p = np_uts_ns p"
| "slot_ns S_ipc p = np_ipc_ns p"
| "slot_ns S_net p = np_net_ns p"
| "slot_ns S_cgroup p = np_cgroup_ns p"

fun set_slot :: "ns_slot \<Rightarrow> nat \<Rightarrow> nsproxy \<Rightarrow> nsproxy" where
  "set_slot S_user a p = p\<lparr>np_user_ns := a\<rparr>"
| "set_slot S_pid a p = p\<lparr>np_pid_ns := a\<rparr>"
| "set_slot S_pid_children a p = p\<lparr>np_pid_ns_for_children := a\<rparr>"
| "set_slot S_mnt a p = p\<lparr>np_mnt_ns := a\<rparr>"
| "set_slot S_uts a p = p\<lparr>np_uts_ns := a\<rparr>"
| "set_slot S_ipc a p = p\<lparr>np_ipc_ns := a\<rparr>"
| "set_slot S_net a p = p\<lparr>np_net_ns := a\<rparr>"
| "set_slot S_cgroup a p = p\<lparr>np_cgroup_ns := a\<rparr>"

definition replace_slot :: "nat \<Rightarrow> ns_slot \<Rightarrow> nat \<Rightarrow> nsheap \<Rightarrow> nsheap" where
  "replace_slot i s a h =
     (case prox h i of
        None \<Rightarrow> bad_access h
      | Some p \<Rightarrow> put_prox i (Some (set_slot s a p)) (ns_common_put (slot_ns s p) h))"

section \<open>New namespaces\<close>

text \<open>
  The six blocks of \<open>ns_apply_new_namespaces\<close> that have the same shape, each with its flag, its constructor
  and the pointer it replaces; after a failure the rest is skipped.
\<close>

definition ns_steps :: "u32 \<Rightarrow> (u64 \<times> (nsproxy \<Rightarrow> nsheap \<Rightarrow> nat option \<times> nsheap) \<times> ns_slot) list" where
  "ns_steps owner =
     [(CLONE_NEWUSER, \<lambda>p. user_ns_create (np_user_ns p) owner, S_user),
      (CLONE_NEWNS, \<lambda>p. ns_mnt_clone (np_mnt_ns p), S_mnt),
      (CLONE_NEWUTS, \<lambda>p. uts_ns_create (np_uts_ns p), S_uts),
      (CLONE_NEWIPC, \<lambda>p. simple_ns_create NS_TYPE_IPC, S_ipc),
      (CLONE_NEWNET, \<lambda>p. simple_ns_create NS_TYPE_NET, S_net),
      (CLONE_NEWCGROUP, \<lambda>p. simple_ns_create NS_TYPE_CGROUP, S_cgroup)]"

fun apply_steps ::
  "nat \<Rightarrow> u64 \<Rightarrow> (u64 \<times> (nsproxy \<Rightarrow> nsheap \<Rightarrow> nat option \<times> nsheap) \<times> ns_slot) list \<Rightarrow> nsheap \<Rightarrow> int \<times> nsheap" where
  "apply_steps i flags [] h = (0, h)"
| "apply_steps i flags ((flag, create, s) # rest) h =
     (if flags AND flag = 0 then apply_steps i flags rest h
      else
        (case prox h i of
           None \<Rightarrow> (0, bad_access h)
         | Some p \<Rightarrow>
             (case create p h of
                (None, h) \<Rightarrow> (- ENOMEM, h)
              | (Some a, h) \<Rightarrow> apply_steps i flags rest (replace_slot i s a h))))"

definition apply_newpid :: "nat \<Rightarrow> nsheap \<Rightarrow> int \<times> nsheap" where
  "apply_newpid i h =
     (case prox h i of
        None \<Rightarrow> (0, bad_access h)
      | Some p \<Rightarrow>
          (case pid_ns_create (np_pid_ns p) h of
             (None, h) \<Rightarrow> (- ENOMEM, h)
           | (Some a, h) \<Rightarrow>
               let h = ns_common_put (np_pid_ns p) h;
                   h = ns_common_put (np_pid_ns_for_children p) h;
                   h = put_prox i (Some (p\<lparr>np_pid_ns := a\<rparr>)) h;
                   h = ns_common_get a h
               in (0, put_prox i (Some (p\<lparr>np_pid_ns := a, np_pid_ns_for_children := a\<rparr>)) h)))"

definition ns_apply_new_namespaces :: "nat \<Rightarrow> u32 \<Rightarrow> u64 \<Rightarrow> nsheap \<Rightarrow> int \<times> nsheap" where
  "ns_apply_new_namespaces i owner flags h =
     (case apply_steps i flags (ns_steps owner) h of
        (r, h) \<Rightarrow>
          if r \<noteq> 0 then (r, h)
          else if flags AND CLONE_NEWPID \<noteq> 0 then apply_newpid i h
          else (0, h))"

section \<open>Process ids\<close>

definition pid_of :: "nat \<Rightarrow> nsheap \<Rightarrow> pid_ns option" where
  "pid_of a h = (case obj h a of Some x \<Rightarrow> (case o_body x of Ns_pid p \<Rightarrow> Some p | _ \<Rightarrow> None) | None \<Rightarrow> None)"

definition set_pid :: "nat \<Rightarrow> pid_ns \<Rightarrow> nsheap \<Rightarrow> nsheap" where
  "set_pid a p h = (case obj h a of None \<Rightarrow> bad_access h | Some x \<Rightarrow> put_obj a (Some (x\<lparr>o_body := Ns_pid p\<rparr>)) h)"

definition parent_of :: "nat \<Rightarrow> nsheap \<Rightarrow> nat option" where
  "parent_of a h = (case obj h a of None \<Rightarrow> None | Some x \<Rightarrow> o_parent x)"

definition pid_slot :: "u32 \<Rightarrow> nat" where
  "pid_slot g = unat (g - 1)"

text \<open>Removing the entry of a process from the tables of one namespace.\<close>

definition clear_pid :: "u32 \<Rightarrow> pid_ns \<Rightarrow> pid_ns" where
  "clear_pid g p =
     (let l = pn_local_of_global p ! pid_slot g in
      if l = 0 then p
      else p\<lparr>pn_local_of_global := (pn_local_of_global p)[pid_slot g := 0],
             pn_global_of_local := (pn_global_of_local p)[pid_slot l := 0]\<rparr>)"

text \<open>
  \<open>pid_ns_register\<close> registers the process in the parents first. The first argument bounds the depth of
  the recursion; the number of objects is enough, because a parent is older than its children.
\<close>

fun pid_ns_register_n :: "nat \<Rightarrow> nat option \<Rightarrow> u32 \<Rightarrow> nsheap \<Rightarrow> bool \<times> nsheap" where
  "pid_ns_register_n n None global h = (False, h)"
| "pid_ns_register_n 0 (Some a) global h = (False, bad_access h)"
| "pid_ns_register_n (Suc n) (Some a) global h =
     (if global = 0 \<or> NS_PID_MAX < global then (False, h)
      else if a = init_pid_ns then (True, h)
      else
        (case pid_ns_register_n n (parent_of a h) global h of
           (False, h) \<Rightarrow> (False, h)
         | (True, h) \<Rightarrow>
             (case pid_of a h of
                None \<Rightarrow> (False, bad_access h)
              | Some p \<Rightarrow>
                  if pn_local_of_global p ! pid_slot global \<noteq> 0 then (True, h)
                  else
                    let l = pn_next_pid p in
                    if l = 0 \<or> NS_PID_MAX < l then
                      let h = set_pid a (p\<lparr>pn_next_pid := NS_PID_MAX + 1\<rparr>) h in
                      (False,
                       case parent_of a h of
                         None \<Rightarrow> h
                       | Some q \<Rightarrow> (case pid_of q h of None \<Rightarrow> bad_access h | Some pp \<Rightarrow> set_pid q (clear_pid global pp) h))
                    else
                      (True, set_pid a (p\<lparr>pn_next_pid := pn_next_pid p + 1,
                         pn_local_of_global := (pn_local_of_global p)[pid_slot global := l],
                         pn_global_of_local := (pn_global_of_local p)[pid_slot l := global]\<rparr>) h))))"

definition pid_ns_register :: "nat \<Rightarrow> u32 \<Rightarrow> nsheap \<Rightarrow> bool \<times> nsheap" where
  "pid_ns_register a global h = pid_ns_register_n (Suc (length (nh_objs h))) (Some a) global h"

fun pid_ns_unregister_n :: "nat \<Rightarrow> nat option \<Rightarrow> u32 \<Rightarrow> nsheap \<Rightarrow> nsheap" where
  "pid_ns_unregister_n n None global h = h"
| "pid_ns_unregister_n 0 (Some a) global h = bad_access h"
| "pid_ns_unregister_n (Suc n) (Some a) global h =
     (if a = init_pid_ns \<or> global = 0 \<or> NS_PID_MAX < global then h
      else
        (case pid_of a h of
           None \<Rightarrow> bad_access h
         | Some p \<Rightarrow>
             if pn_local_of_global p ! pid_slot global = 0 then h
             else pid_ns_unregister_n n (parent_of a h) global (set_pid a (clear_pid global p) h)))"

definition pid_ns_unregister :: "nat \<Rightarrow> u32 \<Rightarrow> nsheap \<Rightarrow> nsheap" where
  "pid_ns_unregister a global h = pid_ns_unregister_n (Suc (length (nh_objs h))) (Some a) global h"

definition ns_proc_register :: "proc \<Rightarrow> nsheap \<Rightarrow> nsheap" where
  "ns_proc_register p h =
     (case p_nsproxy p of
        None \<Rightarrow> h
      | Some i \<Rightarrow> (case prox h i of None \<Rightarrow> bad_access h | Some np \<Rightarrow> snd (pid_ns_register (np_pid_ns np) (p_pid p) h)))"

definition ns_proc_unregister :: "proc \<Rightarrow> nsheap \<Rightarrow> nsheap" where
  "ns_proc_unregister p h =
     (case p_nsproxy p of
        None \<Rightarrow> h
      | Some i \<Rightarrow> (case prox h i of None \<Rightarrow> bad_access h | Some np \<Rightarrow> pid_ns_unregister (np_pid_ns np) (p_pid p) h))"

definition ns_proc_pid_in :: "proc \<Rightarrow> nat \<Rightarrow> nsheap \<Rightarrow> u32" where
  "ns_proc_pid_in p a h =
     (if p_pid p = 0 \<or> NS_PID_MAX < p_pid p then 0
      else if a = init_pid_ns then p_pid p
      else (case pid_of a h of None \<Rightarrow> 0 | Some q \<Rightarrow> pn_local_of_global q ! pid_slot (p_pid p)))"

definition ns_proc_pid :: "proc \<Rightarrow> nsheap \<Rightarrow> u32" where
  "ns_proc_pid p h =
     (case p_nsproxy p of
        None \<Rightarrow> p_pid p
      | Some i \<Rightarrow> (case prox h i of None \<Rightarrow> 0 | Some np \<Rightarrow> ns_proc_pid_in p (np_pid_ns np) h))"

definition ns_pid_to_global :: "nat \<Rightarrow> u32 \<Rightarrow> nsheap \<Rightarrow> u32" where
  "ns_pid_to_global a l h =
     (if l = 0 \<or> NS_PID_MAX < l then 0
      else if a = init_pid_ns then l
      else (case pid_of a h of None \<Rightarrow> 0 | Some q \<Rightarrow> pn_global_of_local q ! pid_slot l))"

text \<open>\<open>ns_pid_chain\<close>: the ids of the process from its own namespace outwards, at most \<open>mx\<close> of them.\<close>

fun pid_chain :: "nat \<Rightarrow> proc \<Rightarrow> nat option \<Rightarrow> nsheap \<Rightarrow> u32 list" where
  "pid_chain 0 p ns h = []"
| "pid_chain (Suc mx) p None h = []"
| "pid_chain (Suc mx) p (Some a) h =
     (let l = ns_proc_pid_in p a h in if l = 0 then [] else l # pid_chain mx p (parent_of a h) h)"

definition ns_pid_chain :: "proc \<Rightarrow> int \<Rightarrow> nsheap \<Rightarrow> u32 list" where
  "ns_pid_chain p mx h =
     (case p_nsproxy p of
        None \<Rightarrow> []
      | Some i \<Rightarrow> (case prox h i of None \<Rightarrow> [] | Some np \<Rightarrow> pid_chain (nat mx) p (Some (np_pid_ns np)) h))"

section \<open>Fork, unshare and setns\<close>

text \<open>
  \<open>ns_child_prepare\<close>. A thread shares the bundle of its parent; a process gets a copy, with new namespaces
  where the flags ask for them, and its process ids come from the namespace set aside for children.
\<close>

definition adopt_pid_ns :: "nat \<Rightarrow> ns_slot \<Rightarrow> nat \<Rightarrow> nsheap \<Rightarrow> nsheap" where
  "adopt_pid_ns i s target h =
     (case prox h i of
        None \<Rightarrow> bad_access h
      | Some np \<Rightarrow> if slot_ns s np \<noteq> target then replace_slot i s target (ns_common_get target h) else h)"

definition child_bundle :: "proc \<Rightarrow> u64 \<Rightarrow> nsheap \<Rightarrow> (int + nat) \<times> nsheap" where
  "child_bundle parent flags h =
     (case nsproxy_clone (p_nsproxy parent) h of
        (None, h) \<Rightarrow> (Inl (- ENOMEM), h)
      | (Some i, h) \<Rightarrow>
          (case (if flags AND NS_CLONE_ALL \<noteq> 0 then ns_apply_new_namespaces i (p_euid parent) flags h else (0, h)) of
             (r, h) \<Rightarrow>
               if r < 0 then (Inl r, nsproxy_put i h)
               else if flags AND CLONE_NEWPID \<noteq> 0 then (Inr i, h)
               else
                 (case p_nsproxy parent of
                    None \<Rightarrow> (Inr i, bad_access h)
                  | Some j \<Rightarrow>
                      (case prox h j of
                         None \<Rightarrow> (Inr i, bad_access h)
                       | Some np \<Rightarrow>
                           let target = np_pid_ns_for_children np in
                           (Inr i, adopt_pid_ns i S_pid_children target (adopt_pid_ns i S_pid target h))))))"

definition ns_child_prepare :: "proc \<Rightarrow> proc \<Rightarrow> u64 \<Rightarrow> bool \<Rightarrow> nsheap \<Rightarrow> int \<times> proc \<times> nsheap" where
  "ns_child_prepare parent child flags thread h =
     (if thread \<and> flags AND NS_CLONE_ALL \<noteq> 0 then (- EINVAL, child, h)
      else
        (case (if thread
               then (case p_nsproxy parent of None \<Rightarrow> (Inl 0, bad_access h) | Some i \<Rightarrow> (Inr i, nsproxy_get i h))
               else child_bundle parent flags h) of
           (Inl r, h) \<Rightarrow> (r, child, h)
         | (Inr i, h) \<Rightarrow>
             let h = (case p_nsproxy child of None \<Rightarrow> h | Some c \<Rightarrow> nsproxy_put c h);
                 child = child\<lparr>p_nsproxy := Some i\<rparr>
             in (case prox h i of
                   None \<Rightarrow> (0, child, bad_access h)
                 | Some np \<Rightarrow>
                     (case pid_ns_register (np_pid_ns np) (p_pid child) h of
                        (ok, h) \<Rightarrow> (if ok then 0 else - EAGAIN, child, h)))))"

text \<open>Only the pointer for children is replaced by \<open>ns_unshare\<close>.\<close>

definition unshare_newpid :: "nat \<Rightarrow> nsheap \<Rightarrow> int \<times> nsheap" where
  "unshare_newpid i h =
     (case prox h i of
        None \<Rightarrow> (0, bad_access h)
      | Some p \<Rightarrow>
          (case pid_ns_create (np_pid_ns p) h of
             (None, h) \<Rightarrow> (- ENOMEM, h)
           | (Some a, h) \<Rightarrow>
               let h = ns_common_put (np_pid_ns_for_children p) h;
                   h = ns_common_get a h
               in (0, put_prox i (Some (p\<lparr>np_pid_ns_for_children := a\<rparr>)) h)))"

text \<open>\<open>ns_user_is_root\<close> and \<open>ns_user_is_initial\<close>.\<close>

definition user_of :: "nat \<Rightarrow> nsheap \<Rightarrow> user_ns option" where
  "user_of a h =
     (if a = init_user_ns then None
      else case obj h a of Some x \<Rightarrow> (case o_body x of Ns_user u \<Rightarrow> Some u | _ \<Rightarrow> None) | None \<Rightarrow> None)"

definition ns_user_is_root :: "proc \<Rightarrow> nsheap \<Rightarrow> bool" where
  "ns_user_is_root p h =
     (case p_nsproxy p of
        None \<Rightarrow> False
      | Some i \<Rightarrow>
          (case prox h i of
             None \<Rightarrow> False
           | Some np \<Rightarrow> snd (ns_uid_to_local (user_of (np_user_ns np) h) (p_euid p)) = 0))"

definition ns_user_is_initial :: "proc \<Rightarrow> nsheap \<Rightarrow> bool" where
  "ns_user_is_initial p h =
     (case p_nsproxy p of
        None \<Rightarrow> True
      | Some i \<Rightarrow> (case prox h i of None \<Rightarrow> False | Some np \<Rightarrow> np_user_ns np = init_user_ns))"

definition ns_unshare :: "proc \<Rightarrow> bool \<Rightarrow> u64 \<Rightarrow> nsheap \<Rightarrow> int \<times> proc \<times> nsheap" where
  "ns_unshare p priv flags h =
     (if flags AND NOT NS_CLONE_ALL \<noteq> 0 then (- EINVAL, p, h)
      else if flags = 0 then (0, p, h)
      else if p_is_thread p \<noteq> 0 \<and> flags AND (CLONE_NEWUSER OR CLONE_NEWPID OR CLONE_NEWNS) \<noteq> 0
      then (- EINVAL, p, h)
      else if flags AND CLONE_NEWUSER = 0 \<and> \<not> priv \<and> \<not> ns_user_is_root p h then (- EPERM, p, h)
      else
        (case nsproxy_clone (p_nsproxy p) h of
           (None, h) \<Rightarrow> (- ENOMEM, p, h)
         | (Some i, h) \<Rightarrow>
             (case (case apply_steps i flags (ns_steps (p_euid p)) h of
                      (r, h) \<Rightarrow> if r \<noteq> 0 \<or> flags AND CLONE_NEWPID = 0 then (r, h) else unshare_newpid i h) of
                (r, h) \<Rightarrow>
                  if r \<noteq> 0 then (- ENOMEM, p, nsproxy_put i h)
                  else (0, p\<lparr>p_nsproxy := Some i\<rparr>,
                        case p_nsproxy p of None \<Rightarrow> h | Some old \<Rightarrow> nsproxy_put old h))))"

definition type_flag :: "u32 \<Rightarrow> int" where
  "type_flag type =
     (if type = NS_TYPE_USER then uint CLONE_NEWUSER
      else if type = NS_TYPE_PID then uint CLONE_NEWPID
      else if type = NS_TYPE_MNT then uint CLONE_NEWNS
      else if type = NS_TYPE_UTS then uint CLONE_NEWUTS
      else if type = NS_TYPE_IPC then uint CLONE_NEWIPC
      else if type = NS_TYPE_NET then uint CLONE_NEWNET
      else if type = NS_TYPE_CGROUP then uint CLONE_NEWCGROUP
      else - 1)"

definition ns_type_name :: "u32 \<Rightarrow> string" where
  "ns_type_name type =
     (if type = NS_TYPE_USER then ''user''
      else if type = NS_TYPE_PID then ''pid''
      else if type = NS_TYPE_MNT then ''mnt''
      else if type = NS_TYPE_UTS then ''uts''
      else if type = NS_TYPE_IPC then ''ipc''
      else if type = NS_TYPE_NET then ''net''
      else if type = NS_TYPE_CGROUP then ''cgroup''
      else ''?'')"

text \<open>The last part of the path names the type, and whether the namespace for children is meant.\<close>

definition parse_ns_type :: "string \<Rightarrow> (u32 \<times> bool) option" where
  "parse_ns_type s =
     (if s = ''user'' then Some (NS_TYPE_USER, False)
      else if s = ''pid'' then Some (NS_TYPE_PID, False)
      else if s = ''pid_for_children'' then Some (NS_TYPE_PID, True)
      else if s = ''mnt'' then Some (NS_TYPE_MNT, False)
      else if s = ''uts'' then Some (NS_TYPE_UTS, False)
      else if s = ''ipc'' then Some (NS_TYPE_IPC, False)
      else if s = ''net'' then Some (NS_TYPE_NET, False)
      else if s = ''cgroup'' then Some (NS_TYPE_CGROUP, False)
      else None)"

fun pid_digits :: "string \<Rightarrow> u32 \<Rightarrow> u32 \<times> string" where
  "pid_digits [] v = (v, [])"
| "pid_digits (c # s) v = (if is_digit c then pid_digits s (v * 10 + of_nat (digit_val c)) else (v, c # s))"

text \<open>\<open>parse_ns_path\<close>: \<^term>\<open>None\<close> in place of a process id stands for \<open>self\<close>.\<close>

definition parse_ns_path :: "string \<Rightarrow> (u32 option \<times> u32 \<times> bool) option" where
  "parse_ns_path path =
     (if take 6 path \<noteq> ''/proc/'' then None
      else
        let s = drop 6 path in
        if take 8 s = ''self/ns/'' then map_option (\<lambda>(t, c). (None, t, c)) (parse_ns_type (drop 8 s))
        else
          let (pid, r) = pid_digits s 0 in
          if r = s \<or> take 4 r \<noteq> ''/ns/'' then None
          else map_option (\<lambda>(t, c). (Some pid, t, c)) (parse_ns_type (drop 4 r)))"

definition type_slot :: "u32 \<Rightarrow> bool \<Rightarrow> ns_slot option" where
  "type_slot type for_children =
     (if type = NS_TYPE_USER then Some S_user
      else if type = NS_TYPE_PID then Some (if for_children then S_pid_children else S_pid)
      else if type = NS_TYPE_MNT then Some S_mnt
      else if type = NS_TYPE_UTS then Some S_uts
      else if type = NS_TYPE_IPC then Some S_ipc
      else if type = NS_TYPE_NET then Some S_net
      else if type = NS_TYPE_CGROUP then Some S_cgroup
      else None)"

definition ns_for_proc :: "proc \<Rightarrow> u32 \<Rightarrow> bool \<Rightarrow> nsheap \<Rightarrow> nat option" where
  "ns_for_proc p type for_children h =
     (case p_nsproxy p of
        None \<Rightarrow> None
      | Some i \<Rightarrow>
          (case prox h i of
             None \<Rightarrow> None
           | Some np \<Rightarrow> map_option (\<lambda>s. slot_ns s np) (type_slot type for_children)))"

text \<open>\<open>setns\<close> with a process-id namespace changes the pointer for children.\<close>

definition setns_slot :: "u32 \<Rightarrow> ns_slot option" where
  "setns_slot type = (if type = NS_TYPE_PID then Some S_pid_children else type_slot type False)"

definition setns_install :: "proc \<Rightarrow> nat \<Rightarrow> u32 \<Rightarrow> nsheap \<Rightarrow> int \<times> nsheap" where
  "setns_install p src type h =
     (if type = NS_TYPE_USER \<and> p_is_thread p \<noteq> 0 then (- EINVAL, h)
      else
        (case setns_slot type of
           None \<Rightarrow> (0, h)
         | Some s \<Rightarrow>
             (case p_nsproxy p of
                None \<Rightarrow> (0, bad_access h)
              | Some i \<Rightarrow> (0, replace_slot i s src (ns_common_get src h)))))"

text \<open>
  \<open>ns_setns\<close> of the process in slot \<open>me\<close>; \<open>path\<close> is the absolute path of the node, if it has one. The
  target found by its id is held during the call.
\<close>

definition ns_setns :: "nat \<Rightarrow> bool \<Rightarrow> string option \<Rightarrow> int \<Rightarrow> nsheap \<times> kern \<Rightarrow> int \<times> nsheap \<times> kern" where
  "ns_setns me priv path nstype s =
     (let (h, k) = s in
      case path of
        None \<Rightarrow> (- EINVAL, h, k)
      | Some pth \<Rightarrow>
          (case parse_ns_path pth of
             None \<Rightarrow> (- EINVAL, h, k)
           | Some (pid, type, for_children) \<Rightarrow>
               if type_flag type < 0 then (- EINVAL, h, k)
               else if nstype \<noteq> 0 \<and> nstype \<noteq> type_flag type then (- EINVAL, h, k)
               else
                 (case (case pid of None \<Rightarrow> (Some me, k) | Some n \<Rightarrow> proc_find n k) of
                    (None, k) \<Rightarrow> (- ESRCH, h, k)
                  | (Some t, k) \<Rightarrow>
                      let finish = (\<lambda>r h. (r, h, if pid = None then k else proc_unref t k)) in
                      if \<not> priv \<and> \<not> ns_user_is_root (proc_at k me) h then finish (- EPERM) h
                      else
                        (case ns_for_proc (proc_at k t) type for_children h of
                           None \<Rightarrow> finish (- EINVAL) h
                         | Some src \<Rightarrow>
                             let (r, h) = setns_install (proc_at k me) src type h in finish r h))))"

section \<open>Mount table and host name\<close>

definition ns_mnt_set :: "proc \<Rightarrow> nat \<Rightarrow> nsheap \<Rightarrow> nsheap" where
  "ns_mnt_set p nm h =
     (case p_nsproxy p of None \<Rightarrow> h | Some i \<Rightarrow> replace_slot i S_mnt nm (ns_common_get nm h))"

definition ns_mnt_put :: "nat \<Rightarrow> nsheap \<Rightarrow> nsheap" where
  "ns_mnt_put nm h = ns_common_put nm h"

text \<open>The last used entry for the target wins.\<close>

definition ns_mnt_find :: "mnt_ns \<Rightarrow> string \<Rightarrow> nat option" where
  "ns_mnt_find m target =
     map_option (\<lambda>i. length (mn_mounts m) - 1 - i)
       (find_index (\<lambda>t. mt_used t \<and> mt_target t = target) (rev (mn_mounts m)))"

definition ns_uts_hostname :: "proc \<Rightarrow> nsheap \<Rightarrow> string" where
  "ns_uts_hostname p h =
     (case p_nsproxy p of
        None \<Rightarrow> ''kx''
      | Some i \<Rightarrow>
          (case prox h i of
             None \<Rightarrow> ''kx''
           | Some np \<Rightarrow>
               (case obj h (np_uts_ns np) of
                  Some x \<Rightarrow> (case o_body x of Ns_uts name \<Rightarrow> name | _ \<Rightarrow> ''kx'')
                | None \<Rightarrow> ''kx'')))"

definition ns_uts_sethostname :: "proc \<Rightarrow> string \<Rightarrow> nsheap \<Rightarrow> int \<times> nsheap" where
  "ns_uts_sethostname p name h =
     (case p_nsproxy p of
        None \<Rightarrow> (- EINVAL, h)
      | Some i \<Rightarrow>
          if name = [] \<or> 64 < length name then (- EINVAL, h)
          else
            (case prox h i of
               None \<Rightarrow> (0, bad_access h)
             | Some np \<Rightarrow>
                 (case obj h (np_uts_ns np) of
                    None \<Rightarrow> (0, bad_access h)
                  | Some x \<Rightarrow> (0, put_obj (np_uts_ns np) (Some (x\<lparr>o_body := Ns_uts name\<rparr>)) h))))"

text \<open>The state that \<open>ns_init\<close> leaves.\<close>

definition static_ns :: "u32 \<Rightarrow> ns_body \<Rightarrow> ns_common option" where
  "static_ns type body = Some \<lparr>o_type = type, o_refcnt = 1, o_dynamic = False, o_parent = None, o_body = body\<rparr>"

definition ns_init :: "nat \<Rightarrow> (nat \<Rightarrow> bool) \<Rightarrow> nsheap" where
  "ns_init vroot ok =
     \<lparr>nh_objs =
        [static_ns NS_TYPE_USER (Ns_user \<lparr>u_owner = 0, u_map_written = False, u_gid_map_written = False,
           u_groups_disabled = False, u_uid_map = [], u_gid_map = []\<rparr>),
         static_ns NS_TYPE_PID (Ns_pid \<lparr>pn_level = 0, pn_next_pid = NS_PID_MAX + 1,
           pn_local_of_global = map (\<lambda>i. of_nat (i + 1)) [0..<64],
           pn_global_of_local = map (\<lambda>i. of_nat (i + 1)) [0..<64]\<rparr>),
         static_ns NS_TYPE_MNT (Ns_mnt \<lparr>mn_root = None, mn_root_flags = 0, mn_nmounts = 0,
           mn_mounts = replicate NS_MNT_MAX \<lparr>mt_target = [], mt_source = [], mt_fstype = [], mt_root = None,
             mt_flags = 0, mt_used = False\<rparr>\<rparr>),
         static_ns NS_TYPE_UTS (Ns_uts ''kx''), static_ns NS_TYPE_IPC Ns_simple, static_ns NS_TYPE_NET Ns_simple,
         static_ns NS_TYPE_CGROUP Ns_simple],
      nh_prox = [Some \<lparr>np_refcnt = 1, np_dynamic = False, np_user_ns = init_user_ns, np_pid_ns = init_pid_ns,
        np_pid_ns_for_children = init_pid_ns, np_mnt_ns = init_mnt_ns, np_uts_ns = init_uts_ns,
        np_ipc_ns = init_ipc_ns, np_net_ns = init_net_ns, np_cgroup_ns = init_cgroup_ns\<rparr>],
      nh_nodes = (\<lambda>_. 0), nh_vfs_root = vroot, nh_kmalloc_ok = ok, nh_reqs = 0, nh_bad = False\<rparr>"

end
