(* ===== verification/Nsref.thy ===== *)
theory Nsref
  imports Ns
begin

text \<open>
  Reference counting of the namespaces: no operation of \<open>src/kernel/proc/ns.c\<close> reaches a namespace or a bundle
  that has been freed, whatever sequence of forks, exits, \<open>unshare\<close> and \<open>setns\<close> calls is made.
\<close>


section \<open>References and counts\<close>

text \<open>
  The references that exist: the pointers of the bundles and the parent pointers of the objects that still
  have a count. The core invariant relates them, together with the references \<open>ext\<close> that an operation holds
  at the moment, to the counts: what is referenced exists, and no object that can be freed has fewer counts
  than references.
\<close>

fun prox_refs :: "nsproxy option \<Rightarrow> nat list" where
  "prox_refs None = []"
| "prox_refs (Some p) = np_list p"

fun par_refs :: "ns_common option \<Rightarrow> nat list" where
  "par_refs None = []"
| "par_refs (Some x) = (if 0 < o_refcnt x then (case o_parent x of None \<Rightarrow> [] | Some q \<Rightarrow> [q]) else [])"

definition refs :: "nsheap \<Rightarrow> nat multiset" where
  "refs h = mset (concat (map prox_refs (nh_prox h))) + mset (concat (map par_refs (nh_objs h)))"

definition no_parent_kind :: "ns_body \<Rightarrow> bool" where
  "no_parent_kind b = (case b of Ns_user _ \<Rightarrow> False | Ns_pid _ \<Rightarrow> False | _ \<Rightarrow> True)"

definition obj_wf :: "ns_common \<Rightarrow> bool" where
  "obj_wf x \<longleftrightarrow> (\<not> o_dynamic x \<or> no_parent_kind (o_body x) \<longrightarrow> o_parent x = None)"

definition core_inv :: "nat multiset \<Rightarrow> nsheap \<Rightarrow> bool" where
  "core_inv ext h \<longleftrightarrow> (\<forall>a \<in># refs h + ext. obj h a \<noteq> None) \<and>
     (\<forall>a x. obj h a = Some x \<longrightarrow> obj_wf x \<and> (o_dynamic x \<longrightarrow> count (refs h + ext) a \<le> o_refcnt x))"

lemma mset_concat_update:
  "i < length xs \<Longrightarrow> mset (concat (map f (xs[i := y]))) + mset (f (xs ! i)) = mset (concat (map f xs)) + mset (f y)"
  by (induction xs arbitrary: i) (auto split: nat.splits simp: ac_simps)

lemma refs_put_obj:
  "a < length (nh_objs h) \<Longrightarrow> refs (put_obj a x h) + mset (par_refs (nh_objs h ! a)) = refs h + mset (par_refs x)"
  using mset_concat_update [of a "nh_objs h" par_refs x] by (simp add: refs_def put_obj_def ac_simps)

lemma refs_put_prox:
  "i < length (nh_prox h) \<Longrightarrow> refs (put_prox i x h) + mset (prox_refs (nh_prox h ! i)) = refs h + mset (prox_refs x)"
  using mset_concat_update [of i "nh_prox h" prox_refs x] by (simp add: refs_def put_prox_def ac_simps)

lemma refs_same: "par_refs x = par_refs (nh_objs h ! a) \<Longrightarrow> a < length (nh_objs h) \<Longrightarrow> refs (put_obj a x h) = refs h"
  using refs_put_obj [of a h x] by simp

lemma put_obj_simps [simp]:
  "nh_prox (put_obj a x h) = nh_prox h" "nh_bad (put_obj a x h) = nh_bad h"
  "length (nh_objs (put_obj a x h)) = length (nh_objs h)"
  "nh_kmalloc_ok (put_obj a x h) = nh_kmalloc_ok h" "nh_reqs (put_obj a x h) = nh_reqs h"
  by (simp_all add: put_obj_def)

lemma put_prox_simps [simp]:
  "nh_objs (put_prox i p h) = nh_objs h" "nh_bad (put_prox i p h) = nh_bad h"
  "length (nh_prox (put_prox i p h)) = length (nh_prox h)"
  "nh_kmalloc_ok (put_prox i p h) = nh_kmalloc_ok h" "nh_reqs (put_prox i p h) = nh_reqs h"
  by (simp_all add: put_prox_def)

lemma obj_put_obj: "a < length (nh_objs h) \<Longrightarrow> obj (put_obj a x h) b = (if b = a then x else obj h b)"
  by (simp add: put_obj_def obj_def)

lemma prox_put_prox: "i < length (nh_prox h) \<Longrightarrow> prox (put_prox i p h) j = (if j = i then p else prox h j)"
  by (simp add: put_prox_def prox_def)

text \<open>What a release may do to the heap: counts go down and objects disappear.\<close>

definition shrinks :: "nsheap \<Rightarrow> nsheap \<Rightarrow> bool" where
  "shrinks h h' \<longleftrightarrow> nh_prox h' = nh_prox h \<and> length (nh_objs h') = length (nh_objs h) \<and> nh_bad h' = nh_bad h \<and>
     (\<forall>b y. obj h' b = Some y \<longrightarrow> (\<exists>x n. obj h b = Some x \<and> y = x\<lparr>o_refcnt := n\<rparr> \<and> (0 < n \<longrightarrow> 0 < o_refcnt x)))"

lemma refcnt_self: "\<exists>n. y = y\<lparr>o_refcnt := n\<rparr> \<and> (0 < n \<longrightarrow> 0 < o_refcnt y)"
  by (rule exI [of _ "o_refcnt y"]) simp

lemma shrinks_refl: "shrinks h h"
  by (auto simp: shrinks_def refcnt_self)

lemma shrinks_trans:
  assumes "shrinks h h1" "shrinks h1 h2"
  shows "shrinks h h2"
  unfolding shrinks_def
proof (intro conjI allI impI)
  fix b y
  assume "obj h2 b = Some y"
  with assms(2) obtain x n where 1: "obj h1 b = Some x" "y = x\<lparr>o_refcnt := n\<rparr>" "0 < n \<longrightarrow> 0 < o_refcnt x"
    unfolding shrinks_def by metis
  with assms(1) obtain x' n' where "obj h b = Some x'" "x = x'\<lparr>o_refcnt := n'\<rparr>" "0 < n' \<longrightarrow> 0 < o_refcnt x'"
    unfolding shrinks_def by metis
  with 1 show "\<exists>x n. obj h b = Some x \<and> y = x\<lparr>o_refcnt := n\<rparr> \<and> (0 < n \<longrightarrow> 0 < o_refcnt x)" by auto
qed (use assms in \<open>auto simp: shrinks_def\<close>)

lemma shrinks_put_obj:
  "obj h a = Some x \<Longrightarrow> y = None \<or> (\<exists>n. y = Some (x\<lparr>o_refcnt := n\<rparr>) \<and> (0 < n \<longrightarrow> 0 < o_refcnt x)) \<Longrightarrow>
   shrinks h (put_obj a y h)"
  unfolding shrinks_def
  by (auto simp: put_obj_def obj_def nth_list_update refcnt_self split: if_splits)

lemma par_refs_shrink:
  assumes "0 < n \<longrightarrow> 0 < o_refcnt x"
  shows "set (par_refs (Some (x\<lparr>o_refcnt := n\<rparr>))) \<subseteq> set (par_refs (Some x))"
proof (cases "0 < n")
  case True
  with assms have "par_refs (Some (x\<lparr>o_refcnt := n\<rparr>)) = par_refs (Some x)" by simp
  then show ?thesis by (simp only: subset_refl)
next
  case False
  then have "par_refs (Some (x\<lparr>o_refcnt := n\<rparr>)) = []" by simp
  then show ?thesis by (simp only: list.set empty_subsetI)
qed

lemma shrinks_refs:
  assumes "shrinks h h'"
  shows "set_mset (refs h') \<subseteq> set_mset (refs h)"
proof -
  have len: "length (nh_objs h') = length (nh_objs h)" "nh_prox h' = nh_prox h"
    using assms by (auto simp: shrinks_def)
  have "set (par_refs (nh_objs h' ! b)) \<subseteq> set (par_refs (nh_objs h ! b))" if b: "b < length (nh_objs h)" for b
  proof (cases "nh_objs h' ! b")
    case (Some y)
    with b len have "obj h' b = Some y" by (simp add: obj_def)
    with assms obtain x n where x: "obj h b = Some x" "y = x\<lparr>o_refcnt := n\<rparr>" "0 < n \<longrightarrow> 0 < o_refcnt x"
      unfolding shrinks_def by metis
    with b have hx: "nh_objs h ! b = Some x" by (simp add: obj_def)
    show ?thesis unfolding Some hx x(2) by (rule par_refs_shrink [OF x(3)])
  qed simp
  note pr = this
  have "c \<in> set (concat (map par_refs (nh_objs h)))" if c: "c \<in> set (concat (map par_refs (nh_objs h')))" for c
  proof -
    from c obtain o' where o': "o' \<in> set (nh_objs h')" "c \<in> set (par_refs o')"
      unfolding set_concat set_map by blast
    from o'(1) obtain b where "b < length (nh_objs h')" "nh_objs h' ! b = o'" unfolding in_set_conv_nth by blast
    with o'(2) len(1) have b: "b < length (nh_objs h)" "c \<in> set (par_refs (nh_objs h' ! b))" by simp_all
    then have "c \<in> set (par_refs (nh_objs h ! b))" using pr by blast
    then show ?thesis unfolding set_concat set_map using nth_mem [OF b(1)] by blast
  qed
  then show ?thesis unfolding refs_def len(2) by auto
qed

lemma mnt_release_frame [simp]:
  "nh_objs (mnt_release m h) = nh_objs h" "nh_prox (mnt_release m h) = nh_prox h" "nh_bad (mnt_release m h) = nh_bad h"
proof -
  have "nh_objs (fold (\<lambda>t h. if mt_used t then node_unref (mt_root t) h else h) ts h) = nh_objs h \<and>
    nh_prox (fold (\<lambda>t h. if mt_used t then node_unref (mt_root t) h else h) ts h) = nh_prox h \<and>
    nh_bad (fold (\<lambda>t h. if mt_used t then node_unref (mt_root t) h else h) ts h) = nh_bad h" for ts :: "mnt_mount list"
    by (induction ts arbitrary: h) auto
  then show "nh_objs (mnt_release m h) = nh_objs h" "nh_prox (mnt_release m h) = nh_prox h"
    "nh_bad (mnt_release m h) = nh_bad h" by (simp_all add: mnt_release_def)
qed

text \<open>The heap matters to the invariant only through objects and bundles.\<close>

lemma core_inv_cong: "nh_objs h' = nh_objs h \<Longrightarrow> nh_prox h' = nh_prox h \<Longrightarrow> core_inv ext h' = core_inv ext h"
  by (simp add: core_inv_def refs_def obj_def)


section \<open>Releasing and taking a reference\<close>

lemma obj_lt: "obj h a = Some x \<Longrightarrow> a < length (nh_objs h) \<and> nh_objs h ! a = Some x"
  by (simp add: obj_def split: if_splits)

lemma prox_lt: "prox h i = Some p \<Longrightarrow> i < length (nh_prox h) \<and> nh_prox h ! i = Some p"
  by (simp add: prox_def split: if_splits)

lemma obj_upd: "obj h a = Some x \<Longrightarrow> obj (put_obj a y h) b = (if b = a then y else obj h b)"
  by (rule obj_put_obj) (simp add: obj_lt)

lemma prox_upd: "prox h i = Some p \<Longrightarrow> prox (put_prox i q h) j = (if j = i then q else prox h j)"
  by (rule prox_put_prox) (simp add: prox_lt)

lemma obj_put_prox [simp]: "obj (put_prox i q h) b = obj h b"
  by (simp add: obj_def)

lemma prox_put_obj [simp]: "prox (put_obj a x h) i = prox h i"
  by (simp add: prox_def)

text \<open>An update that keeps what the object refers to keeps the references of the heap.\<close>

lemma refs_keep:
  assumes "obj h a = Some x" "par_refs y = par_refs (Some x)"
  shows "refs (put_obj a y h) = refs h"
  using refs_same [of y h a] obj_lt [OF assms(1)] assms(2) by simp

lemma core_inv_put_obj:
  assumes inv: "core_inv ext h" and x: "obj h a = Some x"
    and r: "refs (put_obj a (Some y) h) + ext' \<subseteq># refs h + add_mset a ext"
    and y: "obj_wf y" "o_dynamic y \<longrightarrow> count (refs (put_obj a (Some y) h) + ext') a \<le> o_refcnt y"
  shows "core_inv ext' (put_obj a (Some y) h)"
proof -
  note o = obj_upd [OF x, of "Some y"]
  have "obj (put_obj a (Some y) h) b \<noteq> None" if b: "b \<in># refs (put_obj a (Some y) h) + ext'" for b
  proof (cases "b = a")
    case False
    with mset_subset_eqD [OF r b] have "b \<in># refs h + ext" by auto
    with inv have "obj h b \<noteq> None" unfolding core_inv_def by blast
    then show ?thesis unfolding o by simp
  qed (simp add: o)
  moreover have "obj_wf z \<and> (o_dynamic z \<longrightarrow> count (refs (put_obj a (Some y) h) + ext') b \<le> o_refcnt z)"
    if z: "obj (put_obj a (Some y) h) b = Some z" for b z
  proof (cases "b = a")
    case False
    with z have "obj h b = Some z" unfolding o by simp
    with inv have "obj_wf z \<and> (o_dynamic z \<longrightarrow> count (refs h + ext) b \<le> o_refcnt z)" unfolding core_inv_def by blast
    with mset_subset_eq_count [OF r, of b] False show ?thesis by auto
  qed (use z y in \<open>simp add: o\<close>)
  ultimately show ?thesis unfolding core_inv_def by blast
qed

lemma obj_wf_refcnt [simp]: "obj_wf (x\<lparr>o_refcnt := n\<rparr>) = obj_wf x"
  by (simp add: obj_wf_def)

lemma core_inv_obj: "core_inv ext h \<Longrightarrow> a \<in># refs h + ext \<Longrightarrow> \<exists>x. obj h a = Some x"
  unfolding core_inv_def by blast

lemma core_inv_count:
  "core_inv ext h \<Longrightarrow> obj h a = Some x \<Longrightarrow> obj_wf x \<and> (o_dynamic x \<longrightarrow> count (refs h + ext) a \<le> o_refcnt x)"
  unfolding core_inv_def by blast

lemma core_inv_remove:
  assumes "core_inv ext h" "a \<notin># refs h + ext" "\<And>x. obj h a = Some x \<Longrightarrow> par_refs (Some x) = []"
  shows "core_inv ext (put_obj a None h)"
proof (cases "obj h a")
  case None
  then have "put_obj a None h = h"
    by (cases "a < length (nh_objs h)") (simp_all add: put_obj_def obj_def list_update_same_conv list_update_beyond)
  with assms(1) show ?thesis by simp
next
  case (Some x)
  note o = obj_upd [OF Some, of None]
  have r: "refs (put_obj a None h) = refs h" using refs_keep [OF Some, of None] assms(3) [OF Some] by simp
  have "obj (put_obj a None h) b \<noteq> None" if "b \<in># refs h + ext" for b
    using that assms(1,2) unfolding o core_inv_def by auto
  moreover have "obj_wf z \<and> (o_dynamic z \<longrightarrow> count (refs h + ext) b \<le> o_refcnt z)"
    if "obj (put_obj a None h) b = Some z" for b z
    using that assms(1) unfolding o core_inv_def by (auto split: if_splits)
  ultimately show ?thesis unfolding core_inv_def r by blast
qed

lemma get_core:
  assumes inv: "core_inv ext h" and x: "obj h a = Some x" and d: "o_dynamic x \<longrightarrow> 0 < o_refcnt x"
  shows "core_inv (add_mset a ext) (ns_common_get a h)"
proof -
  let ?y = "x\<lparr>o_refcnt := Suc (o_refcnt x)\<rparr>"
  have p: "par_refs (Some ?y) = par_refs (Some x)"
    using d core_inv_count [OF inv x] by (cases "o_dynamic x") (simp_all add: obj_wf_def)
  note r = refs_keep [OF x p]
  have "core_inv (add_mset a ext) (put_obj a (Some ?y) h)"
    by (rule core_inv_put_obj [OF inv x]) (use core_inv_count [OF inv x] in \<open>simp_all add: r\<close>)
  then show ?thesis by (simp add: ns_common_get_def x)
qed

lemma shrinks_same: "nh_objs h' = nh_objs h \<Longrightarrow> nh_prox h' = nh_prox h \<Longrightarrow> nh_bad h' = nh_bad h \<Longrightarrow> shrinks h h'"
  by (simp add: shrinks_def obj_def refcnt_self)

lemma par_refs_static: "obj_wf x \<Longrightarrow> \<not> o_dynamic x \<Longrightarrow> par_refs (Some (x\<lparr>o_refcnt := n\<rparr>)) = []"
  by (simp add: obj_wf_def)

text \<open>One reference less, when it is not the last one of a dynamic object.\<close>

lemma drop_core:
  assumes inv: "core_inv (add_mset a ext) h" and x: "obj h a = Some x"
    and n: "o_dynamic x \<longrightarrow> 0 < n \<and> Suc n = o_refcnt x" "0 < n \<longrightarrow> 0 < o_refcnt x"
  shows "core_inv ext (put_obj a (Some (x\<lparr>o_refcnt := n\<rparr>)) h) \<and> shrinks h (put_obj a (Some (x\<lparr>o_refcnt := n\<rparr>)) h)"
proof -
  note c = core_inv_count [OF inv x]
  have "par_refs (Some (x\<lparr>o_refcnt := n\<rparr>)) = par_refs (Some x)"
    using c n by (cases "o_dynamic x") (simp_all add: obj_wf_def)
  note r = refs_keep [OF x this]
  have "core_inv ext (put_obj a (Some (x\<lparr>o_refcnt := n\<rparr>)) h)"
    by (rule core_inv_put_obj [OF inv x]) (use c n in \<open>auto simp: r\<close>)
  moreover have "shrinks h (put_obj a (Some (x\<lparr>o_refcnt := n\<rparr>)) h)"
    by (rule shrinks_put_obj [OF x]) (use n in auto)
  ultimately show ?thesis by simp
qed

text \<open>The last reference of a dynamic object: what it refers to is now held by the release itself.\<close>

lemma dying_core:
  assumes inv: "core_inv (add_mset a ext) h" and x: "obj h a = Some x" "o_refcnt x = 1" "o_dynamic x"
  defines "h1 \<equiv> put_obj a (Some (x\<lparr>o_refcnt := 0\<rparr>)) h"
  shows "core_inv (mset (par_refs (Some x)) + ext) h1" "a \<notin># refs h + ext" "shrinks h h1"
    "obj h1 a = Some (x\<lparr>o_refcnt := 0\<rparr>)" "refs h1 + mset (par_refs (Some x)) = refs h"
proof -
  note c = core_inv_count [OF inv x(1)]
  note a = obj_lt [OF x(1)]
  show r: "refs h1 + mset (par_refs (Some x)) = refs h"
    using refs_put_obj [OF conjunct1 [OF a], of "Some (x\<lparr>o_refcnt := 0\<rparr>)"] unfolding conjunct2 [OF a] h1_def by simp
  have cnt: "count (refs h + ext) a = 0" using c x(2,3) by simp
  then show "a \<notin># refs h + ext" by (simp add: not_in_iff)
  show "shrinks h h1" unfolding h1_def by (rule shrinks_put_obj [OF x(1)]) auto
  show "obj h1 a = Some (x\<lparr>o_refcnt := 0\<rparr>)" unfolding h1_def by (simp add: obj_upd [OF x(1)])
  have e: "refs h1 + (mset (par_refs (Some x)) + ext) = refs h + ext" using r by (simp add: add.assoc [symmetric])
  show "core_inv (mset (par_refs (Some x)) + ext) h1"
    unfolding h1_def
  proof (rule core_inv_put_obj [OF inv x(1)], fold h1_def)
    show "refs h1 + (mset (par_refs (Some x)) + ext) \<subseteq># refs h + add_mset a (add_mset a ext)" unfolding e by simp
    show "o_dynamic (x\<lparr>o_refcnt := 0\<rparr>) \<longrightarrow> count (refs h1 + (mset (par_refs (Some x)) + ext)) a \<le> o_refcnt (x\<lparr>o_refcnt := 0\<rparr>)"
      unfolding e cnt by simp
  qed (use c in simp)
qed

lemma dead_core:
  assumes inv: "core_inv ext h2" and s: "shrinks h1 h2" and a: "a \<notin># refs h1 + ext"
    and x: "obj h1 a = Some (x\<lparr>o_refcnt := 0\<rparr>)"
  shows "core_inv ext (put_obj a None h2)" "shrinks h1 (put_obj a None h2)"
proof -
  have y0: "o_refcnt y = 0" if "obj h2 a = Some y" for y
    using that s x unfolding shrinks_def by fastforce
  show "core_inv ext (put_obj a None h2)"
    by (rule core_inv_remove [OF inv]) (use a shrinks_refs [OF s] y0 in auto)
  have "shrinks h2 (put_obj a None h2)"
  proof (cases "obj h2 a")
    case None
    then have "put_obj a None h2 = h2"
      by (cases "a < length (nh_objs h2)") (simp_all add: put_obj_def obj_def list_update_same_conv list_update_beyond)
    then show ?thesis by (simp add: shrinks_refl)
  qed (auto intro: shrinks_put_obj)
  with s show "shrinks h1 (put_obj a None h2)" by (rule shrinks_trans)
qed

lemma put_core:
  "core_inv (add_mset a ext) h \<Longrightarrow> core_inv ext (ns_common_put a h) \<and> shrinks h (ns_common_put a h)"
proof (induction a h arbitrary: ext rule: ns_common_put.induct)
  case (1 a h)
  obtain x where x: "obj h a = Some x" using core_inv_obj [OF "1.prems", of a] by auto
  note c = core_inv_count [OF "1.prems" x]
  consider "o_refcnt x \<noteq> 1" | "o_refcnt x = 1" "\<not> o_dynamic x" | "o_refcnt x = 1" "o_dynamic x" by blast
  then show ?case
  proof cases
    case 1
    then have "ns_common_put a h = put_obj a (Some (x\<lparr>o_refcnt := o_refcnt x - 1\<rparr>)) h"
      by (subst ns_common_put.simps) (simp add: x)
    moreover have "o_dynamic x \<longrightarrow> 0 < o_refcnt x - 1 \<and> Suc (o_refcnt x - 1) = o_refcnt x" using c 1 by auto
    ultimately show ?thesis using drop_core [OF "1.prems" x, of "o_refcnt x - 1"] by simp
  next
    case 2
    then have "ns_common_put a h = put_obj a (Some (x\<lparr>o_refcnt := 0\<rparr>)) h"
      by (subst ns_common_put.simps) (simp add: x)
    then show ?thesis using drop_core [OF "1.prems" x, of 0] 2 by simp
  next
    case 3
    let ?h1 = "put_obj a (Some (x\<lparr>o_refcnt := 0\<rparr>)) h"
    note d = dying_core [OF "1.prems" x 3]
    have a1: "a \<notin># refs ?h1 + ext" using d(2) unfolding d(5) [symmetric] by (simp del: par_refs.simps)
    have "\<exists>h2. ns_common_put a h = put_obj a None h2 \<and> core_inv ext h2 \<and> shrinks ?h1 h2"
    proof (cases "\<exists>m. o_body x = Ns_mnt m")
      case True
      then obtain m where m: "o_body x = Ns_mnt m" ..
      with c have "par_refs (Some x) = []" by (simp add: obj_wf_def no_parent_kind_def)
      with d(1) have "core_inv ext (mnt_release m ?h1)" by (simp add: core_inv_cong [OF mnt_release_frame(1,2)])
      moreover have "shrinks ?h1 (mnt_release m ?h1)" by (rule shrinks_same) simp_all
      moreover have "ns_common_put a h = put_obj a None (mnt_release m ?h1)"
        by (subst ns_common_put.simps) (simp add: x 3 m)
      ultimately show ?thesis by blast
    next
      case False
      show ?thesis
      proof (cases "o_parent x")
        case None
        have "ns_common_put a h = put_obj a None ?h1"
          by (cases "o_body x") (use False in \<open>simp_all add: ns_common_put.simps [of a h] x 3 None\<close>)
        moreover have "core_inv ext ?h1" using d(1) 3(1) None by simp
        ultimately show ?thesis using shrinks_refl [of ?h1] by blast
      next
        case (Some q)
        have e: "ns_common_put a h = put_obj a None (ns_common_put q ?h1)"
          by (cases "o_body x") (use False in \<open>simp_all add: ns_common_put.simps [of a h] x 3 Some\<close>)
        have q: "core_inv (add_mset q ext) ?h1" using d(1) Some 3 by simp
        have "core_inv ext (ns_common_put q ?h1) \<and> shrinks ?h1 (ns_common_put q ?h1)"
          by (cases "o_body x") (use "1.IH" x 3 Some q False in auto)
        with e show ?thesis by blast
      qed
    qed
    then obtain h2 where h2: "ns_common_put a h = put_obj a None h2" "core_inv ext h2" "shrinks ?h1 h2" by blast
    show ?thesis unfolding h2(1)
      using dead_core [OF h2(2,3) a1 d(4)] shrinks_trans [OF d(3)] by blast
  qed
qed


section \<open>The invariant of the namespaces\<close>

text \<open>
  The tables of a process-id namespace are inverse to each other, and the numbers in use are below the next
  one to be given out.
\<close>

definition pid_ok :: "pid_ns \<Rightarrow> bool" where
  "pid_ok p \<longleftrightarrow> length (pn_local_of_global p) = 64 \<and> length (pn_global_of_local p) = 64 \<and>
     (\<forall>g < 64. let l = pn_local_of_global p ! g in
        l \<noteq> 0 \<longrightarrow> unat l \<le> 64 \<and> l < pn_next_pid p \<and> unat (pn_global_of_local p ! pid_slot l) = Suc g) \<and>
     (\<forall>j < 64. let g = pn_global_of_local p ! j in
        g \<noteq> 0 \<longrightarrow> unat g \<le> 64 \<and> unat (pn_local_of_global p ! pid_slot g) = Suc j)"

fun body_ok :: "ns_body \<Rightarrow> bool" where
  "body_ok (Ns_pid p) = pid_ok p"
| "body_ok _ = True"

fun kind_no :: "ns_body \<Rightarrow> nat" where
  "kind_no (Ns_user _) = 0"
| "kind_no (Ns_pid _) = 1"
| "kind_no (Ns_mnt _) = 2"
| "kind_no (Ns_uts _) = 3"
| "kind_no Ns_simple = 4"

fun slot_kind :: "ns_slot \<Rightarrow> nat" where
  "slot_kind S_user = 0"
| "slot_kind S_pid = 1"
| "slot_kind S_pid_children = 1"
| "slot_kind S_mnt = 2"
| "slot_kind S_uts = 3"
| "slot_kind _ = 4"

definition kind_at :: "nsheap \<Rightarrow> nat \<Rightarrow> nat option" where
  "kind_at h a = map_option (\<lambda>x. kind_no (o_body x)) (obj h a)"

text \<open>Every pointer leads to an object of its kind, and parents are older than their children.\<close>

definition typ_inv :: "nsheap \<Rightarrow> bool" where
  "typ_inv h \<longleftrightarrow>
     (\<forall>i p s k. prox h i = Some p \<longrightarrow> kind_at h (slot_ns s p) = Some k \<longrightarrow> k = slot_kind s) \<and>
     (\<forall>a x. obj h a = Some x \<longrightarrow> body_ok (o_body x) \<and>
        (\<forall>q. o_parent x = Some q \<longrightarrow> q < a \<and> (\<forall>k. kind_at h q = Some k \<longrightarrow> k = kind_no (o_body x))))"

text \<open>\<open>B\<close> are the bundles that processes point to. Only the initial bundle is static; it is never freed.\<close>

definition bund_inv :: "nat multiset \<Rightarrow> nsheap \<Rightarrow> bool" where
  "bund_inv B h \<longleftrightarrow> (\<forall>i \<in># B. prox h i \<noteq> None) \<and>
     (\<forall>i p. prox h i = Some p \<longrightarrow> np_dynamic p \<longrightarrow> count B i \<le> np_refcnt p) \<and>
     prox h 0 \<noteq> None \<and> (\<forall>i p. prox h i = Some p \<longrightarrow> np_dynamic p = (i \<noteq> 0))"

definition ns_inv :: "nat multiset \<Rightarrow> nat multiset \<Rightarrow> nsheap \<Rightarrow> bool" where
  "ns_inv ext B h \<longleftrightarrow> core_inv ext h \<and> typ_inv h \<and> bund_inv B h \<and> \<not> nh_bad h"

lemma bund_inv_cong: "nh_prox h' = nh_prox h \<Longrightarrow> bund_inv B h' = bund_inv B h"
  by (simp add: bund_inv_def prox_def)

text \<open>Objects may disappear and change their counts without harm to the typing.\<close>

lemma typ_inv_mono:
  assumes "typ_inv h" "nh_prox h' = nh_prox h"
    and "\<And>a y. obj h' a = Some y \<Longrightarrow> \<exists>x. obj h a = Some x \<and> o_parent y = o_parent x \<and>
           kind_no (o_body y) = kind_no (o_body x) \<and> body_ok (o_body y)"
  shows "typ_inv h'"
proof -
  have k: "kind_at h a = Some n" if n: "kind_at h' a = Some n" for a n
  proof -
    from n obtain y where y: "obj h' a = Some y" "kind_no (o_body y) = n" unfolding kind_at_def by auto
    with assms(3) [OF y(1)] show ?thesis unfolding kind_at_def by auto
  qed
  have px: "prox h' i = prox h i" for i using assms(2) by (simp add: prox_def)
  have "body_ok (o_body y) \<and> (\<forall>q. o_parent y = Some q \<longrightarrow> q < a \<and> (\<forall>k. kind_at h' q = Some k \<longrightarrow> k = kind_no (o_body y)))"
    if y: "obj h' a = Some y" for a y
  proof -
    from assms(3) [OF y] obtain x where x: "obj h a = Some x" "o_parent y = o_parent x"
      "kind_no (o_body y) = kind_no (o_body x)" "body_ok (o_body y)" by blast
    from assms(1) x(1) have "\<forall>q. o_parent x = Some q \<longrightarrow> q < a \<and> (\<forall>k. kind_at h q = Some k \<longrightarrow> k = kind_no (o_body x))"
      unfolding typ_inv_def by blast
    with k x(2-4) show ?thesis by simp
  qed
  moreover have "n = slot_kind s" if "prox h' i = Some p" "kind_at h' (slot_ns s p) = Some n" for i p s n
    using that k assms(1) unfolding px typ_inv_def by blast
  ultimately show ?thesis unfolding typ_inv_def by blast
qed

lemma typ_inv_body: "typ_inv h \<Longrightarrow> obj h a = Some x \<Longrightarrow> body_ok (o_body x)"
  unfolding typ_inv_def by blast

lemma typ_inv_slot: "typ_inv h \<Longrightarrow> prox h i = Some p \<Longrightarrow> obj h (slot_ns s p) = Some x \<Longrightarrow> kind_no (o_body x) = slot_kind s"
  unfolding typ_inv_def kind_at_def by (metis option.simps(9))

lemma typ_inv_shrinks:
  assumes "typ_inv h" "shrinks h h'"
  shows "typ_inv h'"
proof (rule typ_inv_mono [OF assms(1)])
  fix a y assume "obj h' a = Some y"
  with assms(2) obtain x n where x: "obj h a = Some x" "y = x\<lparr>o_refcnt := n\<rparr>" unfolding shrinks_def by metis
  with typ_inv_body [OF assms(1) x(1)] show "\<exists>x. obj h a = Some x \<and> o_parent y = o_parent x \<and>
      kind_no (o_body y) = kind_no (o_body x) \<and> body_ok (o_body y)" by simp
qed (use assms(2) in \<open>simp add: shrinks_def\<close>)

lemma put_inv: "ns_inv (add_mset a ext) B h \<Longrightarrow> ns_inv ext B (ns_common_put a h)"
  using put_core [of a ext h] typ_inv_shrinks [of h "ns_common_put a h"] bund_inv_cong [of "ns_common_put a h" h B]
  unfolding ns_inv_def shrinks_def by auto

lemma puts_inv: "ns_inv (mset as + ext) B h \<Longrightarrow> ns_inv ext B (fold ns_common_put as h)"
  by (induction as arbitrary: h) (simp_all add: put_inv)

lemma inv_obj: "ns_inv ext B h \<Longrightarrow> a \<in># refs h + ext \<Longrightarrow> \<exists>x. obj h a = Some x \<and> (o_dynamic x \<longrightarrow> 0 < o_refcnt x)"
proof -
  assume inv: "ns_inv ext B h" and a: "a \<in># refs h + ext"
  then obtain x where x: "obj h a = Some x" using core_inv_obj unfolding ns_inv_def by blast
  have "0 < count (refs h + ext) a" using a by (simp only: count_greater_zero_iff)
  moreover have "o_dynamic x \<longrightarrow> count (refs h + ext) a \<le> o_refcnt x"
    using core_inv_count [OF _ x] inv unfolding ns_inv_def by blast
  ultimately have "o_dynamic x \<longrightarrow> 0 < o_refcnt x" by linarith
  with x show ?thesis by blast
qed

lemma kind_put_obj: "obj h a = Some x \<Longrightarrow> kind_no (o_body y) = kind_no (o_body x) \<Longrightarrow> kind_at (put_obj a (Some y) h) b = kind_at h b"
  unfolding kind_at_def by (simp add: obj_upd)

lemma get_eq: "obj h a = Some x \<Longrightarrow> ns_common_get a h = put_obj a (Some (x\<lparr>o_refcnt := Suc (o_refcnt x)\<rparr>)) h"
  by (simp add: ns_common_get_def)

lemma get_inv:
  assumes inv: "ns_inv ext B h" and a: "a \<in># refs h + ext"
  shows "ns_inv (add_mset a ext) B (ns_common_get a h)" "kind_at (ns_common_get a h) b = kind_at h b"
    "nh_prox (ns_common_get a h) = nh_prox h" "refs (ns_common_get a h) = refs h"
    "length (nh_objs (ns_common_get a h)) = length (nh_objs h)"
proof -
  from inv_obj [OF assms] obtain x where x: "obj h a = Some x" "o_dynamic x \<longrightarrow> 0 < o_refcnt x" by blast
  have c: "core_inv ext h" "typ_inv h" "bund_inv B h" "\<not> nh_bad h" using inv by (simp_all add: ns_inv_def)
  note e = get_eq [OF x(1)]
  show "kind_at (ns_common_get a h) b = kind_at h b" unfolding e by (rule kind_put_obj [OF x(1)]) simp
  show p: "nh_prox (ns_common_get a h) = nh_prox h" unfolding e by simp
  show "length (nh_objs (ns_common_get a h)) = length (nh_objs h)" unfolding e by simp
  have "par_refs (Some (x\<lparr>o_refcnt := Suc (o_refcnt x)\<rparr>)) = par_refs (Some x)"
    using x(2) core_inv_count [OF c(1) x(1)] by (cases "o_dynamic x") (simp_all add: obj_wf_def)
  then show "refs (ns_common_get a h) = refs h" unfolding e by (rule refs_keep [OF x(1)])
  have "typ_inv (ns_common_get a h)"
    by (rule typ_inv_mono [OF c(2) p]) (use x(1) typ_inv_body [OF c(2)] in \<open>auto simp: e obj_upd split: if_splits\<close>)
  with get_core [OF c(1) x] c(3,4) show "ns_inv (add_mset a ext) B (ns_common_get a h)"
    unfolding ns_inv_def bund_inv_cong [OF p] by (simp add: e)
qed

lemma gets_inv:
  "ns_inv ext B h \<Longrightarrow> (\<And>a. a \<in> set as \<Longrightarrow> a \<in># refs h) \<Longrightarrow>
   ns_inv (mset as + ext) B (fold ns_common_get as h) \<and> nh_prox (fold ns_common_get as h) = nh_prox h \<and>
   (\<forall>b. kind_at (fold ns_common_get as h) b = kind_at h b)"
proof (induction as arbitrary: h ext)
  case (Cons a as)
  have a: "a \<in># refs h + ext" using Cons.prems(2) by simp
  note g = get_inv [OF Cons.prems(1) a]
  show ?case using Cons.IH [OF g(1)] Cons.prems(2) by (simp add: g)
qed simp


section \<open>Creation\<close>

lemma refs_append [simp]: "refs (h\<lparr>nh_objs := nh_objs h @ [Some x]\<rparr>) = refs h + mset (par_refs (Some x))"
  by (simp add: refs_def del: par_refs.simps)

lemma obj_append: "obj (h\<lparr>nh_objs := nh_objs h @ [x]\<rparr>) b = (if b = length (nh_objs h) then x else obj h b)"
  by (auto simp: obj_def nth_append)

lemma prox_objs [simp]: "prox (h\<lparr>nh_objs := os\<rparr>) i = prox h i"
  by (simp add: prox_def)

lemma inv_reqs [simp]: "ns_inv ext B (h\<lparr>nh_reqs := n\<rparr>) = ns_inv ext B h"
  by (simp add: ns_inv_def core_inv_def typ_inv_def bund_inv_def refs_def obj_def prox_def kind_at_def)

lemma reqs_frame [simp]:
  "refs (h\<lparr>nh_reqs := n\<rparr>) = refs h" "kind_at (h\<lparr>nh_reqs := n\<rparr>) a = kind_at h a"
  "prox (h\<lparr>nh_reqs := n\<rparr>) i = prox h i" "obj (h\<lparr>nh_reqs := n\<rparr>) a = obj h a"
  by (simp_all add: refs_def kind_at_def prox_def obj_def)

lemma refs_lt: "ns_inv ext B h \<Longrightarrow> a \<in># refs h + ext \<Longrightarrow> a < length (nh_objs h)"
  using inv_obj [of ext B h a] obj_lt by blast

lemma append_core:
  assumes inv: "core_inv (mset (par_refs (Some x)) + ext) h" and x: "obj_wf x" "0 < o_refcnt x"
  shows "core_inv (add_mset (length (nh_objs h)) ext) (h\<lparr>nh_objs := nh_objs h @ [Some x]\<rparr>)"
proof -
  let ?a = "length (nh_objs h)" and ?h = "h\<lparr>nh_objs := nh_objs h @ [Some x]\<rparr>"
  have e: "refs ?h + add_mset ?a ext = add_mset ?a (refs h + (mset (par_refs (Some x)) + ext))"
    by (simp add: ac_simps del: par_refs.simps)
  have old: "obj h b \<noteq> None" if "b \<in># refs h + (mset (par_refs (Some x)) + ext)" for b
    using that inv unfolding core_inv_def by blast
  have "obj h ?a = None" by (simp add: obj_def)
  with old have "?a \<notin># refs h + (mset (par_refs (Some x)) + ext)" by blast
  then have cnt: "count (refs h + (mset (par_refs (Some x)) + ext)) ?a = 0" by (simp only: not_in_iff)
  have "obj ?h b \<noteq> None" if b: "b \<in># refs ?h + add_mset ?a ext" for b
  proof (cases "b = ?a")
    case False
    with b have "b \<in># refs h + (mset (par_refs (Some x)) + ext)" unfolding e set_mset_add_mset_insert by blast
    from old [OF this] False show ?thesis unfolding obj_append by (simp del: par_refs.simps)
  qed (simp add: obj_append del: par_refs.simps)
  moreover have "obj_wf z \<and> (o_dynamic z \<longrightarrow> count (refs ?h + add_mset ?a ext) b \<le> o_refcnt z)"
    if z: "obj ?h b = Some z" for b z
  proof (cases "b = ?a")
    case True
    with z have "z = x" by (simp add: obj_append)
    moreover have "count (refs ?h + add_mset ?a ext) b = 1" unfolding e True count_add_mset cnt by simp
    ultimately show ?thesis using x by (simp del: par_refs.simps)
  next
    case False
    with z have "obj h b = Some z" by (simp add: obj_append)
    then show ?thesis using core_inv_count [OF inv] False unfolding e by (simp del: par_refs.simps)
  qed
  ultimately show ?thesis unfolding core_inv_def by blast
qed

lemma kind_append: "kind_at (h\<lparr>nh_objs := nh_objs h @ [Some x]\<rparr>) b =
    (if b = length (nh_objs h) then Some (kind_no (o_body x)) else kind_at h b)"
  by (simp add: kind_at_def obj_append)

lemma slot_in_refs:
  assumes "prox h i = Some p"
  shows "slot_ns s p \<in># refs h"
proof -
  have "slot_ns s p \<in> set (prox_refs (Some p))" by (cases s) (simp_all add: np_list_def)
  moreover have "Some p \<in> set (nh_prox h)" using prox_lt [OF assms] nth_mem by metis
  ultimately have "slot_ns s p \<in> set (concat (map prox_refs (nh_prox h)))" unfolding set_concat set_map by blast
  then show ?thesis unfolding refs_def by simp
qed

lemma append_inv:
  assumes inv: "ns_inv (mset (par_refs (Some x)) + ext) B h" and x: "obj_wf x" "0 < o_refcnt x" "body_ok (o_body x)"
    and k: "\<And>q. o_parent x = Some q \<Longrightarrow> kind_at h q = Some (kind_no (o_body x))"
  shows "ns_inv (add_mset (length (nh_objs h)) ext) B (h\<lparr>nh_objs := nh_objs h @ [Some x]\<rparr>)"
proof -
  let ?a = "length (nh_objs h)" and ?h = "h\<lparr>nh_objs := nh_objs h @ [Some x]\<rparr>"
  have c: "core_inv (mset (par_refs (Some x)) + ext) h" "typ_inv h" "bund_inv B h" "\<not> nh_bad h"
    using inv by (simp_all add: ns_inv_def del: par_refs.simps)
  have "kk = slot_kind s" if p: "prox ?h i = Some p" and kk: "kind_at ?h (slot_ns s p) = Some kk" for i p s kk
  proof -
    have p': "prox h i = Some p" using p by simp
    have "slot_ns s p < ?a" by (rule refs_lt [OF inv]) (use slot_in_refs [OF p', of s] in \<open>simp del: par_refs.simps\<close>)
    with kk have "kind_at h (slot_ns s p) = Some kk" by (simp add: kind_append)
    with c(2) p' show ?thesis unfolding typ_inv_def by blast
  qed
  moreover have "body_ok (o_body z) \<and> (\<forall>q. o_parent z = Some q \<longrightarrow> q < b \<and> (\<forall>k. kind_at ?h q = Some k \<longrightarrow> k = kind_no (o_body z)))"
    if z: "obj ?h b = Some z" for b z
  proof (cases "b = ?a")
    case True
    with z have "z = x" by (simp add: obj_append)
    moreover have "q < ?a" if "o_parent x = Some q" for q
      using k [OF that] obj_lt unfolding kind_at_def by fastforce
    ultimately show ?thesis using x(3) k True by (auto simp: kind_append)
  next
    case False
    with z have z': "obj h b = Some z" by (simp add: obj_append)
    then have "b < ?a" by (simp add: obj_lt)
    moreover have "body_ok (o_body z) \<and> (\<forall>q. o_parent z = Some q \<longrightarrow> q < b \<and> (\<forall>k. kind_at h q = Some k \<longrightarrow> k = kind_no (o_body z)))"
      using c(2) z' unfolding typ_inv_def by blast
    ultimately show ?thesis unfolding kind_append by (metis less_trans less_irrefl)
  qed
  ultimately have "typ_inv ?h" unfolding typ_inv_def by blast
  with append_core [OF c(1) x(1,2)] c(3,4) show ?thesis
    unfolding ns_inv_def by (simp add: bund_inv_def)
qed

text \<open>A constructor returns a reference to a fresh object of its kind, or changes nothing that counts.\<close>

definition creates :: "nat \<Rightarrow> nat multiset \<Rightarrow> nat multiset \<Rightarrow> nat option \<times> nsheap \<Rightarrow> bool" where
  "creates n ext B r \<longleftrightarrow>
     (case r of
        (None, h') \<Rightarrow> ns_inv ext B h'
      | (Some a, h') \<Rightarrow> ns_inv (add_mset a ext) B h' \<and> kind_at h' a = Some n)"

lemma kmalloc_creates:
  assumes inv: "ns_inv ext B h" and x: "o_parent x = None" "0 < o_refcnt x" "body_ok (o_body x)"
  shows "creates (kind_no (o_body x)) ext B (kmalloc_ns x h)"
proof -
  have "obj_wf x" using x(1) by (simp add: obj_wf_def)
  moreover have "ns_inv (mset (par_refs (Some x)) + ext) B (h\<lparr>nh_reqs := Suc (nh_reqs h)\<rparr>)" using inv x(1,2) by simp
  ultimately have "ns_inv (add_mset (length (nh_objs h)) ext) B
      (h\<lparr>nh_reqs := Suc (nh_reqs h), nh_objs := nh_objs h @ [Some x]\<rparr>)"
    using append_inv [of x ext B "h\<lparr>nh_reqs := Suc (nh_reqs h)\<rparr>"] x by simp
  with inv show ?thesis
    unfolding creates_def kmalloc_ns_def Let_def
    using kind_append [of "h\<lparr>nh_reqs := Suc (nh_reqs h)\<rparr>" x "length (nh_objs h)"] by simp
qed

lemma kmalloc_child_creates:
  assumes inv: "ns_inv ext B h" and q: "q \<in># refs h" "kind_at h q = Some (kind_no (o_body x))"
    and x: "o_parent x = Some q" "0 < o_refcnt x" "body_ok (o_body x)" "o_dynamic x" "\<not> no_parent_kind (o_body x)"
  shows "creates (kind_no (o_body x)) ext B
    (case kmalloc_ns x h of (None, h) \<Rightarrow> (None, h) | (Some a, h) \<Rightarrow> (Some a, ns_common_get q h))"
proof -
  let ?h = "h\<lparr>nh_reqs := Suc (nh_reqs h)\<rparr>"
  have q': "q \<in># refs ?h + ext" using q(1) by simp
  have inv': "ns_inv ext B ?h" using inv by simp
  note g = get_inv [OF inv' q']
  from inv_obj [OF inv' q'] obtain y where y: "obj ?h q = Some y" by blast
  have wf: "obj_wf x" using x by (simp add: obj_wf_def)
  have pr: "par_refs (Some x) = [q]" using x by simp
  have "ns_inv (add_mset (length (nh_objs h)) ext) B
      ((ns_common_get q ?h)\<lparr>nh_objs := nh_objs (ns_common_get q ?h) @ [Some x]\<rparr>)"
    using append_inv [of x ext B "ns_common_get q ?h"] g(1) wf x q(2) unfolding pr by (simp add: g(2,5))
  moreover have "(ns_common_get q ?h)\<lparr>nh_objs := nh_objs (ns_common_get q ?h) @ [Some x]\<rparr> =
      ns_common_get q (?h\<lparr>nh_objs := nh_objs h @ [Some x]\<rparr>)"
    using y obj_lt [OF y] by (simp add: ns_common_get_def obj_def put_obj_def nth_append list_update_append)
  moreover have "kind_at ((ns_common_get q ?h)\<lparr>nh_objs := nh_objs (ns_common_get q ?h) @ [Some x]\<rparr>) (length (nh_objs h)) =
      Some (kind_no (o_body x))"
    using g(5) by (simp add: kind_append)
  ultimately show ?thesis using inv unfolding creates_def kmalloc_ns_def Let_def by simp
qed


lemma slot_held: "prox h i = Some p \<Longrightarrow> slot_ns s p \<in># refs h + ext"
  using slot_in_refs by simp

lemma inv_slot:
  assumes "ns_inv ext B h" "prox h i = Some p"
  shows "\<exists>x. obj h (slot_ns s p) = Some x \<and> kind_no (o_body x) = slot_kind s"
proof -
  from inv_obj [OF assms(1) slot_held [OF assms(2)]] obtain x where "obj h (slot_ns s p) = Some x" by blast
  with assms show ?thesis using typ_inv_slot unfolding ns_inv_def by blast
qed

lemma kind_slot: "ns_inv ext B h \<Longrightarrow> prox h i = Some p \<Longrightarrow> kind_at h (slot_ns s p) = Some (slot_kind s)"
  using inv_slot [of ext B h i p s] by (auto simp: kind_at_def)

lemma child_creates:
  assumes "ns_inv ext B h" "prox h i = Some p" "slot_ns s p = q" "kind_no (o_body x) = slot_kind s"
    "o_parent x = Some q" "0 < o_refcnt x" "body_ok (o_body x)" "o_dynamic x" "\<not> no_parent_kind (o_body x)"
  shows "creates (slot_kind s) ext B
    (case kmalloc_ns x h of (None, h) \<Rightarrow> (None, h) | (Some a, h) \<Rightarrow> (Some a, ns_common_get q h))"
  using kmalloc_child_creates [OF assms(1), of q x] slot_in_refs [OF assms(2), of s] kind_slot [OF assms(1,2), of s]
    assms(3-) by simp

lemma user_ns_create_inv:
  "ns_inv ext B h \<Longrightarrow> prox h i = Some p \<Longrightarrow> creates (slot_kind S_user) ext B (user_ns_create (np_user_ns p) owner h)"
  unfolding user_ns_create_def by (rule child_creates) (simp_all add: no_parent_kind_def)

lemma pid_ok_fresh: "pid_ok \<lparr>pn_level = n, pn_next_pid = 1, pn_local_of_global = replicate 64 0,
    pn_global_of_local = replicate 64 0\<rparr>"
  by (simp add: pid_ok_def)

lemma pid_ns_create_inv:
  "ns_inv ext B h \<Longrightarrow> prox h i = Some p \<Longrightarrow> creates (slot_kind S_pid) ext B (pid_ns_create (np_pid_ns p) h)"
  unfolding pid_ns_create_def by (rule child_creates) (simp_all add: no_parent_kind_def pid_ok_fresh)

text \<open>Changing what a namespace contains.\<close>

lemma body_inv:
  assumes inv: "ns_inv ext B h" and x: "obj h a = Some x" and b: "kind_no b = kind_no (o_body x)" "body_ok b"
  shows "ns_inv ext B (put_obj a (Some (x\<lparr>o_body := b\<rparr>)) h)"
    "kind_at (put_obj a (Some (x\<lparr>o_body := b\<rparr>)) h) c = kind_at h c"
    "refs (put_obj a (Some (x\<lparr>o_body := b\<rparr>)) h) = refs h"
proof -
  let ?y = "x\<lparr>o_body := b\<rparr>"
  have c: "core_inv ext h" "typ_inv h" "bund_inv B h" "\<not> nh_bad h" using inv by (simp_all add: ns_inv_def)
  show "kind_at (put_obj a (Some ?y) h) c = kind_at h c" by (rule kind_put_obj [OF x]) (simp add: b)
  show r: "refs (put_obj a (Some ?y) h) = refs h" by (rule refs_keep [OF x]) simp
  have "no_parent_kind b = no_parent_kind (o_body x)"
    using b(1) by (cases b; cases "o_body x") (simp_all add: no_parent_kind_def)
  then have wf: "obj_wf ?y" using core_inv_count [OF c(1) x] by (simp add: obj_wf_def)
  have "core_inv ext (put_obj a (Some ?y) h)"
    by (rule core_inv_put_obj [OF c(1) x]) (use wf core_inv_count [OF c(1) x] in \<open>simp_all add: r\<close>)
  moreover have "typ_inv (put_obj a (Some ?y) h)"
    by (rule typ_inv_mono [OF c(2)]) (use x b typ_inv_body [OF c(2)] in \<open>auto simp: obj_upd split: if_splits\<close>)
  ultimately show "ns_inv ext B (put_obj a (Some ?y) h)"
    unfolding ns_inv_def using c(3,4) bund_inv_cong [of "put_obj a (Some ?y) h" h B] by simp
qed

lemma inv_cong:
  "nh_objs h' = nh_objs h \<Longrightarrow> nh_prox h' = nh_prox h \<Longrightarrow> nh_bad h' = nh_bad h \<Longrightarrow> ns_inv ext B h' = ns_inv ext B h"
  by (simp add: ns_inv_def core_inv_def typ_inv_def bund_inv_def refs_def obj_def prox_def kind_at_def)

lemma mnt_hold_frame [simp]:
  "nh_objs (mnt_hold m h) = nh_objs h" "nh_prox (mnt_hold m h) = nh_prox h" "nh_bad (mnt_hold m h) = nh_bad h"
proof -
  have "nh_objs (fold (\<lambda>t h. if mt_used t then node_ref (mt_root t) h else h) ts h) = nh_objs h \<and>
    nh_prox (fold (\<lambda>t h. if mt_used t then node_ref (mt_root t) h else h) ts h) = nh_prox h \<and>
    nh_bad (fold (\<lambda>t h. if mt_used t then node_ref (mt_root t) h else h) ts h) = nh_bad h" for ts :: "mnt_mount list" and h
    by (induction ts arbitrary: h) auto
  then show "nh_objs (mnt_hold m h) = nh_objs h" "nh_prox (mnt_hold m h) = nh_prox h"
    "nh_bad (mnt_hold m h) = nh_bad h" by (simp_all add: mnt_hold_def)
qed

lemma kind_mnt: "kind_no b = 2 \<Longrightarrow> \<exists>m. b = Ns_mnt m"
  by (cases b) simp_all

lemma kind_uts: "kind_no b = 3 \<Longrightarrow> \<exists>n. b = Ns_uts n"
  by (cases b) simp_all

lemma kind_pid: "kind_no b = 1 \<Longrightarrow> \<exists>p. b = Ns_pid p"
  by (cases b) simp_all

lemma mnt_set_root_inv:
  assumes inv: "ns_inv ext B h" and p: "prox h i = Some p"
  shows "ns_inv ext B (mnt_set_root (np_mnt_ns p) h) \<and> prox (mnt_set_root (np_mnt_ns p) h) i = Some p"
proof -
  from inv_slot [OF inv p, of S_mnt] obtain x where x: "obj h (np_mnt_ns p) = Some x" "kind_no (o_body x) = 2" by auto
  from kind_mnt [OF x(2)] obtain m where m: "o_body x = Ns_mnt m" ..
  show ?thesis using inv p body_inv(1) [OF inv x(1)] m by (simp add: mnt_set_root_def x(1))
qed

lemma ns_mnt_clone_inv:
  assumes inv: "ns_inv ext B h" and p: "prox h i = Some p"
  shows "creates 2 ext B (ns_mnt_clone (np_mnt_ns p) h)"
proof -
  let ?h = "mnt_set_root (np_mnt_ns p) h"
  from mnt_set_root_inv [OF assms] have h: "ns_inv ext B ?h" "prox ?h i = Some p" by auto
  from inv_slot [OF h, of S_mnt] obtain x where x: "obj ?h (np_mnt_ns p) = Some x" "kind_no (o_body x) = 2" by auto
  from kind_mnt [OF x(2)] obtain m where m: "o_body x = Ns_mnt m" ..
  let ?x = "\<lparr>o_type = NS_TYPE_MNT, o_refcnt = 1, o_dynamic = True, o_parent = None, o_body = Ns_mnt m\<rparr>"
  have "creates 2 ext B (kmalloc_ns ?x ?h)" using kmalloc_creates [OF h(1), of ?x] by simp
  then show ?thesis
    unfolding ns_mnt_clone_def Let_def x(1) option.case m ns_body.case creates_def
    by (auto split: prod.splits option.splits simp: inv_cong [OF mnt_hold_frame] kind_at_def obj_def)
qed

lemma uts_ns_create_inv:
  assumes inv: "ns_inv ext B h" and p: "prox h i = Some p"
  shows "creates 3 ext B (uts_ns_create (np_uts_ns p) h)"
proof -
  from inv_slot [OF assms, of S_uts] obtain x where x: "obj h (np_uts_ns p) = Some x" "kind_no (o_body x) = 3" by auto
  from kind_uts [OF x(2)] obtain n where n: "o_body x = Ns_uts n" ..
  show ?thesis using kmalloc_creates [OF inv, of "\<lparr>o_type = NS_TYPE_UTS, o_refcnt = 1, o_dynamic = True,
      o_parent = None, o_body = Ns_uts n\<rparr>"] by (simp add: uts_ns_create_def x(1) n)
qed

lemma simple_ns_create_inv: "ns_inv ext B h \<Longrightarrow> creates 4 ext B (simple_ns_create t h)"
  using kmalloc_creates [of ext B h "\<lparr>o_type = t, o_refcnt = 1, o_dynamic = True, o_parent = None, o_body = Ns_simple\<rparr>"]
  by (simp add: simple_ns_create_def)


section \<open>Bundles\<close>

text \<open>A release does not look at the bundles.\<close>

lemma node_unref_put_prox: "node_unref n (put_prox i q h) = put_prox i q (node_unref n h)"
  by (simp add: node_unref_def put_prox_def split: option.split)

lemma mnt_release_put_prox: "mnt_release m (put_prox i q h) = put_prox i q (mnt_release m h)"
proof -
  have "fold (\<lambda>t h. if mt_used t then node_unref (mt_root t) h else h) ts (put_prox i q h) =
    put_prox i q (fold (\<lambda>t h. if mt_used t then node_unref (mt_root t) h else h) ts h)" for ts :: "mnt_mount list"
    by (induction ts arbitrary: h) (simp_all add: node_unref_put_prox)
  then show ?thesis by (simp add: mnt_release_def node_unref_put_prox)
qed

lemma put_obj_put_prox: "put_obj a x (put_prox i q h) = put_prox i q (put_obj a x h)"
  by (simp add: put_obj_def put_prox_def)

lemma put_put_prox: "ns_common_put a (put_prox i q h) = put_prox i q (ns_common_put a h)"
proof (induction a h rule: ns_common_put.induct)
  case (1 a h)
  show ?case
  proof (cases "obj h a")
    case None
    then show ?thesis by (simp add: ns_common_put.simps [of a]) (simp add: bad_access_def put_prox_def)
  next
    case (Some x)
    let ?h1 = "put_obj a (Some (x\<lparr>o_refcnt := 0\<rparr>)) h"
    have "ns_common_put b (put_prox i q ?h1) = put_prox i q (ns_common_put b ?h1)"
      if "o_refcnt x = 1" "o_dynamic x" "o_parent x = Some b" "\<nexists>m. o_body x = Ns_mnt m" for b
      using that 1 Some by (cases "o_body x") auto
    then show ?thesis
      by (cases "o_body x"; cases "o_parent x")
        (simp_all add: ns_common_put.simps [of a] Some put_obj_put_prox mnt_release_put_prox Let_def)
  qed
qed

lemma puts_put_prox: "fold ns_common_put as (put_prox i q h) = put_prox i q (fold ns_common_put as h)"
  by (induction as arbitrary: h) (simp_all add: put_put_prox)

lemma core_move:
  "nh_objs h' = nh_objs h \<Longrightarrow> refs h' + ext' = refs h + ext \<Longrightarrow> core_inv ext' h' = core_inv ext h"
  by (simp add: core_inv_def obj_def)

lemma refs_put_prox':
  "prox h i = Some p \<Longrightarrow> refs (put_prox i q h) + mset (np_list p) = refs h + mset (prox_refs q)"
  using refs_put_prox [of i h q] prox_lt [of h i p] by simp

lemma kind_put_prox [simp]: "kind_at (put_prox i q h) a = kind_at h a"
  by (simp add: kind_at_def)

lemma np_list_set_slot: "mset (np_list (set_slot s a p)) + {#slot_ns s p#} = mset (np_list p) + {#a#}"
  by (cases s) (simp_all add: np_list_def)

lemma slot_set_slot: "slot_ns t (set_slot s a p) = (if t = s then a else slot_ns t p)"
  by (cases s; cases t) simp_all

lemma set_slot_rest [simp]: "np_dynamic (set_slot s a p) = np_dynamic p" "np_refcnt (set_slot s a p) = np_refcnt p"
  by (cases s; simp)+

lemma swap_inv:
  assumes inv: "ns_inv (add_mset a ext) B h" and p: "prox h i = Some p" and k: "kind_at h a = Some (slot_kind s)"
  shows "ns_inv (add_mset (slot_ns s p) ext) B (put_prox i (Some (set_slot s a p)) h)"
proof -
  let ?h = "put_prox i (Some (set_slot s a p)) h"
  have c: "core_inv (add_mset a ext) h" "typ_inv h" "bund_inv B h" "\<not> nh_bad h" using inv by (simp_all add: ns_inv_def)
  have "refs ?h + mset (np_list p) + {#slot_ns s p#} = refs h + (mset (np_list (set_slot s a p)) + {#slot_ns s p#})"
    using refs_put_prox' [OF p, of "Some (set_slot s a p)"] by simp
  then have "refs ?h + {#slot_ns s p#} + mset (np_list p) = refs h + {#a#} + mset (np_list p)"
    unfolding np_list_set_slot by (simp add: ac_simps)
  then have "refs ?h + {#slot_ns s p#} = refs h + {#a#}" by (rule add_right_imp_eq)
  then have "refs ?h + add_mset (slot_ns s p) ext = refs h + add_mset a ext" by simp
  with c(1) have "core_inv (add_mset (slot_ns s p) ext) ?h" by (subst core_move [of ?h h]) simp_all
  moreover have "typ_inv ?h"
    using c(2) k p unfolding typ_inv_def by (auto simp: prox_upd [OF p] slot_set_slot split: if_splits)
  moreover have "bund_inv B ?h" using c(3) p unfolding bund_inv_def by (auto simp: prox_upd [OF p])
  ultimately show ?thesis using c(4) by (simp add: ns_inv_def)
qed

lemma replace_slot_inv:
  assumes inv: "ns_inv (add_mset a ext) B h" and i: "i \<in># B" and k: "kind_at h a = Some (slot_kind s)"
  shows "ns_inv ext B (replace_slot i s a h)"
proof -
  from inv i obtain p where p: "prox h i = Some p" unfolding ns_inv_def bund_inv_def by blast
  show ?thesis using put_inv [OF swap_inv [OF inv p k]] by (simp add: replace_slot_def p put_put_prox)
qed

lemma nsproxy_get_inv:
  assumes inv: "ns_inv ext B h" and p: "prox h i = Some p" "np_dynamic p \<longrightarrow> i \<in># B"
  shows "ns_inv ext (add_mset i B) (nsproxy_get i h)"
proof -
  let ?h = "put_prox i (Some (p\<lparr>np_refcnt := Suc (np_refcnt p)\<rparr>)) h"
  have c: "core_inv ext h" "typ_inv h" "bund_inv B h" "\<not> nh_bad h" using inv by (simp_all add: ns_inv_def)
  have "np_list (p\<lparr>np_refcnt := Suc (np_refcnt p)\<rparr>) = np_list p" by (simp add: np_list_def)
  with refs_put_prox' [OF p(1), of "Some (p\<lparr>np_refcnt := Suc (np_refcnt p)\<rparr>)"] have "refs ?h = refs h" by simp
  then have "core_inv ext ?h" using c(1) core_move [of ?h h] by simp
  moreover have "slot_ns s (p\<lparr>np_refcnt := Suc (np_refcnt p)\<rparr>) = slot_ns s p" for s by (cases s) simp_all
  then have "typ_inv ?h" using c(2) p unfolding typ_inv_def by (auto simp: prox_upd [OF p(1)] split: if_splits)
  moreover have "bund_inv (add_mset i B) ?h"
    using c(3) p unfolding bund_inv_def by (auto simp: prox_upd [OF p(1)] split: if_splits)
  ultimately show ?thesis using c(4) by (simp add: nsproxy_get_def p(1) ns_inv_def)
qed

lemma bund_inv_less:
  assumes "bund_inv (add_mset i B) h"
  shows "bund_inv B h"
proof -
  have "count B j \<le> count (add_mset i B) j" for j by simp
  with assms show ?thesis unfolding bund_inv_def using order_trans by (metis insert_iff set_mset_add_mset_insert)
qed

lemma bund_dynamic: "bund_inv B h \<Longrightarrow> prox h i = Some p \<Longrightarrow> np_dynamic p \<Longrightarrow> i \<noteq> 0"
  unfolding bund_inv_def by (cases "i = 0") auto

text \<open>The last reference to a bundle: its eight references pass to the release.\<close>

lemma bundle_free_inv:
  assumes inv: "ns_inv ext (add_mset i B) h" and p: "prox h i = Some p" "np_dynamic p" "np_refcnt p = 1"
  shows "ns_inv (mset (np_list p) + ext) B (put_prox i None h)"
proof -
  let ?h = "put_prox i None h"
  have c: "core_inv ext h" "typ_inv h" "bund_inv (add_mset i B) h" "\<not> nh_bad h" using inv by (simp_all add: ns_inv_def)
  have "refs ?h + (mset (np_list p) + ext) = refs h + ext"
    using refs_put_prox' [OF p(1), of None] by (simp add: add.assoc [symmetric])
  with c(1) have "core_inv (mset (np_list p) + ext) ?h" by (subst core_move [of ?h h]) simp_all
  moreover have "typ_inv ?h" using c(2) unfolding typ_inv_def by (auto simp: prox_upd [OF p(1)] split: if_splits)
  moreover have "bund_inv B ?h"
  proof -
  have "count (add_mset i B) i \<le> 1" using c(3) p unfolding bund_inv_def by metis
  then have "i \<notin># B" by (simp add: not_in_iff)
  moreover have "i \<noteq> 0" by (rule bund_dynamic [OF c(3) p(1,2)])
  ultimately show ?thesis
    using bund_inv_less [OF c(3)] unfolding bund_inv_def by (auto simp: prox_upd [OF p(1)] split: if_splits)
  qed
  ultimately show ?thesis using c(4) by (simp add: ns_inv_def)
qed

lemma nsproxy_put_inv:
  assumes inv: "ns_inv ext (add_mset i B) h"
  shows "ns_inv ext B (nsproxy_put i h)"
proof -
  have c: "core_inv ext h" "typ_inv h" "bund_inv (add_mset i B) h" "\<not> nh_bad h" using inv by (simp_all add: ns_inv_def)
  from c(3) obtain p where p: "prox h i = Some p" unfolding bund_inv_def by auto
  consider "\<not> np_dynamic p" | "np_dynamic p" "np_refcnt p = 1" | "np_dynamic p" "np_refcnt p \<noteq> 1" by blast
  then show ?thesis
  proof cases
    case 1
    with bund_inv_less [OF c(3)] c show ?thesis by (simp add: nsproxy_put_def p ns_inv_def)
  next
    case 2
    with puts_inv [OF bundle_free_inv [OF inv p 2]] show ?thesis by (simp add: nsproxy_put_def p puts_put_prox)
  next
    case 3
    let ?q = "p\<lparr>np_refcnt := np_refcnt p - 1\<rparr>"
    let ?h = "put_prox i (Some ?q) h"
    have "np_list ?q = np_list p" by (simp add: np_list_def)
    with refs_put_prox' [OF p, of "Some ?q"] have "refs ?h = refs h" by simp
    with c(1) have "core_inv ext ?h" by (subst core_move [of ?h h]) simp_all
    moreover have "slot_ns s ?q = slot_ns s p" for s by (cases s) simp_all
    then have "typ_inv ?h" using c(2) p unfolding typ_inv_def by (auto simp: prox_upd [OF p] split: if_splits)
    moreover have "bund_inv B ?h" unfolding bund_inv_def
    proof (intro conjI ballI allI impI)
      fix j r assume r: "prox ?h j = Some r" "np_dynamic r"
      show "count B j \<le> np_refcnt r"
      proof (cases "j = i")
        case True
        with r have "r = ?q" by (simp add: prox_upd [OF p])
        moreover have "count (add_mset i B) i \<le> np_refcnt p" using c(3) p 3 unfolding bund_inv_def by blast
        ultimately show ?thesis using True by simp
      next
        case False
        with r have "prox h j = Some r" by (simp add: prox_upd [OF p])
        with c(3) r have "count (add_mset i B) j \<le> np_refcnt r" unfolding bund_inv_def by blast
        with False show ?thesis by simp
      qed
    qed (use c(3) p bund_dynamic [OF c(3) p 3(1)] in \<open>auto simp: bund_inv_def prox_upd [OF p] split: if_splits\<close>)
    ultimately show ?thesis using 3 c(4) by (simp add: nsproxy_put_def p ns_inv_def)
  qed
qed

lemma prox_append: "prox (h\<lparr>nh_prox := nh_prox h @ [x]\<rparr>) j = (if j = length (nh_prox h) then x else prox h j)"
  by (auto simp: prox_def nth_append)

lemma bundle_add_inv:
  assumes inv: "ns_inv (mset (np_list p) + ext) B h" and p: "np_refcnt p = 1" "np_dynamic p"
    and k: "\<And>s. kind_at h (slot_ns s p) = Some (slot_kind s)"
  shows "ns_inv ext (add_mset (length (nh_prox h)) B) (h\<lparr>nh_prox := nh_prox h @ [Some p]\<rparr>)"
proof -
  let ?i = "length (nh_prox h)" and ?h = "h\<lparr>nh_prox := nh_prox h @ [Some p]\<rparr>"
  have c: "core_inv (mset (np_list p) + ext) h" "typ_inv h" "bund_inv B h" "\<not> nh_bad h" using inv by (simp_all add: ns_inv_def)
  have ob: "obj ?h a = obj h a" "kind_at ?h a = kind_at h a" for a by (simp_all add: obj_def kind_at_def)
  have "refs ?h + ext = refs h + (mset (np_list p) + ext)" by (simp add: refs_def ac_simps)
  with c(1) have "core_inv ext ?h" by (subst core_move [of ?h h]) simp_all
  moreover have "typ_inv ?h" using c(2) k unfolding typ_inv_def by (auto simp: prox_append ob split: if_splits)
  moreover have none: "prox h ?i = None" by (simp add: prox_def)
  then have "?i \<notin># B" using c(3) unfolding bund_inv_def by blast
  then have "bund_inv (add_mset ?i B) ?h"
    using c(3) p none unfolding bund_inv_def by (auto simp: prox_append not_in_iff split: if_splits)
  ultimately show ?thesis using c(4) by (simp add: ns_inv_def)
qed

lemma put_obj_prox: "put_obj a x (h\<lparr>nh_prox := ps\<rparr>) = (put_obj a x h)\<lparr>nh_prox := ps\<rparr>"
  by (simp add: put_obj_def)

lemma get_prox: "ns_common_get a (h\<lparr>nh_prox := ps\<rparr>) = (ns_common_get a h)\<lparr>nh_prox := ps\<rparr>"
  by (simp add: ns_common_get_def obj_def put_obj_prox bad_access_def split: option.split)

lemma gets_prox: "fold ns_common_get as (h\<lparr>nh_prox := ps\<rparr>) = (fold ns_common_get as h)\<lparr>nh_prox := ps\<rparr>"
  by (induction as arbitrary: h) (simp_all add: get_prox)

lemma np_list_slots: "a \<in> set (np_list p) \<Longrightarrow> \<exists>s. a = slot_ns s p"
  unfolding np_list_def by (auto intro: slot_ns.simps [symmetric])

lemma nsproxy_clone_inv:
  assumes inv: "ns_inv ext B h" and src: "\<And>i. src = Some i \<Longrightarrow> i \<in># B"
  shows "case nsproxy_clone src h of (None, h') \<Rightarrow> ns_inv ext B h' | (Some i, h') \<Rightarrow> ns_inv ext (add_mset i B) h'"
proof -
  let ?i = "case src of None \<Rightarrow> init_nsproxy | Some i \<Rightarrow> i" and ?h = "h\<lparr>nh_reqs := Suc (nh_reqs h)\<rparr>"
  have b: "bund_inv B h" using inv by (simp add: ns_inv_def)
  obtain p where p: "prox h ?i = Some p"
  proof (cases src)
    case None
    with b that show ?thesis unfolding bund_inv_def init_nsproxy_def by auto
  next
    case (Some i)
    with b src [OF Some] that show ?thesis unfolding bund_inv_def by auto
  qed
  let ?p = "p\<lparr>np_refcnt := Suc 0, np_dynamic := True\<rparr>"
  have inv': "ns_inv ext B ?h" and p': "prox ?h ?i = Some p" using inv p by simp_all
  have sl: "slot_ns s ?p = slot_ns s p" for s by (cases s) simp_all
  have np: "np_list ?p = np_list p" by (simp add: np_list_def)
  have "a \<in># refs ?h" if "a \<in> set (np_list p)" for a
    using np_list_slots [OF that] slot_in_refs [OF p'] by auto
  then have g: "ns_inv (mset (np_list p) + ext) B (fold ns_common_get (np_list p) ?h)"
    "nh_prox (fold ns_common_get (np_list p) ?h) = nh_prox h"
    "\<And>b. kind_at (fold ns_common_get (np_list p) ?h) b = kind_at h b"
    using gets_inv [OF inv', of "np_list p"] by simp_all
  let ?g = "fold ns_common_get (np_list p) ?h"
  have "ns_inv ext (add_mset (length (nh_prox ?g)) B) (?g\<lparr>nh_prox := nh_prox ?g @ [Some ?p]\<rparr>)"
    by (rule bundle_add_inv) (use g kind_slot [OF inv' p'] in \<open>simp_all add: np sl\<close>)
  then have "ns_inv ext (add_mset (length (nh_prox h)) B)
      (fold ns_common_get (np_list p) (?h\<lparr>nh_prox := nh_prox h @ [Some ?p]\<rparr>))"
    using g by (simp add: gets_prox)
  with inv p show ?thesis by (simp add: nsproxy_clone_def Let_def)
qed

section \<open>New namespaces\<close>

definition step_ok :: "u64 \<times> (nsproxy \<Rightarrow> nsheap \<Rightarrow> nat option \<times> nsheap) \<times> ns_slot \<Rightarrow> bool" where
  "step_ok st = (case st of (_, create, s) \<Rightarrow>
     \<forall>ext B h i p. ns_inv ext B h \<longrightarrow> prox h i = Some p \<longrightarrow> creates (slot_kind s) ext B (create p h))"

lemma ns_steps_ok: "st \<in> set (ns_steps owner) \<Longrightarrow> step_ok st"
  unfolding ns_steps_def
  by (auto simp: step_ok_def intro: user_ns_create_inv [simplified] ns_mnt_clone_inv uts_ns_create_inv simple_ns_create_inv)

lemma inv_bundle: "ns_inv ext B h \<Longrightarrow> i \<in># B \<Longrightarrow> \<exists>p. prox h i = Some p"
  unfolding ns_inv_def bund_inv_def by blast

lemma apply_steps_inv:
  "(\<And>st. st \<in> set sts \<Longrightarrow> step_ok st) \<Longrightarrow> ns_inv ext B h \<Longrightarrow> i \<in># B \<Longrightarrow> ns_inv ext B (snd (apply_steps i flags sts h))"
proof (induction sts arbitrary: h)
  case (Cons st sts)
  obtain flag create s where st: "st = (flag, create, s)" by (cases st)
  from inv_bundle [OF Cons.prems(2,3)] obtain p where p: "prox h i = Some p" ..
  have "step_ok (flag, create, s)" using Cons.prems(1) [of st] st by simp
  then have c: "creates (slot_kind s) ext B (create p h)" using Cons.prems(2) p unfolding step_ok_def by blast
  obtain r h' where ch: "create p h = (r, h')" by (cases "create p h")
  show ?case
  proof (cases r)
    case None
    with c ch Cons show ?thesis by (simp add: st p creates_def)
  next
    case (Some a)
    have "ns_inv ext B (replace_slot i s a h')"
      by (rule replace_slot_inv) (use c ch Some Cons.prems(3) in \<open>simp_all add: creates_def\<close>)
    with Cons show ?thesis by (simp add: st p ch Some)
  qed
qed simp

text \<open>Taking a bundle apart and putting it back.\<close>

lemma bundle_take:
  assumes inv: "ns_inv ext B h" and p: "prox h i = Some p" "i \<noteq> 0"
  shows "ns_inv (mset (np_list p) + ext) {#} (put_prox i None h)"
proof -
  let ?h = "put_prox i None h"
  have c: "core_inv ext h" "typ_inv h" "bund_inv B h" "\<not> nh_bad h" using inv by (simp_all add: ns_inv_def)
  have "refs ?h + (mset (np_list p) + ext) = refs h + ext"
    using refs_put_prox' [OF p(1), of None] by (simp add: add.assoc [symmetric])
  with c(1) have "core_inv (mset (np_list p) + ext) ?h" by (subst core_move [of ?h h]) simp_all
  moreover have "typ_inv ?h" using c(2) unfolding typ_inv_def by (auto simp: prox_upd [OF p(1)] split: if_splits)
  moreover have "bund_inv {#} ?h"
    using c(3) p(2) unfolding bund_inv_def by (auto simp: prox_upd [OF p(1)] split: if_splits)
  ultimately show ?thesis using c(4) by (simp add: ns_inv_def)
qed

lemma bundle_give:
  assumes inv: "ns_inv (mset (np_list q) + ext) {#} h'" and h: "nh_prox h' = nh_prox (put_prox i None h)"
    and p: "bund_inv B h" "prox h i = Some p" "np_refcnt q = np_refcnt p" "np_dynamic q = np_dynamic p"
    and k: "\<And>s. kind_at h' (slot_ns s q) = Some (slot_kind s)"
  shows "ns_inv ext B (put_prox i (Some q) h')"
proof -
  let ?h = "put_prox i (Some q) h'"
  have c: "core_inv (mset (np_list q) + ext) h'" "typ_inv h'" "\<not> nh_bad h'" using inv by (simp_all add: ns_inv_def)
  have i: "i < length (nh_prox h')" "nh_prox h' ! i = None" using h prox_lt [OF p(2)] by (simp_all add: put_prox_def)
  have pr: "prox h' j = (if j = i then None else prox h j)" for j
  proof -
    have "prox h' j = prox (put_prox i None h) j" unfolding prox_def h by simp
    then show ?thesis unfolding prox_upd [OF p(2)] .
  qed
  note pu = prox_put_prox [OF i(1), of "Some q"]
  have "refs ?h = refs h' + mset (np_list q)" using refs_put_prox [OF i(1), of "Some q"] i(2) by simp
  with c(1) have "core_inv ext ?h" by (subst core_move [of ?h h']) (simp_all add: ac_simps)
  moreover have "typ_inv ?h" using c(2) k unfolding typ_inv_def by (auto simp: pu split: if_splits)
  moreover have "bund_inv B ?h" using p unfolding bund_inv_def by (auto simp: pu pr split: if_splits)
  ultimately show ?thesis using c(3) by (simp add: ns_inv_def)
qed

lemma nh_prox_put [simp]: "nh_prox (ns_common_put a h) = nh_prox h"
proof (induction a h rule: ns_common_put.induct)
  case (1 a h)
  show ?case
    by (cases "obj h a"; cases "o_body (the (obj h a))"; cases "o_parent (the (obj h a))")
      (use 1 in \<open>auto simp: ns_common_put.simps [of a] bad_access_def Let_def\<close>)
qed

lemma nh_prox_get [simp]: "nh_prox (ns_common_get a h) = nh_prox h"
  by (simp add: ns_common_get_def bad_access_def split: option.split)

lemma nh_prox_pid_ns_create: "nh_prox (snd (pid_ns_create q h)) = nh_prox h"
  by (simp add: pid_ns_create_def kmalloc_ns_def Let_def)

lemma kind_put_held:
  assumes inv: "ns_inv (add_mset a ext) B h" and b: "b \<in># refs (ns_common_put a h) + ext"
  shows "kind_at (ns_common_put a h) b = kind_at h b"
proof -
  from inv_obj [OF put_inv [OF inv] b] obtain y where y: "obj (ns_common_put a h) b = Some y" by blast
  have "shrinks h (ns_common_put a h)" using put_core inv unfolding ns_inv_def by blast
  with y obtain x n where "obj h b = Some x" "y = x\<lparr>o_refcnt := n\<rparr>" unfolding shrinks_def by metis
  with y show ?thesis by (simp add: kind_at_def)
qed

lemma puts_kinds:
  "ns_inv (mset as + ext) B h \<Longrightarrow> b \<in># ext \<Longrightarrow> kind_at (fold ns_common_put as h) b = kind_at h b"
proof (induction as arbitrary: h)
  case (Cons a as)
  then have "ns_inv (add_mset a (mset as + ext)) B h" by simp
  with Cons kind_put_held [OF this, of b] put_inv [OF this] show ?case by simp
qed simp

lemma get_put_prox: "ns_common_get a (put_prox i q h) = put_prox i q (ns_common_get a h)"
  by (simp add: ns_common_get_def put_obj_put_prox split: option.split) (simp add: bad_access_def put_prox_def)

lemma put_prox_twice [simp]: "put_prox i q (put_prox i r h) = put_prox i q h"
  by (simp add: put_prox_def)

lemma inv_weaken:
  assumes "ns_inv (e + ext) B h"
  shows "ns_inv ext B h"
proof -
  have "count (refs h + ext) a \<le> count (refs h + (e + ext)) a" for a by simp
  with assms show ?thesis unfolding ns_inv_def core_inv_def using order_trans by (metis union_iff)
qed

lemma nh_prox_puts: "nh_prox (fold ns_common_put as h) = nh_prox h"
  by (induction as arbitrary: h) simp_all

text \<open>
  A bundle whose process-id namespaces are exchanged for a new one, of which two references are taken; what
  the bundle does not use of them stays in \<open>extra\<close>.
\<close>

lemma rebundle_inv:
  assumes inv: "ns_inv (add_mset a ext) B h" and p: "prox h i = Some p" "i \<noteq> 0" and ka: "kind_at h a = Some 1"
    and m: "mset (np_list q) + mset as + extra = mset (np_list p) + {#a, a#}" "mset as \<subseteq># mset (np_list p)"
    and s: "\<And>s. slot_ns s q = slot_ns s p \<or> slot_ns s q = a \<and> slot_kind s = 1"
    and q: "np_refcnt q = np_refcnt p" "np_dynamic q = np_dynamic p"
  shows "ns_inv (extra + ext) B (put_prox i (Some q) (ns_common_get a (fold ns_common_put as h)))"
proof -
  let ?T = "put_prox i None h" and ?E = "(mset (np_list p) - mset as) + add_mset a ext"
  have "ns_inv (mset (np_list p) + add_mset a ext) {#} ?T" by (rule bundle_take [OF inv p])
  moreover have "mset (np_list p) + add_mset a ext = mset as + ?E" 
    using subset_mset.add_diff_inverse [OF m(2)] by (metis add.assoc)
  ultimately have T: "ns_inv (mset as + ?E) {#} ?T" by (simp only:)
  let ?P = "fold ns_common_put as ?T"
  have P: "ns_inv ?E {#} ?P" "\<And>b. b \<in># ?E \<Longrightarrow> kind_at ?P b = kind_at h b"
    using puts_inv [OF T] puts_kinds [OF T] by simp_all
  have "a \<in># refs ?P + ?E" by simp
  note g = get_inv [OF P(1) this]
  let ?G = "ns_common_get a ?P"
  have e: "add_mset a ?E = mset (np_list q) + (extra + ext)"
  proof -
    have "mset (np_list p) = (mset (np_list p) - mset as) + mset as" using m(2) by (simp add: subset_mset.diff_add)
    with m(1) have "(mset (np_list q) + extra) + mset as = ((mset (np_list p) - mset as) + {#a, a#}) + mset as"
      by (metis add.assoc add.commute)
    then have "mset (np_list q) + extra = (mset (np_list p) - mset as) + {#a, a#}" by (rule add_right_imp_eq)
    then have "mset (np_list q) + extra + ext = (mset (np_list p) - mset as) + {#a, a#} + ext" by (rule arg_cong)
    then show ?thesis by (simp add: ac_simps)
  qed
  have "ns_inv (extra + ext) B (put_prox i (Some q) ?G)"
  proof (rule bundle_give)
    show "ns_inv (mset (np_list q) + (extra + ext)) {#} ?G" using g(1) unfolding e .
    show "nh_prox ?G = nh_prox ?T" by (simp add: puts_put_prox get_put_prox) (simp add: put_prox_def nh_prox_puts)
    show "bund_inv B h" using inv by (simp add: ns_inv_def)
    show "kind_at ?G (slot_ns s q) = Some (slot_kind s)" for s
    proof -
      have "slot_ns s q \<in># mset (np_list q) + (extra + ext)" by (cases s) (simp_all add: np_list_def)
      then have "slot_ns s q \<in># add_mset a ?E" unfolding e .
      then have "slot_ns s q \<in># ?E" by auto
      with P(2) g(2) have "kind_at ?G (slot_ns s q) = kind_at h (slot_ns s q)" by simp
      with s [of s] ka kind_slot [OF inv p(1), of s] show ?thesis by auto
    qed
  qed (use p q in simp_all)
  then show ?thesis by (simp add: puts_put_prox get_put_prox)
qed

lemma prox_cong: "nh_prox h' = nh_prox h \<Longrightarrow> prox h' i = prox h i"
  by (simp add: prox_def)

lemma pid_ns_create_eq:
  assumes inv: "ns_inv ext B h" and p: "prox h i = Some p"
  obtains h1 where "pid_ns_create (np_pid_ns p) h = (None, h1)" "ns_inv ext B h1"
  | a h1 where "pid_ns_create (np_pid_ns p) h = (Some a, h1)" "ns_inv (add_mset a ext) B h1" "kind_at h1 a = Some 1"
      "prox h1 i = Some p"
proof -
  obtain r h1 where c: "pid_ns_create (np_pid_ns p) h = (r, h1)" by (cases "pid_ns_create (np_pid_ns p) h")
  have "nh_prox h1 = nh_prox h" using nh_prox_pid_ns_create [of "np_pid_ns p" h] by (simp add: c)
  from prox_cong [OF this] have "prox h1 i = Some p" using p by simp
  then show ?thesis using that pid_ns_create_inv [OF inv p] c by (cases r) (simp_all add: creates_def)
qed

lemma apply_newpid_inv:
  assumes inv: "ns_inv ext B h" and i: "i \<in># B" "i \<noteq> 0"
  shows "ns_inv ext B (snd (apply_newpid i h))"
proof -
  from inv_bundle [OF inv i(1)] obtain p where p: "prox h i = Some p" ..
  show ?thesis
  proof (rule pid_ns_create_eq [OF inv p])
    fix a h1
    assume c: "pid_ns_create (np_pid_ns p) h = (Some a, h1)" "ns_inv (add_mset a ext) B h1" "kind_at h1 a = Some 1"
      "prox h1 i = Some p"
    have "slot_ns s (p\<lparr>np_pid_ns := a, np_pid_ns_for_children := a\<rparr>) = slot_ns s p \<or>
        slot_ns s (p\<lparr>np_pid_ns := a, np_pid_ns_for_children := a\<rparr>) = a \<and> slot_kind s = 1" for s by (cases s) simp_all
    then have "ns_inv ({#} + ext) B (put_prox i (Some (p\<lparr>np_pid_ns := a, np_pid_ns_for_children := a\<rparr>))
        (ns_common_get a (fold ns_common_put [np_pid_ns p, np_pid_ns_for_children p] h1)))"
      by (intro rebundle_inv [OF c(2,4) i(2) c(3)]) (simp_all add: np_list_def)
    then show ?thesis by (simp add: apply_newpid_def p c(1) Let_def get_put_prox)
  qed (simp add: apply_newpid_def p)
qed

lemma unshare_newpid_inv:
  assumes inv: "ns_inv ext B h" and i: "i \<in># B" "i \<noteq> 0"
  shows "ns_inv ext B (snd (unshare_newpid i h))"
proof -
  from inv_bundle [OF inv i(1)] obtain p where p: "prox h i = Some p" ..
  show ?thesis
  proof (rule pid_ns_create_eq [OF inv p])
    fix a h1
    assume c: "pid_ns_create (np_pid_ns p) h = (Some a, h1)" "ns_inv (add_mset a ext) B h1" "kind_at h1 a = Some 1"
      "prox h1 i = Some p"
    have "slot_ns s (p\<lparr>np_pid_ns_for_children := a\<rparr>) = slot_ns s p \<or>
        slot_ns s (p\<lparr>np_pid_ns_for_children := a\<rparr>) = a \<and> slot_kind s = 1" for s by (cases s) simp_all
    then have "ns_inv ({#a#} + ext) B (put_prox i (Some (p\<lparr>np_pid_ns_for_children := a\<rparr>))
        (ns_common_get a (fold ns_common_put [np_pid_ns_for_children p] h1)))"
      by (intro rebundle_inv [OF c(2,4) i(2) c(3)]) (simp_all add: np_list_def)
    then show ?thesis using inv_weaken [of "{#a#}" ext B] by (simp add: unshare_newpid_def p c(1) Let_def)
  qed (simp add: unshare_newpid_def p)
qed

lemma ns_steps_inv:
  "ns_inv ext B h \<Longrightarrow> i \<in># B \<Longrightarrow> ns_inv ext B (snd (apply_steps i flags (ns_steps owner) h))"
  by (rule apply_steps_inv) (simp_all add: ns_steps_ok)

lemma ns_apply_new_namespaces_inv:
  assumes "ns_inv ext B h" "i \<in># B" "i \<noteq> 0"
  shows "ns_inv ext B (snd (ns_apply_new_namespaces i owner flags h))"
  using ns_steps_inv [OF assms(1,2), of flags owner] apply_newpid_inv [OF _ assms(2,3)]
  by (auto simp: ns_apply_new_namespaces_def split: prod.split)


section \<open>Process ids\<close>

lemma pid_slot_nat: "g \<noteq> 0 \<Longrightarrow> pid_slot g = unat g - 1"
  by (simp add: pid_slot_def unat_minus_one)

lemma pid_slot_lt: "g \<noteq> 0 \<Longrightarrow> unat g \<le> 64 \<Longrightarrow> pid_slot g < 64"
  by (simp add: pid_slot_nat unat_eq_0 [symmetric] less_Suc_eq_le)

lemma pid_max: "\<not> NS_PID_MAX < g \<longleftrightarrow> unat g \<le> 64"
  by (simp add: NS_PID_MAX_def word_less_nat_alt not_less)

lemma pid_okD:
  assumes "pid_ok p"
  shows "length (pn_local_of_global p) = 64" "length (pn_global_of_local p) = 64"
    "\<And>g. g < 64 \<Longrightarrow> pn_local_of_global p ! g \<noteq> 0 \<Longrightarrow> unat (pn_local_of_global p ! g) \<le> 64 \<and>
       pn_local_of_global p ! g < pn_next_pid p \<and>
       unat (pn_global_of_local p ! (unat (pn_local_of_global p ! g) - 1)) = Suc g"
    "\<And>j. j < 64 \<Longrightarrow> pn_global_of_local p ! j \<noteq> 0 \<Longrightarrow> unat (pn_global_of_local p ! j) \<le> 64 \<and>
       unat (pn_local_of_global p ! (unat (pn_global_of_local p ! j) - 1)) = Suc j"
  using assms by (simp_all add: pid_ok_def Let_def pid_slot_nat)

lemma pid_okI:
  assumes "length lg = 64" "length gl = 64"
    and "\<And>g. g < 64 \<Longrightarrow> lg ! g \<noteq> 0 \<Longrightarrow> unat (lg ! g) \<le> 64 \<and> lg ! g < n \<and> unat (gl ! (unat (lg ! g) - 1)) = Suc g"
    and "\<And>j. j < 64 \<Longrightarrow> gl ! j \<noteq> 0 \<Longrightarrow> unat (gl ! j) \<le> 64 \<and> unat (lg ! (unat (gl ! j) - 1)) = Suc j"
  shows "pid_ok (p\<lparr>pn_next_pid := n, pn_local_of_global := lg, pn_global_of_local := gl\<rparr>)"
  using assms by (simp add: pid_ok_def Let_def pid_slot_nat)

text \<open>Giving out the next number and taking an entry out both keep the tables inverse.\<close>

lemma pid_ok_add:
  assumes ok: "pid_ok p" and g: "g \<noteq> 0" "unat g \<le> 64" "pn_local_of_global p ! pid_slot g = 0"
    and l: "pn_next_pid p \<noteq> 0" "unat (pn_next_pid p) \<le> 64"
  shows "pid_ok (p\<lparr>pn_next_pid := pn_next_pid p + 1,
    pn_local_of_global := (pn_local_of_global p)[pid_slot g := pn_next_pid p],
    pn_global_of_local := (pn_global_of_local p)[pid_slot (pn_next_pid p) := g]\<rparr>)"
proof -
  note d = pid_okD [OF ok]
  let ?l = "pn_next_pid p"
  have u0: "0 < unat g" "0 < unat ?l" using g(1) l(1) by (simp_all add: unat_gt_0)
  have s: "pid_slot g = unat g - 1" "pid_slot ?l = unat ?l - 1" using g(1) l(1) by (simp_all add: pid_slot_nat)
  have next': "unat (?l + 1) = unat ?l + 1" using l(2) by (simp add: unat_word_ariths)
  have fresh: "pn_global_of_local p ! (unat ?l - 1) = 0"
  proof (rule ccontr)
    assume a: "pn_global_of_local p ! (unat ?l - 1) \<noteq> 0"
    have j: "unat ?l - 1 < 64" using l(2) u0 by simp
    let ?g = "pn_global_of_local p ! (unat ?l - 1)"
    have e: "unat ?g \<le> 64" "unat (pn_local_of_global p ! (unat ?g - 1)) = unat ?l" using d(4) [OF j a] u0 by auto
    have "unat ?g - 1 < 64" using e(1) a by (simp add: unat_gt_0 [symmetric])
    moreover have "pn_local_of_global p ! (unat ?g - 1) = ?l" using e(2) by (simp add: word_unat_eq_iff)
    ultimately show False using d(3) [of "unat ?g - 1"] l(1) by simp
  qed
  show ?thesis unfolding s
  proof (rule pid_okI)
    fix j assume j: "j < 64" and a: "(pn_local_of_global p)[unat g - 1 := ?l] ! j \<noteq> 0"
    let ?lg = "(pn_local_of_global p)[unat g - 1 := ?l]" and ?gl = "(pn_global_of_local p)[unat ?l - 1 := g]"
    show "unat (?lg ! j) \<le> 64 \<and> ?lg ! j < ?l + 1 \<and> unat (?gl ! (unat (?lg ! j) - 1)) = Suc j"
    proof (cases "j = unat g - 1")
      case True
      then have "?lg ! j = ?l" using j d(1) by simp
      then show ?thesis using l u0 g(2) d(2) next' True by (simp add: word_less_nat_alt)
    next
      case False
      then have e: "?lg ! j = pn_local_of_global p ! j" by simp
      with a d(3) [OF j] have f: "unat (?lg ! j) \<le> 64" "?lg ! j < ?l" "unat (pn_global_of_local p ! (unat (?lg ! j) - 1)) = Suc j"
        by simp_all
      from f(2) a have "unat (?lg ! j) - 1 \<noteq> unat ?l - 1" by (auto simp: word_less_nat_alt unat_gt_0 [symmetric])
      with f next' show ?thesis by (simp add: word_less_nat_alt)
    qed
  next
    fix j assume j: "j < 64" and a: "(pn_global_of_local p)[unat ?l - 1 := g] ! j \<noteq> 0"
    let ?lg = "(pn_local_of_global p)[unat g - 1 := ?l]" and ?gl = "(pn_global_of_local p)[unat ?l - 1 := g]"
    show "unat (?gl ! j) \<le> 64 \<and> unat (?lg ! (unat (?gl ! j) - 1)) = Suc j"
    proof (cases "j = unat ?l - 1")
      case True
      then have "?gl ! j = g" using j d(2) by simp
      then show ?thesis using g(2) u0 l(2) d(1) True by simp
    next
      case False
      then have e: "?gl ! j = pn_global_of_local p ! j" by simp
      with a d(4) [OF j] have f: "unat (?gl ! j) \<le> 64" "unat (pn_local_of_global p ! (unat (?gl ! j) - 1)) = Suc j" by simp_all
      from f(2) g(3) s(1) have "unat (?gl ! j) - 1 \<noteq> unat g - 1" by auto
      with f show ?thesis by simp
    qed
  qed (simp_all add: d)
qed

lemma pid_ok_clear:
  assumes ok: "pid_ok p" and g: "g \<noteq> 0" "unat g \<le> 64"
  shows "pid_ok (clear_pid g p)"
proof (cases "pn_local_of_global p ! pid_slot g = 0")
  case True
  with ok show ?thesis by (simp add: clear_pid_def)
next
  case False
  note d = pid_okD [OF ok]
  let ?l = "pn_local_of_global p ! pid_slot g"
  have u: "0 < unat g" "0 < unat ?l" using g False by (simp_all add: unat_gt_0)
  have s: "pid_slot g = unat g - 1" "pid_slot ?l = unat ?l - 1" using g False by (simp_all add: pid_slot_nat)
  have lt: "unat g - 1 < 64" using g u by simp
  have l: "unat ?l \<le> 64" "unat (pn_global_of_local p ! (unat ?l - 1)) = unat g"
    using d(3) [of "unat g - 1"] lt False s(1) u by auto
  let ?lg = "(pn_local_of_global p)[unat g - 1 := 0]" and ?gl = "(pn_global_of_local p)[unat ?l - 1 := 0]"
  have "pid_ok (p\<lparr>pn_next_pid := pn_next_pid p, pn_local_of_global := ?lg, pn_global_of_local := ?gl\<rparr>)"
  proof (rule pid_okI)
    fix j assume j: "j < 64" and a: "?lg ! j \<noteq> 0"
    then have n: "j \<noteq> unat g - 1" using d(1) by auto
    with a d(3) [OF j] have f: "unat (?lg ! j) \<le> 64" "?lg ! j < pn_next_pid p"
      "unat (pn_global_of_local p ! (unat (?lg ! j) - 1)) = Suc j" by simp_all
    from f(3) l(2) n u have "unat (?lg ! j) - 1 \<noteq> unat ?l - 1" by auto
    with f show "unat (?lg ! j) \<le> 64 \<and> ?lg ! j < pn_next_pid p \<and> unat (?gl ! (unat (?lg ! j) - 1)) = Suc j" by simp
  next
    fix j assume j: "j < 64" and a: "?gl ! j \<noteq> 0"
    then have n: "j \<noteq> unat ?l - 1" using d(2) by auto
    with a d(4) [OF j] have f: "unat (?gl ! j) \<le> 64" "unat (pn_local_of_global p ! (unat (?gl ! j) - 1)) = Suc j"
      by simp_all
    from f(2) n u s(1) have "unat (?gl ! j) - 1 \<noteq> unat g - 1" by auto
    with f show "unat (?gl ! j) \<le> 64 \<and> unat (?lg ! (unat (?gl ! j) - 1)) = Suc j" by simp
  qed (simp_all add: d)
  then show ?thesis using False by (simp add: clear_pid_def Let_def s pid_slot_nat)
qed

lemma pid_ok_full: "pid_ok p \<Longrightarrow> pid_ok (p\<lparr>pn_next_pid := NS_PID_MAX + 1\<rparr>)"
  by (auto simp: pid_ok_def Let_def NS_PID_MAX_def word_less_nat_alt)

text \<open>What the tables of process ids leave alone.\<close>

definition pid_frame :: "nsheap \<Rightarrow> nsheap \<Rightarrow> bool" where
  "pid_frame h h' \<longleftrightarrow> refs h' = refs h \<and> kind_at h' = kind_at h \<and> nh_prox h' = nh_prox h \<and>
     (\<forall>a. parent_of a h' = parent_of a h)"

lemma pid_frame_refl [simp]: "pid_frame h h"
  by (simp add: pid_frame_def)

lemma pid_frame_trans: "pid_frame h h1 \<Longrightarrow> pid_frame h1 h2 \<Longrightarrow> pid_frame h h2"
  by (simp add: pid_frame_def)

lemma pid_of_obj: "pid_of a h = Some p \<Longrightarrow> \<exists>x. obj h a = Some x \<and> o_body x = Ns_pid p"
  by (auto simp: pid_of_def split: option.splits ns_body.splits)

lemma inv_pid_ok: "ns_inv ext B h \<Longrightarrow> pid_of a h = Some p \<Longrightarrow> pid_ok p"
  using pid_of_obj [of a h p] typ_inv_body [of h a] unfolding ns_inv_def by fastforce

lemma set_pid_inv:
  assumes inv: "ns_inv ext B h" and p: "pid_of a h = Some p" and q: "pid_ok q"
  shows "ns_inv ext B (set_pid a q h) \<and> pid_frame h (set_pid a q h)"
proof -
  from pid_of_obj [OF p] obtain x where x: "obj h a = Some x" "o_body x = Ns_pid p" by blast
  have e: "set_pid a q h = put_obj a (Some (x\<lparr>o_body := Ns_pid q\<rparr>)) h" by (simp add: set_pid_def x(1))
  note b = body_inv [OF inv x(1), of "Ns_pid q"]
  have "parent_of c (set_pid a q h) = parent_of c h" for c
    unfolding e parent_of_def by (simp add: obj_upd [OF x(1)] x(1))
  then show ?thesis using b x(2) q unfolding pid_frame_def e by auto
qed

lemma parent_held:
  assumes inv: "ns_inv ext B h" and a: "a \<in># refs h + ext" and q: "parent_of a h = Some q"
  shows "q \<in># refs h" "q < a" "kind_at h q = kind_at h a"
proof -
  from inv_obj [OF inv a] obtain x where x: "obj h a = Some x" "o_dynamic x \<longrightarrow> 0 < o_refcnt x" by blast
  have c: "core_inv ext h" "typ_inv h" using inv by (simp_all add: ns_inv_def)
  have px: "o_parent x = Some q" using q x(1) by (simp add: parent_of_def)
  with core_inv_count [OF c(1) x(1)] x(2) have r: "0 < o_refcnt x" by (auto simp: obj_wf_def)
  have "q \<in> set (par_refs (Some x))" using r px by simp
  moreover have "Some x \<in> set (nh_objs h)" using obj_lt [OF x(1)] nth_mem by metis
  ultimately have "q \<in> set (concat (map par_refs (nh_objs h)))" unfolding set_concat set_map by blast
  then show qr: "q \<in># refs h" unfolding refs_def by simp
  from c(2) x(1) px have t: "q < a" "\<And>k. kind_at h q = Some k \<Longrightarrow> k = kind_no (o_body x)" unfolding typ_inv_def by blast+
  then show "q < a" by simp
  from qr have "q \<in># refs h + ext" by simp
  from inv_obj [OF inv this] obtain y where "obj h q = Some y" by blast
  with t(2) x(1) show "kind_at h q = kind_at h a" by (simp add: kind_at_def)
qed

lemma kind_pid_of: "kind_at h a = Some 1 \<Longrightarrow> \<exists>p. pid_of a h = Some p"
  unfolding kind_at_def pid_of_def by (auto split: option.splits ns_body.splits)

lemma pid_of_held:
  assumes "ns_inv ext B h" "kind_at h a = Some 1"
  obtains p where "pid_of a h = Some p" "pid_ok p"
  using kind_pid_of [OF assms(2)] inv_pid_ok [OF assms(1)] by blast

text \<open>The recovery on a full namespace: the entry in the parent is cleared.\<close>

lemma register_full_inv:
  assumes inv: "ns_inv ext B h" and a: "a \<in># refs h + ext" "kind_at h a = Some 1" and g: "g \<noteq> 0" "unat g \<le> 64"
  defines "h' \<equiv> (case parent_of a h of None \<Rightarrow> h
    | Some q \<Rightarrow> (case pid_of q h of None \<Rightarrow> bad_access h | Some pp \<Rightarrow> set_pid q (clear_pid g pp) h))"
  shows "ns_inv ext B h' \<and> pid_frame h h'"
proof (cases "parent_of a h")
  case None
  with inv show ?thesis by (simp add: h'_def)
next
  case (Some q)
  note ph = parent_held [OF inv a(1) Some]
  from ph(3) a(2) have "kind_at h q = Some 1" by simp
  from pid_of_held [OF inv this] obtain pp where pp: "pid_of q h = Some pp" "pid_ok pp" .
  show ?thesis using set_pid_inv [OF inv pp(1) pid_ok_clear [OF pp(2) g]] by (simp add: h'_def Some pp(1))
qed

lemma pid_ns_register_n_inv:
  assumes "ns_inv ext B h" "a \<in># refs h + ext" "kind_at h a = Some 1" "a < n"
  shows "ns_inv ext B (snd (pid_ns_register_n n (Some a) g h)) \<and> pid_frame h (snd (pid_ns_register_n n (Some a) g h))"
  using assms
proof (induction n arbitrary: a)
  case (Suc n)
  show ?case
  proof (cases "g = 0 \<or> NS_PID_MAX < g \<or> a = init_pid_ns")
    case True
    then show ?thesis using Suc.prems by auto
  next
    case False
    then have g: "g \<noteq> 0" "unat g \<le> 64" using pid_max by auto
    obtain ok h1 where r: "pid_ns_register_n n (parent_of a h) g h = (ok, h1)"
      by (cases "pid_ns_register_n n (parent_of a h) g h")
    have h1: "ns_inv ext B h1" "pid_frame h h1"
    proof -
      have "ns_inv ext B h1 \<and> pid_frame h h1"
      proof (cases "parent_of a h")
        case None
        with r Suc.prems(1) show ?thesis by auto
      next
        case (Some q)
        note ph = parent_held [OF Suc.prems(1,2) Some]
        show ?thesis using Suc.IH [of q] Suc.prems ph r Some by simp
      qed
      then show "ns_inv ext B h1" "pid_frame h h1" by simp_all
    qed
    have a1: "a \<in># refs h1 + ext" "kind_at h1 a = Some 1" using h1(2) Suc.prems by (simp_all add: pid_frame_def)
    from pid_of_held [OF h1(1) a1(2)] obtain p where p: "pid_of a h1 = Some p" "pid_ok p" .
    let ?f = "set_pid a (p\<lparr>pn_next_pid := NS_PID_MAX + 1\<rparr>) h1"
    have f: "ns_inv ext B ?f" "pid_frame h1 ?f" using set_pid_inv [OF h1(1) p(1) pid_ok_full [OF p(2)]] by simp_all
    have af: "a \<in># refs ?f + ext" "kind_at ?f a = Some 1" using f(2) a1 by (simp_all add: pid_frame_def)
    note full = register_full_inv [OF f(1) af g]
    show ?thesis
    proof (cases "ok \<and> pn_local_of_global p ! pid_slot g = 0")
      case nok: False
      then show ?thesis using False r h1 p(1) by (cases ok) auto
    next
      case ok: True
      show ?thesis
      proof (cases "pn_next_pid p = 0 \<or> NS_PID_MAX < pn_next_pid p")
        case True
        then have "snd (pid_ns_register_n (Suc n) (Some a) g h) = (case parent_of a ?f of None \<Rightarrow> ?f
          | Some q \<Rightarrow> (case pid_of q ?f of None \<Rightarrow> bad_access ?f | Some pp \<Rightarrow> set_pid q (clear_pid g pp) ?f))"
          using False r p(1) ok by (auto simp: Let_def)
        with full pid_frame_trans [OF h1(2) pid_frame_trans [OF f(2)]] show ?thesis by simp
      next
        case room: False
        then have l: "pn_next_pid p \<noteq> 0" "unat (pn_next_pid p) \<le> 64" using pid_max by auto
        from ok have "pn_local_of_global p ! pid_slot g = 0" by simp
        from set_pid_inv [OF h1(1) p(1) pid_ok_add [OF p(2) g this l]] pid_frame_trans [OF h1(2)]
        show ?thesis using False r p(1) ok room by (auto simp: Let_def)
      qed
    qed
  qed
qed simp

lemma pid_ns_register_inv:
  assumes "ns_inv ext B h" "a \<in># refs h + ext" "kind_at h a = Some 1"
  shows "ns_inv ext B (snd (pid_ns_register a g h)) \<and> pid_frame h (snd (pid_ns_register a g h))"
  unfolding pid_ns_register_def by (rule pid_ns_register_n_inv [OF assms]) (simp add: less_SucI refs_lt [OF assms(1,2)])

lemma pid_ns_unregister_n_inv:
  assumes "ns_inv ext B h" "a \<in># refs h + ext" "kind_at h a = Some 1" "a < n"
  shows "ns_inv ext B (pid_ns_unregister_n n (Some a) g h) \<and> pid_frame h (pid_ns_unregister_n n (Some a) g h)"
  using assms
proof (induction n arbitrary: a h)
  case (Suc n)
  from pid_of_held [OF Suc.prems(1,3)] obtain p where p: "pid_of a h = Some p" "pid_ok p" .
  show ?case
  proof (cases "a = init_pid_ns \<or> g = 0 \<or> NS_PID_MAX < g \<or> pn_local_of_global p ! pid_slot g = 0")
    case True
    then show ?thesis using Suc.prems p by auto
  next
    case False
    then have g: "g \<noteq> 0" "unat g \<le> 64" using pid_max by auto
    let ?h = "set_pid a (clear_pid g p) h"
    have h: "ns_inv ext B ?h" "pid_frame h ?h" using set_pid_inv [OF Suc.prems(1) p(1) pid_ok_clear [OF p(2) g]] by simp_all
    have e: "pid_ns_unregister_n (Suc n) (Some a) g h = pid_ns_unregister_n n (parent_of a h) g ?h"
      using False p by simp
    show ?thesis
    proof (cases "parent_of a h")
      case None
      with h e show ?thesis by simp
    next
      case (Some q)
      note ph = parent_held [OF Suc.prems(1,2) Some]
      have "q \<in># refs ?h + ext" "kind_at ?h q = Some 1" "q < n"
        using ph Suc.prems h(2) by (simp_all add: pid_frame_def)
      from Suc.IH [OF h(1) this] e Some pid_frame_trans [OF h(2)] show ?thesis by simp
    qed
  qed
qed simp

lemma pid_ns_unregister_inv:
  assumes "ns_inv ext B h" "a \<in># refs h + ext" "kind_at h a = Some 1"
  shows "ns_inv ext B (pid_ns_unregister a g h) \<and> pid_frame h (pid_ns_unregister a g h)"
  unfolding pid_ns_unregister_def by (rule pid_ns_unregister_n_inv [OF assms]) (simp add: less_SucI refs_lt [OF assms(1,2)])


section \<open>Fork, unshare and setns\<close>

lemma clone_fresh:
  assumes "ns_inv ext B h" "nsproxy_clone src h = (Some i, h')"
  shows "i \<noteq> 0" "i \<notin># B"
proof -
  have b: "bund_inv B h" using assms(1) by (simp add: ns_inv_def)
  have i: "i = length (nh_prox h)"
    using assms(2) by (auto simp: nsproxy_clone_def Let_def split: option.splits if_splits)
  then have none: "prox h i = None" by (simp add: prox_def)
  with b show "i \<noteq> 0" "i \<notin># B" unfolding bund_inv_def by metis+
qed

lemma adopt_pid_ns_inv:
  assumes inv: "ns_inv ext B h" and i: "i \<in># B" and t: "t \<in># refs h" "kind_at h t = Some 1"
    and s: "slot_kind s = 1"
  shows "ns_inv ext B (adopt_pid_ns i s t h)"
proof -
  from inv_bundle [OF inv i] obtain p where p: "prox h i = Some p" ..
  have "t \<in># refs h + ext" using t(1) by simp
  note g = get_inv [OF inv this]
  have "ns_inv ext B (replace_slot i s t (ns_common_get t h))"
    by (rule replace_slot_inv [OF g(1) i]) (simp add: g(2) t(2) s)
  with inv show ?thesis by (simp add: adopt_pid_ns_def p)
qed

lemma replace_slot_other: "j \<noteq> i \<Longrightarrow> prox (replace_slot i s a h) j = prox h j"
  by (simp add: replace_slot_def prox_def put_prox_def bad_access_def split: option.split)

lemma adopt_pid_ns_other: "j \<noteq> i \<Longrightarrow> prox (adopt_pid_ns i s t h) j = prox h j"
  by (simp add: adopt_pid_ns_def replace_slot_other prox_cong [OF nh_prox_get] split: option.split)
     (simp add: prox_def bad_access_def)

lemma child_adopt_inv:
  assumes inv: "ns_inv ext B h" and i: "i \<in># B" and j: "j \<in># B" "j \<noteq> i" and np: "prox h j = Some np"
  shows "ns_inv ext B (adopt_pid_ns i S_pid_children (np_pid_ns_for_children np)
           (adopt_pid_ns i S_pid (np_pid_ns_for_children np) h))"
proof -
  let ?t = "np_pid_ns_for_children np"
  have 1: "ns_inv ext B (adopt_pid_ns i S_pid ?t h)"
    by (rule adopt_pid_ns_inv [OF inv i])
      (use slot_in_refs [OF np, of S_pid_children] kind_slot [OF inv np, of S_pid_children] in simp_all)
  have np1: "prox (adopt_pid_ns i S_pid ?t h) j = Some np" using np adopt_pid_ns_other [OF j(2)] by simp
  show ?thesis
    by (rule adopt_pid_ns_inv [OF 1 i])
      (use slot_in_refs [OF np1, of S_pid_children] kind_slot [OF 1 np1, of S_pid_children] in simp_all)
qed

lemma child_bundle_inv:
  assumes inv: "ns_inv ext B h" and j: "p_nsproxy parent = Some j" "j \<in># B"
  shows "case child_bundle parent flags h of
    (Inl r, h') \<Rightarrow> r < 0 \<and> ns_inv ext B h' | (Inr i, h') \<Rightarrow> ns_inv ext (add_mset i B) h'"
proof -
  obtain ci h1 where c: "nsproxy_clone (p_nsproxy parent) h = (ci, h1)" by (cases "nsproxy_clone (p_nsproxy parent) h")
  have ci: "case nsproxy_clone (p_nsproxy parent) h of (None, h') \<Rightarrow> ns_inv ext B h' | (Some i, h') \<Rightarrow> ns_inv ext (add_mset i B) h'"
    by (rule nsproxy_clone_inv [OF inv]) (use j in simp)
  show ?thesis
  proof (cases ci)
    case None
    with c ci show ?thesis by (simp add: child_bundle_def)
  next
    case (Some i)
    note cl = c [unfolded Some]
    have h1: "ns_inv ext (add_mset i B) h1" using ci cl by simp
    note fr = clone_fresh [OF inv cl]
    let ?a = "if flags AND NS_CLONE_ALL \<noteq> 0 then ns_apply_new_namespaces i (p_euid parent) flags h1 else (0, h1)"
    obtain r h2 where a: "?a = (r, h2)" by (cases ?a)
    have h2: "ns_inv ext (add_mset i B) h2"
      using ns_apply_new_namespaces_inv [OF h1 _ fr(1), of "p_euid parent" flags] h1 a by (auto split: if_splits)
    have ij: "i \<in># add_mset i B" "j \<in># add_mset i B" "j \<noteq> i" using j(2) fr(2) by auto
    from inv_bundle [OF h2 ij(2)] obtain np where np: "prox h2 j = Some np" ..
    show ?thesis
      using nsproxy_put_inv [OF h2] h2 child_adopt_inv [OF h2 ij np] np
      unfolding child_bundle_def cl prod.case option.case a by (simp add: j(1) Let_def)
  qed
qed

lemma ns_child_prepare_inv:
  assumes inv: "ns_inv {#} (add_mset c B) h" and j: "p_nsproxy parent = Some j" "j \<in># B" and c: "p_nsproxy child = Some c"
  shows "\<exists>i. p_nsproxy (fst (snd (ns_child_prepare parent child flags thread h))) = Some i \<and>
    ns_inv {#} (add_mset i B) (snd (snd (ns_child_prepare parent child flags thread h)))"
proof (cases "thread \<and> flags AND NS_CLONE_ALL \<noteq> 0")
  case True
  with inv c show ?thesis by (simp add: ns_child_prepare_def)
next
  case False
  let ?b = "if thread then (case p_nsproxy parent of None \<Rightarrow> (Inl 0, bad_access h) | Some i \<Rightarrow> (Inr i, nsproxy_get i h))
            else child_bundle parent flags h"
  have j': "j \<in># add_mset c B" using j(2) by simp
  from inv_bundle [OF inv j'] obtain np where np: "prox h j = Some np" ..
  obtain r h1 where b: "?b = (r, h1)" by (cases ?b)
  have bi: "case r of Inl r \<Rightarrow> ns_inv {#} (add_mset c B) h1 | Inr i \<Rightarrow> ns_inv {#} (add_mset i (add_mset c B)) h1"
    using nsproxy_get_inv [OF inv np] child_bundle_inv [OF inv j(1) j', of flags] j j' b
    by (auto split: if_splits sum.splits)
  show ?thesis
  proof (cases r)
    case (Inl e)
    with bi c show ?thesis unfolding ns_child_prepare_def if_not_P [OF False] b by simp
  next
    case (Inr i)
    with bi have "ns_inv {#} (add_mset c (add_mset i B)) h1" by (simp add: add_mset_commute)
    note h2 = nsproxy_put_inv [OF this]
    have ii: "i \<in># add_mset i B" by simp
    from inv_bundle [OF h2 ii] obtain q where q: "prox (nsproxy_put c h1) i = Some q" ..
    have "np_pid_ns q \<in># refs (nsproxy_put c h1) + {#}" using slot_in_refs [OF q, of S_pid] by simp
    from pid_ns_register_inv [OF h2 this] kind_slot [OF h2 q, of S_pid]
    have "ns_inv {#} (add_mset i B) (snd (pid_ns_register (np_pid_ns q) (p_pid child) (nsproxy_put c h1)))" by simp
    with Inr c q show ?thesis
      unfolding ns_child_prepare_def if_not_P [OF False] b by (auto simp: Let_def split: prod.split)
  qed
qed

lemma ns_unshare_inv:
  assumes inv: "ns_inv {#} (add_mset j B) h" and j: "p_nsproxy p = Some j"
  shows "\<exists>i. p_nsproxy (fst (snd (ns_unshare p priv flags h))) = Some i \<and>
    ns_inv {#} (add_mset i B) (snd (snd (ns_unshare p priv flags h)))"
proof -
  obtain ci h1 where c: "nsproxy_clone (p_nsproxy p) h = (ci, h1)" by (cases "nsproxy_clone (p_nsproxy p) h")
  have ci: "case nsproxy_clone (p_nsproxy p) h of (None, h') \<Rightarrow> ns_inv {#} (add_mset j B) h'
      | (Some i, h') \<Rightarrow> ns_inv {#} (add_mset i (add_mset j B)) h'"
    by (rule nsproxy_clone_inv [OF inv]) (use j in simp)
  show ?thesis
  proof (cases ci)
    case None
    with c ci inv j show ?thesis by (simp add: ns_unshare_def)
  next
    case (Some i)
    note cl = c [unfolded Some]
    have h1: "ns_inv {#} (add_mset i (add_mset j B)) h1" using ci cl by simp
    note fr = clone_fresh [OF inv cl]
    let ?a = "case apply_steps i flags (ns_steps (p_euid p)) h1 of
                (r, h) \<Rightarrow> if r \<noteq> 0 \<or> flags AND CLONE_NEWPID = 0 then (r, h) else unshare_newpid i h"
    obtain r h2 where a: "?a = (r, h2)" by (cases ?a)
    have ii: "i \<in># add_mset i (add_mset j B)" by simp
    have "ns_inv {#} (add_mset i (add_mset j B)) (snd ?a)"
      using ns_steps_inv [OF h1 ii, of flags "p_euid p"] unshare_newpid_inv [OF _ ii fr(1)] by (auto split: prod.split)
    then have h2: "ns_inv {#} (add_mset i (add_mset j B)) h2" unfolding a by simp
    have h2': "ns_inv {#} (add_mset j (add_mset i B)) h2" using h2 by (simp add: add_mset_commute)
    show ?thesis using nsproxy_put_inv [OF h2] nsproxy_put_inv [OF h2'] inv j a cl by (simp add: ns_unshare_def)
  qed
qed

lemma setns_kind: "type_slot t fc = Some s \<Longrightarrow> setns_slot t = Some s' \<Longrightarrow> slot_kind s' = slot_kind s"
  by (auto simp: type_slot_def setns_slot_def NS_TYPE_USER_def NS_TYPE_PID_def split: if_splits)

lemma setns_install_inv:
  assumes inv: "ns_inv {#} B h" and i: "p_nsproxy p = Some i" "i \<in># B" and t: "p_nsproxy q = Some j" "j \<in># B"
    and src: "ns_for_proc q type fc h = Some src"
  shows "ns_inv {#} B (snd (setns_install p src type h))"
proof -
  from inv_bundle [OF inv t(2)] obtain np where np: "prox h j = Some np" ..
  from src t(1) np obtain s where s: "type_slot type fc = Some s" "src = slot_ns s np" by (auto simp: ns_for_proc_def)
  have held: "src \<in># refs h + {#}" using slot_in_refs [OF np] s(2) by simp
  note g = get_inv [OF inv held]
  have "ns_inv {#} B (replace_slot i s' src (ns_common_get src h))" if "setns_slot type = Some s'" for s'
    by (rule replace_slot_inv [OF g(1) i(2)])
      (use kind_slot [OF inv np, of s] setns_kind [OF s(1) that] in \<open>simp add: g(2) s(2) [symmetric]\<close>)
  with inv i(1) show ?thesis by (auto simp: setns_install_def split: option.split)
qed

lemma ns_uts_sethostname_inv:
  assumes inv: "ns_inv {#} B h" and i: "p_nsproxy p = Some i" "i \<in># B"
  shows "ns_inv {#} B (snd (ns_uts_sethostname p name h))"
proof -
  from inv_bundle [OF inv i(2)] obtain np where np: "prox h i = Some np" ..
  from inv_slot [OF inv np, of S_uts] obtain x where x: "obj h (np_uts_ns np) = Some x" "kind_no (o_body x) = 3" by auto
  show ?thesis using inv body_inv(1) [OF inv x(1), of "Ns_uts name"] x i(1) np by (simp add: ns_uts_sethostname_def)
qed

text \<open>
  A mount operation works on a copy of the mount namespace and installs it (\<open>src/kernel/syscall/mount.c\<close>).
\<close>

definition mnt_replace :: "proc \<Rightarrow> nsheap \<Rightarrow> nsheap" where
  "mnt_replace p h =
     (case p_nsproxy p of
        None \<Rightarrow> h
      | Some i \<Rightarrow>
          (case prox h i of
             None \<Rightarrow> bad_access h
           | Some np \<Rightarrow>
               (case ns_mnt_clone (np_mnt_ns np) h of
                  (None, h) \<Rightarrow> h
                | (Some nm, h) \<Rightarrow> ns_mnt_put nm (ns_mnt_set p nm h))))"

lemma mnt_replace_inv:
  assumes inv: "ns_inv {#} B h" and i: "p_nsproxy p = Some i" "i \<in># B"
  shows "ns_inv {#} B (mnt_replace p h)"
proof -
  from inv_bundle [OF inv i(2)] obtain np where np: "prox h i = Some np" ..
  obtain r h1 where c: "ns_mnt_clone (np_mnt_ns np) h = (r, h1)" by (cases "ns_mnt_clone (np_mnt_ns np) h")
  have cr: "creates 2 {#} B (r, h1)" using ns_mnt_clone_inv [OF inv np] c by simp
  show ?thesis
  proof (cases r)
    case None
    with cr c i np show ?thesis by (simp add: mnt_replace_def creates_def)
  next
    case (Some a)
    with cr have a: "ns_inv {#a#} B h1" "kind_at h1 a = Some 2" by (simp_all add: creates_def)
    have "a \<in># refs h1 + {#a#}" by simp
    note g = get_inv [OF a(1) this]
    have "ns_inv {#a#} B (replace_slot i S_mnt a (ns_common_get a h1))"
      by (rule replace_slot_inv [OF g(1) i(2)]) (simp add: g(2) a(2))
    from put_inv [OF this] show ?thesis
      using c Some i np by (simp add: mnt_replace_def ns_mnt_set_def ns_mnt_put_def)
  qed
qed

text \<open>What the end of a process does to its namespaces.\<close>

definition ns_release :: "proc \<Rightarrow> nsheap \<Rightarrow> nsheap" where
  "ns_release p h =
     (let h = ns_proc_unregister p h in case p_nsproxy p of None \<Rightarrow> h | Some i \<Rightarrow> nsproxy_put i h)"

lemma ns_release_inv:
  assumes inv: "ns_inv {#} (add_mset i B) h" and i: "p_nsproxy p = Some i"
  shows "ns_inv {#} B (ns_release p h)"
proof -
  have ii: "i \<in># add_mset i B" by simp
  from inv_bundle [OF inv ii] obtain np where np: "prox h i = Some np" ..
  have held: "np_pid_ns np \<in># refs h + {#}" using slot_in_refs [OF np, of S_pid] by simp
  have "ns_inv {#} (add_mset i B) (pid_ns_unregister (np_pid_ns np) (p_pid p) h)"
    using pid_ns_unregister_inv [OF inv held] kind_slot [OF inv np, of S_pid] by simp
  from nsproxy_put_inv [OF this] i np show ?thesis by (simp add: ns_release_def ns_proc_unregister_def)
qed

section \<open>All processes together\<close>

text \<open>
  The namespaces and the processes that use them. A new process starts with a reference to the initial bundle
  (\<open>proc_alloc\<close>); when its namespaces cannot be prepared it is discarded.
\<close>

type_synonym ns_world = "nsheap \<times> proc list"

definition do_fork :: "nat \<Rightarrow> proc \<Rightarrow> u64 \<Rightarrow> bool \<Rightarrow> ns_world \<Rightarrow> ns_world" where
  "do_fork j child flags thread w =
     (case w of (h, ps) \<Rightarrow>
        (case ns_child_prepare (ps ! j) (child\<lparr>p_nsproxy := Some init_nsproxy\<rparr>) flags thread (nsproxy_get init_nsproxy h) of
           (r, c, h) \<Rightarrow> if r < 0 then (ns_release c h, ps) else (h, ps @ [c])))"

inductive ns_step :: "ns_world \<Rightarrow> ns_world \<Rightarrow> bool" where
  nt_fork: "j < length ps \<Longrightarrow> ns_step (h, ps) (do_fork j child flags thread (h, ps))"
| nt_exit: "j < length ps \<Longrightarrow> ns_step (h, ps) (ns_release (ps ! j) h, take j ps @ drop (Suc j) ps)"
| nt_unshare: "j < length ps \<Longrightarrow> ns_unshare (ps ! j) priv flags h = (r, p, h') \<Longrightarrow> ns_step (h, ps) (h', ps[j := p])"
| nt_setns: "j < length ps \<Longrightarrow> t < length ps \<Longrightarrow> ns_for_proc (ps ! t) type fc h = Some src \<Longrightarrow>
    ns_step (h, ps) (snd (setns_install (ps ! j) src type h), ps)"
| nt_mount: "j < length ps \<Longrightarrow> ns_step (h, ps) (mnt_replace (ps ! j) h, ps)"
| nt_hostname: "j < length ps \<Longrightarrow> ns_step (h, ps) (snd (ns_uts_sethostname (ps ! j) name h), ps)"

fun ns_start :: "ns_world \<Rightarrow> bool" where
  "ns_start (h, ps) \<longleftrightarrow> (\<exists>vroot ok. h = ns_init vroot ok) \<and> (\<exists>p. ps = [p] \<and> p_nsproxy p = Some init_nsproxy)"

definition bundles :: "proc list \<Rightarrow> nat multiset" where
  "bundles ps = mset (map (\<lambda>p. the (p_nsproxy p)) ps)"

fun w_inv :: "ns_world \<Rightarrow> bool" where
  "w_inv (h, ps) \<longleftrightarrow> ns_inv {#} (bundles ps) h \<and> (\<forall>p \<in> set ps. p_nsproxy p \<noteq> None)"

lemma bundles_split: "j < length ps \<Longrightarrow> bundles ps = add_mset (the (p_nsproxy (ps ! j))) (bundles (take j ps @ drop (Suc j) ps))"
  by (subst (1) id_take_nth_drop [of j ps]) (simp_all add: bundles_def)

lemma bundles_update: "j < length ps \<Longrightarrow> bundles (ps[j := p]) = add_mset (the (p_nsproxy p)) (bundles (take j ps @ drop (Suc j) ps))"
  by (simp add: bundles_def upd_conv_take_nth_drop)

lemma w_inv_proc:
  assumes "w_inv (h, ps)" "j < length ps"
  obtains i where "p_nsproxy (ps ! j) = Some i" "i \<in># bundles ps"
    "ns_inv {#} (add_mset i (bundles (take j ps @ drop (Suc j) ps))) h"
proof -
  from assms obtain i where i: "p_nsproxy (ps ! j) = Some i" by (metis nth_mem option.exhaust w_inv.simps)
  with bundles_split [OF assms(2)] assms(1) that show ?thesis by simp
qed

lemma do_fork_inv:
  assumes inv: "w_inv (h, ps)" and j: "j < length ps"
  shows "w_inv (do_fork j child flags thread (h, ps))"
proof -
  from inv have n: "ns_inv {#} (bundles ps) h" by simp
  obtain i where i: "p_nsproxy (ps ! j) = Some i" "i \<in># bundles ps" by (rule w_inv_proc [OF assms])
  from n obtain p where p: "prox h 0 = Some p" "\<not> np_dynamic p" unfolding ns_inv_def bund_inv_def by blast
  have g: "ns_inv {#} (add_mset init_nsproxy (bundles ps)) (nsproxy_get init_nsproxy h)"
    using nsproxy_get_inv [OF n p(1)] p(2) by (simp add: init_nsproxy_def)
  let ?c = "child\<lparr>p_nsproxy := Some init_nsproxy\<rparr>"
  obtain r c h' where e: "ns_child_prepare (ps ! j) ?c flags thread (nsproxy_get init_nsproxy h) = (r, c, h')"
    by (cases "ns_child_prepare (ps ! j) ?c flags thread (nsproxy_get init_nsproxy h)")
  from ns_child_prepare_inv [OF g i, of ?c flags thread] e obtain k where k: "p_nsproxy c = Some k"
    "ns_inv {#} (add_mset k (bundles ps)) h'" by auto
  from inv k ns_release_inv [OF k(2,1)] show ?thesis by (simp add: do_fork_def e bundles_def)
qed

lemma ns_init_inv: "ns_inv {#} {#init_nsproxy#} (ns_init vroot ok)"
proof -
  have o: "obj (ns_init vroot ok) a = Some x \<Longrightarrow> o_parent x = None \<and> \<not> o_dynamic x \<and> body_ok (o_body x)" for a x
  proof -
    assume a: "obj (ns_init vroot ok) a = Some x"
    then have "x \<in> the ` set (nh_objs (ns_init vroot ok))"
      using obj_lt [OF a] by (metis image_eqI nth_mem option.sel)
    moreover have "unat (1 + word_of_nat g :: u32) = Suc g" if "g < 64" for g
      using that by (simp add: unat_word_ariths unat_of_nat)
    then have "pid_ok \<lparr>pn_level = 0, pn_next_pid = NS_PID_MAX + 1, pn_local_of_global = map (\<lambda>i. of_nat (i + 1)) [0..<64],
      pn_global_of_local = map (\<lambda>i. of_nat (i + 1)) [0..<64]\<rparr>"
      by (simp add: pid_ok_def pid_slot_def NS_PID_MAX_def Let_def unat_of_nat word_less_nat_alt)
    ultimately show ?thesis by (auto simp: ns_init_def static_ns_def)
  qed
  have r: "refs (ns_init vroot ok) = {#0, 1, 1, 2, 3, 4, 5, 6#}"
    by (simp add: refs_def ns_init_def static_ns_def np_list_def init_user_ns_def init_pid_ns_def init_mnt_ns_def
      init_uts_ns_def init_ipc_ns_def init_net_ns_def init_cgroup_ns_def add_mset_commute)
  have len: "length (nh_objs (ns_init vroot ok)) = 7" by (simp add: ns_init_def)
  have "obj (ns_init vroot ok) a \<noteq> None" if "a < 7" for a
    using that by (auto simp: obj_def ns_init_def static_ns_def less_Suc_eq numeral_eq_Suc)
  then have "core_inv {#} (ns_init vroot ok)" unfolding core_inv_def r using o by (auto simp: obj_wf_def)
  moreover have p: "prox (ns_init vroot ok) i = Some q \<Longrightarrow> i = 0 \<and> \<not> np_dynamic q \<and>
      np_list q = [0, 1, 1, 2, 3, 4, 5, 6]" for i q
    by (auto simp: prox_def ns_init_def np_list_def init_user_ns_def init_pid_ns_def init_mnt_ns_def
      init_uts_ns_def init_ipc_ns_def init_net_ns_def init_cgroup_ns_def split: if_splits)
  have "k = slot_kind s" if "prox (ns_init vroot ok) i = Some q" "kind_at (ns_init vroot ok) (slot_ns s q) = Some k" for i q s k
    using p [OF that(1)] that(2)
    by (cases s) (simp_all add: np_list_def kind_at_def obj_def ns_init_def static_ns_def)
  then have "typ_inv (ns_init vroot ok)" unfolding typ_inv_def using o by fastforce
  moreover have "bund_inv {#init_nsproxy#} (ns_init vroot ok)"
    unfolding bund_inv_def using p by (auto simp: init_nsproxy_def) (simp_all add: prox_def ns_init_def)
  ultimately show ?thesis by (simp add: ns_inv_def ns_init_def)
qed

lemma ns_start_inv: "ns_start w \<Longrightarrow> w_inv w"
  by (cases w) (auto simp: bundles_def ns_init_inv)

lemma ns_step_inv:
  assumes "ns_step w w'" "w_inv w"
  shows "w_inv w'"
  using assms
proof cases
  case (nt_fork j ps h child flags thread)
  with assms(2) do_fork_inv [of h ps j] show ?thesis by simp
next
  case (nt_exit j ps h)
  from assms(2) nt_exit have w: "w_inv (h, ps)" by simp
  obtain i where i: "p_nsproxy (ps ! j) = Some i" "ns_inv {#} (add_mset i (bundles (take j ps @ drop (Suc j) ps))) h"
    by (rule w_inv_proc [OF w nt_exit(3)])
  from ns_release_inv [OF i(2,1)] w show ?thesis unfolding nt_exit(2)
    by (auto dest: in_set_takeD in_set_dropD)
next
  case (nt_unshare j ps priv flags h r p h')
  from assms(2) nt_unshare have w: "w_inv (h, ps)" by simp
  obtain i where i: "p_nsproxy (ps ! j) = Some i" "ns_inv {#} (add_mset i (bundles (take j ps @ drop (Suc j) ps))) h"
    by (rule w_inv_proc [OF w nt_unshare(3)])
  from ns_unshare_inv [OF i(2,1), of priv flags] nt_unshare(4) obtain k where
    k: "p_nsproxy p = Some k" "ns_inv {#} (add_mset k (bundles (take j ps @ drop (Suc j) ps))) h'" by auto
  have "\<forall>q \<in> set (ps[j := p]). p_nsproxy q \<noteq> None" using w k(1) set_update_subset_insert [of ps j p] by auto
  with k bundles_update [OF nt_unshare(3), of p] show ?thesis unfolding nt_unshare(2) by simp
next
  case (nt_setns j ps t type fc h src)
  from assms(2) nt_setns have w: "w_inv (h, ps)" by simp
  obtain i where i: "p_nsproxy (ps ! j) = Some i" "i \<in># bundles ps" by (rule w_inv_proc [OF w nt_setns(3)])
  obtain k where k: "p_nsproxy (ps ! t) = Some k" "k \<in># bundles ps" by (rule w_inv_proc [OF w nt_setns(4)])
  from w setns_install_inv [OF _ i k nt_setns(5)] show ?thesis unfolding nt_setns(2) by simp
next
  case (nt_mount j ps h)
  from assms(2) nt_mount have w: "w_inv (h, ps)" by simp
  obtain i where i: "p_nsproxy (ps ! j) = Some i" "i \<in># bundles ps" by (rule w_inv_proc [OF w nt_mount(3)])
  from w mnt_replace_inv [OF _ i] show ?thesis unfolding nt_mount(2) by simp
next
  case (nt_hostname j ps h name)
  from assms(2) nt_hostname have w: "w_inv (h, ps)" by simp
  obtain i where i: "p_nsproxy (ps ! j) = Some i" "i \<in># bundles ps" by (rule w_inv_proc [OF w nt_hostname(3)])
  from w ns_uts_sethostname_inv [OF _ i] show ?thesis unfolding nt_hostname(2) by simp
qed

interpretation nsw: invariant_system ns_start ns_step w_inv
  by unfold_locales (auto intro: ns_start_inv ns_step_inv)

section \<open>Properties\<close>

lemma w_inv_slots:
  assumes "w_inv (h, ps)" "p \<in> set ps"
  shows "\<exists>i np. p_nsproxy p = Some i \<and> prox h i = Some np \<and>
    (\<forall>s. \<exists>x. obj h (slot_ns s np) = Some x \<and> kind_no (o_body x) = slot_kind s)"
proof -
  from assms obtain i where i: "p_nsproxy p = Some i" by auto
  with assms(2) have "i \<in># bundles ps" unfolding bundles_def by force
  with inv_bundle assms(1) obtain np where np: "prox h i = Some np" by fastforce
  have "ns_inv {#} (bundles ps) h" using assms(1) by simp
  from inv_slot [OF this np] i np show ?thesis by blast
qed



lemma pid_translate:
  assumes ok: "pid_ok q" and g: "g \<noteq> 0" "unat g \<le> 64" "pn_local_of_global q ! pid_slot g \<noteq> 0"
  shows "unat (pn_local_of_global q ! pid_slot g) \<le> 64 \<and>
    pn_global_of_local q ! pid_slot (pn_local_of_global q ! pid_slot g) = g"
proof -
  have s: "pid_slot g = unat g - 1" "0 < unat g" using g(1) by (simp_all add: pid_slot_nat unat_gt_0)
  have "pid_slot g < 64" using g s by simp
  from pid_okD(3) [OF ok this g(3)] s show ?thesis using g(3) by (simp add: pid_slot_nat word_unat_eq_iff)
qed



text \<open>
  Finding. \<open>unshare\<close> with \<open>CLONE_NEWPID\<close> takes one reference too many on the namespace it creates: after the only
  process that used it has gone, its bundle is freed but the namespace is not.
\<close>

theorem unshare_pid_leaks:
  "case ns_unshare (zero_proc\<lparr>p_pid := 1, p_nsproxy := Some init_nsproxy\<rparr>) True CLONE_NEWPID (ns_init 0 (\<lambda>_. True)) of
     (r, p, h) \<Rightarrow> r = 0 \<and> p_nsproxy p = Some 1 \<and> prox (ns_release p h) 1 = None \<and>
       map_option o_refcnt (obj (ns_release p h) 7) = Some 1 \<and> 7 \<notin># refs (ns_release p h)"
  by code_simp

end
