(* ===== verification/Paths.thy ===== *)
theory Paths
  imports Prelude
begin

text \<open>
  Path handling of the jails, \<open>path_canon\<close>, \<open>jail_canon_clamp\<close> and the prefix tests of
  \<open>src/kernel/proc/jail.c\<close>. A C string is the list of its characters before the terminating zero byte, and
  a buffer of size \<open>sz\<close> holds a string of length below \<open>sz\<close>.
\<close>

section \<open>Canonical paths\<close>

definition dot :: string where "dot = ''.''"
definition dotdot :: string where "dotdot = ''..''"

abbreviation (input) slash :: char where "slash \<equiv> CHR 0x2F"

text \<open>The next component and the rest of the path, after the slashes before it.\<close>

definition next_comp :: "string \<Rightarrow> (string \<times> string) option" where
  "next_comp p =
     (case dropWhile (\<lambda>c. c = slash) p of
        [] \<Rightarrow> None
      | c # s \<Rightarrow> Some (c # takeWhile (\<lambda>c. c \<noteq> slash) s, dropWhile (\<lambda>c. c \<noteq> slash) s))"

lemma next_compD:
  assumes "next_comp p = Some (c, r)"
  shows "c \<noteq> [] \<and> slash \<notin> set c \<and> length c + length r \<le> length p"
proof -
  from assms obtain x s where s: "dropWhile (\<lambda>c. c = slash) p = x # s" and
    c: "c = x # takeWhile (\<lambda>c. c \<noteq> slash) s" and r: "r = dropWhile (\<lambda>c. c \<noteq> slash) s"
    by (auto simp: next_comp_def split: list.splits)
  have "x \<noteq> slash" using hd_dropWhile [of "\<lambda>c. c = slash" p] s by auto
  moreover have "length c + length r = length (x # s)"
    using takeWhile_dropWhile_id [of "\<lambda>c. c \<noteq> slash" s] by (simp add: c r flip: length_append)
  moreover have "length (x # s) \<le> length p" by (metis length_dropWhile_le s)
  ultimately show ?thesis by (auto simp: c dest: set_takeWhileD)
qed

lemma next_comp_less: "next_comp p = Some (c, r) \<Longrightarrow> length r < length p"
  using next_compD [of p c r] by (cases c) auto

text \<open>
  The loop of \<open>path_canon\<close>: the output written so far (its length is \<open>w\<close>), and the stack \<open>starts\<close> of the
  positions where the components in it begin, last one first. The loop ends at the end of the input, or
  when a component does not fit.
\<close>

function canon_loop :: "nat \<Rightarrow> string \<Rightarrow> nat list \<Rightarrow> string \<Rightarrow> string" where
  "canon_loop sz p starts out =
     (case next_comp p of
        None \<Rightarrow> out
      | Some (c, rest) \<Rightarrow>
          if c = dot then canon_loop sz rest starts out
          else if c = dotdot then
            (case starts of
               [] \<Rightarrow> canon_loop sz rest [] out
             | w # starts' \<Rightarrow> canon_loop sz rest starts' (take w out))
          else if 128 \<le> length starts \<or> sz \<le> length out + 1 + length c then out
          else canon_loop sz rest (length out # starts) (out @ slash # c))"
  by pat_completeness auto
termination
  by (relation "measure (\<lambda>(sz, p, starts, out). length p)") (auto simp: next_comp_less)

declare canon_loop.simps [simp del]

definition path_canon :: "string \<Rightarrow> nat \<Rightarrow> string" where
  "path_canon inp sz = (let out = canon_loop sz inp [] [] in if out = [] then [slash] else out)"

definition under_root :: "string \<Rightarrow> string \<Rightarrow> bool" where
  "under_root root path \<longleftrightarrow> take (length root) path = root \<and>
     (drop (length root) path = [] \<or> hd (drop (length root) path) = slash)"

text \<open>\<open>snprintf\<close> into a buffer of size \<open>sz\<close>, and \<open>strncpy\<close> of at most \<open>sz - 1\<close> bytes with a final zero.\<close>

definition copy_str :: "nat \<Rightarrow> string \<Rightarrow> string" where
  "copy_str sz s = take (sz - 1) s"

definition jail_canon_clamp :: "string \<Rightarrow> nat \<Rightarrow> string \<Rightarrow> string" where
  "jail_canon_clamp path sz root =
     (if root = [] then path
      else
        let sub = (if under_root root path then drop (length root) path else path);
            canon = path_canon sub 512;
            tmp = copy_str 768 (if canon = [slash] then root else root @ canon)
        in copy_str sz tmp)"

section \<open>Components\<close>

text \<open>The components of a path, and what they resolve to when \<open>..\<close> at the top stays there.\<close>

function components :: "string \<Rightarrow> string list" where
  "components p = (case next_comp p of None \<Rightarrow> [] | Some (c, r) \<Rightarrow> c # components r)"
  by pat_completeness auto
termination
  by (relation "measure length") (auto simp: next_comp_less)

declare components.simps [simp del]

fun resolve :: "string list \<Rightarrow> string list \<Rightarrow> string list" where
  "resolve stk [] = rev stk"
| "resolve stk (c # cs) =
     (if c = dot then resolve stk cs else if c = dotdot then resolve (tl stk) cs else resolve (c # stk) cs)"

definition join :: "string list \<Rightarrow> string" where
  "join cs = concat (map (\<lambda>c. slash # c) cs)"

text \<open>A component that names an entry: not empty, not a dot or two, and without a slash.\<close>

definition plain :: "string \<Rightarrow> bool" where
  "plain c \<longleftrightarrow> c \<noteq> [] \<and> c \<noteq> dot \<and> c \<noteq> dotdot \<and> slash \<notin> set c"

lemma join_simps [simp]: "join [] = []" "join (c # cs) = slash # c @ join cs" "join (xs @ ys) = join xs @ join ys"
  by (simp_all add: join_def)

lemma join_Nil [simp]: "join cs = [] \<longleftrightarrow> cs = []"
  by (cases cs) auto

lemma next_comp_join:
  assumes "plain c" "r = [] \<or> hd r = slash"
  shows "next_comp (slash # c @ r) = Some (c, r)"
proof -
  obtain x xs where c: "c = x # xs" "x \<noteq> slash" "slash \<notin> set xs"
    using assms(1) by (cases c) (auto simp: plain_def)
  have "takeWhile (\<lambda>c. c \<noteq> slash) (xs @ r) = xs \<and> dropWhile (\<lambda>c. c \<noteq> slash) (xs @ r) = r"
    using c(3) assms(2) by (induction xs) (cases r; auto)+
  with c show ?thesis by (simp add: next_comp_def)
qed

lemma components_join: "list_all plain cs \<Longrightarrow> components (join cs) = cs"
proof (induction cs)
  case Nil
  show ?case by (simp add: components.simps next_comp_def)
next
  case (Cons c cs)
  then have "next_comp (join (c # cs)) = Some (c, join cs)"
    using next_comp_join [of c "join cs"] by (cases cs) auto
  with Cons show ?case by (simp add: components.simps [of "join (c # cs)"] del: join_simps)
qed

lemma components_plainish: "c \<in> set (components p) \<Longrightarrow> c \<noteq> [] \<and> slash \<notin> set c"
proof (induction p rule: components.induct)
  case (1 p)
  show ?case
  proof (cases "next_comp p")
    case (Some cr)
    obtain d r where cr: "next_comp p = Some (d, r)" using Some by (cases cr) simp
    with "1.prems" have "c = d \<or> c \<in> set (components r)" by (simp add: components.simps [of p])
    with "1.IH" [OF cr refl] next_compD [OF cr] show ?thesis by blast
  qed (use 1 in \<open>simp add: components.simps [of p]\<close>)
qed

lemma tl_plain: "list_all plain stk \<Longrightarrow> list_all plain (tl stk)"
  by (cases stk) auto

lemma resolve_plain:
  "list_all plain stk \<Longrightarrow> \<forall>c \<in> set cs. c \<noteq> [] \<and> slash \<notin> set c \<Longrightarrow> list_all plain (resolve stk cs)"
  by (induction stk cs rule: resolve.induct) (auto simp: plain_def tl_plain)

lemma resolve_plain_id: "list_all plain cs \<Longrightarrow> resolve stk cs = rev stk @ cs"
  by (induction cs arbitrary: stk) (auto simp: plain_def)

section \<open>The loop against the components\<close>

text \<open>
  The output is the join of the components on the stack, and the recorded positions are where they begin.
\<close>

fun stack_ok :: "nat list \<Rightarrow> string list \<Rightarrow> bool" where
  "stack_ok [] [] \<longleftrightarrow> True"
| "stack_ok (w # ws) (c # cs) \<longleftrightarrow> w = length (join (rev cs)) \<and> stack_ok ws cs"
| "stack_ok _ _ \<longleftrightarrow> False"

lemma stack_ok_length: "stack_ok ws cs \<Longrightarrow> length ws = length cs"
  by (induction ws cs rule: stack_ok.induct) auto

lemma stack_ok_Nil [simp]: "stack_ok ws [] \<longleftrightarrow> ws = []" "stack_ok [] cs \<longleftrightarrow> cs = []"
  by (cases ws; simp) (cases cs; simp)

text \<open>The loop on components instead of buffers and positions.\<close>

fun canon_comps :: "nat \<Rightarrow> string list \<Rightarrow> string list \<Rightarrow> string list" where
  "canon_comps sz stk [] = rev stk"
| "canon_comps sz stk (c # cs) =
     (if c = dot then canon_comps sz stk cs
      else if c = dotdot then canon_comps sz (tl stk) cs
      else if 128 \<le> length stk \<or> sz \<le> length (join (rev stk)) + 1 + length c then rev stk
      else canon_comps sz (c # stk) cs)"

lemma stack_ok_tl:
  "stack_ok (w # ws) stk \<Longrightarrow> stack_ok ws (tl stk) \<and> take w (join (rev stk)) = join (rev (tl stk))"
  by (cases stk) auto

lemma canon_loop_comps:
  "stack_ok starts stk \<Longrightarrow> canon_loop sz p starts (join (rev stk)) = join (canon_comps sz stk (components p))"
proof (induction "length p" arbitrary: p starts stk rule: less_induct)
  case less
  show ?case
  proof (cases "next_comp p")
    case None
    then show ?thesis by (simp add: canon_loop.simps [of sz p] components.simps [of p])
  next
    case (Some cr)
    obtain c r where cr: "next_comp p = Some (c, r)" using Some by (cases cr) simp
    note IH = less.hyps [OF next_comp_less [OF cr]]
    have cs: "components p = c # components r" by (simp add: components.simps [of p] cr)
    show ?thesis
    proof (cases "c = dotdot")
      case True
      show ?thesis
      proof (cases starts)
        case Nil
        with less.prems cr cs True IH [of "[]" "[]"] show ?thesis
          by (simp add: canon_loop.simps [of sz p] dot_def dotdot_def)
      next
        case (Cons w ws)
        with stack_ok_tl [of w ws stk] less.prems cr cs True IH [of ws "tl stk"] show ?thesis
          by (simp add: canon_loop.simps [of sz p] dot_def dotdot_def)
      qed
    next
      case False
      have "stack_ok (length (join (rev stk)) # starts) (c # stk)" using less.prems by simp
      from IH [OF this] IH [OF less.prems] False cr cs stack_ok_length [OF less.prems] show ?thesis
        by (simp add: canon_loop.simps [of sz p])
    qed
  qed
qed

lemma canon_comps_plain:
  "list_all plain stk \<Longrightarrow> \<forall>c \<in> set cs. c \<noteq> [] \<and> slash \<notin> set c \<Longrightarrow> list_all plain (canon_comps sz stk cs)"
  by (induction sz stk cs rule: canon_comps.induct) (auto simp: plain_def tl_plain)

lemma canon_comps_short:
  "length (join (rev stk)) < sz \<Longrightarrow> length stk \<le> 128 \<Longrightarrow>
   length (join (canon_comps sz stk cs)) < sz \<and> length (canon_comps sz stk cs) \<le> 128"
proof (induction sz stk cs rule: canon_comps.induct)
  case (2 sz stk c cs)
  have "length (join (rev (tl stk))) \<le> length (join (rev stk))" by (cases stk) auto
  with 2 show ?case by auto
qed auto

lemma canon_comps_exact:
  "length stk + length cs \<le> 128 \<Longrightarrow> length (join (rev stk)) + length (join cs) < sz \<Longrightarrow>
   canon_comps sz stk cs = resolve stk cs"
proof (induction sz stk cs rule: canon_comps.induct)
  case (2 sz stk c cs)
  have "length (join (rev (tl stk))) \<le> length (join (rev stk))" by (cases stk) auto
  with 2 show ?case by auto
qed auto

text \<open>What \<open>path_canon\<close> returns is a clean path: the root, or plain components each after a slash.\<close>

definition clean_path :: "string \<Rightarrow> bool" where
  "clean_path s \<longleftrightarrow> s = [slash] \<or> (\<exists>cs. cs \<noteq> [] \<and> list_all plain cs \<and> s = join cs)"

definition canon_list :: "string \<Rightarrow> nat \<Rightarrow> string list" where
  "canon_list inp sz = canon_comps sz [] (components inp)"

lemma path_canon_list:
  "path_canon inp sz = (if canon_list inp sz = [] then [slash] else join (canon_list inp sz))"
  using canon_loop_comps [of "[]" "[]" sz inp] by (simp add: path_canon_def canon_list_def)

lemma canon_list_plain: "list_all plain (canon_list inp sz)"
  unfolding canon_list_def by (rule canon_comps_plain) (auto dest: components_plainish)

lemma path_canon_clean: "clean_path (path_canon inp sz)"
  using canon_list_plain [of inp sz] by (auto simp: path_canon_list clean_path_def)

lemma path_canon_length: "2 \<le> sz \<Longrightarrow> length (path_canon inp sz) < sz"
  using canon_comps_short [of "[]" sz "components inp"] by (simp add: path_canon_list canon_list_def)

lemma canon_list_join:
  assumes "list_all plain cs" "length cs \<le> 128" "length (join cs) < sz"
  shows "canon_list (join cs) sz = cs"
  using assms by (simp add: canon_list_def components_join canon_comps_exact resolve_plain_id)

text \<open>Canonical paths are fixed points.\<close>

lemma path_canon_idem:
  assumes "2 \<le> sz"
  shows "path_canon (path_canon inp sz) sz = path_canon inp sz"
proof (cases "canon_list inp sz = []")
  case True
  have "components [slash] = []" by (simp add: components.simps next_comp_def)
  then have "canon_list [slash] sz = []" by (simp add: canon_list_def)
  with True show ?thesis by (simp add: path_canon_list)
next
  case False
  have "canon_list (join (canon_list inp sz)) sz = canon_list inp sz"
    using canon_comps_short [of "[]" sz "components inp"] assms
    by (intro canon_list_join canon_list_plain) (simp_all add: canon_list_def)
  with False show ?thesis by (simp add: path_canon_list)
qed

text \<open>Without truncation the result names what the input names.\<close>

lemma path_canon_resolves:
  assumes "length (components inp) \<le> 128" "length (join (components inp)) < sz"
  shows "path_canon inp sz =
    (if resolve [] (components inp) = [] then [slash] else join (resolve [] (components inp)))"
  using assms by (simp add: path_canon_list canon_list_def canon_comps_exact)

section \<open>Confinement to a root\<close>

lemma components_append:
  "list_all plain rs \<Longrightarrow> r = [] \<or> hd r = slash \<Longrightarrow> components (join rs @ r) = rs @ components r"
proof (induction rs)
  case (Cons c rs)
  then have "next_comp (join (c # rs) @ r) = Some (c, join rs @ r)"
    using next_comp_join [of c "join rs @ r"] by (cases rs) auto
  with Cons show ?case by (simp add: components.simps [of "join (c # rs) @ r"] del: join_simps)
qed simp

lemma components_Nil: "components [] = []"
  by (simp add: components.simps next_comp_def)

lemma components_slash: "components [slash] = []"
  by (simp add: components.simps next_comp_def)

text \<open>Cutting a join of components keeps some of them and may shorten the next one.\<close>

lemma components_take:
  assumes "list_all plain cs"
  shows "\<exists>k d. components (take m (join cs)) = take k cs @ d \<and>
    (d = [] \<or> (\<exists>n. k < length cs \<and> 0 < n \<and> n < length (cs ! k) \<and> d = [take n (cs ! k)] \<and>
       (k = 0 \<longrightarrow> m = Suc n)))"
  using assms
proof (induction cs arbitrary: m)
  case Nil
  show ?case by (simp add: components.simps next_comp_def)
next
  case (Cons c cs)
  then have c: "plain c" "slash \<notin> set c" by (auto simp: plain_def)
  consider "m = 0" | "m = 1" | n where "m = Suc n" "0 < n" "n < length c" | n where "m = Suc n" "length c \<le> n"
    by (cases m; cases "m = 1"; cases "m - 1 < length c") auto
  then show ?case
  proof cases
    case 1
    then show ?thesis by (intro exI [of _ 0] exI [of _ "[]"]) (simp add: components.simps next_comp_def)
  next
    case 2
    then show ?thesis by (intro exI [of _ 0] exI [of _ "[]"]) (simp add: components_slash)
  next
    case (3 n)
    then have "takeWhile (\<lambda>c. c \<noteq> slash) (take n c) = take n c" "dropWhile (\<lambda>c. c \<noteq> slash) (take n c) = []"
      using c(2) by (auto dest: in_set_takeD)
    moreover have "slash \<notin> set (take n c)" using c(2) by (auto dest: in_set_takeD)
    then obtain x xs where x: "take n c = x # xs" "x \<noteq> slash" "slash \<notin> set xs"
      using 3 by (cases "take n c") auto
    moreover have dw: "dropWhile (\<lambda>c. c \<noteq> slash) xs = []" using x(3) by auto
    have "components (dropWhile (\<lambda>c. c \<noteq> slash) xs) = []" by (simp only: dw components_Nil)
    ultimately have "components (take m (join (c # cs))) = [take n c]"
      using x 3 by (simp add: components.simps [of "slash # x # xs"] components.simps [of "[]"] next_comp_def)
    with 3 show ?thesis by (intro exI [of _ 0] exI [of _ "[take n c]"]) auto
  next
    case (4 n)
    obtain k d where kd: "components (take (n - length c) (join cs)) = take k cs @ d"
      "d = [] \<or> (\<exists>n. k < length cs \<and> 0 < n \<and> n < length (cs ! k) \<and> d = [take n (cs ! k)])"
      using Cons.IH [of "n - length c"] Cons.prems by auto
    have "take m (join (c # cs)) = join [c] @ take (n - length c) (join cs)" using 4 by simp
    moreover have "take (n - length c) (join cs) = [] \<or> hd (take (n - length c) (join cs)) = slash"
      by (cases cs; cases "n - length c") auto
    ultimately have "components (take m (join (c # cs))) = c # components (take (n - length c) (join cs))"
      using components_append [of "[c]" "take (n - length c) (join cs)"] c by simp
    with kd show ?thesis by (intro exI [of _ "Suc k"] exI [of _ d]) auto
  qed
qed

lemma plain_not_dots: "list_all plain xs \<Longrightarrow> resolve stk (xs @ ys) = resolve (rev xs @ stk) ys"
  by (induction xs arbitrary: stk) (auto simp: plain_def)

text \<open>
  The clamped path is the root followed by a join of plain components, possibly cut at the size of the
  buffer; wherever it was cut, it resolves to a place below the root.
\<close>

lemma clamp_resolves_below:
  assumes root: "root = join rs" "list_all plain rs" "rs \<noteq> []" "length root < 256"
    and sz: "512 \<le> sz"
  shows "\<exists>cs. resolve [] (components (jail_canon_clamp path sz root)) = rs @ cs"
proof -
  define sub where "sub = (if under_root root path then drop (length root) path else path)"
  have len: "length (path_canon sub 512) < 512" by (rule path_canon_length) simp
  have "\<exists>cs. list_all plain cs \<and> (path_canon sub 512 = [slash] \<and> cs = [] \<or> path_canon sub 512 = join cs \<and> cs \<noteq> [])"
  proof (cases "path_canon sub 512 = [slash]")
    case False
    with path_canon_clean [of sub 512] show ?thesis by (auto simp: clean_path_def)
  qed (intro exI [of _ "[]"], simp)
  then obtain cs where cs: "list_all plain cs"
    "path_canon sub 512 = [slash] \<and> cs = [] \<or> path_canon sub 512 = join cs \<and> cs \<noteq> []" by blast
  have ne: "root \<noteq> []" using root(1,3) by simp
  have "cs \<noteq> [] \<Longrightarrow> path_canon sub 512 \<noteq> [slash]"
    using cs by (cases cs) (auto simp: plain_def)
  then have tmp: "(if path_canon sub 512 = [slash] then root else root @ path_canon sub 512) = root @ join cs"
    using cs(2) by auto
  have short: "length (join cs) < 512" using cs(2) len by auto
  define m where "m = min (sz - 1) 767 - length root"
  have m: "256 \<le> m" using root(4) sz by (simp add: m_def)
  have clamp: "jail_canon_clamp path sz root = root @ take m (join cs)"
    using ne root(4) short sz
    by (simp add: jail_canon_clamp_def copy_str_def Let_def tmp m_def flip: sub_def)
  have hdr: "take m (join cs) = [] \<or> hd (take m (join cs)) = slash" by (cases cs; cases m) auto
  obtain k d where kd: "components (take m (join cs)) = take k cs @ d"
    "d = [] \<or> (\<exists>n. k < length cs \<and> 0 < n \<and> n < length (cs ! k) \<and> d = [take n (cs ! k)] \<and> (k = 0 \<longrightarrow> m = Suc n))"
    using components_take [OF cs(1), of m] by blast
  have pk: "list_all plain (take k cs)" using cs(1) by (auto simp: list_all_iff dest: in_set_takeD)
  have comps: "resolve [] (components (jail_canon_clamp path sz root)) = resolve (rev (take k cs) @ rev rs) d"
    unfolding clamp using root(1) components_append [OF root(2) hdr] kd(1) plain_not_dots [OF root(2)] plain_not_dots [OF pk]
    by simp
  show ?thesis
  proof (cases "d = []")
    case True
    with comps show ?thesis by simp
  next
    case False
    with kd(2) obtain n where n: "k < length cs" "d = [take n (cs ! k)]" "k = 0 \<longrightarrow> m = Suc n" "n < length (cs ! k)" by blast
    show ?thesis
    proof (cases "take n (cs ! k) = dotdot")
      case True
      then have "min (length (cs ! k)) n = 2" by (metis length_take dotdot_def length_Cons list.size(3) numeral_2_eq_2)
      with n m have "k \<noteq> 0" by auto
      then have "take k cs \<noteq> []" using n(1) by auto
      then obtain ys y where "take k cs = ys @ [y]" by (metis rev_exhaust)
      with comps n(2) True show ?thesis by (simp add: dot_def dotdot_def)
    next
      case False
      with comps n(2) show ?thesis by simp
    qed
  qed
qed

end
