(* ===== verification/Jail.thy ===== *)
theory Jail
  imports Ns Paths
begin

text \<open>
  Jails, \<open>src/kernel/proc/jail.c\<close>, \<open>src/kernel/proc/jail.h\<close> and the system calls of
  \<open>src/kernel/syscall/jailsys.c\<close>: the table of jails, their hierarchy, what a confined process may see and do,
  and the number of processes in each. Paths are in theory \<open>Paths\<close>. A user pointer that cannot be read is
  \<^term>\<open>None\<close>.
\<close>

section \<open>Data\<close>

definition JAIL_MAX :: nat where "JAIL_MAX = 32"
definition JAIL_NAME_MAX :: nat where "JAIL_NAME_MAX = 32"
definition JAIL_ROOT_MAX :: nat where "JAIL_ROOT_MAX = 256"
definition JAIL_HOST :: u32 where "JAIL_HOST = 0"

definition JAILF_FS :: u32 where "JAILF_FS = 1"
definition JAILF_PID :: u32 where "JAILF_PID = 2"
definition JAILF_IPC :: u32 where "JAILF_IPC = 4"
definition JAILF_PRIV :: u32 where "JAILF_PRIV = 8"
definition JAILF_ALL :: u32 where "JAILF_ALL = JAILF_FS OR JAILF_PID OR JAILF_IPC OR JAILF_PRIV"

datatype jail_state = JAIL_UNUSED | JAIL_ACTIVE | JAIL_DYING

record jail =
  j_state :: jail_state
  j_id :: u32
  j_parent_id :: u32
  j_flags :: u32
  j_name :: string
  j_root :: string
  j_nprocs :: u32
  j_max_procs :: u32
  j_creator_uid :: u32

record jail_tab =
  g_jails :: "jail list"
  g_jail_auto_isolate :: bool

record kjail_conf =
  kc_root :: string
  kc_name :: string
  kc_flags :: u32
  kc_max_procs :: u32
  kc_attach :: u32

record kjail_info =
  ki_id :: u32
  ki_parent_id :: u32
  ki_flags :: u32
  ki_nprocs :: u32
  ki_max_procs :: u32
  ki_creator_uid :: u32
  ki_name :: string
  ki_root :: string

definition zero_jail :: jail where
  "zero_jail = \<lparr>j_state = JAIL_UNUSED, j_id = 0, j_parent_id = 0, j_flags = 0, j_name = [], j_root = [],
     j_nprocs = 0, j_max_procs = 0, j_creator_uid = 0\<rparr>"

section \<open>Table\<close>

definition jail_init :: jail_tab where
  "jail_init = \<lparr>g_jails = replicate JAIL_MAX zero_jail, g_jail_auto_isolate = False\<rparr>"

definition jail_find :: "u32 \<Rightarrow> jail_tab \<Rightarrow> nat option" where
  "jail_find jid J =
     (if jid = JAIL_HOST then None
      else find_index (\<lambda>j. j_state j \<noteq> JAIL_UNUSED \<and> j_id j = jid) (g_jails J))"

abbreviation jail_at :: "jail_tab \<Rightarrow> nat \<Rightarrow> jail" where
  "jail_at J i \<equiv> g_jails J ! i"

definition upd_jail :: "nat \<Rightarrow> (jail \<Rightarrow> jail) \<Rightarrow> jail_tab \<Rightarrow> jail_tab" where
  "upd_jail i f J = J\<lparr>g_jails := (g_jails J)[i := f (g_jails J ! i)]\<rparr>"

text \<open>What is done to the jail with an id, if there is one.\<close>

definition on_jail :: "u32 \<Rightarrow> (jail \<Rightarrow> jail) \<Rightarrow> jail_tab \<Rightarrow> jail_tab" where
  "on_jail jid f J = (case jail_find jid J of None \<Rightarrow> J | Some i \<Rightarrow> upd_jail i f J)"

definition jail_ref :: "u32 \<Rightarrow> jail_tab \<Rightarrow> jail_tab" where
  "jail_ref jid J = on_jail jid (\<lambda>j. j\<lparr>j_nprocs := j_nprocs j + 1\<rparr>) J"

definition jail_unref :: "u32 \<Rightarrow> jail_tab \<Rightarrow> jail_tab" where
  "jail_unref jid J = on_jail jid (\<lambda>j. if j_nprocs j \<noteq> 0 then j\<lparr>j_nprocs := j_nprocs j - 1\<rparr> else j) J"

definition jail_retire :: "u32 \<Rightarrow> jail_tab \<Rightarrow> jail_tab" where
  "jail_retire jid J = on_jail jid (\<lambda>j. j\<lparr>j_state := JAIL_DYING\<rparr>) J"

definition jail_reap :: "u32 \<Rightarrow> jail_tab \<Rightarrow> jail_tab" where
  "jail_reap jid J =
     on_jail jid (\<lambda>j. if j_state j = JAIL_DYING \<and> j_nprocs j = 0 then j\<lparr>j_state := JAIL_UNUSED\<rparr> else j) J"

definition jail_can_fork :: "u32 \<Rightarrow> jail_tab \<Rightarrow> bool" where
  "jail_can_fork jid J =
     (case jail_find jid J of
        None \<Rightarrow> True
      | Some i \<Rightarrow>
          j_state (jail_at J i) = JAIL_ACTIVE \<and>
          \<not> (j_max_procs (jail_at J i) \<noteq> 0 \<and> j_max_procs (jail_at J i) \<le> j_nprocs (jail_at J i)))"

section \<open>Views\<close>

definition jail_root_current :: "proc option \<Rightarrow> jail_tab \<Rightarrow> string" where
  "jail_root_current cur J =
     (case cur of
        None \<Rightarrow> []
      | Some p \<Rightarrow>
          (case jail_find (p_jail_id p) J of
             None \<Rightarrow> []
           | Some i \<Rightarrow> if j_flags (jail_at J i) AND JAILF_FS \<noteq> 0 then j_root (jail_at J i) else []))"

definition jail_strip_root :: "proc option \<Rightarrow> jail_tab \<Rightarrow> string \<Rightarrow> string" where
  "jail_strip_root cur J path =
     (let root = jail_root_current cur J in
      if root = [] \<or> take (length root) path \<noteq> root then path
      else let sub = drop (length root) path in if sub = [] then [slash] else sub)"

text \<open>The loop of \<open>jail_is_descendant\<close>, with the number of rounds that the guard allows.\<close>

fun desc_loop :: "nat \<Rightarrow> u32 \<Rightarrow> u32 \<Rightarrow> jail_tab \<Rightarrow> bool" where
  "desc_loop 0 a cur J = False"
| "desc_loop (Suc n) a cur J =
     (if cur = JAIL_HOST then False
      else
        (case jail_find cur J of
           None \<Rightarrow> False
         | Some i \<Rightarrow> if j_parent_id (jail_at J i) = a then True else desc_loop n a (j_parent_id (jail_at J i)) J))"

definition jail_is_descendant :: "u32 \<Rightarrow> u32 \<Rightarrow> jail_tab \<Rightarrow> bool" where
  "jail_is_descendant a b J =
     (if a = b then True else if a = JAIL_HOST then True else desc_loop (JAIL_MAX + 1) a b J)"

definition jail_can_see :: "proc option \<Rightarrow> proc \<Rightarrow> jail_tab \<Rightarrow> bool" where
  "jail_can_see observer target J =
     (case observer of
        None \<Rightarrow> True
      | Some p \<Rightarrow>
          (case jail_find (p_jail_id p) J of
             None \<Rightarrow> True
           | Some i \<Rightarrow>
               if j_flags (jail_at J i) AND JAILF_PID = 0 then True else p_jail_id p = p_jail_id target))"

definition jail_host_priv :: "proc option \<Rightarrow> nsheap \<Rightarrow> jail_tab \<Rightarrow> bool" where
  "jail_host_priv p h J =
     (case p of
        None \<Rightarrow> True
      | Some p \<Rightarrow>
          if p_euid p \<noteq> 0 then False
          else if \<not> ns_user_is_initial p h then False
          else
            (case jail_find (p_jail_id p) J of
               None \<Rightarrow> True
             | Some i \<Rightarrow> j_flags (jail_at J i) AND JAILF_PRIV = 0))"

section \<open>Entering, creating and removing\<close>

definition jail_enter :: "proc \<Rightarrow> u32 \<Rightarrow> jail_tab \<Rightarrow> proc \<times> jail_tab" where
  "jail_enter p jid J =
     (if p_jail_id p = jid then (p, J)
      else
        let J = jail_unref (p_jail_id p) J;
            p = p\<lparr>p_jail_id := jid, p_jail_exempt := 0\<rparr>;
            J = jail_ref jid J
        in case jail_find jid J of
             None \<Rightarrow> (p, J)
           | Some i \<Rightarrow>
               if j_flags (jail_at J i) AND JAILF_FS \<noteq> 0
               then (p\<lparr>p_cwd := copy_str 512 (if j_root (jail_at J i) \<noteq> [] then j_root (jail_at J i) else [slash])\<rparr>, J)
               else (p, J))"

text \<open>The root of a new jail: below the root of its parent by the test of the first characters.\<close>

definition jail_new_root :: "string \<Rightarrow> string \<Rightarrow> string" where
  "jail_new_root proot croot =
     (let canon = path_canon (copy_str 512 (proot @ slash # croot)) 512 in
      if proot \<noteq> [] \<and> take (length proot) canon \<noteq> proot then copy_str 512 proot else canon)"

definition jail_create :: "u32 \<Rightarrow> kjail_conf \<Rightarrow> u32 \<Rightarrow> jail_tab \<Rightarrow> int \<times> jail_tab" where
  "jail_create parent_jid cfg creator_uid J =
     (case (if parent_jid \<noteq> JAIL_HOST then map_option (\<lambda>i. j_root (jail_at J i)) (jail_find parent_jid J) else Some []) of
        None \<Rightarrow> (- EINVAL, J)
      | Some proot \<Rightarrow>
          let canon = jail_new_root proot (kc_root cfg) in
          if JAIL_ROOT_MAX \<le> length canon then (- EINVAL, J)
          else
            (case find_index (\<lambda>j. j_state j = JAIL_UNUSED) (g_jails J) of
               None \<Rightarrow> (- ENOSPC, J)
             | Some i \<Rightarrow>
                 (int (i + 1),
                  upd_jail i (\<lambda>_. \<lparr>j_state = JAIL_ACTIVE, j_id = of_nat (i + 1), j_parent_id = parent_jid,
                    j_flags = kc_flags cfg AND JAILF_ALL, j_name = copy_str JAIL_NAME_MAX (kc_name cfg),
                    j_root = copy_str JAIL_ROOT_MAX canon, j_nprocs = 0, j_max_procs = kc_max_procs cfg,
                    j_creator_uid = creator_uid\<rparr>) J)))"

definition jail_remove :: "u32 \<Rightarrow> proc option \<Rightarrow> nsheap \<Rightarrow> jail_tab \<Rightarrow> int \<times> jail_tab" where
  "jail_remove jid requester h J =
     (case jail_find jid J of
        None \<Rightarrow> (- ENOENT, J)
      | Some i \<Rightarrow>
          if \<not> jail_host_priv requester h J \<and>
             \<not> (case requester of
                  None \<Rightarrow> False
                | Some p \<Rightarrow> jail_is_descendant (p_jail_id p) jid J \<and> p_jail_id p \<noteq> jid)
          then (- EPERM, J)
          else if j_nprocs (jail_at J i) = 0 then (0, upd_jail i (\<lambda>j. j\<lparr>j_state := JAIL_UNUSED\<rparr>) J)
          else (0, upd_jail i (\<lambda>j. j\<lparr>j_state := JAIL_DYING\<rparr>) J))"

section \<open>System calls\<close>

definition sys_jail_create :: "proc option \<Rightarrow> kjail_conf option \<Rightarrow> nsheap \<Rightarrow> jail_tab \<Rightarrow> int \<times> proc option \<times> jail_tab" where
  "sys_jail_create cur ucfg h J =
     (case cur of
        None \<Rightarrow> (- EFAULT, cur, J)
      | Some p \<Rightarrow>
          if \<not> jail_host_priv (Some p) h J then (- EPERM, cur, J)
          else
            (case ucfg of
               None \<Rightarrow> (- EFAULT, cur, J)
             | Some c \<Rightarrow>
                 let cfg = c\<lparr>kc_name := copy_str JAIL_NAME_MAX (kc_name c), kc_root := copy_str JAIL_ROOT_MAX (kc_root c)\<rparr>;
                     (jid, J) = jail_create (p_jail_id p) cfg (p_euid p) J
                 in if jid < 0 then (jid, cur, J)
                    else if kc_attach cfg \<noteq> 0
                    then (case jail_enter p (word_of_int jid) J of (p, J) \<Rightarrow> (jid, Some p, J))
                    else (jid, cur, J)))"

definition sys_jail_attach :: "proc option \<Rightarrow> u32 \<Rightarrow> jail_tab \<Rightarrow> int \<times> proc option \<times> jail_tab" where
  "sys_jail_attach cur jid J =
     (case cur of
        None \<Rightarrow> (- EFAULT, cur, J)
      | Some p \<Rightarrow>
          (case jail_find jid J of
             None \<Rightarrow> (- ESRCH, cur, J)
           | Some i \<Rightarrow>
               if j_state (jail_at J i) \<noteq> JAIL_ACTIVE then (- ESRCH, cur, J)
               else if \<not> jail_is_descendant (p_jail_id p) jid J then (- EPERM, cur, J)
               else if \<not> jail_can_fork jid J then (- EAGAIN, cur, J)
               else (case jail_enter p jid J of (p, J) \<Rightarrow> (0, Some p, J))))"

definition sys_jail_get :: "proc option \<Rightarrow> u32 \<Rightarrow> bool \<Rightarrow> jail_tab \<Rightarrow> int \<times> kjail_info option" where
  "sys_jail_get cur jid writable J =
     (if \<not> writable then (- EFAULT, None)
      else
        (case jail_find jid J of
           None \<Rightarrow> (- ESRCH, None)
         | Some i \<Rightarrow>
             if (case cur of None \<Rightarrow> False | Some p \<Rightarrow> \<not> jail_is_descendant (p_jail_id p) jid J) then (- EPERM, None)
             else
               (0, Some \<lparr>ki_id = j_id (jail_at J i), ki_parent_id = j_parent_id (jail_at J i), ki_flags = j_flags (jail_at J i),
                  ki_nprocs = j_nprocs (jail_at J i), ki_max_procs = j_max_procs (jail_at J i),
                  ki_creator_uid = j_creator_uid (jail_at J i), ki_name = j_name (jail_at J i),
                  ki_root = j_root (jail_at J i)\<rparr>)))"

text \<open>The number of visible jails and the ids written to the array, at most \<open>mx\<close> of them.\<close>

definition sys_jail_list :: "proc option \<Rightarrow> int \<Rightarrow> bool \<Rightarrow> jail_tab \<Rightarrow> int \<times> u32 list" where
  "sys_jail_list cur mx writable J =
     (if mx < 0 then (- EINVAL, [])
      else if 0 < mx \<and> \<not> writable then (- EFAULT, [])
      else
        let ids = map j_id (filter (\<lambda>j. j_state j \<noteq> JAIL_UNUSED \<and>
                    (case cur of None \<Rightarrow> True | Some p \<Rightarrow> jail_is_descendant (p_jail_id p) (j_id j) J)) (g_jails J))
        in (int (length ids), take (nat mx) ids))"

definition sys_jail_remove :: "proc option \<Rightarrow> u32 \<Rightarrow> nsheap \<Rightarrow> jail_tab \<Rightarrow> int \<times> jail_tab" where
  "sys_jail_remove cur jid h J = jail_remove jid cur h J"

definition sys_jail_self :: "proc option \<Rightarrow> int" where
  "sys_jail_self cur = (case cur of None \<Rightarrow> 0 | Some p \<Rightarrow> uint (p_jail_id p))"

definition sys_jail_set_auto :: "proc option \<Rightarrow> int \<Rightarrow> nsheap \<Rightarrow> jail_tab \<Rightarrow> int \<times> jail_tab" where
  "sys_jail_set_auto cur on h J =
     (if \<not> jail_host_priv cur h J then (- EPERM, J) else (0, J\<lparr>g_jail_auto_isolate := (on \<noteq> 0)\<rparr>))"


section \<open>The hierarchy\<close>

text \<open>An ancestor of a jail: its parent, or an ancestor of its parent.\<close>

inductive ancestor :: "jail_tab \<Rightarrow> u32 \<Rightarrow> u32 \<Rightarrow> bool" for J where
  anc_parent: "jail_find b J = Some i \<Longrightarrow> ancestor J (j_parent_id (jail_at J i)) b"
| anc_step: "jail_find b J = Some i \<Longrightarrow> ancestor J a (j_parent_id (jail_at J i)) \<Longrightarrow> ancestor J a b"

text \<open>The parent function; the search follows it as long as there is a jail.\<close>

definition par :: "jail_tab \<Rightarrow> u32 \<Rightarrow> u32" where
  "par J c = (case jail_find c J of None \<Rightarrow> 0 | Some i \<Rightarrow> j_parent_id (jail_at J i))"

definition chain_to :: "jail_tab \<Rightarrow> u32 \<Rightarrow> u32 \<Rightarrow> nat \<Rightarrow> bool" where
  "chain_to J a b k \<longleftrightarrow> (\<forall>m \<le> k. jail_find ((par J ^^ m) b) J \<noteq> None) \<and> (par J ^^ Suc k) b = a"

lemma jail_find_host [simp]: "jail_find JAIL_HOST J = None"
  by (simp add: jail_find_def)

lemma chain_to_0: "chain_to J a b 0 \<longleftrightarrow> jail_find b J \<noteq> None \<and> par J b = a"
  by (simp add: chain_to_def)

lemma chain_to_Suc: "chain_to J a b (Suc k) \<longleftrightarrow> jail_find b J \<noteq> None \<and> chain_to J a (par J b) k"
proof -
  have "(\<forall>m \<le> Suc k. jail_find ((par J ^^ m) b) J \<noteq> None) \<longleftrightarrow>
    jail_find b J \<noteq> None \<and> (\<forall>m \<le> k. jail_find ((par J ^^ Suc m) b) J \<noteq> None)"
    by (auto simp: less_Suc_eq_le [symmetric] All_less_Suc2)
  then show ?thesis by (simp add: chain_to_def funpow_swap1)
qed

lemma desc_loop_chain: "desc_loop n a b J \<longleftrightarrow> (\<exists>k < n. chain_to J a b k)"
proof (induction n arbitrary: b)
  case (Suc n)
  show ?case
  proof (cases "jail_find b J")
    case None
    have "\<not> chain_to J a b k" for k using None unfolding chain_to_def by (metis funpow_0 le0)
    with None show ?thesis by simp
  next
    case (Some i)
    then have b: "b \<noteq> JAIL_HOST" by auto
    have p: "par J b = j_parent_id (jail_at J i)" by (simp add: par_def Some)
    have "(\<exists>k < Suc n. chain_to J a b k) \<longleftrightarrow> chain_to J a b 0 \<or> (\<exists>k < n. chain_to J a b (Suc k))"
      by (auto simp: Ex_less_Suc2)
    with Suc.IH b Some p show ?thesis by (simp add: chain_to_0 chain_to_Suc)
  qed
qed simp

lemma ancestor_chain: "ancestor J a b \<longleftrightarrow> (\<exists>k. chain_to J a b k)"
proof
  assume "ancestor J a b"
  then show "\<exists>k. chain_to J a b k"
  proof induction
    case (anc_parent b i)
    then have "chain_to J (j_parent_id (jail_at J i)) b 0" by (simp add: chain_to_0 par_def)
    then show ?case ..
  next
    case (anc_step b i a)
    then obtain k where "chain_to J a (par J b) k" by (auto simp: par_def)
    with anc_step(1) have "chain_to J a b (Suc k)" by (simp add: chain_to_Suc)
    then show ?case ..
  qed
next
  assume "\<exists>k. chain_to J a b k"
  then obtain k where "chain_to J a b k" ..
  then show "ancestor J a b"
  proof (induction k arbitrary: b)
    case 0
    then show ?case by (auto simp: chain_to_0 par_def intro: anc_parent)
  next
    case (Suc k)
    then show ?case by (auto simp: chain_to_Suc par_def intro: anc_step)
  qed
qed

text \<open>A shortest chain visits every jail at most once, so the guard is large enough even on a cycle.\<close>

lemma chain_shortcut:
  assumes "chain_to J a b k" "i < j" "j \<le> k" "(par J ^^ i) b = (par J ^^ j) b"
  shows "chain_to J a b (k - (j - i))"
proof -
  have shift: "(par J ^^ (i + d)) b = (par J ^^ (j + d)) b" for d
    using assms(4) by (simp add: funpow_add add.commute [of _ d])
  have e: "Suc (k - (j - i)) = i + (Suc k - j)" "Suc k = j + (Suc k - j)" using assms(2,3) by auto
  have "(par J ^^ Suc (k - (j - i))) b = (par J ^^ Suc k) b" unfolding e(1) by (subst e(2)) (rule shift)
  moreover have "jail_find ((par J ^^ m) b) J \<noteq> None" if "m \<le> k - (j - i)" for m
    using that assms(1) unfolding chain_to_def by simp
  ultimately show ?thesis using assms(1) unfolding chain_to_def by simp
qed

lemma chain_bound:
  assumes "chain_to J a b k" "length (g_jails J) \<le> JAIL_MAX"
  shows "\<exists>k' \<le> JAIL_MAX. chain_to J a b k'"
proof -
  define k0 where "k0 = (LEAST k. chain_to J a b k)"
  have c: "chain_to J a b k0" unfolding k0_def using assms(1) by (rule LeastI)
  have inj: "inj_on (\<lambda>m. (par J ^^ m) b) {..k0}"
  proof (rule linorder_inj_onI)
    fix i j assume ij: "i < j" "j \<in> {..k0}"
    show "(par J ^^ i) b \<noteq> (par J ^^ j) b"
    proof
      assume "(par J ^^ i) b = (par J ^^ j) b"
      with chain_shortcut [OF c ij(1)] ij have "chain_to J a b (k0 - (j - i))" by simp
      then have "k0 \<le> k0 - (j - i)" unfolding k0_def by (rule Least_le)
      with ij show False by simp
    qed
  qed auto
  have "(\<lambda>m. (par J ^^ m) b) ` {..k0} \<subseteq> j_id ` set (g_jails J)"
  proof
    fix x assume "x \<in> (\<lambda>m. (par J ^^ m) b) ` {..k0}"
    then have "jail_find x J \<noteq> None" using c unfolding chain_to_def by auto
    then obtain i where "jail_find x J = Some i" by blast
    then show "x \<in> j_id ` set (g_jails J)"
      using find_index_SomeD [of "\<lambda>j. j_state j \<noteq> JAIL_UNUSED \<and> j_id j = x" "g_jails J" i]
      unfolding jail_find_def by (auto split: if_splits)
  qed
  from card_mono [OF _ this] card_image [OF inj]
  have "Suc k0 \<le> card (j_id ` set (g_jails J))" by simp
  also have "\<dots> \<le> length (g_jails J)" by (metis card_image_le card_length finite_set le_trans)
  finally show ?thesis using c assms(2) by (intro exI [of _ k0]) simp
qed

lemma descendant_iff:
  assumes "length (g_jails J) \<le> JAIL_MAX"
  shows "jail_is_descendant a b J \<longleftrightarrow> a = b \<or> a = JAIL_HOST \<or> ancestor J a b"
proof -
  have "desc_loop (JAIL_MAX + 1) a b J \<longleftrightarrow> ancestor J a b"
    unfolding desc_loop_chain ancestor_chain using chain_bound [OF _ assms] by (metis Suc_eq_plus1 less_Suc_eq_le)
  then show ?thesis by (auto simp: jail_is_descendant_def)
qed

section \<open>Processes in jails\<close>

text \<open>
  The invariant of the table, for a given number of processes in each jail: a jail in use has the id of its
  slot, counts its processes, stays within its limit, and has a canonical root; and there are no processes
  in a jail that is not in use.
\<close>

definition jail_ok :: "(u32 \<Rightarrow> nat) \<Rightarrow> nat \<Rightarrow> jail \<Rightarrow> bool" where
  "jail_ok c i j \<longleftrightarrow> j_state j \<noteq> JAIL_UNUSED \<longrightarrow>
     j_id j = of_nat (Suc i) \<and> unat (j_nprocs j) = c (of_nat (Suc i)) \<and>
     (j_max_procs j \<noteq> 0 \<longrightarrow> j_nprocs j \<le> j_max_procs j) \<and> clean_path (j_root j) \<and> length (j_root j) < JAIL_ROOT_MAX"

definition tab_inv :: "(u32 \<Rightarrow> nat) \<Rightarrow> jail_tab \<Rightarrow> bool" where
  "tab_inv c J \<longleftrightarrow> length (g_jails J) = JAIL_MAX \<and> (\<forall>i < JAIL_MAX. jail_ok c i (jail_at J i)) \<and>
     (\<forall>jid. jid \<noteq> JAIL_HOST \<longrightarrow> c jid \<noteq> 0 \<longrightarrow> jail_find jid J \<noteq> None)"

lemma slot_id_inj: "i < 32 \<Longrightarrow> j < 32 \<Longrightarrow> (of_nat (Suc i) :: u32) = of_nat (Suc j) \<Longrightarrow> i = j"
proof -
  assume "i < 32" "j < 32" "(of_nat (Suc i) :: u32) = of_nat (Suc j)"
  then have "unat (of_nat (Suc i) :: u32) = unat (of_nat (Suc j) :: u32)" by simp
  with \<open>i < 32\<close> \<open>j < 32\<close> show ?thesis by (simp add: unat_of_nat del: of_nat_Suc)
qed

lemma slot_id_host: "i < 32 \<Longrightarrow> (of_nat (Suc i) :: u32) \<noteq> JAIL_HOST"
proof
  assume "i < 32" "(of_nat (Suc i) :: u32) = JAIL_HOST"
  then have "unat (of_nat (Suc i) :: u32) = 0" by (simp add: JAIL_HOST_def del: of_nat_Suc)
  with \<open>i < 32\<close> show False by (simp add: unat_of_nat del: of_nat_Suc)
qed

lemma jail_find_iff:
  assumes "length (g_jails J) = JAIL_MAX" "\<And>i. i < JAIL_MAX \<Longrightarrow> j_state (jail_at J i) \<noteq> JAIL_UNUSED \<Longrightarrow> j_id (jail_at J i) = of_nat (Suc i)"
  shows "jail_find jid J = Some i \<longleftrightarrow> i < JAIL_MAX \<and> jid = of_nat (Suc i) \<and> j_state (jail_at J i) \<noteq> JAIL_UNUSED"
proof
  assume f: "jail_find jid J = Some i"
  then have "find_index (\<lambda>j. j_state j \<noteq> JAIL_UNUSED \<and> j_id j = jid) (g_jails J) = Some i"
    by (simp add: jail_find_def split: if_splits)
  from find_index_SomeD [OF this] assms show "i < JAIL_MAX \<and> jid = of_nat (Suc i) \<and> j_state (jail_at J i) \<noteq> JAIL_UNUSED" by auto
next
  assume i: "i < JAIL_MAX \<and> jid = of_nat (Suc i) \<and> j_state (jail_at J i) \<noteq> JAIL_UNUSED"
  have "find_index (\<lambda>j. j_state j \<noteq> JAIL_UNUSED \<and> j_id j = jid) (g_jails J) = Some i"
  proof (rule find_index_unique)
    fix k assume k: "k < length (g_jails J)" "j_state (jail_at J k) \<noteq> JAIL_UNUSED \<and> j_id (jail_at J k) = jid"
    then have "k < 32" "(of_nat (Suc k) :: u32) = of_nat (Suc i)" using assms i unfolding JAIL_MAX_def by metis+
    with i show "k = i" by (intro slot_id_inj) (simp_all add: JAIL_MAX_def)
  qed (use i assms in auto)
  moreover have "jid \<noteq> JAIL_HOST" using i slot_id_host [of i] by (auto simp: JAIL_MAX_def simp del: of_nat_Suc)
  ultimately show "jail_find jid J = Some i" by (simp add: jail_find_def)
qed

lemma tab_find:
  assumes "tab_inv c J"
  shows "jail_find jid J = Some i \<longleftrightarrow> i < JAIL_MAX \<and> jid = of_nat (Suc i) \<and> j_state (jail_at J i) \<noteq> JAIL_UNUSED"
  by (rule jail_find_iff) (use assms in \<open>auto simp: tab_inv_def jail_ok_def\<close>)

text \<open>Changing one jail, without changing whether it is in use, or freeing one that has no processes.\<close>

lemma upd_jail_inv:
  assumes inv: "tab_inv c J" and i: "i < JAIL_MAX" and ok: "jail_ok c' i (f (jail_at J i))"
    and c: "\<And>jid. jid \<noteq> of_nat (Suc i) \<Longrightarrow> c' jid = c jid"
    and free: "c' (of_nat (Suc i)) \<noteq> 0 \<Longrightarrow> j_state (f (jail_at J i)) \<noteq> JAIL_UNUSED"
  shows "tab_inv c' (upd_jail i f J)"
proof -
  let ?J = "upd_jail i f J"
  have len: "length (g_jails J) = JAIL_MAX" using inv by (simp add: tab_inv_def)
  have at: "jail_at ?J k = (if k = i then f (jail_at J i) else jail_at J k)" if "k < JAIL_MAX" for k
    using that len i by (simp add: upd_jail_def)
  have oks: "jail_ok c' k (jail_at ?J k)" if k: "k < JAIL_MAX" for k
  proof (cases "k = i")
    case False
    then have "(of_nat (Suc k) :: u32) \<noteq> of_nat (Suc i)" using slot_id_inj i k unfolding JAIL_MAX_def by blast
    with c have "c' (of_nat (Suc k)) = c (of_nat (Suc k))" by blast
    with inv False k at [OF k] show ?thesis unfolding tab_inv_def jail_ok_def by simp
  qed (use ok at [OF k] in simp)
  have len': "length (g_jails ?J) = JAIL_MAX" using len by (simp add: upd_jail_def)
  have find: "jail_find jid ?J = Some k \<longleftrightarrow> k < JAIL_MAX \<and> jid = of_nat (Suc k) \<and> j_state (jail_at ?J k) \<noteq> JAIL_UNUSED" for jid k
    by (rule jail_find_iff [OF len']) (use oks in \<open>auto simp: jail_ok_def\<close>)
  have "jail_find jid ?J \<noteq> None" if jid: "jid \<noteq> JAIL_HOST" "c' jid \<noteq> 0" for jid
  proof (cases "jid = of_nat (Suc i)")
    case True
    with free jid at [OF i] i have "jail_find jid ?J = Some i" unfolding find by simp
    then show ?thesis by simp
  next
    case False
    with c jid inv have "jail_find jid J \<noteq> None" unfolding tab_inv_def by metis
    then obtain k where "jail_find jid J = Some k" by blast
    then have k: "k < JAIL_MAX" "jid = of_nat (Suc k)" "j_state (jail_at J k) \<noteq> JAIL_UNUSED" using tab_find [OF inv] by auto
    with False have "k \<noteq> i" by blast
    with k at [OF k(1)] have "jail_find jid ?J = Some k" unfolding find by simp
    then show ?thesis by simp
  qed
  with oks len' show ?thesis unfolding tab_inv_def by blast
qed

lemma tab_ok: "tab_inv c J \<Longrightarrow> i < JAIL_MAX \<Longrightarrow> jail_ok c i (jail_at J i)"
  by (simp add: tab_inv_def)

lemma on_jail_inv:
  assumes inv: "tab_inv c J"
    and f: "\<And>i. jail_find jid J = Some i \<Longrightarrow> jail_ok c' i (f (jail_at J i)) \<and> (c' jid \<noteq> 0 \<longrightarrow> j_state (f (jail_at J i)) \<noteq> JAIL_UNUSED)"
    and c: "\<And>k. k \<noteq> jid \<Longrightarrow> c' k = c k" and n: "jail_find jid J = None \<Longrightarrow> jid \<noteq> JAIL_HOST \<Longrightarrow> c' jid = 0"
  shows "tab_inv c' (on_jail jid f J)"
proof (cases "jail_find jid J")
  case None
  have "jail_ok c' i (jail_at J i)" if i: "i < JAIL_MAX" for i
  proof (cases "j_state (jail_at J i) = JAIL_UNUSED")
    case False
    then have "jid \<noteq> of_nat (Suc i)" using None tab_find [OF inv, of jid i] i by auto
    with c have "c' (of_nat (Suc i)) = c (of_nat (Suc i))" by metis
    with tab_ok [OF inv i] show ?thesis by (simp add: jail_ok_def)
  qed (simp add: jail_ok_def)
  moreover have "jail_find k J \<noteq> None" if "k \<noteq> JAIL_HOST" "c' k \<noteq> 0" for k
    using that inv None c n unfolding tab_inv_def by metis
  ultimately show ?thesis using inv None unfolding tab_inv_def on_jail_def by simp
next
  case (Some i)
  then have i: "i < JAIL_MAX" "jid = of_nat (Suc i)" using tab_find [OF inv] by auto
  with f [OF Some] c show ?thesis unfolding on_jail_def Some option.case
    by (intro upd_jail_inv [OF inv]) auto
qed

lemma jail_ref_inv:
  assumes inv: "tab_inv c J" and j: "jid = JAIL_HOST \<or> jail_find jid J \<noteq> None" "jail_can_fork jid J"
    and c: "c jid < 64"
  shows "tab_inv (c(jid := Suc (c jid))) (jail_ref jid J)"
  unfolding jail_ref_def
proof (rule on_jail_inv [OF inv])
  fix i assume f: "jail_find jid J = Some i"
  then have i: "i < JAIL_MAX" "jid = of_nat (Suc i)" "j_state (jail_at J i) \<noteq> JAIL_UNUSED" using tab_find [OF inv] by auto
  note ok = tab_ok [OF inv i(1), unfolded jail_ok_def, rule_format, OF i(3)]
  have n: "unat (j_nprocs (jail_at J i)) = c jid" using ok i(2) by simp
  have u: "unat (j_nprocs (jail_at J i) + 1) = Suc (c jid)"
    using n c by (simp add: unat_word_ariths)
  have "j_max_procs (jail_at J i) \<noteq> 0 \<longrightarrow> j_nprocs (jail_at J i) < j_max_procs (jail_at J i)"
    using j(2) f by (auto simp: jail_can_fork_def)
  then have "j_max_procs (jail_at J i) \<noteq> 0 \<longrightarrow> j_nprocs (jail_at J i) + 1 \<le> j_max_procs (jail_at J i)"
    using u n by (auto simp: word_le_nat_alt word_less_nat_alt)
  with ok u i(2,3) show "jail_ok (c(jid := Suc (c jid))) i ((jail_at J i)\<lparr>j_nprocs := j_nprocs (jail_at J i) + 1\<rparr>) \<and>
      ((c(jid := Suc (c jid))) jid \<noteq> 0 \<longrightarrow> j_state ((jail_at J i)\<lparr>j_nprocs := j_nprocs (jail_at J i) + 1\<rparr>) \<noteq> JAIL_UNUSED)"
    by (simp add: jail_ok_def del: of_nat_Suc)
qed (use j(1) in auto)

lemma jail_unref_inv:
  assumes inv: "tab_inv c J" and c: "0 < c jid"
  shows "tab_inv (c(jid := c jid - 1)) (jail_unref jid J)"
  unfolding jail_unref_def
proof (rule on_jail_inv [OF inv])
  fix i assume f: "jail_find jid J = Some i"
  then have i: "i < JAIL_MAX" "jid = of_nat (Suc i)" "j_state (jail_at J i) \<noteq> JAIL_UNUSED" using tab_find [OF inv] by auto
  note ok = tab_ok [OF inv i(1), unfolded jail_ok_def, rule_format, OF i(3)]
  have n: "unat (j_nprocs (jail_at J i)) = c jid" using ok i(2) by simp
  with c have nz: "j_nprocs (jail_at J i) \<noteq> 0" by auto
  have u: "unat (j_nprocs (jail_at J i) - 1) = c jid - 1" using n nz by (simp add: unat_minus_one)
  then have "j_max_procs (jail_at J i) \<noteq> 0 \<longrightarrow> j_nprocs (jail_at J i) - 1 \<le> j_max_procs (jail_at J i)"
    using ok n by (auto simp: word_le_nat_alt)
  with ok u nz i(2,3) show "jail_ok (c(jid := c jid - 1)) i
      (if j_nprocs (jail_at J i) \<noteq> 0 then (jail_at J i)\<lparr>j_nprocs := j_nprocs (jail_at J i) - 1\<rparr> else jail_at J i) \<and>
      ((c(jid := c jid - 1)) jid \<noteq> 0 \<longrightarrow>
       j_state (if j_nprocs (jail_at J i) \<noteq> 0 then (jail_at J i)\<lparr>j_nprocs := j_nprocs (jail_at J i) - 1\<rparr> else jail_at J i) \<noteq> JAIL_UNUSED)"
    by (simp add: jail_ok_def del: of_nat_Suc)
next
  assume "jail_find jid J = None" "jid \<noteq> JAIL_HOST"
  with inv c show "(c(jid := c jid - 1)) jid = 0" unfolding tab_inv_def by auto
qed simp


lemma find_upd_jail:
  assumes "j_state (f (jail_at J i)) = j_state (jail_at J i)" "j_id (f (jail_at J i)) = j_id (jail_at J i)"
  shows "jail_find k (upd_jail i f J) = jail_find k J"
proof -
  have "find_index (\<lambda>j. j_state j \<noteq> JAIL_UNUSED \<and> j_id j = k) ((g_jails J)[i := f (jail_at J i)]) =
      find_index (\<lambda>j. j_state j \<noteq> JAIL_UNUSED \<and> j_id j = k) (g_jails J)"
    by (cases "i < length (g_jails J)"; rule find_index_cong)
      (use assms in \<open>auto simp: nth_list_update list_update_beyond\<close>)
  then show ?thesis by (simp add: jail_find_def upd_jail_def)
qed

lemma unref_other:
  assumes "tab_inv c J" "k \<noteq> jid" "jail_find k J = Some i"
  shows "jail_find k (jail_unref jid J) = Some i" "jail_at (jail_unref jid J) i = jail_at J i"
proof -
  show "jail_find k (jail_unref jid J) = Some i"
    unfolding jail_unref_def on_jail_def using assms(3) by (auto simp: find_upd_jail split: option.split)
  have "jail_find jid J \<noteq> Some i" using assms tab_find [OF assms(1)] by auto
  then show "jail_at (jail_unref jid J) i = jail_at J i"
    unfolding jail_unref_def on_jail_def by (auto simp: upd_jail_def split: option.split)
qed

lemma jail_enter_eq:
  "p_jail_id p \<noteq> jid \<Longrightarrow> snd (jail_enter p jid J) = jail_ref jid (jail_unref (p_jail_id p) J) \<and>
   p_jail_id (fst (jail_enter p jid J)) = jid"
  by (simp add: jail_enter_def Let_def split: option.split)

lemma jail_enter_inv:
  assumes inv: "tab_inv c J" and p: "p_jail_id p \<noteq> jid" "0 < c (p_jail_id p)"
    and j: "jail_find jid J = Some i" "jail_can_fork jid J" "c jid < 64"
  shows "tab_inv (c(p_jail_id p := c (p_jail_id p) - 1, jid := Suc (c jid))) (snd (jail_enter p jid J))"
proof -
  note u = jail_unref_inv [OF inv p(2)]
  note o = unref_other [OF inv p(1) [symmetric] j(1)]
  have "jail_can_fork jid (jail_unref (p_jail_id p) J)" using j(2) by (simp add: jail_can_fork_def o j(1))
  then have "tab_inv ((c(p_jail_id p := c (p_jail_id p) - 1))(jid := Suc ((c(p_jail_id p := c (p_jail_id p) - 1)) jid)))
      (jail_ref jid (jail_unref (p_jail_id p) J))"
    by (intro jail_ref_inv [OF u]) (use o j(3) p(1) in auto)
  then show ?thesis using p(1) by (simp add: jail_enter_eq)
qed

lemma jail_new_root_clean:
  assumes "proot = [] \<or> clean_path proot" "length proot < JAIL_ROOT_MAX"
  shows "clean_path (jail_new_root proot croot)"
  using assms path_canon_clean by (auto simp: jail_new_root_def Let_def copy_str_def JAIL_ROOT_MAX_def)

lemma tab_unused_count:
  assumes "tab_inv c J" "i < JAIL_MAX" "j_state (jail_at J i) = JAIL_UNUSED"
  shows "c (of_nat (Suc i)) = 0"
proof (rule ccontr)
  assume n: "c (of_nat (Suc i)) \<noteq> 0"
  have "(of_nat (Suc i) :: u32) \<noteq> JAIL_HOST" using assms(2) slot_id_host [of i] unfolding JAIL_MAX_def by blast
  with n assms(1) have "jail_find (of_nat (Suc i)) J \<noteq> None" unfolding tab_inv_def by blast
  then obtain k where k: "jail_find (of_nat (Suc i)) J = Some k" by blast
  with tab_find [OF assms(1)] have k': "k < JAIL_MAX" "(of_nat (Suc i) :: u32) = of_nat (Suc k)" "j_state (jail_at J k) \<noteq> JAIL_UNUSED"
    by blast+
  then have "i = k" using slot_id_inj [of i k] assms(2) unfolding JAIL_MAX_def by blast
  with k' assms(3) show False by simp
qed

lemma jail_create_inv:
  assumes inv: "tab_inv c J"
  shows "tab_inv c (snd (jail_create pj cfg uid J)) \<and>
    (0 \<le> fst (jail_create pj cfg uid J) \<longrightarrow>
      (\<exists>i. jail_find (word_of_int (fst (jail_create pj cfg uid J))) (snd (jail_create pj cfg uid J)) = Some i \<and>
       jail_can_fork (word_of_int (fst (jail_create pj cfg uid J))) (snd (jail_create pj cfg uid J)) \<and>
       c (word_of_int (fst (jail_create pj cfg uid J))) = 0))"
proof -
  define pr where "pr = (if pj \<noteq> JAIL_HOST then map_option (\<lambda>i. j_root (jail_at J i)) (jail_find pj J) else Some [])"
  show ?thesis
  proof (cases pr)
    case None
    with inv show ?thesis by (simp add: jail_create_def pr_def [symmetric])
  next
    case (Some proot)
    have cl: "(proot = [] \<or> clean_path proot) \<and> length proot < JAIL_ROOT_MAX"
    proof (cases "pj = JAIL_HOST")
      case True
      with Some show ?thesis by (simp add: pr_def JAIL_ROOT_MAX_def)
    next
      case False
      with Some obtain k where k: "jail_find pj J = Some k" "proot = j_root (jail_at J k)" by (auto simp: pr_def)
      with tab_find [OF inv] have "k < JAIL_MAX" "j_state (jail_at J k) \<noteq> JAIL_UNUSED" by auto
      with tab_ok [OF inv, of k] k(2) show ?thesis by (simp add: jail_ok_def)
    qed
    define canon where "canon = jail_new_root proot (kc_root cfg)"
    have clean: "clean_path canon" unfolding canon_def by (rule jail_new_root_clean) (use cl in auto)
    define slot where "slot = find_index (\<lambda>j. j_state j = JAIL_UNUSED) (g_jails J)"
    have e: "jail_create pj cfg uid J = (if JAIL_ROOT_MAX \<le> length canon then (- EINVAL, J)
          else (case slot of None \<Rightarrow> (- ENOSPC, J) | Some i \<Rightarrow> (int (i + 1),
            upd_jail i (\<lambda>_. \<lparr>j_state = JAIL_ACTIVE, j_id = of_nat (i + 1), j_parent_id = pj,
                    j_flags = kc_flags cfg AND JAILF_ALL, j_name = copy_str JAIL_NAME_MAX (kc_name cfg),
                    j_root = copy_str JAIL_ROOT_MAX canon, j_nprocs = 0, j_max_procs = kc_max_procs cfg,
                    j_creator_uid = uid\<rparr>) J)))"
      by (simp add: jail_create_def pr_def [symmetric] Some canon_def [symmetric] slot_def [symmetric] Let_def)
    show ?thesis
    proof (cases "JAIL_ROOT_MAX \<le> length canon \<or> slot = None")
      case True
      with inv show ?thesis by (auto simp: e)
    next
      case False
      then obtain i where i: "slot = Some i" by blast
      have i': "i < JAIL_MAX" "j_state (jail_at J i) = JAIL_UNUSED"
        using find_index_SomeD [OF i [unfolded slot_def]] inv by (auto simp: tab_inv_def)
      note c0 = tab_unused_count [OF inv i']
      let ?j = "\<lparr>j_state = JAIL_ACTIVE, j_id = of_nat (i + 1), j_parent_id = pj,
                    j_flags = kc_flags cfg AND JAILF_ALL, j_name = copy_str JAIL_NAME_MAX (kc_name cfg),
                    j_root = copy_str JAIL_ROOT_MAX canon, j_nprocs = 0, j_max_procs = kc_max_procs cfg,
                    j_creator_uid = uid\<rparr>"
      have cr: "jail_create pj cfg uid J = (int (i + 1), upd_jail i (\<lambda>_. ?j) J)" unfolding e using False i by simp
      have "copy_str JAIL_ROOT_MAX canon = canon" using False by (simp add: copy_str_def JAIL_ROOT_MAX_def)
      then have "jail_ok c i ?j" using c0 clean False by (simp add: jail_ok_def del: of_nat_Suc)
      then have t: "tab_inv c (upd_jail i (\<lambda>_. ?j) J)" by (intro upd_jail_inv [OF inv i'(1)]) auto
      have at: "jail_at (upd_jail i (\<lambda>_. ?j) J) i = ?j" using i' inv by (simp add: upd_jail_def tab_inv_def)
      have w: "word_of_int (int (i + 1)) = (of_nat (Suc i) :: u32)" by (simp only: of_int_of_nat_eq Suc_eq_plus1)
      have f: "jail_find (of_nat (Suc i)) (upd_jail i (\<lambda>_. ?j) J) = Some i"
        unfolding tab_find [OF t] at using i' by simp
      have "jail_can_fork (of_nat (Suc i)) (upd_jail i (\<lambda>_. ?j) J)"
        unfolding jail_can_fork_def f option.case at by (simp add: word_le_nat_alt unat_eq_0)
      with t f c0 show ?thesis unfolding cr fst_conv snd_conv w by blast
    qed
  qed
qed

lemma state_inv:
  assumes inv: "tab_inv c J"
    and f: "\<And>j. j_id (f j) = j_id j \<and> j_nprocs (f j) = j_nprocs j \<and> j_max_procs (f j) = j_max_procs j \<and> j_root (f j) = j_root j"
    and free: "\<And>j. j_state (f j) = JAIL_UNUSED \<Longrightarrow> j_state j \<noteq> JAIL_UNUSED \<Longrightarrow> j_nprocs j = 0"
  shows "tab_inv c (on_jail jid f J)"
proof (rule on_jail_inv [OF inv])
  fix i assume "jail_find jid J = Some i"
  then have i: "i < JAIL_MAX" "jid = of_nat (Suc i)" "j_state (jail_at J i) \<noteq> JAIL_UNUSED" using tab_find [OF inv] by auto
  note ok = tab_ok [OF inv i(1), unfolded jail_ok_def, rule_format, OF i(3)]
  have "c jid \<noteq> 0 \<longrightarrow> j_state (f (jail_at J i)) \<noteq> JAIL_UNUSED"
    using ok free [of "jail_at J i"] i by (auto simp del: of_nat_Suc)
  with ok f [of "jail_at J i"] show "jail_ok c i (f (jail_at J i)) \<and> (c jid \<noteq> 0 \<longrightarrow> j_state (f (jail_at J i)) \<noteq> JAIL_UNUSED)"
    by (simp add: jail_ok_def del: of_nat_Suc)
qed (use inv in \<open>auto simp: tab_inv_def\<close>)

lemma jail_retire_inv: "tab_inv c J \<Longrightarrow> tab_inv c (jail_retire jid J)"
  unfolding jail_retire_def by (rule state_inv) auto

lemma jail_reap_inv: "tab_inv c J \<Longrightarrow> tab_inv c (jail_reap jid J)"
  unfolding jail_reap_def by (rule state_inv) (auto split: if_splits)

lemma jail_remove_inv:
  assumes "tab_inv c J"
  shows "tab_inv c (snd (jail_remove jid req h J))"
proof -
  have "tab_inv c (on_jail jid (\<lambda>j. if j_nprocs j = 0 then j\<lparr>j_state := JAIL_UNUSED\<rparr> else j\<lparr>j_state := JAIL_DYING\<rparr>) J)"
    by (rule state_inv [OF assms]) (auto split: if_splits)
  then have "tab_inv c (upd_jail i (\<lambda>j. j\<lparr>j_state := if j_nprocs (jail_at J i) = 0 then JAIL_UNUSED else JAIL_DYING\<rparr>) J)"
    if "jail_find jid J = Some i" for i
    using that unfolding on_jail_def by (auto simp: upd_jail_def split: if_splits)
  with assms show ?thesis by (auto simp: jail_remove_def split: option.split)
qed

text \<open>The table together with the live processes.\<close>

type_synonym jail_world = "jail_tab \<times> proc list"

definition inmates :: "proc list \<Rightarrow> u32 \<Rightarrow> nat" where
  "inmates ps jid = length (filter (\<lambda>p. p_jail_id p = jid) ps)"

inductive jail_step :: "jail_world \<Rightarrow> jail_world \<Rightarrow> bool" where
  js_fork: "j < length ps \<Longrightarrow> length ps < PROC_MAX \<Longrightarrow> jail_can_fork (p_jail_id (ps ! j)) J \<Longrightarrow>
    jail_step (J, ps) (jail_ref (p_jail_id (ps ! j)) J, ps @ [child\<lparr>p_jail_id := p_jail_id (ps ! j)\<rparr>])"
| js_exit: "j < length ps \<Longrightarrow> jail_step (J, ps) (jail_unref (p_jail_id (ps ! j)) J, take j ps @ drop (Suc j) ps)"
| js_create: "j < length ps \<Longrightarrow> sys_jail_create (Some (ps ! j)) ucfg h J = (r, Some p, J') \<Longrightarrow>
    jail_step (J, ps) (J', ps[j := p])"
| js_attach: "j < length ps \<Longrightarrow> sys_jail_attach (Some (ps ! j)) jid J = (r, Some p, J') \<Longrightarrow>
    jail_step (J, ps) (J', ps[j := p])"
| js_remove: "jail_step (J, ps) (snd (jail_remove jid requester h J), ps)"
| js_retire: "jail_step (J, ps) (jail_retire jid J, ps)"
| js_reap: "jail_step (J, ps) (jail_reap jid J, ps)"

fun jail_start :: "jail_world \<Rightarrow> bool" where
  "jail_start (J, ps) \<longleftrightarrow> J = jail_init \<and> (\<exists>p. ps = [p] \<and> p_jail_id p = JAIL_HOST)"

fun jw_inv :: "jail_world \<Rightarrow> bool" where
  "jw_inv (J, ps) \<longleftrightarrow> tab_inv (inmates ps) J \<and> length ps \<le> PROC_MAX"

lemma inmates_split:
  "j < length ps \<Longrightarrow> inmates ps jid = (if p_jail_id (ps ! j) = jid then 1 else 0) + inmates (take j ps @ drop (Suc j) ps) jid"
  by (subst (1) id_take_nth_drop [of j ps]) (simp_all add: inmates_def)

lemma inmates_update:
  "j < length ps \<Longrightarrow> inmates (ps[j := p]) jid = (if p_jail_id p = jid then 1 else 0) + inmates (take j ps @ drop (Suc j) ps) jid"
  by (simp add: inmates_def upd_conv_take_nth_drop)

lemma inmates_remove:
  assumes "j < length ps"
  shows "inmates (take j ps @ drop (Suc j) ps) = (inmates ps)(p_jail_id (ps ! j) := inmates ps (p_jail_id (ps ! j)) - 1)"
  using inmates_split [OF assms] by (auto simp: fun_eq_iff)

lemma inmates_add: "inmates (ps @ [p]) = (inmates ps)(p_jail_id p := Suc (inmates ps (p_jail_id p)))"
  by (auto simp: inmates_def fun_eq_iff)

lemma inmates_pos: "j < length ps \<Longrightarrow> 0 < inmates ps (p_jail_id (ps ! j))"
  using inmates_split [of j ps "p_jail_id (ps ! j)"] by simp

lemma inmates_move:
  assumes "j < length ps" "p_jail_id (ps ! j) \<noteq> p_jail_id p"
  shows "inmates (ps[j := p]) = (inmates ps)(p_jail_id (ps ! j) := inmates ps (p_jail_id (ps ! j)) - 1,
    p_jail_id p := Suc (inmates ps (p_jail_id p)))"
  using inmates_split [OF assms(1)] inmates_update [OF assms(1), of p] assms(2) by (auto simp: fun_eq_iff)

lemma inmates_same: "j < length ps \<Longrightarrow> p_jail_id p = p_jail_id (ps ! j) \<Longrightarrow> inmates (ps[j := p]) = inmates ps"
  using inmates_split [of j ps] inmates_update [of j ps p] by (auto simp: fun_eq_iff)

text \<open>Entering a jail that may take one more process.\<close>

lemma enter_world:
  assumes inv: "tab_inv (inmates ps) J" "length ps \<le> PROC_MAX" and j: "j < length ps"
    and f: "jail_find jid J = Some i" "jail_can_fork jid J"
  shows "tab_inv (inmates (ps[j := fst (jail_enter (ps ! j) jid J)])) (snd (jail_enter (ps ! j) jid J))"
proof (cases "p_jail_id (ps ! j) = jid")
  case True
  with inv j show ?thesis by (simp add: jail_enter_def)
next
  case False
  note e = jail_enter_eq [OF False, of J]
  have "inmates ps jid < length ps"
    unfolding inmates_def by (rule length_filter_less [of "ps ! j"]) (use j False in auto)
  then have "inmates ps jid < 64" using inv(2) by (simp add: PROC_MAX_def)
  from jail_enter_inv [OF inv(1) False inmates_pos [OF j] f this] show ?thesis
    using inmates_move [OF j, of "fst (jail_enter (ps ! j) jid J)"] e False by simp
qed

lemma attach_cases:
  assumes "sys_jail_attach (Some q) jid J = (r, Some p, J')"
  shows "p = q \<and> J' = J \<or> (\<exists>i. jail_find jid J = Some i \<and> jail_can_fork jid J \<and> jail_enter q jid J = (p, J'))"
proof (cases "jail_find jid J")
  case None
  with assms show ?thesis by (simp add: sys_jail_attach_def)
next
  case (Some i)
  obtain q1 J1 where e: "jail_enter q jid J = (q1, J1)" by (cases "jail_enter q jid J")
  show ?thesis
  proof (cases "j_state (jail_at J i) \<noteq> JAIL_ACTIVE \<or> \<not> jail_is_descendant (p_jail_id q) jid J \<or> \<not> jail_can_fork jid J")
    case True
    then have "sys_jail_attach (Some q) jid J = (fst (sys_jail_attach (Some q) jid J), Some q, J)"
      by (simp add: sys_jail_attach_def Some)
    with assms show ?thesis by simp
  next
    case False
    then have "sys_jail_attach (Some q) jid J = (0, Some q1, J1)" by (simp add: sys_jail_attach_def Some e)
    with assms have "p = q1" "J' = J1" by simp_all
    with False Some e show ?thesis by simp
  qed
qed

lemma jail_step_inv:
  assumes "jail_step w w'" "jw_inv w"
  shows "jw_inv w'"
  using assms
proof cases
  case (js_fork j ps J child)
  from assms(2) js_fork have inv: "tab_inv (inmates ps) J" by simp
  let ?jid = "p_jail_id (ps ! j)"
  have "inmates ps ?jid \<le> length ps" unfolding inmates_def by (rule length_filter_le)
  then have lt: "inmates ps ?jid < 64" using js_fork(4) by (simp add: PROC_MAX_def)
  have "?jid = JAIL_HOST \<or> jail_find ?jid J \<noteq> None" using inv inmates_pos [OF js_fork(3)] unfolding tab_inv_def by auto
  from jail_ref_inv [OF inv this js_fork(5) lt] js_fork(2,4) show ?thesis by (simp add: inmates_add)
next
  case (js_exit j ps J)
  from assms(2) js_exit have inv: "tab_inv (inmates ps) J" "length ps \<le> PROC_MAX" by simp_all
  from jail_unref_inv [OF inv(1) inmates_pos [OF js_exit(3)]] inv(2) show ?thesis
    unfolding js_exit(2) using inmates_remove [OF js_exit(3)] by simp
next
  case (js_create j ps ucfg h J r p J')
  from assms(2) js_create have inv: "tab_inv (inmates ps) J" "length ps \<le> PROC_MAX" by simp_all
  show ?thesis
  proof (cases "p = ps ! j \<and> J' = J")
    case True
    with js_create(2,3) inv show ?thesis by simp
  next
    case False
    with js_create(4) obtain cfg where priv: "jail_host_priv (Some (ps ! j)) h J" and cfg: "ucfg = Some cfg"
      by (auto simp: sys_jail_create_def split: if_splits option.splits)
    let ?c = "cfg\<lparr>kc_name := copy_str JAIL_NAME_MAX (kc_name cfg), kc_root := copy_str JAIL_ROOT_MAX (kc_root cfg)\<rparr>"
    obtain jid J1 where c: "jail_create (p_jail_id (ps ! j)) ?c (p_euid (ps ! j)) J = (jid, J1)"
      by (cases "jail_create (p_jail_id (ps ! j)) ?c (p_euid (ps ! j)) J")
    note ci = jail_create_inv [OF inv(1), of "p_jail_id (ps ! j)" ?c "p_euid (ps ! j)", unfolded c fst_conv snd_conv]
    show ?thesis
    proof (cases "0 \<le> jid \<and> kc_attach cfg \<noteq> 0")
      case True
      with ci obtain i where i: "jail_find (word_of_int jid) J1 = Some i" "jail_can_fork (word_of_int jid) J1" by blast
      have "p = fst (jail_enter (ps ! j) (word_of_int jid) J1) \<and> J' = snd (jail_enter (ps ! j) (word_of_int jid) J1)"
        using js_create(4) True priv cfg c by (simp add: sys_jail_create_def split: prod.splits)
      with enter_world [OF _ inv(2) js_create(3) i] ci inv(2) js_create(2) show ?thesis by simp
    next
      case no: False
      then have "p = ps ! j" "J' = J1" using js_create(4) priv cfg c by (auto simp: sys_jail_create_def split: if_splits)
      with ci inv(2) js_create(2,3) show ?thesis by simp
    qed
  qed
next
  case (js_attach j ps jid J r p J')
  from assms(2) js_attach have inv: "tab_inv (inmates ps) J" "length ps \<le> PROC_MAX" by simp_all
  show ?thesis
  proof (cases "p = ps ! j \<and> J' = J")
    case True
    with js_attach(2,3) inv show ?thesis by simp
  next
    case False
    with attach_cases [OF js_attach(4)] obtain i where i: "jail_find jid J = Some i" "jail_can_fork jid J"
      "jail_enter (ps ! j) jid J = (p, J')" by blast
    from enter_world [OF inv js_attach(3) i(1,2)] i(3) inv(2) js_attach(2) show ?thesis by simp
  qed
next
  case (js_remove J ps jid requester h)
  with assms(2) jail_remove_inv show ?thesis by simp
next
  case (js_retire J ps jid)
  with assms(2) jail_retire_inv show ?thesis by simp
next
  case (js_reap J ps jid)
  with assms(2) jail_reap_inv show ?thesis by simp
qed

lemma jail_start_inv: "jail_start w \<Longrightarrow> jw_inv w"
  by (cases w) (auto simp: jail_init_def tab_inv_def jail_ok_def zero_jail_def inmates_def PROC_MAX_def)

interpretation jw: invariant_system jail_start jail_step jw_inv
  by unfold_locales (auto intro: jail_start_inv jail_step_inv)

section \<open>Properties\<close>

text \<open>
  C8: In every state that forks, exits and the jail system calls reach from boot, every jail in use counts
  exactly the processes in it and stays within its limit, and no process is in a jail that has been freed, so
  a slot is only used again when nobody is left in it.
\<close>

theorem jail_counts_exact:
  assumes "reach jail_start jail_step (J, ps)"
  shows "(\<forall>i < JAIL_MAX. j_state (jail_at J i) \<noteq> JAIL_UNUSED \<longrightarrow>
      unat (j_nprocs (jail_at J i)) = inmates ps (j_id (jail_at J i)) \<and>
      (j_max_procs (jail_at J i) \<noteq> 0 \<longrightarrow> j_nprocs (jail_at J i) \<le> j_max_procs (jail_at J i))) \<and>
    (\<forall>p \<in> set ps. p_jail_id p \<noteq> JAIL_HOST \<longrightarrow> jail_find (p_jail_id p) J \<noteq> None)"
proof -
  have inv: "tab_inv (inmates ps) J" using jw.reach_inv [OF assms] by simp
  have "jail_find (p_jail_id p) J \<noteq> None" if p: "p \<in> set ps" "p_jail_id p \<noteq> JAIL_HOST" for p
  proof -
    from p(1) obtain j where "j < length ps" "ps ! j = p" by (auto simp: in_set_conv_nth)
    with inmates_pos [of j ps] inv p(2) show ?thesis unfolding tab_inv_def by auto
  qed
  with inv show ?thesis unfolding tab_inv_def jail_ok_def by auto
qed


definition wit_conf :: kjail_conf where
  "wit_conf = \<lparr>kc_root = ''jail'', kc_name = ''a'', kc_flags = 3, kc_max_procs = 0, kc_attach = 1\<rparr>"

definition wit_world :: jail_world where
  "wit_world = (case sys_jail_create (Some zero_proc) (Some wit_conf) (ns_init 0 (\<lambda>_. True)) jail_init of
     (r, p, J) \<Rightarrow> (J, [the p]))"

lemma wit_world_reach: "reach jail_start jail_step wit_world"
proof -
  obtain r p J where e: "sys_jail_create (Some zero_proc) (Some wit_conf) (ns_init 0 (\<lambda>_. True)) jail_init = (r, p, J)"
    by (cases "sys_jail_create (Some zero_proc) (Some wit_conf) (ns_init 0 (\<lambda>_. True)) jail_init")
  have "p \<noteq> None" using e by (auto simp: sys_jail_create_def Let_def split: if_splits prod.splits)
  then obtain q where q: "p = Some q" by blast
  have "reach jail_start jail_step (jail_init, [zero_proc])"
    by (rule reach.intros) (simp add: zero_proc_def JAIL_HOST_def)
  moreover have "jail_step (jail_init, [zero_proc]) (J, [zero_proc][0 := q])"
    by (rule js_create) (use e q in simp_all)
  ultimately have "reach jail_start jail_step (J, [q])" by (simp add: reach.intros(2))
  then show ?thesis by (simp add: wit_world_def e q)
qed

theorem jail_counts_exact_witness:
  "j_nprocs (jail_at (fst wit_world) 0) = 1 \<and> inmates (snd wit_world) 1 = 1"
proof -
  have w: "reach jail_start jail_step (fst wit_world, snd wit_world)" using wit_world_reach by simp
  have s: "j_state (jail_at (fst wit_world) 0) \<noteq> JAIL_UNUSED" "j_id (jail_at (fst wit_world) 0) = 1"
    "j_nprocs (jail_at (fst wit_world) 0) = 1" by code_simp+
  from jail_counts_exact [OF w] have "unat (j_nprocs (jail_at (fst wit_world) 0)) = inmates (snd wit_world) (j_id (jail_at (fst wit_world) 0))"
    using s(1) by (simp add: JAIL_MAX_def)
  with s(2,3) show ?thesis by simp
qed

text \<open>
  C9: Confinement. In every reachable state, whatever path a process of a file-system jail presents, the path
  that the kernel uses after \<open>jail_canon_clamp\<close> resolves to a place below the root of the jail.
\<close>

theorem jail_paths_confined:
  assumes "reach jail_start jail_step (J, ps)" "jail_root_current (Some p) J = root" "root \<noteq> []" "root \<noteq> [slash]" "512 \<le> sz"
  shows "\<exists>rs cs. rs \<noteq> [] \<and> root = join rs \<and> resolve [] (components (jail_canon_clamp path sz root)) = rs @ cs"
proof -
  have inv: "tab_inv (inmates ps) J" using jw.reach_inv [OF assms(1)] by simp
  from assms(2,3) obtain i where i: "jail_find (p_jail_id p) J = Some i" "root = j_root (jail_at J i)"
    by (auto simp: jail_root_current_def split: option.splits if_splits)
  with tab_find [OF inv] have "i < JAIL_MAX" "j_state (jail_at J i) \<noteq> JAIL_UNUSED" by auto
  with tab_ok [OF inv, of i] i(2) have c: "clean_path root" "length root < 256" by (auto simp: jail_ok_def JAIL_ROOT_MAX_def)
  with assms(4) obtain rs where rs: "rs \<noteq> []" "list_all plain rs" "root = join rs" unfolding clean_path_def by blast
  from clamp_resolves_below [OF rs(3,2,1) c(2) assms(5)] rs(1,3) show ?thesis by blast
qed

theorem jail_paths_confined_witness:
  "\<exists>rs cs. rs \<noteq> [] \<and> ''/jail'' = join rs \<and>
     resolve [] (components (jail_canon_clamp ''/../../etc/passwd'' 512 ''/jail'')) = rs @ cs"
proof (rule jail_paths_confined)
  show "reach jail_start jail_step (fst wit_world, snd wit_world)" using wit_world_reach by simp
  show "jail_root_current (Some (zero_proc\<lparr>p_jail_id := 1\<rparr>)) (fst wit_world) = ''/jail''" by code_simp
qed simp_all

text \<open>
  C34: The guarded search of \<open>jail_is_descendant\<close> computes the ancestor relation of the table exactly: its bound
  on the number of rounds never cuts off a chain of parents, even when the parents form a cycle.
\<close>

theorem jail_descendant_exact:
  assumes "length (g_jails J) = JAIL_MAX"
  shows "jail_is_descendant a b J \<longleftrightarrow> a = b \<or> a = JAIL_HOST \<or> ancestor J a b"
  by (rule descendant_iff) (simp add: assms)

theorem jail_descendant_exact_witness:
  "length (g_jails (fst wit_world)) = JAIL_MAX \<and> \<not> ancestor (fst wit_world) 2 1"
proof -
  have l: "length (g_jails (fst wit_world)) = JAIL_MAX" "\<not> jail_is_descendant 2 1 (fst wit_world)" by code_simp+
  with jail_descendant_exact [of "fst wit_world" 2 1] show ?thesis by simp
qed


text \<open>
  Finding. Removing a jail without processes frees its id although jails inside it still name it as their
  parent. When one of them creates a jail, it gets that id: the new jail is the parent of its own creator's
  jail, and its processes may attach to the jail that encloses them.
\<close>

theorem jail_id_reuse_inverts:
  "let cfg = \<lparr>kc_root = ''x'', kc_name = ''b'', kc_flags = 1, kc_max_procs = 0, kc_attach = 0\<rparr>;
       J1 = snd (jail_create 0 cfg 0 jail_init);
       J2 = snd (jail_create 1 cfg 0 J1);
       J3 = snd (jail_remove 1 None (ns_init 0 (\<lambda>_. True)) J2)
   in case jail_create 2 cfg 0 J3 of
        (r, J) \<Rightarrow> r = 1 \<and> jail_is_descendant 2 1 J \<and> jail_is_descendant 1 2 J \<and>
          fst (sys_jail_attach (Some (zero_proc\<lparr>p_jail_id := 1\<rparr>)) 2 J) = 0"
  by code_simp

end
