(* ===== verification/Kill.thy ===== *)
theory Kill
  imports Signal Jail
begin

text \<open>
  Sending signals to processes, \<open>kill_permitted\<close>, \<open>sys_kill\<close> and \<open>sys_tgkill\<close> of \<open>src/kernel/syscall/sig.c\<close>: one
  process by its id in the namespace of the sender, all processes, or a process group. The process table, the
  signals, the namespaces and the jails are those of the theories \<open>Proc\<close>, \<open>Signal\<close>, \<open>Ns\<close> and \<open>Jail\<close>.
\<close>

definition kill_permitted :: "proc option \<Rightarrow> proc \<Rightarrow> bool" where
  "kill_permitted sender target =
     (case sender of
        None \<Rightarrow> True
      | Some s \<Rightarrow>
          if p_euid s = 0 then True
          else p_uid s = p_uid target \<or> p_uid s = p_euid target \<or> p_euid s = p_uid target \<or> p_euid s = p_euid target)"

text \<open>The process-id namespace of the caller, and the caller itself, in the slot \<open>self\<close>.\<close>

definition self_pid_ns :: "proc option \<Rightarrow> nsheap \<Rightarrow> nat" where
  "self_pid_ns self h =
     (case self of
        None \<Rightarrow> init_pid_ns
      | Some p \<Rightarrow>
          (case p_nsproxy p of
             None \<Rightarrow> init_pid_ns
           | Some i \<Rightarrow> (case prox h i of None \<Rightarrow> init_pid_ns | Some np \<Rightarrow> np_pid_ns np)))"

abbreviation self_of :: "nat option \<Rightarrow> kern \<Rightarrow> proc option" where
  "self_of self k \<equiv> map_option (proc_at k) self"

text \<open>One round of the loops over the table; \<open>sel\<close> is what the loop asks of the entry.\<close>

definition kill_visit ::
  "nat option \<Rightarrow> (nat \<Rightarrow> kern \<Rightarrow> bool) \<Rightarrow> int \<Rightarrow> jail_tab \<Rightarrow> nat \<Rightarrow> bool \<times> bool \<times> kern \<Rightarrow> bool \<times> bool \<times> kern" where
  "kill_visit self sel sig J i st =
     (case st of (found, permitted, k) \<Rightarrow>
        if p_state (proc_at k i) = PROC_UNUSED then st
        else if \<not> jail_can_see (self_of self k) (proc_at k i) J then st
        else if \<not> sel i k then st
        else if \<not> kill_permitted (self_of self k) (proc_at k i) then (True, permitted, k)
        else (True, True, if sig \<noteq> 0 then proc_send_signal i sig k else k))"

definition kill_all :: "nat option \<Rightarrow> (nat \<Rightarrow> kern \<Rightarrow> bool) \<Rightarrow> int \<Rightarrow> jail_tab \<Rightarrow> kern \<Rightarrow> int \<times> kern" where
  "kill_all self sel sig J k =
     (case fold (kill_visit self sel sig J) [0..<PROC_MAX] (False, False, k) of
        (found, permitted, k) \<Rightarrow>
          if \<not> found then (- ESRCH, k) else if \<not> permitted then (- EPERM, k) else (0, k))"

definition kill_one :: "nat option \<Rightarrow> u32 \<Rightarrow> int \<Rightarrow> nsheap \<Rightarrow> jail_tab \<Rightarrow> kern \<Rightarrow> int \<times> kern" where
  "kill_one self pid sig h J k =
     (let global = ns_pid_to_global (self_pid_ns (self_of self k) h) pid h in
      if global = 0 then (- ESRCH, k)
      else
        (case proc_find global k of
           (None, k) \<Rightarrow> (- ESRCH, k)
         | (Some t, k) \<Rightarrow>
             if \<not> jail_can_see (self_of self k) (proc_at k t) J then (- ESRCH, proc_unref t k)
             else if \<not> kill_permitted (self_of self k) (proc_at k t) then (- EPERM, proc_unref t k)
             else (0, proc_unref t (if sig \<noteq> 0 then proc_send_signal t sig k else k))))"

definition sys_kill :: "nat option \<Rightarrow> int \<Rightarrow> int \<Rightarrow> nsheap \<Rightarrow> jail_tab \<Rightarrow> kern \<Rightarrow> int \<times> kern" where
  "sys_kill self pid sig h J k =
     (if sig < 0 \<or> int NSIG \<le> sig then (- EINVAL, k)
      else if 0 < pid then kill_one self (word_of_int pid) sig h J k
      else if pid = - 1 then
        kill_all self (\<lambda>i k. p_pid (proc_at k i) \<noteq> 1 \<and> self \<noteq> Some i \<and>
          ns_proc_pid_in (proc_at k i) (self_pid_ns (self_of self k) h) h \<noteq> 0) sig J k
      else if pid < - 1 then
        kill_all self (\<lambda>i k. p_pgid (proc_at k i) = sint (word_of_int (- pid) :: u32)) sig J k
      else
        kill_all self (\<lambda>i k. case self of None \<Rightarrow> False | Some s \<Rightarrow> p_pgid (proc_at k i) = p_pgid (proc_at k s)) sig J k)"

definition sys_tgkill :: "nat option \<Rightarrow> int \<Rightarrow> int \<Rightarrow> int \<Rightarrow> nsheap \<Rightarrow> jail_tab \<Rightarrow> kern \<Rightarrow> int \<times> kern" where
  "sys_tgkill self tgid tid sig h J k = sys_kill self tid sig h J k"

section \<open>Who is affected\<close>

text \<open>What a signal leaves alone: the other slots, and the identity of its target.\<close>

definition same_owner :: "proc \<Rightarrow> proc \<Rightarrow> bool" where
  "same_owner p q \<longleftrightarrow> p_uid p = p_uid q \<and> p_euid p = p_euid q \<and> p_jail_id p = p_jail_id q"

lemma same_owner_refl [simp]: "same_owner p p"
  by (simp add: same_owner_def)

lemma set_ready_table [simp]: "g_proctable (proc_set_ready i k) = g_proctable k"
  by (simp add: proc_set_ready_def)

lemma send_signal_slot:
  assumes "i < length (g_proctable k)"
  shows "\<exists>q. g_proctable (proc_send_signal i sig k) = (g_proctable k)[i := q] \<and> same_owner q (proc_at k i)"
proof (cases "sig < 1 \<or> 64 \<le> sig \<or> p_state (proc_at k i) = PROC_UNUSED")
  case True
  then have "proc_send_signal i sig k = k" by (rule send_signal_invalid)
  then show ?thesis by (intro exI [of _ "proc_at k i"]) simp
next
  case False
  then have v: "1 \<le> sig" "sig < 64" "p_state (proc_at k i) \<noteq> PROC_UNUSED" by auto
  let ?p = "(proc_at k i)\<lparr>p_pending_sigs := pend_after (nat sig) (p_pending_sigs (proc_at k i))\<rparr>"
  have own: "same_owner (?p\<lparr>p_job_stopped := 0, p_state := PROC_READY\<rparr>) (proc_at k i)"
    "same_owner (?p\<lparr>p_state := PROC_READY\<rparr>) (proc_at k i)" "same_owner ?p (proc_at k i)"
    by (simp_all add: same_owner_def)
  note e = proc_send_signal_eq [OF assms v, unfolded Let_def]
  have "g_proctable (proc_send_signal i sig k) = (g_proctable k)[i := ?p\<lparr>p_job_stopped := 0, p_state := PROC_READY\<rparr>] \<or>
      g_proctable (proc_send_signal i sig k) = (g_proctable k)[i := ?p\<lparr>p_state := PROC_READY\<rparr>] \<or>
      g_proctable (proc_send_signal i sig k) = (g_proctable k)[i := ?p]"
    unfolding e if_distrib [of g_proctable] set_ready_table by simp
  with own show ?thesis by metis
qed

lemma send_signal_other: "i < length (g_proctable k) \<Longrightarrow> j \<noteq> i \<Longrightarrow> proc_at (proc_send_signal i sig k) j = proc_at k j"
  using send_signal_slot [of i k sig] by auto

lemma send_signal_owner: "i < length (g_proctable k) \<Longrightarrow> same_owner (proc_at (proc_send_signal i sig k) j) (proc_at k j)"
  using send_signal_slot [of i k sig] by (cases "j = i") auto

lemma see_owner:
  "same_owner (proc_at k' t) (proc_at k t) \<Longrightarrow> (\<And>s. self = Some s \<Longrightarrow> same_owner (proc_at k' s) (proc_at k s)) \<Longrightarrow>
   jail_can_see (self_of self k') (proc_at k' t) J = jail_can_see (self_of self k) (proc_at k t) J \<and>
   kill_permitted (self_of self k') (proc_at k' t) = kill_permitted (self_of self k) (proc_at k t)"
  by (cases self) (simp_all add: jail_can_see_def kill_permitted_def same_owner_def split: option.split)

text \<open>A process that the caller does not see or may not signal is not touched by a loop.\<close>

lemma kill_visits_frame:
  assumes "\<not> (jail_can_see (self_of self k0) (proc_at k0 t) J \<and> kill_permitted (self_of self k0) (proc_at k0 t))"
    "\<And>j. same_owner (proc_at k j) (proc_at k0 j)" "list_all (\<lambda>i. i < length (g_proctable k)) xs"
  shows "proc_at (snd (snd (fold (kill_visit self sel sig J) xs (f, p, k)))) t = proc_at k t"
  using assms(2,3)
proof (induction xs arbitrary: f p k)
  case (Cons i xs)
  obtain f' p' k' where v: "kill_visit self sel sig J i (f, p, k) = (f', p', k')"
    by (cases "kill_visit self sel sig J i (f, p, k)")
  have k': "k' = k \<or> k' = proc_send_signal i sig k \<and> jail_can_see (self_of self k) (proc_at k i) J \<and>
      kill_permitted (self_of self k) (proc_at k i)"
    using v by (auto simp: kill_visit_def split: if_splits)
  have own: "same_owner (proc_at k' j) (proc_at k0 j)" for j
    using k' Cons.prems(1) [of j] Cons.prems(2) send_signal_owner [of i k sig j] by (auto simp: same_owner_def)
  have "proc_at k' t = proc_at k t"
  proof (cases "k' = k")
    case False
    with k' have "k' = proc_send_signal i sig k" "i \<noteq> t" using assms(1) see_owner [of k t k0 self J] Cons.prems(1) by auto
    then show ?thesis using Cons.prems(2) by (simp add: send_signal_other)
  qed simp
  moreover have "length (g_proctable k') = length (g_proctable k)" using k' by auto
  ultimately show ?case using Cons.IH [OF own, of f' p'] Cons.prems(2) v by simp
qed simp

lemma kill_all_frame:
  assumes "\<not> (jail_can_see (self_of self k) (proc_at k t) J \<and> kill_permitted (self_of self k) (proc_at k t))"
    "length (g_proctable k) = PROC_MAX"
  shows "proc_at (snd (kill_all self sel sig J k)) t = proc_at k t"
  using kill_visits_frame [OF assms(1), of k "[0..<PROC_MAX]" sel sig False False] assms(2)
  by (auto simp: kill_all_def list_all_iff split: prod.split)

lemma proc_ref_table: "g_proctable (proc_ref i k) = (g_proctable k)[i := (proc_at k i)\<lparr>p_refcount := p_refcount (proc_at k i) + 1\<rparr>]"
  by (simp add: proc_ref_def)

lemma kstack_release_table [simp]: "g_proctable (kstack_release g pgs k) = g_proctable k"
proof -
  have "g_proctable (kstack_release_page va k) = g_proctable k" for va k
    by (simp add: kstack_release_page_def Let_def)
  then show ?thesis unfolding kstack_release_def by (induction pgs arbitrary: k) simp_all
qed

lemma proc_unref_other: "j \<noteq> i \<Longrightarrow> proc_at (proc_unref i k) j = proc_at k j"
  by (simp add: proc_unref_def Let_def proc_kstack_free_def proc_clear_used_def)

text \<open>Taking a reference and dropping it again.\<close>

lemma ref_unref:
  assumes "i < length (g_proctable k)" "p_refcount (proc_at k i) \<noteq> 0"
  shows "proc_at (proc_unref i (proc_ref i k)) i = proc_at k i"
  using assms by (simp add: proc_unref_def proc_ref_def Let_def)

lemma kill_one_frame:
  assumes n: "\<not> (jail_can_see (self_of self k) (proc_at k t) J \<and> kill_permitted (self_of self k) (proc_at k t))"
    and t: "p_refcount (proc_at k t) \<noteq> 0"
  shows "proc_at (snd (kill_one self pid sig h J k)) t = proc_at k t"
proof -
  let ?g = "ns_pid_to_global (self_pid_ns (self_of self k) h) pid h"
  obtain r k1 where f: "proc_find ?g k = (r, k1)" by (cases "proc_find ?g k")
  show ?thesis
  proof (cases r)
    case None
    with f have "k1 = k" by (auto simp: proc_find_def split: option.splits)
    with f None show ?thesis by (simp add: kill_one_def Let_def)
  next
    case (Some i)
    with f have k1: "k1 = proc_ref i k" "i < length (g_proctable k)"
      by (auto simp: proc_find_def split: option.splits dest: find_index_SomeD)
    have own: "same_owner (proc_at k1 j) (proc_at k j)" for j
      using k1 by (cases "j = i") (simp_all add: proc_ref_table same_owner_def)
    have same: "proc_at k1 j = proc_at k j" if "j \<noteq> i" for j using that k1 by (simp add: proc_ref_table)
    show ?thesis
    proof (cases "i = t")
      case True
      with n see_owner [OF own [of t] own] have "\<not> (jail_can_see (self_of self k1) (proc_at k1 t) J \<and>
          kill_permitted (self_of self k1) (proc_at k1 t))" by blast
      with ref_unref [OF k1(2)] t True f Some k1(1) show ?thesis by (auto simp: kill_one_def Let_def)
    next
      case False
      then have "t \<noteq> i" by simp
      moreover have "i < length (g_proctable k1)" using k1 by (simp add: proc_ref_table)
      ultimately show ?thesis using f Some same by (simp add: kill_one_def Let_def proc_unref_other send_signal_other)
    qed
  qed
qed

text \<open>
  C25: \<open>kill\<close> leaves every process alone that the caller cannot see or may not signal, in all its forms: with a
  process id, with -1, and with a process group. In particular a process in a jail with its own process ids
  affects no process of another jail, and a process without privileges none of another user.
\<close>

theorem kill_leaves_others_alone:
  assumes "\<not> (jail_can_see (self_of self k) (proc_at k t) J \<and> kill_permitted (self_of self k) (proc_at k t))"
    and "p_refcount (proc_at k t) \<noteq> 0" "length (g_proctable k) = PROC_MAX"
  shows "proc_at (snd (sys_kill self pid sig h J k)) t = proc_at k t"
  using kill_one_frame [OF assms(1,2)] kill_all_frame [OF assms(1,3)] by (simp add: sys_kill_def)

definition wit_table :: kern where
  "wit_table = boot_kern\<lparr>g_proctable := (replicate 64 zero_proc)
     [0 := zero_proc\<lparr>p_state := PROC_RUNNING, p_pid := 1, p_pgid := 1, p_refcount := 1, p_nsproxy := Some 0\<rparr>,
      1 := zero_proc\<lparr>p_state := PROC_RUNNING, p_pid := 2, p_pgid := 2, p_refcount := 1, p_nsproxy := Some 1, p_uid := 7, p_euid := 7\<rparr>,
      2 := zero_proc\<lparr>p_state := PROC_RUNNING, p_pid := 3, p_pgid := 3, p_refcount := 1, p_nsproxy := Some 0, p_uid := 7, p_euid := 7\<rparr>]\<rparr>"

theorem kill_leaves_others_alone_witness:
  "p_pending_sigs (proc_at (snd (sys_kill (Some 1) 1 9 (ns_init 0 (\<lambda>_. True)) jail_init wit_table)) 0) = 0"
proof -
  have h: "\<not> (jail_can_see (self_of (Some 1) wit_table) (proc_at wit_table 0) jail_init \<and>
      kill_permitted (self_of (Some 1) wit_table) (proc_at wit_table 0))"
    "p_refcount (proc_at wit_table 0) \<noteq> 0" "length (g_proctable wit_table) = PROC_MAX"
    "p_pending_sigs (proc_at wit_table 0) = 0" by code_simp+
  from kill_leaves_others_alone [OF h(1-3)] h(4) show ?thesis by simp
qed

text \<open>
  Finding. A process group is looked up by its number in the initial namespace and without a look at the
  namespace of the caller: a process in its own process-id namespace kills a process that has no id in that
  namespace.
\<close>

theorem kill_group_crosses_namespace:
  "let h = snd (snd (ns_child_prepare (proc_at wit_table 0) (proc_at wit_table 1\<lparr>p_nsproxy := None\<rparr>) CLONE_NEWPID False
             (ns_init 0 (\<lambda>_. True))));
       r = sys_kill (Some 1) (- 3) 9 h jail_init wit_table
   in ns_proc_pid (proc_at wit_table 1) h = 1 \<and>
      ns_proc_pid_in (proc_at wit_table 2) (self_pid_ns (Some (proc_at wit_table 1)) h) h = 0 \<and>
      fst r = 0 \<and> bit (p_pending_sigs (proc_at (snd r) 2)) 8"
  by code_simp

end
