(* ===== verification/Cred.thy ===== *)
theory Cred
  imports Jail
begin

text \<open>
  Credentials, \<open>src/kernel/syscall/cred.c\<close>: user and group ids with their translation into user namespaces,
  capabilities, supplementary groups, process ids and process groups. The calling process is an argument;
  \<^term>\<open>None\<close> stands for the kernel. The contents of \<open>/etc/passwd\<close> and \<open>/etc/group\<close> are given as strings, a user
  array that cannot be read as \<^term>\<open>None\<close>.
\<close>

section \<open>Ids and capabilities\<close>

definition cred_userns :: "proc \<Rightarrow> nsheap \<Rightarrow> user_ns option" where
  "cred_userns p h =
     (case p_nsproxy p of
        None \<Rightarrow> None
      | Some i \<Rightarrow> (case prox h i of None \<Rightarrow> None | Some np \<Rightarrow> user_of (np_user_ns np) h))"

definition cred_uid :: "proc \<Rightarrow> u32 \<Rightarrow> nsheap \<Rightarrow> u32" where
  "cred_uid p kuid h = snd (ns_uid_to_local (cred_userns p h) kuid)"

definition cred_gid :: "proc \<Rightarrow> u32 \<Rightarrow> nsheap \<Rightarrow> u32" where
  "cred_gid p kgid h = snd (ns_gid_to_local (cred_userns p h) kgid)"

definition CAP_VERSION_3 :: u32 where "CAP_VERSION_3 = 0x20080522"

record cap_data =
  cd_effective :: u32
  cd_permitted :: u32
  cd_inheritable :: u32

record cap_header =
  ch_version :: u32
  ch_pid :: int

definition cred_has_cap :: "proc option \<Rightarrow> nat \<Rightarrow> bool" where
  "cred_has_cap p cap =
     (case p of None \<Rightarrow> False | Some p \<Rightarrow> \<not> CAP_LAST_CAP < cap \<and> p_cap_effective p AND mask_bit cap \<noteq> 0)"

definition cred_drop_caps_for_uid :: "u32 \<Rightarrow> u32 \<Rightarrow> proc \<Rightarrow> proc" where
  "cred_drop_caps_for_uid old_euid new_euid p =
     (if old_euid \<noteq> 0 \<or> new_euid = 0 \<or> p_keepcaps p \<noteq> 0 then p
      else p\<lparr>p_cap_effective := 0, p_cap_permitted := 0, p_cap_ambient := 0\<rparr>)"

definition sys_getpid :: "proc option \<Rightarrow> nsheap \<Rightarrow> int" where
  "sys_getpid cur h =
     (case cur of None \<Rightarrow> 1 | Some p \<Rightarrow> let pid = ns_proc_pid p h in if pid \<noteq> 0 then uint pid else 1)"

text \<open>
  \<open>sys_capget\<close> and \<open>sys_capset\<close>: the result, the header as it is left in user memory, and what is written. A
  header or data pointer that is not accessible is \<^term>\<open>None\<close> or \<^term>\<open>False\<close>.
\<close>

definition sys_capget ::
  "proc option \<Rightarrow> cap_header option \<Rightarrow> bool \<Rightarrow> nsheap \<Rightarrow> int \<times> cap_header option \<times> (cap_data \<times> cap_data) option" where
  "sys_capget cur uheader udata_w h =
     (case uheader of
        None \<Rightarrow> (- EFAULT, uheader, None)
      | Some hdr \<Rightarrow>
          if ch_version hdr \<noteq> CAP_VERSION_3 then (- EINVAL, Some (hdr\<lparr>ch_version := CAP_VERSION_3\<rparr>), None)
          else
            (case cur of
               None \<Rightarrow> (- ESRCH, uheader, None)
             | Some p \<Rightarrow>
                 if ch_pid hdr \<noteq> 0 \<and> ch_pid hdr \<noteq> sys_getpid cur h then (- EPERM, uheader, None)
                 else if \<not> udata_w then (- EFAULT, uheader, None)
                 else (0, uheader, Some
                   (\<lparr>cd_effective = ucast (p_cap_effective p), cd_permitted = ucast (p_cap_permitted p),
                      cd_inheritable = ucast (p_cap_inheritable p)\<rparr>,
                    \<lparr>cd_effective = ucast (drop_bit 32 (p_cap_effective p)),
                      cd_permitted = ucast (drop_bit 32 (p_cap_permitted p)),
                      cd_inheritable = ucast (drop_bit 32 (p_cap_inheritable p))\<rparr>))))"

definition join_caps :: "u32 \<Rightarrow> u32 \<Rightarrow> u64" where
  "join_caps lo hi = ucast lo OR push_bit 32 (ucast hi)"

definition sys_capset ::
  "proc option \<Rightarrow> cap_header option \<Rightarrow> (cap_data \<times> cap_data) option \<Rightarrow> nsheap \<Rightarrow> int \<times> cap_header option \<times> proc option" where
  "sys_capset cur uheader udata h =
     (case (uheader, udata) of
        (Some hdr, Some (d0, d1)) \<Rightarrow>
          if ch_version hdr \<noteq> CAP_VERSION_3 then (- EINVAL, Some (hdr\<lparr>ch_version := CAP_VERSION_3\<rparr>), cur)
          else if ch_pid hdr \<noteq> 0 \<and> ch_pid hdr \<noteq> sys_getpid cur h then (- EPERM, uheader, cur)
          else
            (case cur of
               None \<Rightarrow> (- ESRCH, uheader, cur)
             | Some p \<Rightarrow>
                 let effective = join_caps (cd_effective d0) (cd_effective d1);
                     permitted = join_caps (cd_permitted d0) (cd_permitted d1);
                     inheritable = join_caps (cd_inheritable d0) (cd_inheritable d1)
                 in if effective AND NOT permitted \<noteq> 0 then (- EPERM, uheader, cur)
                    else if permitted AND NOT (p_cap_permitted p) \<noteq> 0 then (- EPERM, uheader, cur)
                    else if inheritable AND NOT (p_cap_inheritable p OR p_cap_permitted p) \<noteq> 0 then (- EPERM, uheader, cur)
                    else
                      (0, uheader, Some (p\<lparr>p_cap_effective := effective AND CAP_FULL_MASK,
                         p_cap_permitted := permitted AND CAP_FULL_MASK,
                         p_cap_inheritable := inheritable AND CAP_FULL_MASK,
                         p_cap_ambient := p_cap_ambient p AND (inheritable AND CAP_FULL_MASK) AND (permitted AND CAP_FULL_MASK)\<rparr>)))
      | _ \<Rightarrow> (- EFAULT, uheader, cur))"

definition sys_getppid :: "nat option \<Rightarrow> nsheap \<Rightarrow> kern \<Rightarrow> int \<times> kern" where
  "sys_getppid cur h k =
     (case cur of
        None \<Rightarrow> (0, k)
      | Some i \<Rightarrow>
          if p_ppid (proc_at k i) = 0 then (0, k)
          else
            (case proc_find (p_ppid (proc_at k i)) k of
               (None, k) \<Rightarrow> (0, k)
             | (Some q, k) \<Rightarrow>
                 let ns = (case p_nsproxy (proc_at k i) of
                             None \<Rightarrow> init_pid_ns
                           | Some b \<Rightarrow> (case prox h b of None \<Rightarrow> init_pid_ns | Some np \<Rightarrow> np_pid_ns np))
                 in (uint (ns_proc_pid_in (proc_at k q) ns h), proc_unref q k)))"

definition sys_getuid :: "proc option \<Rightarrow> nsheap \<Rightarrow> int" where
  "sys_getuid cur h = (case cur of None \<Rightarrow> 0 | Some p \<Rightarrow> uint (cred_uid p (p_uid p) h))"

definition sys_getgid :: "proc option \<Rightarrow> nsheap \<Rightarrow> int" where
  "sys_getgid cur h = (case cur of None \<Rightarrow> 0 | Some p \<Rightarrow> uint (cred_gid p (p_gid p) h))"

definition sys_geteuid :: "proc option \<Rightarrow> nsheap \<Rightarrow> int" where
  "sys_geteuid cur h = (case cur of None \<Rightarrow> 0 | Some p \<Rightarrow> uint (cred_uid p (p_euid p) h))"

definition sys_getegid :: "proc option \<Rightarrow> nsheap \<Rightarrow> int" where
  "sys_getegid cur h = (case cur of None \<Rightarrow> 0 | Some p \<Rightarrow> uint (cred_gid p (p_egid p) h))"

definition is_root :: "proc option \<Rightarrow> bool" where
  "is_root cur = (case cur of None \<Rightarrow> False | Some p \<Rightarrow> p_euid p = 0)"

definition host_priv :: "proc option \<Rightarrow> nsheap \<Rightarrow> jail_tab \<Rightarrow> bool" where
  "host_priv cur h J = jail_host_priv cur h J"

section \<open>Supplementary groups from the files\<close>

text \<open>\<open>atoi\<close> of \<open>src/kernel/lib/string.c\<close>, with the result taken modulo \<open>2^32\<close> as its callers do.\<close>

fun atoi_digits :: "string \<Rightarrow> u32 \<Rightarrow> u32" where
  "atoi_digits [] n = n"
| "atoi_digits (c # s) n = (if is_digit c then atoi_digits s (n * 10 + of_nat (digit_val c)) else n)"

definition atoi :: "string \<Rightarrow> u32" where
  "atoi s =
     (case dropWhile is_blank s of
        [] \<Rightarrow> 0
      | c # r \<Rightarrow>
          if c = CHR ''-'' then - atoi_digits r 0
          else if c = CHR ''+'' then atoi_digits r 0
          else atoi_digits (c # r) 0)"

text \<open>The columns of a line, and one of them as the C string that fits a buffer.\<close>

fun split_at :: "char \<Rightarrow> string \<Rightarrow> string list" where
  "split_at d [] = [[]]"
| "split_at d (c # s) = (if c = d then [] # split_at d s else (case split_at d s of [] \<Rightarrow> [[c]] | w # ws \<Rightarrow> (c # w) # ws))"

definition parse_col :: "string \<Rightarrow> nat \<Rightarrow> nat \<Rightarrow> string" where
  "parse_col line col outsz =
     (let cols = split_at (CHR '':'') line in
      if col < length cols then takeWhile (\<lambda>c. c \<noteq> CHR 0x00) (take (outsz - 1) (cols ! col)) else [])"

text \<open>The search for a name in a list of members: the name has to start an entry and be followed by its end.\<close>

function name_in_list :: "string \<Rightarrow> string \<Rightarrow> bool" where
  "name_in_list members name =
     (if members = [] then False
      else if take (length name) members = name \<and>
              (drop (length name) members = [] \<or> hd (drop (length name) members) = CHR '','') then True
      else name_in_list (tl (dropWhile (\<lambda>c. c \<noteq> CHR '','') members)) name)"
  by pat_completeness auto
termination
proof (relation "measure (\<lambda>(m, n). length m)")
  fix members name :: string
  assume "members \<noteq> []"
  then show "((tl (dropWhile (\<lambda>c. c \<noteq> CHR '','') members), name), members, name) \<in> measure (\<lambda>(m, n). length m)"
    using length_dropWhile_le [of "\<lambda>c. c \<noteq> CHR '',''" members] by (cases members) (auto simp: less_Suc_eq_le)
qed simp

declare name_in_list.simps [simp del]

text \<open>The lines of a file: an empty rest after the last newline is not a line.\<close>

function file_lines :: "string \<Rightarrow> string list" where
  "file_lines data =
     (if data = [] then []
      else takeWhile (\<lambda>c. c \<noteq> CHR 0x0A) data # file_lines (drop (Suc (length (takeWhile (\<lambda>c. c \<noteq> CHR 0x0A) data))) data))"
  by pat_completeness auto
termination
  by (relation "measure length") auto

declare file_lines.simps [simp del]

definition passwd_name :: "u32 \<Rightarrow> string option \<Rightarrow> string" where
  "passwd_name uid passwd =
     (case passwd of
        None \<Rightarrow> []
      | Some data \<Rightarrow>
          (case find (\<lambda>l. parse_col l 2 32 \<noteq> [] \<and> atoi (parse_col l 2 32) = uid) (file_lines data) of
             None \<Rightarrow> []
           | Some l \<Rightarrow> parse_col l 0 64))"

fun group_scan :: "string \<Rightarrow> string list \<Rightarrow> u32 list \<Rightarrow> u32 list" where
  "group_scan uname [] gs = gs"
| "group_scan uname (l # ls) gs =
     (if 64 \<le> length gs then gs
      else
        let ggid = parse_col l 2 32; members = parse_col l 3 512 in
        group_scan uname ls
          (if ggid \<noteq> [] \<and> members \<noteq> [] \<and> name_in_list members uname then gs @ [atoi ggid] else gs))"

definition kernel_initgroups :: "u32 \<Rightarrow> string option \<Rightarrow> string option \<Rightarrow> proc \<Rightarrow> proc" where
  "kernel_initgroups uid passwd grp p =
     (let uname = passwd_name uid passwd in
      if uname = [] then p\<lparr>p_ngroups := 1\<rparr>
      else
        let gs = (case grp of None \<Rightarrow> [p_gid p] | Some data \<Rightarrow> group_scan uname (file_lines data) [p_gid p])
        in p\<lparr>p_ngroups := int (length gs), p_sup_groups := gs @ drop (length gs) (p_sup_groups p)\<rparr>)"

section \<open>Changing ids\<close>

text \<open>What the calls depend on besides the caller: the namespaces and the two files.\<close>

record cred_env =
  ce_h :: nsheap
  ce_passwd :: "string option"
  ce_group :: "string option"

abbreviation (input) NOID :: u32 where "NOID \<equiv> 0xffffffff"

definition sys_setfsuid :: "cred_env \<Rightarrow> u32 \<Rightarrow> proc \<Rightarrow> int \<times> proc" where
  "sys_setfsuid e uid p =
     (let old = uint (p_fsuid p) in
      if uid = NOID then (old, p)
      else if ns_user_is_root p (ce_h e) \<or> uid = p_uid p \<or> uid = p_euid p \<or> uid = p_suid p then (old, p\<lparr>p_fsuid := uid\<rparr>)
      else (old, p))"

definition sys_setfsgid :: "cred_env \<Rightarrow> u32 \<Rightarrow> proc \<Rightarrow> int \<times> proc" where
  "sys_setfsgid e gid p =
     (let old = uint (p_fsgid p) in
      if gid = NOID then (old, p)
      else if ns_user_is_root p (ce_h e) \<or> gid = p_gid p \<or> gid = p_egid p \<or> gid = p_sgid p then (old, p\<lparr>p_fsgid := gid\<rparr>)
      else (old, p))"

definition sys_setuid :: "cred_env \<Rightarrow> u32 \<Rightarrow> proc \<Rightarrow> int \<times> proc" where
  "sys_setuid e uid p =
     (if ns_user_is_root p (ce_h e) then
        let q = cred_drop_caps_for_uid (p_euid p) uid (p\<lparr>p_uid := uid, p_euid := uid, p_suid := uid, p_fsuid := uid\<rparr>)
        in (0, if uid \<noteq> 0 then kernel_initgroups uid (ce_passwd e) (ce_group e) q else q)
      else if uid \<noteq> p_uid p \<and> uid \<noteq> p_suid p then (- EPERM, p)
      else (0, cred_drop_caps_for_uid (p_euid p) uid (p\<lparr>p_euid := uid, p_fsuid := uid\<rparr>)))"

definition sys_setgid :: "cred_env \<Rightarrow> u32 \<Rightarrow> proc \<Rightarrow> int \<times> proc" where
  "sys_setgid e gid p =
     (if ns_user_is_root p (ce_h e) then (0, p\<lparr>p_gid := gid, p_egid := gid, p_sgid := gid, p_fsgid := gid\<rparr>)
      else if gid \<noteq> p_gid p \<and> gid \<noteq> p_sgid p then (- EPERM, p)
      else (0, p\<lparr>p_egid := gid, p_fsgid := gid\<rparr>))"

definition sys_setreuid :: "cred_env \<Rightarrow> u32 \<Rightarrow> u32 \<Rightarrow> proc \<Rightarrow> int \<times> proc" where
  "sys_setreuid e ruid euid p =
     (if \<not> ns_user_is_root p (ce_h e) \<and> (ruid \<noteq> NOID \<and> ruid \<noteq> p_uid p \<and> ruid \<noteq> p_euid p) then (- EPERM, p)
      else if \<not> ns_user_is_root p (ce_h e) \<and>
              (euid \<noteq> NOID \<and> euid \<noteq> p_uid p \<and> euid \<noteq> p_euid p \<and> euid \<noteq> p_suid p) then (- EPERM, p)
      else
        let q = (if ruid \<noteq> NOID then p\<lparr>p_uid := ruid\<rparr> else p);
            q = (if euid \<noteq> NOID then q\<lparr>p_euid := euid, p_fsuid := euid\<rparr> else q);
            q = cred_drop_caps_for_uid (p_euid p) (p_euid q) q
        in (0, q\<lparr>p_suid := p_euid q\<rparr>))"

definition sys_setregid :: "cred_env \<Rightarrow> u32 \<Rightarrow> u32 \<Rightarrow> proc \<Rightarrow> int \<times> proc" where
  "sys_setregid e rgid egid p =
     (if \<not> ns_user_is_root p (ce_h e) \<and> (rgid \<noteq> NOID \<and> rgid \<noteq> p_gid p \<and> rgid \<noteq> p_egid p) then (- EPERM, p)
      else if \<not> ns_user_is_root p (ce_h e) \<and>
              (egid \<noteq> NOID \<and> egid \<noteq> p_gid p \<and> egid \<noteq> p_egid p \<and> egid \<noteq> p_sgid p) then (- EPERM, p)
      else
        let q = (if rgid \<noteq> NOID then p\<lparr>p_gid := rgid\<rparr> else p);
            q = (if egid \<noteq> NOID then q\<lparr>p_egid := egid, p_fsgid := egid\<rparr> else q)
        in (0, q\<lparr>p_sgid := p_egid q\<rparr>))"

text \<open>The test that \<open>sys_setresuid\<close> and \<open>sys_setresgid\<close> make of each argument.\<close>

definition res_ok :: "u32 \<Rightarrow> u32 list \<Rightarrow> bool" where
  "res_ok x cur_set \<longleftrightarrow> x = NOID \<or> x \<in> set cur_set"

definition sys_setresuid :: "cred_env \<Rightarrow> u32 \<Rightarrow> u32 \<Rightarrow> u32 \<Rightarrow> proc \<Rightarrow> int \<times> proc" where
  "sys_setresuid e ruid euid suid p =
     (let cur_set = [p_uid p, p_euid p, p_suid p] in
      if \<not> ns_user_is_root p (ce_h e) \<and> \<not> (res_ok ruid cur_set \<and> res_ok euid cur_set \<and> res_ok suid cur_set)
      then (- EPERM, p)
      else
        let q = (if ruid \<noteq> NOID then p\<lparr>p_uid := ruid\<rparr> else p);
            q = (if euid \<noteq> NOID then q\<lparr>p_euid := euid, p_fsuid := euid\<rparr> else q);
            q = cred_drop_caps_for_uid (p_euid p) (p_euid q) q
        in (0, if suid \<noteq> NOID then q\<lparr>p_suid := suid\<rparr> else q))"

definition sys_setresgid :: "cred_env \<Rightarrow> u32 \<Rightarrow> u32 \<Rightarrow> u32 \<Rightarrow> proc \<Rightarrow> int \<times> proc" where
  "sys_setresgid e rgid egid sgid p =
     (let cur_set = [p_gid p, p_egid p, p_sgid p] in
      if \<not> ns_user_is_root p (ce_h e) \<and> \<not> (res_ok rgid cur_set \<and> res_ok egid cur_set \<and> res_ok sgid cur_set)
      then (- EPERM, p)
      else
        let q = (if rgid \<noteq> NOID then p\<lparr>p_gid := rgid\<rparr> else p);
            q = (if egid \<noteq> NOID then q\<lparr>p_egid := egid, p_fsgid := egid\<rparr> else q)
        in (0, if sgid \<noteq> NOID then q\<lparr>p_sgid := sgid\<rparr> else q))"

definition sys_getresuid :: "proc option \<Rightarrow> bool \<Rightarrow> nsheap \<Rightarrow> int \<times> (u32 \<times> u32 \<times> u32) option" where
  "sys_getresuid cur writable h =
     (case cur of
        None \<Rightarrow> (- EFAULT, None)
      | Some p \<Rightarrow>
          if \<not> writable then (- EFAULT, None)
          else (0, Some (cred_uid p (p_uid p) h, cred_uid p (p_euid p) h, cred_uid p (p_suid p) h)))"

definition sys_getresgid :: "proc option \<Rightarrow> bool \<Rightarrow> nsheap \<Rightarrow> int \<times> (u32 \<times> u32 \<times> u32) option" where
  "sys_getresgid cur writable h =
     (case cur of
        None \<Rightarrow> (- EFAULT, None)
      | Some p \<Rightarrow>
          if \<not> writable then (- EFAULT, None)
          else (0, Some (cred_gid p (p_gid p) h, cred_gid p (p_egid p) h, cred_gid p (p_sgid p) h)))"

definition sys_getgroups :: "proc option \<Rightarrow> int \<Rightarrow> bool \<Rightarrow> nsheap \<Rightarrow> int \<times> u32 list" where
  "sys_getgroups cur sz writable h =
     (case cur of
        None \<Rightarrow> (0, [])
      | Some p \<Rightarrow>
          let n = p_ngroups p in
          if sz = 0 then (n, [])
          else if sz < n then (- EINVAL, [])
          else if \<not> writable then (- EFAULT, [])
          else (n, map (\<lambda>g. cred_gid p g h) (take (nat n) (p_sup_groups p))))"

definition groups_disabled :: "proc \<Rightarrow> nsheap \<Rightarrow> bool" where
  "groups_disabled p h = (case cred_userns p h of None \<Rightarrow> False | Some u \<Rightarrow> u_groups_disabled u)"

definition sys_setgroups :: "cred_env \<Rightarrow> int \<Rightarrow> u32 list option \<Rightarrow> proc \<Rightarrow> int \<times> proc" where
  "sys_setgroups e sz lst p =
     (if \<not> ns_user_is_root p (ce_h e) then (- EPERM, p)
      else if \<not> ns_user_is_initial p (ce_h e) \<and> groups_disabled p (ce_h e) then (- EPERM, p)
      else if sz < 0 then (- EINVAL, p)
      else if 64 < sz then (- EINVAL, p)
      else if sz = 0 then (0, p\<lparr>p_ngroups := 0\<rparr>)
      else
        (case lst of
           None \<Rightarrow> (- EFAULT, p)
         | Some gs \<Rightarrow>
             (0, p\<lparr>p_ngroups := sz, p_sup_groups := take (nat sz) gs @ drop (nat sz) (p_sup_groups p)\<rparr>)))"

section \<open>Process groups\<close>

definition self_ns :: "proc \<Rightarrow> nsheap \<Rightarrow> nat" where
  "self_ns p h =
     (case p_nsproxy p of
        None \<Rightarrow> init_pid_ns
      | Some b \<Rightarrow> (case prox h b of None \<Rightarrow> init_pid_ns | Some np \<Rightarrow> np_pid_ns np))"

definition pgid_local :: "nat \<Rightarrow> nat \<Rightarrow> nsheap \<Rightarrow> kern \<Rightarrow> int \<times> kern" where
  "pgid_local self i h k =
     (let ns = self_ns (proc_at k self) h in
      case proc_find (word_of_int (p_pgid (proc_at k i))) k of
        (None, k) \<Rightarrow> (uint (ns_proc_pid_in (proc_at k i) ns h), k)
      | (Some l, k) \<Rightarrow> (uint (ns_proc_pid_in (proc_at k l) ns h), proc_unref l k))"

definition sys_getpgrp :: "nat option \<Rightarrow> nsheap \<Rightarrow> kern \<Rightarrow> int \<times> kern" where
  "sys_getpgrp cur h k =
     (case cur of
        None \<Rightarrow> (1, k)
      | Some i \<Rightarrow>
          (case pgid_local i i h k of
             (pgid, k) \<Rightarrow> (if pgid \<noteq> 0 then pgid else uint (ns_proc_pid (proc_at k i) h), k)))"

definition sys_getpgid :: "nat option \<Rightarrow> u64 \<Rightarrow> nsheap \<Rightarrow> jail_tab \<Rightarrow> kern \<Rightarrow> int \<times> kern" where
  "sys_getpgid cur pid h J k =
     (case cur of
        None \<Rightarrow> (- ESRCH, k)
      | Some self \<Rightarrow>
          if pid = 0 then sys_getpgrp cur h k
          else
            let global = ns_pid_to_global (self_ns (proc_at k self) h) (ucast pid) h in
            if global = 0 then (- ESRCH, k)
            else
              (case proc_find global k of
                 (None, k) \<Rightarrow> (- ESRCH, k)
               | (Some i, k) \<Rightarrow>
                   if \<not> jail_can_see (Some (proc_at k self)) (proc_at k i) J then (- ESRCH, proc_unref i k)
                   else (case pgid_local self i h k of (pgid, k) \<Rightarrow> (pgid, proc_unref i k))))"

definition sys_setsid :: "nat option \<Rightarrow> nsheap \<Rightarrow> kern \<Rightarrow> int \<times> kern" where
  "sys_setsid cur h k =
     (case cur of
        None \<Rightarrow> (- EPERM, k)
      | Some i \<Rightarrow>
          let k = upd_proc i (\<lambda>p. p\<lparr>p_pgid := uint (p_pid p)\<rparr>) k in (uint (ns_proc_pid (proc_at k i) h), k))"

text \<open>The group that \<open>sys_setpgid\<close> is asked for; the leader found for it is released at once.\<close>

definition setpgid_group :: "nat \<Rightarrow> u64 \<Rightarrow> u32 \<Rightarrow> nsheap \<Rightarrow> kern \<Rightarrow> u32 option \<times> kern" where
  "setpgid_group ns pgid own h k =
     (if pgid = 0 then (Some own, k)
      else
        let g = ns_pid_to_global ns (ucast pgid) h in
        if g = 0 then (None, k)
        else (case proc_find g k of (None, k) \<Rightarrow> (None, k) | (Some l, k) \<Rightarrow> (Some g, proc_unref l k)))"

definition sys_setpgid :: "nat option \<Rightarrow> u64 \<Rightarrow> u64 \<Rightarrow> nsheap \<Rightarrow> jail_tab \<Rightarrow> kern \<Rightarrow> int \<times> kern" where
  "sys_setpgid cur pid pgid h J k =
     (case cur of
        None \<Rightarrow> (- ESRCH, k)
      | Some self \<Rightarrow>
          let ns = self_ns (proc_at k self) h;
              global_pid = (if pid \<noteq> 0 then ns_pid_to_global ns (ucast pid) h else p_pid (proc_at k self))
          in if global_pid = 0 then (- ESRCH, k)
             else
               (case (if pid \<noteq> 0 then proc_find global_pid k else (Some self, k)) of
                  (None, k) \<Rightarrow> (- ESRCH, k)
                | (Some i, k) \<Rightarrow>
                    let leave = (\<lambda>r k. (r, if pid \<noteq> 0 then proc_unref i k else k));
                        me = proc_at k self; p = proc_at k i
                    in if \<not> jail_can_see (Some me) p J then leave (- ESRCH) k
                       else if i \<noteq> self \<and> (p_ppid p \<noteq> p_pid me \<or> p_jail_id p \<noteq> p_jail_id me \<or>
                                 (\<not> host_priv (Some me) h J \<and> p_uid p \<noteq> p_uid me)) then leave (- EPERM) k
                       else
                         (case setpgid_group ns pgid (p_pid p) h k of
                            (None, k) \<Rightarrow> leave (- ESRCH) k
                          | (Some g, k) \<Rightarrow>
                              if of_nat PROC_MAX < g then leave (- EINVAL) k
                              else leave 0 (upd_proc i (\<lambda>p. p\<lparr>p_pgid := uint g\<rparr>) k))))"

definition sys_gettid :: "proc option \<Rightarrow> nsheap \<Rightarrow> int" where
  "sys_gettid cur h = sys_getpid cur h"


section \<open>Sequences of calls\<close>

datatype cred_op =
    Op_setuid u32 | Op_setgid u32 | Op_setreuid u32 u32 | Op_setregid u32 u32
  | Op_setresuid u32 u32 u32 | Op_setresgid u32 u32 u32 | Op_setfsuid u32 | Op_setfsgid u32
  | Op_setgroups int "u32 list option" | Op_capset cap_header cap_data cap_data

fun cred_call :: "cred_env \<Rightarrow> cred_op \<Rightarrow> proc \<Rightarrow> int \<times> proc" where
  "cred_call e (Op_setuid u) p = sys_setuid e u p"
| "cred_call e (Op_setgid g) p = sys_setgid e g p"
| "cred_call e (Op_setreuid r u) p = sys_setreuid e r u p"
| "cred_call e (Op_setregid r g) p = sys_setregid e r g p"
| "cred_call e (Op_setresuid r u s) p = sys_setresuid e r u s p"
| "cred_call e (Op_setresgid r g s) p = sys_setresgid e r g s p"
| "cred_call e (Op_setfsuid u) p = sys_setfsuid e u p"
| "cred_call e (Op_setfsgid g) p = sys_setfsgid e g p"
| "cred_call e (Op_setgroups n gs) p = sys_setgroups e n gs p"
| "cred_call e (Op_capset hdr d0 d1) p =
     (case sys_capset (Some p) (Some hdr) (Some (d0, d1)) (ce_h e) of (r, _, q) \<Rightarrow> (r, the q))"

text \<open>Inclusion of capability sets.\<close>

definition subcaps :: "u64 \<Rightarrow> u64 \<Rightarrow> bool" where
  "subcaps a b \<longleftrightarrow> a AND NOT b = 0"

lemma subcaps_bits: "subcaps a b \<longleftrightarrow> (\<forall>n. bit a n \<longrightarrow> bit b n)"
proof
  assume s: "subcaps a b"
  show "\<forall>n. bit a n \<longrightarrow> bit b n"
  proof (intro allI impI)
    fix n assume a: "bit a n"
    have "\<not> bit (a AND NOT b) n" using s by (simp add: subcaps_def)
    with a bit_imp_le_length [OF a] show "bit b n" by (simp add: bit_and_iff bit_not_iff)
  qed
next
  assume "\<forall>n. bit a n \<longrightarrow> bit b n"
  then show "subcaps a b" unfolding subcaps_def by (intro bit_eqI) (auto simp: bit_and_iff bit_not_iff)
qed

lemma subcaps_refl [simp]: "subcaps a a"
  by (simp add: subcaps_bits)

lemma subcaps_0 [simp]: "subcaps 0 a"
  by (simp add: subcaps_bits)

lemma subcaps_trans: "subcaps a b \<Longrightarrow> subcaps b c \<Longrightarrow> subcaps a c"
  by (simp add: subcaps_bits)

lemma subcaps_and: "subcaps a b \<Longrightarrow> subcaps (a AND m) (b AND m)"
  by (simp add: subcaps_bits bit_and_iff)

lemma subcaps_andI: "subcaps a b \<Longrightarrow> subcaps (a AND m) b"
  by (simp add: subcaps_bits bit_and_iff)

definition caps_ok :: "proc \<Rightarrow> bool" where
  "caps_ok p \<longleftrightarrow> subcaps (p_cap_effective p) (p_cap_permitted p)"

text \<open>Two processes with the same capabilities, or the later one with none.\<close>

definition caps_kept :: "proc \<Rightarrow> proc \<Rightarrow> bool" where
  "caps_kept p q \<longleftrightarrow>
     p_cap_effective q = p_cap_effective p \<and> p_cap_permitted q = p_cap_permitted p \<or>
     p_cap_effective q = 0 \<and> p_cap_permitted q = 0"

lemma initgroups_frame [simp]:
  "p_cap_effective (kernel_initgroups u pw gr p) = p_cap_effective p"
  "p_cap_permitted (kernel_initgroups u pw gr p) = p_cap_permitted p"
  "p_uid (kernel_initgroups u pw gr p) = p_uid p" "p_euid (kernel_initgroups u pw gr p) = p_euid p"
  "p_suid (kernel_initgroups u pw gr p) = p_suid p" "p_nsproxy (kernel_initgroups u pw gr p) = p_nsproxy p"
  "p_gid (kernel_initgroups u pw gr p) = p_gid p" "p_egid (kernel_initgroups u pw gr p) = p_egid p"
  "p_sgid (kernel_initgroups u pw gr p) = p_sgid p" "p_keepcaps (kernel_initgroups u pw gr p) = p_keepcaps p"
  by (simp_all add: kernel_initgroups_def Let_def)

lemma drop_caps_frame [simp]:
  "p_uid (cred_drop_caps_for_uid u v p) = p_uid p" "p_euid (cred_drop_caps_for_uid u v p) = p_euid p"
  "p_suid (cred_drop_caps_for_uid u v p) = p_suid p" "p_nsproxy (cred_drop_caps_for_uid u v p) = p_nsproxy p"
  "p_gid (cred_drop_caps_for_uid u v p) = p_gid p" "p_egid (cred_drop_caps_for_uid u v p) = p_egid p"
  "p_sgid (cred_drop_caps_for_uid u v p) = p_sgid p" "p_keepcaps (cred_drop_caps_for_uid u v p) = p_keepcaps p"
  by (simp_all add: cred_drop_caps_for_uid_def)

lemma drop_caps_caps [simp]:
  "p_cap_effective (cred_drop_caps_for_uid u v p) = (if u \<noteq> 0 \<or> v = 0 \<or> p_keepcaps p \<noteq> 0 then p_cap_effective p else 0)"
  "p_cap_permitted (cred_drop_caps_for_uid u v p) = (if u \<noteq> 0 \<or> v = 0 \<or> p_keepcaps p \<noteq> 0 then p_cap_permitted p else 0)"
  by (simp_all add: cred_drop_caps_for_uid_def)

lemma capset_cases:
  "sys_capset (Some p) (Some hdr) (Some (d0, d1)) h = (r, h', q) \<Longrightarrow>
   q = Some p \<or> r = 0 \<and> (\<exists>p'. q = Some p' \<and> subcaps (p_cap_effective p') (p_cap_permitted p') \<and>
     subcaps (p_cap_permitted p') (p_cap_permitted p) \<and> p_nsproxy p' = p_nsproxy p \<and>
     p_uid p' = p_uid p \<and> p_euid p' = p_euid p \<and> p_suid p' = p_suid p \<and>
     p_gid p' = p_gid p \<and> p_egid p' = p_egid p \<and> p_sgid p' = p_sgid p)"
  by (auto simp: sys_capset_def Let_def subcaps_def [symmetric] intro: subcaps_and subcaps_andI split: if_splits)

text \<open>What a call does to the capabilities.\<close>

lemma cred_call_caps:
  assumes "caps_ok p"
  shows "caps_ok (snd (cred_call e opn p)) \<and> subcaps (p_cap_permitted (snd (cred_call e opn p))) (p_cap_permitted p)"
proof -
  have kept: "caps_ok q \<and> subcaps (p_cap_permitted q) (p_cap_permitted p)" if "caps_kept p q" for q
    using that assms by (auto simp: caps_kept_def caps_ok_def)
  show ?thesis
  proof (cases opn)
    case (Op_setuid u)
    have "caps_kept p (snd (sys_setuid e u p))"
      by (cases "ns_user_is_root p (ce_h e)"; cases "u = 0")
        (simp_all add: sys_setuid_def Let_def caps_kept_def)
    with kept Op_setuid show ?thesis by simp
  next
    case (Op_setreuid r u)
    have "caps_kept p (snd (sys_setreuid e r u p))"
      by (cases "r = NOID"; cases "u = NOID") (simp_all add: sys_setreuid_def Let_def caps_kept_def)
    with kept Op_setreuid show ?thesis by simp
  next
    case (Op_setresuid r u s)
    have "caps_kept p (snd (sys_setresuid e r u s p))"
      by (cases "r = NOID"; cases "u = NOID"; cases "s = NOID") (simp_all add: sys_setresuid_def Let_def caps_kept_def)
    with kept Op_setresuid show ?thesis by simp
  next
    case (Op_capset hdr d0 d1)
    obtain r h' q where c: "sys_capset (Some p) (Some hdr) (Some (d0, d1)) (ce_h e) = (r, h', q)"
      by (cases "sys_capset (Some p) (Some hdr) (Some (d0, d1)) (ce_h e)")
    from capset_cases [OF c] show ?thesis using assms Op_capset c by (auto simp: caps_ok_def)
  next
    case (Op_setgid g)
    have "caps_kept p (snd (sys_setgid e g p))" by (simp add: sys_setgid_def caps_kept_def)
    with kept Op_setgid show ?thesis by simp
  next
    case (Op_setregid r g)
    have "caps_kept p (snd (sys_setregid e r g p))" by (simp add: sys_setregid_def caps_kept_def Let_def)
    with kept Op_setregid show ?thesis by simp
  next
    case (Op_setresgid r g s)
    have "caps_kept p (snd (sys_setresgid e r g s p))" by (simp add: sys_setresgid_def caps_kept_def Let_def)
    with kept Op_setresgid show ?thesis by simp
  next
    case (Op_setfsuid u)
    have "caps_kept p (snd (sys_setfsuid e u p))" by (simp add: sys_setfsuid_def caps_kept_def Let_def)
    with kept Op_setfsuid show ?thesis by simp
  next
    case (Op_setfsgid g)
    have "caps_kept p (snd (sys_setfsgid e g p))" by (simp add: sys_setfsgid_def caps_kept_def Let_def)
    with kept Op_setfsgid show ?thesis by simp
  next
    case (Op_setgroups n gs)
    have "caps_kept p (snd (sys_setgroups e n gs p))" by (simp add: sys_setgroups_def caps_kept_def split: option.split)
    with kept Op_setgroups show ?thesis by simp
  qed
qed

text \<open>A refused call changes nothing.\<close>

definition refused :: "proc \<Rightarrow> int \<times> proc \<Rightarrow> bool" where
  "refused p x \<longleftrightarrow> 0 \<le> fst x \<or> snd x = p"

lemma refused_simps [simp]: "refused p (r, p)" "refused p (0, q)" "refused p (uint (w :: u32), q)"
  by (simp_all add: refused_def)

lemma cred_call_refused: "refused p (cred_call e opn p)"
proof (cases opn)
  case (Op_capset hdr d0 d1)
  obtain r h' q where c: "sys_capset (Some p) (Some hdr) (Some (d0, d1)) (ce_h e) = (r, h', q)"
    by (cases "sys_capset (Some p) (Some hdr) (Some (d0, d1)) (ce_h e)")
  from capset_cases [OF c] Op_capset c show ?thesis by auto
qed (simp_all add: sys_setuid_def sys_setgid_def sys_setreuid_def sys_setregid_def sys_setresuid_def
    sys_setresgid_def sys_setfsuid_def sys_setfsgid_def sys_setgroups_def Let_def split: option.split)

lemma cred_call_error: "fst (cred_call e opn p) < 0 \<Longrightarrow> snd (cred_call e opn p) = p"
  using cred_call_refused [of p e opn] unfolding refused_def by linarith

interpretation cc: errno_op caps_ok "cred_call e" for e
  by unfold_locales (auto simp: cred_call_error cred_call_caps)


text \<open>
  The user ids of a process without privileges in the initial namespace: the calls only move them around.
\<close>

definition uids_in :: "u32 set \<Rightarrow> nat option \<Rightarrow> proc \<Rightarrow> bool" where
  "uids_in U N p \<longleftrightarrow> p_uid p \<in> U \<and> p_euid p \<in> U \<and> p_suid p \<in> U \<and> p_nsproxy p = N"

lemma initial_root: "ns_user_is_initial p h \<Longrightarrow> ns_user_is_root p h \<Longrightarrow> p_euid p = 0"
  by (auto simp: ns_user_is_initial_def ns_user_is_root_def user_of_def ns_uid_to_local_def split: option.splits)

lemma initial_cong: "p_nsproxy q = p_nsproxy p \<Longrightarrow> ns_user_is_initial q h = ns_user_is_initial p h"
  by (simp add: ns_user_is_initial_def)

lemma uids_setreuid:
  assumes "\<not> ns_user_is_root p (ce_h e)" "uids_in U N p"
  shows "uids_in U N (snd (sys_setreuid e r u p))"
proof (cases "r \<noteq> NOID \<and> r \<noteq> p_uid p \<and> r \<noteq> p_euid p \<or> u \<noteq> NOID \<and> u \<noteq> p_uid p \<and> u \<noteq> p_euid p \<and> u \<noteq> p_suid p")
  case True
  with assms show ?thesis by (auto simp: sys_setreuid_def)
next
  case False
  then have r: "r = NOID \<or> r \<in> U" and u: "u = NOID \<or> u \<in> U" using assms(2) by (auto simp: uids_in_def)
  have "sys_setreuid e r u p = (0, snd (sys_setreuid e r u p))" using False by (simp add: sys_setreuid_def Let_def)
  show ?thesis using False assms r u
    by (cases "r = NOID"; cases "u = NOID") (simp_all add: sys_setreuid_def Let_def uids_in_def)
qed

lemma uids_setresuid:
  assumes "\<not> ns_user_is_root p (ce_h e)" "uids_in U N p"
  shows "uids_in U N (snd (sys_setresuid e r u s p))"
proof (cases "res_ok r [p_uid p, p_euid p, p_suid p] \<and> res_ok u [p_uid p, p_euid p, p_suid p] \<and> res_ok s [p_uid p, p_euid p, p_suid p]")
  case False
  with assms show ?thesis by (simp add: sys_setresuid_def)
next
  case True
  then have "r = NOID \<or> r \<in> U" "u = NOID \<or> u \<in> U" "s = NOID \<or> s \<in> U" using assms(2) by (auto simp: uids_in_def res_ok_def)
  with True assms show ?thesis
    by (cases "r = NOID"; cases "u = NOID"; cases "s = NOID") (simp_all add: sys_setresuid_def Let_def uids_in_def)
qed

lemma uids_setuid:
  assumes "\<not> ns_user_is_root p (ce_h e)" "uids_in U N p"
  shows "uids_in U N (snd (sys_setuid e u p))"
  using assms by (auto simp: sys_setuid_def uids_in_def)

lemma uids_call:
  assumes nr: "\<not> ns_user_is_root p (ce_h e)" and u: "uids_in U N p"
  shows "uids_in U N (snd (cred_call e opn p))"
proof (cases opn)
  case (Op_capset hdr d0 d1)
  obtain r h' q where c: "sys_capset (Some p) (Some hdr) (Some (d0, d1)) (ce_h e) = (r, h', q)"
    by (cases "sys_capset (Some p) (Some hdr) (Some (d0, d1)) (ce_h e)")
  from capset_cases [OF c] Op_capset c u show ?thesis by (auto simp: uids_in_def)
next
  case (Op_setuid v)
  with uids_setuid [OF assms] show ?thesis by simp
next
  case (Op_setreuid r v)
  with uids_setreuid [OF assms] show ?thesis by simp
next
  case (Op_setresuid r v s)
  with uids_setresuid [OF assms] show ?thesis by simp
qed (use u in \<open>simp_all add: uids_in_def sys_setgid_def sys_setregid_def sys_setresgid_def sys_setfsuid_def
    sys_setfsgid_def sys_setgroups_def Let_def split: option.split\<close>)

text \<open>A sequence of calls, each in the same environment.\<close>

abbreviation cred_calls :: "cred_env \<Rightarrow> cred_op list \<Rightarrow> proc \<Rightarrow> proc" where
  "cred_calls e ops p \<equiv> fold (\<lambda>opn p. snd (cred_call e opn p)) ops p"

lemma uids_calls:
  assumes "0 \<notin> U" "ns_user_is_initial p (ce_h e)" "uids_in U N p"
  shows "uids_in U N (cred_calls e ops p)"
  using assms(2,3)
proof (induction ops arbitrary: p)
  case (Cons opn ops)
  have "\<not> ns_user_is_root p (ce_h e)"
    using initial_root [OF Cons.prems(1)] Cons.prems(2) assms(1) by (auto simp: uids_in_def)
  then have q: "uids_in U N (snd (cred_call e opn p))" using uids_call Cons.prems(2) by blast
  then have "ns_user_is_initial (snd (cred_call e opn p)) (ce_h e)"
    using Cons.prems initial_cong [of "snd (cred_call e opn p)" p] by (simp add: uids_in_def)
  with q Cons.IH show ?case by simp
qed simp

lemma calls_caps:
  assumes "caps_ok p"
  shows "caps_ok (cred_calls e ops p) \<and> subcaps (p_cap_permitted (cred_calls e ops p)) (p_cap_permitted p)"
  using assms
proof (induction ops arbitrary: p)
  case (Cons opn ops)
  note c = cred_call_caps [OF Cons.prems, of e opn]
  with Cons.IH [of "snd (cred_call e opn p)"] subcaps_trans show ?case by auto
qed simp

section \<open>Properties\<close>


definition wit_env :: cred_env where
  "wit_env = \<lparr>ce_h = ns_init 0 (\<lambda>_. True), ce_passwd = None, ce_group = None\<rparr>"


text \<open>
  C27: Giving up root is final. After a process with effective id 0 in the initial user namespace has called
  \<open>setuid\<close> with another id, no sequence of credential calls changes its real, effective or saved id again, and
  unless it asked to keep them it has no capabilities.
\<close>

theorem setuid_drop_permanent:
  assumes "ns_user_is_initial p (ce_h e)" "ns_user_is_root p (ce_h e)" "u \<noteq> 0"
    and q_def: "q = cred_calls e ops (snd (sys_setuid e u p))"
  shows "p_uid q = u \<and> p_euid q = u \<and> p_suid q = u \<and>
    (p_keepcaps p = 0 \<longrightarrow> p_cap_effective q = 0 \<and> p_cap_permitted q = 0)"
proof -
  let ?p = "snd (sys_setuid e u p)"
  have root: "p_euid p = 0" by (rule initial_root [OF assms(1,2)])
  have ids: "uids_in {u} (p_nsproxy p) ?p" using assms(2,3) by (simp add: sys_setuid_def Let_def uids_in_def)
  then have "ns_user_is_initial ?p (ce_h e)" using assms(1) initial_cong [of ?p p] by (simp add: uids_in_def)
  from uids_calls [OF _ this ids] assms(3) have q: "uids_in {u} (p_nsproxy p) q" unfolding q_def by simp
  have "p_cap_effective q = 0 \<and> p_cap_permitted q = 0" if "p_keepcaps p = 0"
  proof -
    have z: "p_cap_effective ?p = 0" "p_cap_permitted ?p = 0"
      using assms(2,3) that root by (simp_all add: sys_setuid_def Let_def)
    then have "caps_ok ?p" by (simp add: caps_ok_def)
    from calls_caps [OF this, of e ops] z show ?thesis unfolding q_def [symmetric] by (auto simp: caps_ok_def subcaps_def)
  qed
  with q show ?thesis by (simp add: uids_in_def)
qed

theorem setuid_drop_permanent_witness:
  "p_euid (cred_calls wit_env [Op_setuid 0, Op_setresuid 0 0 0] (snd (sys_setuid wit_env 1000 (zero_proc\<lparr>p_nsproxy := Some 0\<rparr>)))) = 1000"
proof -
  have "ns_user_is_initial (zero_proc\<lparr>p_nsproxy := Some 0\<rparr>) (ce_h wit_env)"
    "ns_user_is_root (zero_proc\<lparr>p_nsproxy := Some 0\<rparr>) (ce_h wit_env)" by code_simp+
  from setuid_drop_permanent [OF this _ refl, of 1000 "[Op_setuid 0, Op_setresuid 0 0 0]"] show ?thesis by simp
qed

text \<open>
  Finding. When the new user has no entry in \<open>/etc/passwd\<close>, \<open>setuid\<close> sets the number of supplementary groups
  to one without storing the group: the first group of the old user stays in force.
\<close>

theorem setuid_keeps_first_group:
  "let p = zero_proc\<lparr>p_nsproxy := Some 0, p_gid := 1000, p_egid := 1000, p_sup_groups := replicate 64 0, p_ngroups := 1\<rparr>;
       q = snd (sys_setuid wit_env 1000 p)
   in sys_setuid wit_env 1000 p = (0, q) \<and> p_euid q = 1000 \<and> p_gid q = 1000 \<and>
      sys_getgroups (Some q) 64 True (ce_h wit_env) = (1, [0])"
  by code_simp

end
