(* ===== verification/Chacha20.thy ===== *)
theory Chacha20
  imports Prelude
begin

text \<open>
  The ChaCha20 stream cipher and the random number generator on top of it, \<open>src/kernel/crypto/chacha20.c\<close>. The
  sixteen words of the state are a list, a byte buffer is a list of bytes. The C code interleaves the four
  quarter rounds of a column round and of a diagonal round; the lemmas show that it computes the rounds of the
  cipher's definition, that the bytes produced are the key stream of a 64 bit block counter, and that the cipher
  undoes itself.
\<close>

section \<open>Words and bytes\<close>

definition rotl32 :: "u32 \<Rightarrow> nat \<Rightarrow> u32" where
  "rotl32 x n = push_bit n x OR drop_bit (32 - n) x"

definition load32_le :: "u8 list \<Rightarrow> nat \<Rightarrow> u32" where
  "load32_le p i =
     ucast (p ! i) OR push_bit 8 (ucast (p ! (i + 1))) OR push_bit 16 (ucast (p ! (i + 2))) OR
     push_bit 24 (ucast (p ! (i + 3)))"

definition store32_le :: "u32 \<Rightarrow> u8 list" where
  "store32_le x = [ucast x, ucast (drop_bit 8 x), ucast (drop_bit 16 x), ucast (drop_bit 24 x)]"

definition store64_le :: "u64 \<Rightarrow> u8 list" where
  "store64_le x = store32_le (ucast x) @ store32_le (ucast (drop_bit 32 x))"

text \<open>Writing bytes into a buffer at an offset.\<close>

definition put_bytes :: "nat \<Rightarrow> u8 list \<Rightarrow> u8 list \<Rightarrow> u8 list" where
  "put_bytes off bs buf = take off buf @ bs @ drop (off + length bs) buf"

section \<open>The block function\<close>

definition CHACHA20_BLOCK_SIZE :: nat where "CHACHA20_BLOCK_SIZE = 64"

record chacha20_ctx =
  cc_state :: "u32 list"
  cc_keystream32 :: "u32 list"
  cc_position :: nat

text \<open>The two statements \<open>x[a] += x[b]; x[d] = rotl32(x[d] ^ x[a], n);\<close>\<close>

fun add_rot :: "nat \<times> nat \<times> nat \<times> nat \<Rightarrow> u32 list \<Rightarrow> u32 list" where
  "add_rot (a, b, d, n) x = (let x = x[a := x ! a + x ! b] in x[d := rotl32 (x ! d XOR x ! a) n])"

text \<open>The body of the loop, statement by statement: its first and its second half.\<close>

definition column_steps :: "(nat \<times> nat \<times> nat \<times> nat) list" where
  "column_steps =
     [(0, 4, 12, 16), (1, 5, 13, 16), (2, 6, 14, 16), (3, 7, 15, 16),
      (8, 12, 4, 12), (9, 13, 5, 12), (10, 14, 6, 12), (11, 15, 7, 12),
      (0, 4, 12, 8), (1, 5, 13, 8), (2, 6, 14, 8), (3, 7, 15, 8),
      (8, 12, 4, 7), (9, 13, 5, 7), (10, 14, 6, 7), (11, 15, 7, 7)]"

definition diagonal_steps :: "(nat \<times> nat \<times> nat \<times> nat) list" where
  "diagonal_steps =
     [(0, 5, 15, 16), (1, 6, 12, 16), (2, 7, 13, 16), (3, 4, 14, 16),
      (10, 15, 5, 12), (11, 12, 6, 12), (8, 13, 7, 12), (9, 14, 4, 12),
      (0, 5, 15, 8), (1, 6, 12, 8), (2, 7, 13, 8), (3, 4, 14, 8),
      (10, 15, 5, 7), (11, 12, 6, 7), (8, 13, 7, 7), (9, 14, 4, 7)]"

definition chacha20_double_round :: "u32 list \<Rightarrow> u32 list" where
  "chacha20_double_round x = fold add_rot diagonal_steps (fold add_rot column_steps x)"

definition chacha20_next_block :: "chacha20_ctx \<Rightarrow> chacha20_ctx" where
  "chacha20_next_block c =
     (let x = (chacha20_double_round ^^ 10) (cc_state c);
          ks = map2 (+) x (cc_state c);
          st = (cc_state c)[12 := cc_state c ! 12 + 1];
          st = (if st ! 12 = 0 then st[13 := st ! 13 + 1] else st)
      in c\<lparr>cc_keystream32 := ks, cc_state := st\<rparr>)"

definition chacha20_init :: "u8 list \<Rightarrow> u8 list \<Rightarrow> u32 \<Rightarrow> chacha20_ctx" where
  "chacha20_init key nonce counter =
     (let magic = [101, 120, 112, 97, 110, 100, 32, 51, 50, 45, 98, 121, 116, 101, 32, 107] in
      \<lparr>cc_state = map (\<lambda>i. load32_le magic (4 * i)) [0..<4] @ map (\<lambda>i. load32_le key (4 * i)) [0..<8] @
         [counter, load32_le nonce 0, load32_le nonce 4, load32_le nonce 8],
       cc_keystream32 = replicate 16 0, cc_position = CHACHA20_BLOCK_SIZE\<rparr>)"

section \<open>The stream\<close>

text \<open>Byte \<open>i\<close> of the words \<open>ks\<close> in memory, least significant byte first.\<close>

definition word_byte :: "u32 list \<Rightarrow> nat \<Rightarrow> u8" where
  "word_byte ks i = ucast (drop_bit (8 * (i mod 4)) (ks ! (i div 4)))"

definition chacha20_refill :: "chacha20_ctx \<Rightarrow> chacha20_ctx" where
  "chacha20_refill c =
     (if CHACHA20_BLOCK_SIZE \<le> cc_position c then (chacha20_next_block c)\<lparr>cc_position := 0\<rparr> else c)"

fun chacha20_encrypt :: "chacha20_ctx \<Rightarrow> u8 list \<Rightarrow> chacha20_ctx \<times> u8 list" where
  "chacha20_encrypt c [] = (c, [])"
| "chacha20_encrypt c (b # bs) =
     (let c = chacha20_refill c;
          out = b XOR word_byte (cc_keystream32 c) (cc_position c);
          (c, outs) = chacha20_encrypt (c\<lparr>cc_position := cc_position c + 1\<rparr>) bs
      in (c, out # outs))"

section \<open>The random number generator\<close>

record chacha20_rng =
  rng_inner :: chacha20_ctx
  rng_counter :: u64

definition chacha20_rng_reseed :: "u8 list \<Rightarrow> chacha20_rng" where
  "chacha20_rng_reseed seed = \<lparr>rng_inner = chacha20_init seed (replicate 12 0) 0, rng_counter = 0\<rparr>"

fun rng_loop :: "nat \<Rightarrow> chacha20_ctx \<Rightarrow> chacha20_ctx \<times> u8 list" where
  "rng_loop 0 c = (c, [])"
| "rng_loop (Suc n) c =
     (let c = chacha20_refill c;
          out = word_byte (cc_keystream32 c) (cc_position c);
          (c, outs) = rng_loop n (c\<lparr>cc_position := cc_position c + 1\<rparr>)
      in (c, out # outs))"

definition chacha20_rng_bytes :: "nat \<Rightarrow> chacha20_rng \<Rightarrow> chacha20_rng \<times> u8 list" where
  "chacha20_rng_bytes len rng =
     (let (c, outs) = rng_loop len (rng_inner rng)
      in (\<lparr>rng_inner = c, rng_counter = rng_counter rng + of_nat len\<rparr>, outs))"

text \<open>One round of the loop of \<open>chacha20_rng_fold\<close> at offset \<open>off\<close>, on the chunk of the data there.\<close>

definition fold_chunk :: "nat \<Rightarrow> u8 list \<Rightarrow> u8 list \<Rightarrow> u8 list" where
  "fold_chunk off chunk state =
     (let state = map2 (XOR) (take (length chunk) state) (map (\<lambda>i. chunk ! i + of_nat (off + i)) [0..<length chunk]) @
                    drop (length chunk) state;
          state = put_bytes 44 (store32_le (of_nat (off div 64))) state;
          block = snd (chacha20_encrypt (chacha20_init (take 32 state) (take 12 (drop 32 state)) 0) state)
      in map (\<lambda>i. block ! i XOR (state ! ((i + 17) mod 64) + of_nat i)) [0..<64])"

function fold_loop :: "nat \<Rightarrow> u8 list \<Rightarrow> u8 list \<Rightarrow> u8 list" where
  "fold_loop off data state =
     (if data = [] then state
      else fold_loop (off + length (take 64 data)) (drop 64 data) (fold_chunk off (take 64 data) state))"
  by pat_completeness auto
termination
  by (relation "measure (\<lambda>(off, data, state). length data)") auto

declare fold_loop.simps [simp del]

definition chacha20_rng_fold :: "u8 list \<Rightarrow> u8 list" where
  "chacha20_rng_fold data =
     (let init = map of_char ''kyronix kyronix'' @ replicate 49 0;
          state = fold_loop 0 data (put_bytes 48 (store64_le (of_nat (length data))) init)
      in map (\<lambda>i. state ! i XOR state ! (i + 32)) [0..<32])"

definition chacha20_rng_mix :: "u8 list option \<Rightarrow> chacha20_rng \<Rightarrow> chacha20_rng" where
  "chacha20_rng_mix data rng =
     (case data of
        None \<Rightarrow> rng
      | Some d \<Rightarrow>
          if d = [] then rng
          else chacha20_rng_reseed (map2 (XOR) (snd (chacha20_rng_bytes 32 rng)) (chacha20_rng_fold d)))"

section \<open>The rounds of the cipher\<close>

text \<open>The quarter round and the double round as the cipher is defined.\<close>

definition quarter_round :: "nat \<Rightarrow> nat \<Rightarrow> nat \<Rightarrow> nat \<Rightarrow> u32 list \<Rightarrow> u32 list" where
  "quarter_round a b c d x =
     (let x = x[a := x ! a + x ! b]; x = x[d := rotl32 (x ! d XOR x ! a) 16];
          x = x[c := x ! c + x ! d]; x = x[b := rotl32 (x ! b XOR x ! c) 12];
          x = x[a := x ! a + x ! b]; x = x[d := rotl32 (x ! d XOR x ! a) 8];
          x = x[c := x ! c + x ! d]; x = x[b := rotl32 (x ! b XOR x ! c) 7]
      in x)"

definition inner_block :: "u32 list \<Rightarrow> u32 list" where
  "inner_block x =
     (let x = quarter_round 0 4 8 12 x; x = quarter_round 1 5 9 13 x;
          x = quarter_round 2 6 10 14 x; x = quarter_round 3 7 11 15 x;
          x = quarter_round 0 5 10 15 x; x = quarter_round 1 6 11 12 x;
          x = quarter_round 2 7 8 13 x; x = quarter_round 3 4 9 14 x
      in x)"

definition chacha_block :: "u32 list \<Rightarrow> u32 list" where
  "chacha_block st = map2 (+) ((inner_block ^^ 10) st) st"

lemma length_16:
  assumes "length x = 16"
  obtains x0 x1 x2 x3 x4 x5 x6 x7 x8 x9 x10 x11 x12 x13 x14 x15 where
    "x = [x0, x1, x2, x3, x4, x5, x6, x7, x8, x9, x10, x11, x12, x13, x14, x15]"
  using assms by (auto simp: numeral_eq_Suc length_Suc_conv)

text \<open>The four quarter rounds of a column or diagonal round, interleaved as in the code.\<close>

lemma length_add_rot [simp]: "length (add_rot s x) = length x"
  by (cases s) (simp add: Let_def)

lemma length_fold_add_rot [simp]: "length (fold add_rot ss x) = length x"
  by (induction ss arbitrary: x) simp_all

lemma length_quarter_round [simp]: "length (quarter_round a b c d x) = length x"
  by (simp add: quarter_round_def Let_def)

lemma column_round:
  assumes "length x = 16"
  shows "fold add_rot column_steps x =
     quarter_round 3 7 11 15 (quarter_round 2 6 10 14 (quarter_round 1 5 9 13 (quarter_round 0 4 8 12 x)))"
  using assms by (elim length_16) (simp add: column_steps_def quarter_round_def Let_def)

lemma diagonal_round:
  assumes "length x = 16"
  shows "fold add_rot diagonal_steps x =
     quarter_round 3 4 9 14 (quarter_round 2 7 8 13 (quarter_round 1 6 11 12 (quarter_round 0 5 10 15 x)))"
  using assms by (elim length_16) (simp add: diagonal_steps_def quarter_round_def Let_def)

lemma double_round_eq:
  assumes "length x = 16"
  shows "chacha20_double_round x = inner_block x"
  unfolding chacha20_double_round_def column_round [OF assms] inner_block_def Let_def
  by (rule diagonal_round) (simp add: assms)

lemma length_inner_block [simp]: "length (inner_block x) = length x"
  by (simp add: inner_block_def Let_def)

lemma length_inner_blocks [simp]: "length ((inner_block ^^ n) x) = length x"
  by (induction n) simp_all

lemma double_rounds_eq:
  "length x = 16 \<Longrightarrow> (chacha20_double_round ^^ n) x = (inner_block ^^ n) x"
  by (induction n) (simp_all add: double_round_eq)

lemma length_chacha_block [simp]: "length (chacha_block st) = length st"
  by (simp add: chacha_block_def)

section \<open>The key stream\<close>

text \<open>The 64 bit block counter in the words 12 and 13, and the state at a counter.\<close>

definition counter64 :: "u32 list \<Rightarrow> u64" where
  "counter64 st = ucast (st ! 12) OR push_bit 32 (ucast (st ! 13))"

definition at_counter :: "u32 list \<Rightarrow> u64 \<Rightarrow> u32 list" where
  "at_counter st c = st[12 := ucast c, 13 := ucast (drop_bit 32 c)]"

definition keystream :: "u32 list \<Rightarrow> nat \<Rightarrow> u8" where
  "keystream st i = word_byte (chacha_block (at_counter st (counter64 st + of_nat (i div 64)))) (i mod 64)"

lemma length_at_counter [simp]: "length (at_counter st c) = length st"
  by (simp add: at_counter_def)

lemma counter64_low: "ucast (counter64 st) = st ! 12"
  by (rule bit_eqI) (auto simp: counter64_def bit_simps)

lemma counter64_high: "ucast (drop_bit 32 (counter64 st)) = st ! 13"
  by (rule bit_eqI) (auto simp: counter64_def bit_simps dest: bit_imp_le_length)

lemma at_counter64: "at_counter st (counter64 st) = st"
  by (simp add: at_counter_def counter64_low counter64_high)

lemma at_at_counter: "at_counter (at_counter st c) d = at_counter st d"
  by (simp add: at_counter_def list_update_swap)

lemma counter64_unat: "unat (counter64 st) = unat (st ! 12) + 2 ^ 32 * unat (st ! 13)"
proof -
  have "ucast (st ! 12) AND push_bit 32 (ucast (st ! 13)) = (0 :: u64)"
    by (rule bit_eqI) (auto simp: bit_simps dest: bit_imp_le_length)
  then have "counter64 st = ucast (st ! 12) + push_bit 32 (ucast (st ! 13))"
    by (simp add: counter64_def disjunctive_add_eq_or)
  also have "\<dots> = of_nat (unat (st ! 12) + 2 ^ 32 * unat (st ! 13))"
    by (simp add: push_bit_eq_mult Word.of_nat_unat mult.commute)
  finally have "counter64 st = of_nat (unat (st ! 12) + 2 ^ 32 * unat (st ! 13))" .
  moreover have "unat (st ! 12) + 2 ^ 32 * unat (st ! 13) < 2 ^ 64"
    using unat_bound [of "st ! 12"] unat_bound [of "st ! 13"] by simp
  ultimately show ?thesis by (simp only: unsigned_of_nat) (simp add: take_bit_nat_eq_self)
qed

lemma ucast_eqI:
  fixes x :: "'a :: len word" and y :: "'b :: len word"
  assumes "unat x = unat y"
  shows "ucast x = y"
proof -
  have "ucast x = (of_nat (unat x) :: 'b word)" by (rule Word.of_nat_unat [symmetric])
  also have "\<dots> = of_nat (unat y)" by (simp only: assms)
  also have "\<dots> = y" by (rule Prelude.of_nat_unat)
  finally show ?thesis .
qed

lemma counter_step:
  fixes a b :: nat
  assumes "a < 2 ^ 32" "b < 2 ^ 32"
  shows "(a + 2 ^ 32 * b + 1) mod 2 ^ 64 mod 2 ^ 32 = (a + 1) mod 2 ^ 32"
    and "(a + 2 ^ 32 * b + 1) mod 2 ^ 64 div 2 ^ 32 = (if a + 1 = 2 ^ 32 then (b + 1) mod 2 ^ 32 else b)"
proof -
  show "(a + 2 ^ 32 * b + 1) mod 2 ^ 64 mod 2 ^ 32 = (a + 1) mod 2 ^ 32"
    by (simp add: mod_mod_cancel mod_add_left_eq [symmetric])
  show "(a + 2 ^ 32 * b + 1) mod 2 ^ 64 div 2 ^ 32 = (if a + 1 = 2 ^ 32 then (b + 1) mod 2 ^ 32 else b)"
  proof (cases "a + 1 = 2 ^ 32")
    case True
    then have "a + 2 ^ 32 * b + 1 = 2 ^ 32 * (b + 1)" by simp
    also have "\<dots> mod 2 ^ 64 = 2 ^ 32 * ((b + 1) mod 2 ^ 32)"
      using mult_mod_right [of "2 ^ 32" "b + 1" "2 ^ 32 :: nat"] by simp
    finally show ?thesis using True by simp
  next
    case False
    with assms have "a + 1 < 2 ^ 32" by simp
    moreover from this assms(2) have "a + 2 ^ 32 * b + 1 < 2 ^ 64" by simp
    ultimately show ?thesis by simp
  qed
qed

lemma next_state:
  assumes "length (cc_state c) = 16"
  shows "cc_state (chacha20_next_block c) = at_counter (cc_state c) (counter64 (cc_state c) + 1)"
proof -
  define st where "st = cc_state c"
  have lt: "unat (st ! 12) < 2 ^ 32" "unat (st ! 13) < 2 ^ 32"
    using unat_bound [of "st ! 12"] unat_bound [of "st ! 13"] by simp_all
  note step = counter_step [OF lt, folded counter64_unat]
  have succ: "unat (counter64 st + 1) = (unat (counter64 st) + 1) mod 2 ^ 64"
    by (simp add: unat_word_ariths)
  have "unat (ucast (counter64 st + 1) :: u32) = unat (st ! 12 + 1)"
    using step(1) by (simp add: unsigned_ucast_eq take_bit_eq_mod succ unat_word_ariths)
  then have low: "ucast (counter64 st + 1) = st ! 12 + 1" by (simp only: word_unat_eq_iff)
  have zero: "st ! 12 + 1 = 0 \<longleftrightarrow> unat (st ! 12) + 1 = 2 ^ 32"
    using lt(1) by (cases "unat (st ! 12) + 1 = 2 ^ 32") (simp_all add: word_unat_eq_iff unat_word_ariths)
  have "unat (drop_bit 32 (counter64 st + 1)) = unat (if st ! 12 + 1 = 0 then st ! 13 + 1 else st ! 13)"
    using step(2) by (simp add: drop_bit_eq_div unat_div succ zero unat_word_ariths)
  then have high: "ucast (drop_bit 32 (counter64 st + 1)) = (if st ! 12 + 1 = 0 then st ! 13 + 1 else st ! 13)"
    by (rule ucast_eqI)
  show ?thesis
    using assms unfolding st_def [symmetric]
    by (simp add: chacha20_next_block_def at_counter_def low high st_def [symmetric] Let_def
      list_update_swap [of 12 13])
qed

text \<open>
  The context after \<open>n\<close> bytes of the stream that starts in the state \<open>st\<close>: \<open>m\<close> blocks have been made, and the
  bytes from the position on are those of the last one.
\<close>

definition at_byte :: "u32 list \<Rightarrow> nat \<Rightarrow> chacha20_ctx \<Rightarrow> bool" where
  "at_byte st n c \<longleftrightarrow>
     (\<exists>m. n + 64 = 64 * m + cc_position c \<and> cc_position c \<le> 64 \<and>
        cc_state c = at_counter st (counter64 st + of_nat m) \<and>
        (cc_position c < 64 \<longrightarrow> cc_keystream32 c = chacha_block (at_counter st (counter64 st + of_nat (m - 1)))))"

lemma counter64_at_counter:
  assumes "length st = 16"
  shows "counter64 (at_counter st c) = c"
  using assms by (intro bit_eqI) (auto simp: counter64_def at_counter_def bit_simps not_less dest: bit_imp_le_length)

lemma at_byte_refill:
  assumes st: "length st = 16" and at: "at_byte st n c"
  shows "word_byte (cc_keystream32 (chacha20_refill c)) (cc_position (chacha20_refill c)) = keystream st n"
    and "at_byte st (Suc n) ((chacha20_refill c)\<lparr>cc_position := cc_position (chacha20_refill c) + 1\<rparr>)"
proof -
  from at obtain m where m: "n + 64 = 64 * m + cc_position c" "cc_position c \<le> 64"
    "cc_state c = at_counter st (counter64 st + of_nat m)"
    "cc_position c < 64 \<Longrightarrow> cc_keystream32 c = chacha_block (at_counter st (counter64 st + of_nat (m - 1)))"
    by (auto simp: at_byte_def)
  have len: "length (cc_state c) = 16" by (simp add: m(3) st)
  have "word_byte (cc_keystream32 (chacha20_refill c)) (cc_position (chacha20_refill c)) = keystream st n \<and>
    at_byte st (Suc n) ((chacha20_refill c)\<lparr>cc_position := cc_position (chacha20_refill c) + 1\<rparr>)"
  proof (cases "cc_position c < 64")
    case True
    with m(1) obtain k where k: "m = Suc k" by (cases m) auto
    with m(1) have n: "n = 64 * k + cc_position c" by simp
    from True have same: "chacha20_refill c = c" by (simp add: chacha20_refill_def CHACHA20_BLOCK_SIZE_def)
    have "n div 64 = k" "n mod 64 = cc_position c" using True by (simp_all add: n)
    with True k m(4) have "word_byte (cc_keystream32 c) (cc_position c) = keystream st n"
      by (simp add: keystream_def)
    moreover have "at_byte st (Suc n) (c\<lparr>cc_position := cc_position c + 1\<rparr>)"
      unfolding at_byte_def using True k m by (intro exI [of _ m]) simp
    ultimately show ?thesis by (simp add: same)
  next
    case False
    with m have pos: "cc_position c = 64" and n: "n = 64 * m" by simp_all
    have new: "chacha20_refill c = (chacha20_next_block c)\<lparr>cc_position := 0\<rparr>"
      by (simp add: chacha20_refill_def CHACHA20_BLOCK_SIZE_def pos)
    have ks: "cc_keystream32 (chacha20_next_block c) = chacha_block (cc_state c)"
      using len by (simp add: chacha20_next_block_def chacha_block_def double_rounds_eq Let_def)
    have state: "cc_state (chacha20_next_block c) = at_counter st (counter64 st + of_nat (Suc m))"
      by (simp add: next_state [OF len]) (simp add: m(3) st counter64_at_counter at_at_counter add.assoc add.commute [of 1])
    show ?thesis
      unfolding at_byte_def new
      by (simp add: ks m(3) keystream_def n, intro exI [of _ "Suc m"]) (simp add: n state ks m(3))
  qed
  then show "word_byte (cc_keystream32 (chacha20_refill c)) (cc_position (chacha20_refill c)) = keystream st n"
    "at_byte st (Suc n) ((chacha20_refill c)\<lparr>cc_position := cc_position (chacha20_refill c) + 1\<rparr>)" by auto
qed

lemma encrypt_stream:
  assumes "length st = 16" "at_byte st n c"
  shows "snd (chacha20_encrypt c data) = map (\<lambda>i. data ! i XOR keystream st (n + i)) [0..<length data]"
  using assms(2)
proof (induction data arbitrary: n c)
  case (Cons b bs)
  note refill = at_byte_refill [OF assms(1) Cons.prems]
  note tail = Cons.IH [OF refill(2)]
  have "[0..<length (b # bs)] = 0 # map Suc [0..<length bs]" by (simp add: map_Suc_upt upt_conv_Cons del: upt_Suc)
  then show ?case
    using tail refill(1) by (simp add: Let_def split_beta comp_def del: upt_Suc)
qed simp

lemma init_at_byte:
  "length (cc_state (chacha20_init key nonce ctr)) = 16"
  "at_byte (cc_state (chacha20_init key nonce ctr)) 0 (chacha20_init key nonce ctr)"
proof -
  show "length (cc_state (chacha20_init key nonce ctr)) = 16" by (simp add: chacha20_init_def)
  show "at_byte (cc_state (chacha20_init key nonce ctr)) 0 (chacha20_init key nonce ctr)"
    unfolding at_byte_def
    by (intro exI [of _ 0]) (simp add: at_counter64, simp add: chacha20_init_def CHACHA20_BLOCK_SIZE_def)
qed

section \<open>Encryption undoes itself\<close>

lemma encrypt_context: "length d = length e \<Longrightarrow> fst (chacha20_encrypt c d) = fst (chacha20_encrypt c e)"
proof (induction d arbitrary: c e)
  case (Cons b bs)
  then obtain x xs where e: "e = x # xs" "length bs = length xs" by (cases e) auto
  show ?case using Cons.IH [OF e(2)] by (simp add: e(1) Let_def split_beta)
qed simp

lemma length_encrypt [simp]: "length (snd (chacha20_encrypt c d)) = length d"
  by (induction d arbitrary: c) (simp_all add: Let_def split_beta)

lemma encrypt_twice: "snd (chacha20_encrypt c (snd (chacha20_encrypt c d))) = d"
  by (induction d arbitrary: c) (simp_all add: Let_def split_beta xor.assoc)

lemma encrypt_append:
  "chacha20_encrypt c (d @ e) =
     (let (c, x) = chacha20_encrypt c d; (c, y) = chacha20_encrypt c e in (c, x @ y))"
  by (induction d arbitrary: c) (simp_all add: Let_def split_beta)

lemma rng_loop_encrypt: "rng_loop n c = chacha20_encrypt c (replicate n 0)"
  by (induction n arbitrary: c) (simp_all add: Let_def)

text \<open>
  C35: The cipher is exact. Encrypting any data with any key, nonce and initial counter combines byte \<open>i\<close> with byte
  \<open>i mod 64\<close> of the block that the definition of the cipher gives for the counter advanced by \<open>i div 64\<close>, the
  counter being 64 bits wide; and encrypting the result again from the same start gives the data back.
\<close>

theorem chacha20_exact:
  "let c = chacha20_init key nonce counter; st = cc_state c; out = snd (chacha20_encrypt c data)
   in out = map (\<lambda>i. data ! i XOR
                word_byte (chacha_block (at_counter st (counter64 st + of_nat (i div 64)))) (i mod 64)) [0..<length data] \<and>
      snd (chacha20_encrypt c out) = data"
  using encrypt_stream [OF init_at_byte, of key nonce counter data]
  by (simp add: Let_def encrypt_twice keystream_def)

text \<open>
  The random number generator hands out the key stream of its seed in order, however the requests are cut.
\<close>

lemma rng_bytes_split:
  "chacha20_rng_bytes (m + n) rng =
     (let (rng, x) = chacha20_rng_bytes m rng; (rng, y) = chacha20_rng_bytes n rng in (rng, x @ y))"
  by (simp add: chacha20_rng_bytes_def rng_loop_encrypt replicate_add encrypt_append Let_def split_beta)

lemma rng_stream:
  "snd (chacha20_rng_bytes n (chacha20_rng_reseed seed)) =
     map (keystream (cc_state (chacha20_init seed (replicate 12 0) 0))) [0..<n]"
  using encrypt_stream [OF init_at_byte, of seed "replicate 12 0" 0 "replicate n 0"]
  by (simp add: chacha20_rng_bytes_def chacha20_rng_reseed_def rng_loop_encrypt split_beta)

end
