(* ===== verification/Bitfield.thy ===== *)
theory Bitfield
  imports Prelude
begin

text \<open>
  The bit fields of the physical frame allocator, \<open>src/kernel/mm/bitfield.c\<close>: 512 bits in eight rows of 64, one
  bit per frame, set when the frame is taken. The atomic compare-and-swap loops run to completion in one step, so
  a row update is a function on the row. The kernel is built with assertions off; a failed undo is silent.

  The lemmas show that the word tricks of \<open>first_zeros_aligned\<close> find the first aligned free block of a row, and
  that claiming and toggling a block of bits change exactly the bits of the block.
\<close>

section \<open>Data\<close>

definition LLFREE_ATOMIC_SIZE :: nat where "LLFREE_ATOMIC_SIZE = 64"
definition LLFREE_CHILD_ORDER :: nat where "LLFREE_CHILD_ORDER = 9"
definition LLFREE_CHILD_SIZE :: nat where "LLFREE_CHILD_SIZE = 512"
definition FIELD_N :: nat where "FIELD_N = LLFREE_CHILD_SIZE div LLFREE_ATOMIC_SIZE"

type_synonym bitfield = "u64 list"

lemmas field_consts = LLFREE_ATOMIC_SIZE_def LLFREE_CHILD_ORDER_def LLFREE_CHILD_SIZE_def FIELD_N_def

text \<open>The row and the bit of an index.\<close>

definition get_pos :: "nat \<Rightarrow> nat \<times> nat" where
  "get_pos index =
     (let index = index mod LLFREE_CHILD_SIZE in (index div LLFREE_ATOMIC_SIZE, index mod LLFREE_ATOMIC_SIZE))"

definition field_init :: bitfield where
  "field_init = replicate FIELD_N 0"

text \<open>The indices that \<open>for_offsetted(start, len, i)\<close> visits, in order.\<close>

definition for_offsetted :: "nat \<Rightarrow> nat \<Rightarrow> nat list" where
  "for_offsetted start len = map (\<lambda>i. (start - start mod len) + (i + start mod len) mod len) [0..<len]"

definition trailing_zeros :: "u64 \<Rightarrow> nat" where
  "trailing_zeros v = (if v = 0 then 64 else ctzll v)"

definition count_ones :: "u64 \<Rightarrow> nat" where
  "count_ones v = length (filter (bit v) [0..<64])"

section \<open>Claiming a free block of a row\<close>

text \<open>
  \<open>first_zeros_aligned\<close>: the position and the updated row. The subtractions borrow into the top bit of a group
  exactly when the group is zero, up to the first group that is.
\<close>

definition zeros_pos :: "nat \<Rightarrow> u64 \<Rightarrow> nat" where
  "zeros_pos order v =
     (if order = 0 then trailing_zeros (NOT v)
      else if order = 1 then trailing_zeros (NOT ((v OR drop_bit 1 v) OR 0xaaaaaaaaaaaaaaaa))
      else if order = 2 then trailing_zeros (drop_bit 3 ((v - 0x1111111111111111) AND NOT v) AND 0x1111111111111111)
      else if order = 3 then trailing_zeros (drop_bit 7 ((v - 0x0101010101010101) AND NOT v) AND 0x0101010101010101)
      else if order = 4 then trailing_zeros (drop_bit 15 ((v - 0x0001000100010001) AND NOT v) AND 0x0001000100010001)
      else if order = 5 then (if (ucast v :: u32) = 0 then 0 else if drop_bit 32 v = 0 then 32 else 64)
      else if order = 6 then (if v = 0 then 0 else 64)
      else 64)"

definition first_zeros_aligned :: "nat \<Rightarrow> u64 \<Rightarrow> (nat \<times> u64) option" where
  "first_zeros_aligned order v =
     (let p = zeros_pos order v in
      if p < 64 then Some (p, v OR push_bit p (mask (2 ^ order))) else None)"

section \<open>Operations on a field\<close>

text \<open>The search through the rows for a block of at most 64 bits.\<close>

fun set_next_row :: "nat \<Rightarrow> nat list \<Rightarrow> bitfield \<Rightarrow> nat option \<times> bitfield" where
  "set_next_row order [] rows = (None, rows)"
| "set_next_row order (i # is) rows =
     (case first_zeros_aligned order (rows ! i) of
        Some (pos, v) \<Rightarrow> (Some (i * LLFREE_ATOMIC_SIZE + pos), rows[i := v])
      | None \<Rightarrow> set_next_row order is rows)"

text \<open>
  Claiming the rows \<open>base\<close> to \<open>base + entries - 1\<close>, from row \<open>i\<close> of them on; when one is not empty the rows
  before it are given back.
\<close>

function claim_rows :: "nat \<Rightarrow> nat \<Rightarrow> nat \<Rightarrow> bitfield \<Rightarrow> bool \<times> bitfield" where
  "claim_rows base entries i rows =
     (if i < entries then
        if rows ! (base + i) = 0 then claim_rows base entries (Suc i) (rows[base + i := -1])
        else (False, fold (\<lambda>j rows. if rows ! (base + j) = -1 then rows[base + j := 0] else rows) [0..<i] rows)
      else (True, rows))"
  by pat_completeness auto
termination
  by (relation "measure (\<lambda>(base, entries, i, rows). entries - i)") auto

declare claim_rows.simps [simp del]

fun set_next_rows :: "nat \<Rightarrow> nat list \<Rightarrow> bitfield \<Rightarrow> nat option \<times> bitfield" where
  "set_next_rows entries [] rows = (None, rows)"
| "set_next_rows entries (i # is) rows =
     (let (ok, rows) = claim_rows (i * entries) entries 0 rows in
      if ok then (Some (i * entries * LLFREE_ATOMIC_SIZE), rows) else set_next_rows entries is rows)"

definition field_set_next :: "nat \<Rightarrow> nat \<Rightarrow> bitfield \<Rightarrow> nat option \<times> bitfield" where
  "field_set_next start_frame order rows =
     (let num_frames = 2 ^ order; row = (start_frame div LLFREE_ATOMIC_SIZE) mod FIELD_N in
      if num_frames \<le> LLFREE_ATOMIC_SIZE then set_next_row order (for_offsetted row FIELD_N) rows
      else
        let entries = num_frames div LLFREE_ATOMIC_SIZE
        in set_next_rows entries (for_offsetted (row div entries) (FIELD_N div entries)) rows)"

definition row_toggle :: "u64 \<Rightarrow> bool \<Rightarrow> u64 \<Rightarrow> u64 option" where
  "row_toggle m expected v =
     (if expected then if v AND m = m then Some (v AND NOT m) else None
      else if v AND m = 0 then Some (v OR m) else None)"

text \<open>
  The undo loop of \<open>field_toggle\<close>. The compare-and-swap expects \<open>m\<close>, which a failed one overwrites with what it
  finds, and stores the complement of \<open>m\<close>.
\<close>

fun toggle_undo :: "nat \<Rightarrow> nat \<Rightarrow> nat list \<Rightarrow> u64 \<Rightarrow> bitfield \<Rightarrow> bitfield" where
  "toggle_undo row i [] m rows = rows"
| "toggle_undo row i (j # js) m rows =
     (let k = row + i - j - 1 in
      if rows ! k = m then toggle_undo row i js m (rows[k := NOT m]) else toggle_undo row i js (rows ! k) rows)"

function toggle_rows :: "nat \<Rightarrow> nat \<Rightarrow> u64 \<Rightarrow> nat \<Rightarrow> bitfield \<Rightarrow> bool \<times> bitfield" where
  "toggle_rows row n m i rows =
     (if i < n then
        if rows ! (row + i) = m then toggle_rows row n m (Suc i) (rows[row + i := NOT m])
        else (False, toggle_undo row i [0..<i] m rows)
      else (True, rows))"
  by pat_completeness auto
termination
  by (relation "measure (\<lambda>(row, n, m, i, rows). n - i)") auto

declare toggle_rows.simps [simp del]

definition field_toggle :: "nat \<Rightarrow> nat \<Rightarrow> bool \<Rightarrow> bitfield \<Rightarrow> bool \<times> bitfield" where
  "field_toggle index order expected rows =
     (let (row, b) = get_pos index; num_frames = 2 ^ order in
      if LLFREE_ATOMIC_SIZE < num_frames
      then toggle_rows row (num_frames div LLFREE_ATOMIC_SIZE) (if expected then -1 else 0) 0 rows
      else
        let m = push_bit b (drop_bit (LLFREE_ATOMIC_SIZE - num_frames) (-1)) in
        case row_toggle m expected (rows ! row) of
          Some v \<Rightarrow> (True, rows[row := v])
        | None \<Rightarrow> (False, rows))"

definition field_count_ones :: "bitfield \<Rightarrow> nat" where
  "field_count_ones rows = sum_list (map count_ones rows)"

definition field_is_free :: "nat \<Rightarrow> bitfield \<Rightarrow> bool" where
  "field_is_free index rows = (let (row, b) = get_pos index in rows ! row AND push_bit b 1 = 0)"

section \<open>The search for a zero group\<close>

text \<open>Groups of \<open>w\<close> bits: the lowest bit of each of \<open>k\<close> groups, and whether group \<open>j\<close> of a number is zero.\<close>

fun ones :: "nat \<Rightarrow> nat \<Rightarrow> int" where
  "ones w 0 = 0"
| "ones w (Suc k) = 1 + 2 ^ w * ones w k"

definition grp_zero :: "nat \<Rightarrow> int \<Rightarrow> nat \<Rightarrow> bool" where
  "grp_zero w v j \<longleftrightarrow> (v div 2 ^ (w * j)) mod 2 ^ w = 0"

lemma grp_zero_Suc: "grp_zero w v (Suc j) \<longleftrightarrow> grp_zero w (v div 2 ^ w) j"
  by (simp add: grp_zero_def power_add zdiv_zmult2_eq mult.commute)

lemma bit_div_exp: "bit (v :: int) (w + n) \<longleftrightarrow> bit (v div 2 ^ w) n"
  by (simp add: bit_iff_odd zdiv_zmult2_eq power_add)

lemma top_bit:
  fixes g :: int
  assumes "0 < w" "0 \<le> g" "g < 2 ^ w"
  shows "bit g (w - 1) \<longleftrightarrow> 2 ^ (w - 1) \<le> g"
proof -
  define n where "n = w - 1"
  with assms have w: "w = Suc n" by simp
  have "odd (g div 2 ^ n) \<longleftrightarrow> 2 ^ n \<le> g"
  proof (cases "2 ^ n \<le> g")
    case True
    with assms have "g div 2 ^ n = 1"
      by (intro int_div_pos_eq [where r = "g - 2 ^ n"]) (simp_all add: w)
    with True show ?thesis by simp
  next
    case False
    with assms have "g div 2 ^ n = 0" by (simp add: div_pos_pos_trivial)
    with False show ?thesis by simp
  qed
  then show ?thesis by (simp add: bit_iff_odd n_def)
qed

lemma bit_low_group: "0 < w \<Longrightarrow> bit (v :: int) (w - 1) \<longleftrightarrow> bit (v mod 2 ^ w) (w - 1)"
  using bit_take_bit_iff [of w v "w - 1"] by (simp add: take_bit_eq_mod)

text \<open>
  Subtracting one from every group sets the top bit of a group whose top bit was clear exactly when the group is
  zero, as long as no group below is.
\<close>

lemma borrow_marks_zero_group:
  assumes "0 < w" "j < k" "\<And>i. i < j \<Longrightarrow> \<not> grp_zero w v i"
  shows "bit (v - ones w k) (w * j + (w - 1)) \<and> \<not> bit v (w * j + (w - 1)) \<longleftrightarrow> grp_zero w v j"
  using assms
proof (induction j arbitrary: v k)
  case 0
  then obtain k' where k: "k = Suc k'" by (cases k) auto
  define g where "g = v mod 2 ^ w"
  have g: "0 \<le> g" "g < 2 ^ w" by (simp_all add: g_def)
  have "(v - ones w k) mod 2 ^ w = (v - 1) mod 2 ^ w"
    using mod_mult_self2 [of "v - 1" "2 ^ w" "- ones w k'"] by (simp add: k algebra_simps)
  also have "\<dots> = (g - 1) mod 2 ^ w" by (simp add: g_def mod_diff_left_eq)
  finally have low: "bit (v - ones w k) (w - 1) \<longleftrightarrow> bit ((g - 1) mod 2 ^ w) (w - 1)"
    using bit_low_group [OF 0(1), of "v - ones w k"] by simp
  have bv: "bit v (w - 1) \<longleftrightarrow> 2 ^ (w - 1) \<le> g"
    using bit_low_group [OF 0(1), of v] top_bit [OF 0(1) g] by (simp add: g_def)
  show ?case
  proof (cases "g = 0")
    case True
    have "(-1 :: int) mod 2 ^ w = 2 ^ w - 1" by (simp add: zmod_minus1)
    then have "bit ((g - 1) mod 2 ^ w) (w - 1)"
      using top_bit [OF 0(1), of "2 ^ w - 1"] 0(1) True by (cases w) simp_all
    with True low bv show ?thesis by (simp add: grp_zero_def g_def)
  next
    case False
    with g have "(g - 1) mod 2 ^ w = g - 1" by (intro mod_pos_pos_trivial) auto
    then have "bit ((g - 1) mod 2 ^ w) (w - 1) \<longleftrightarrow> 2 ^ (w - 1) \<le> g - 1"
      using top_bit [OF 0(1), of "g - 1"] g False by simp
    with False low bv show ?thesis by (auto simp: grp_zero_def g_def)
  qed
next
  case (Suc j)
  then obtain k' where k: "k = Suc k'" by (cases k) auto
  define g v' where "g = v mod 2 ^ w" and "v' = v div 2 ^ w"
  have v: "v = g + 2 ^ w * v'" by (simp add: g_def v'_def)
  have "0 \<le> g" "g < 2 ^ w" by (simp_all add: g_def)
  moreover have "g \<noteq> 0" using Suc.prems(3) [of 0] by (simp add: grp_zero_def g_def)
  ultimately have g: "0 \<le> g - 1" "g - 1 < 2 ^ w" by linarith+
  have "v - ones w k = (g - 1) + 2 ^ w * (v' - ones w k')"
    by (simp add: k algebra_simps) (simp add: v algebra_simps)
  then have "(v - ones w k) div 2 ^ w = v' - ones w k'"
    using g by (simp add: div_pos_pos_trivial)
  then have "bit (v - ones w k) (w * Suc j + (w - 1)) \<longleftrightarrow> bit (v' - ones w k') (w * j + (w - 1))"
    using bit_div_exp [of "v - ones w k" w "w * j + (w - 1)"] by (simp only: mult_Suc_right add.assoc)
  moreover have "bit v (w * Suc j + (w - 1)) \<longleftrightarrow> bit v' (w * j + (w - 1))"
    using bit_div_exp [of v w "w * j + (w - 1)"] by (simp only: mult_Suc_right add.assoc v'_def)
  moreover have "grp_zero w v (Suc j) \<longleftrightarrow> grp_zero w v' j" by (simp add: grp_zero_Suc v'_def)
  moreover have "\<not> grp_zero w v' i" if "i < j" for i
    using Suc.prems(3) [of "Suc i"] that by (simp add: grp_zero_Suc v'_def)
  ultimately show ?case using Suc.IH [of k' v'] Suc.prems(1,2) k by simp
qed

text \<open>Blocks of a row.\<close>

definition block_free :: "nat \<Rightarrow> nat \<Rightarrow> u64 \<Rightarrow> bool" where
  "block_free order p v \<longleftrightarrow> (\<forall>i < 2 ^ order. \<not> bit v (p + i))"

lemma len64: "LENGTH(64) = 64"
  by simp

lemma grp_zero_block: "grp_zero (2 ^ order) (uint v) j \<longleftrightarrow> block_free order (2 ^ order * j) v"
proof -
  have "uint v div 2 ^ (2 ^ order * j) mod 2 ^ 2 ^ order = take_bit (2 ^ order) (drop_bit (2 ^ order * j) (uint v))"
    by (simp add: take_bit_eq_mod drop_bit_eq_div)
  moreover have "\<dots> = 0 \<longleftrightarrow> block_free order (2 ^ order * j) v"
    by (auto simp: block_free_def bit_eq_iff bit_take_bit_iff bit_drop_bit_eq bit_uint_iff)
      (metis bit_imp_le_length len64)
  ultimately show ?thesis by (simp only: grp_zero_def)
qed

lemma bit_ones: "0 < w \<Longrightarrow> bit (ones w k) q \<longleftrightarrow> w dvd q \<and> q < w * k"
proof (induction k arbitrary: q)
  case (Suc k)
  have "1 AND push_bit w (ones w k) = 0"
    using Suc.prems by (intro bit_eqI) (auto simp: bit_and_iff bit_push_bit_iff bit_1_iff)
  then have "1 + 2 ^ w * ones w k = 1 OR push_bit w (ones w k)"
    by (simp add: disjunctive_add_eq_or [symmetric] push_bit_eq_mult mult.commute)
  then have "bit (ones w (Suc k)) q \<longleftrightarrow> q = 0 \<or> w \<le> q \<and> bit (ones w k) (q - w)"
    by (auto simp: bit_or_iff bit_1_iff bit_push_bit_iff)
  also have "\<dots> \<longleftrightarrow> q = 0 \<or> w \<le> q \<and> w dvd q - w \<and> q - w < w * k"
    using Suc by auto
  also have "\<dots> \<longleftrightarrow> w dvd q \<and> q < w * Suc k"
    using Suc.prems by (auto simp: dvd_minus_self dest: dvd_imp_le)
  finally show ?case .
qed simp

text \<open>The search for a zero group with the borrow, as a statement on the least set bit.\<close>

lemma first_group:
  fixes v m :: u64
  assumes w: "w = 2 ^ order" "w * k = 64" and m: "m = word_of_int (ones w k)"
  defines "x \<equiv> drop_bit (w - 1) ((v - m) AND NOT v) AND m"
  shows "(trailing_zeros x < 64 \<longrightarrow> w dvd trailing_zeros x \<and> block_free order (trailing_zeros x) v) \<and>
     (\<forall>p. p < 64 \<longrightarrow> w dvd p \<longrightarrow> block_free order p v \<longrightarrow> trailing_zeros x \<le> p)"
proof -
  have w0: "0 < w" by (simp add: w(1))
  have "v - m = word_of_int (uint v - ones w k)" by (simp add: m)
  then have bvm: "bit (v - m) i \<longleftrightarrow> i < 64 \<and> bit (uint v - ones w k) i" for i
    by (simp only: bit_word_of_int_iff len64)
  have bm: "bit m q \<longleftrightarrow> w dvd q \<and> q < 64" for q
    using bit_ones [OF w0, of k q] w(2) by (auto simp: m bit_word_of_int_iff)
  have bx: "bit x (w * j) \<longleftrightarrow> bit (uint v - ones w k) (w * j + (w - 1)) \<and> \<not> bit (uint v) (w * j + (w - 1))"
    if "j < k" for j
  proof -
    have "w * Suc j \<le> w * k" using that by (intro mult_le_mono2) simp
    then have "w * j + (w - 1) < 64" using w w0 by simp
    then show ?thesis
      by (auto simp: x_def bit_and_iff bit_drop_bit_eq bit_not_iff bvm bm bit_uint_iff add.commute)
  qed
  have ltk: "j < k" if "w * j < 64" for j
  proof -
    from that have "w * j < w * k" by (simp only: w(2))
    then show ?thesis by simp
  qed
  have bxD: "\<exists>j < k. q = w * j" if "bit x q" for q
    using that ltk by (auto simp: x_def bit_and_iff bm elim!: dvdE)
  have zero: "block_free order (w * j) v \<longleftrightarrow> grp_zero w (uint v) j" for j
    using grp_zero_block [of order v j] by (simp add: w(1))
  have marks: "bit x (w * j) \<longleftrightarrow> grp_zero w (uint v) j" if "j < k" "\<And>i. i < j \<Longrightarrow> \<not> grp_zero w (uint v) i" for j
    using bx [OF that(1)] borrow_marks_zero_group [OF w0 that] by simp
  show ?thesis
  proof (cases "\<exists>j < k. grp_zero w (uint v) j")
    case True
    define j where "j = (LEAST j. j < k \<and> grp_zero w (uint v) j)"
    have j: "j < k" "grp_zero w (uint v) j" using LeastI_ex [OF True] by (auto simp: j_def)
    have least: "\<not> grp_zero w (uint v) i" if "i < j" for i
      using not_less_Least [of i "\<lambda>j. j < k \<and> grp_zero w (uint v) j"] that j(1) by (auto simp: j_def)
    have set: "bit x (w * j)" using marks [OF j(1) least] j(2) by simp
    have none: "\<not> bit x q" if "q < w * j" for q
    proof
      assume "bit x q"
      then obtain i where i: "i < k" "q = w * i" using bxD by blast
      with that w0 have "i < j" by simp
      with marks [OF i(1)] least \<open>bit x q\<close> i show False by auto
    qed
    have "w * j < w * k" using j(1) w0 by simp
    then have lt: "w * j < 64" by (simp only: w(2))
    then have "x \<noteq> 0" using set by auto
    moreover have "ctzll x = w * j" using lt set none by (rule ctzll_eqI)
    ultimately have tz: "trailing_zeros x = w * j" by (simp add: trailing_zeros_def)
    have "w * j \<le> p" if "p < 64" "w dvd p" "block_free order p v" for p
      using that least zero w0 by (auto elim!: dvdE intro: leI)
    then show ?thesis using tz zero j(2) by auto
  next
    case False
    have "\<not> bit x q" for q
    proof
      assume "bit x q"
      then obtain j where j: "j < k" "q = w * j" using bxD by blast
      with False have "\<And>i. i < j \<Longrightarrow> \<not> grp_zero w (uint v) i" by auto
      with marks [OF j(1)] \<open>bit x q\<close> j False show False by blast
    qed
    then have "x = 0" by (auto simp: bit_eq_iff)
    moreover have "\<not> block_free order p v" if "p < 64" "w dvd p" for p
      using that False zero ltk by (auto elim!: dvdE)
    ultimately show ?thesis by (auto simp: trailing_zeros_def)
  qed
qed

text \<open>What a search for an aligned block returns: the first such block, or 64.\<close>

definition finds_block :: "nat \<Rightarrow> u64 \<Rightarrow> nat \<Rightarrow> bool" where
  "finds_block order v r \<longleftrightarrow>
     (r < 64 \<longrightarrow> 2 ^ order dvd r \<and> block_free order r v) \<and>
     (\<forall>p. p < 64 \<longrightarrow> 2 ^ order dvd p \<longrightarrow> block_free order p v \<longrightarrow> r \<le> p)"

lemma trailing_zeros_finds:
  assumes "\<And>q. bit x q \<longleftrightarrow> q < 64 \<and> 2 ^ order dvd q \<and> block_free order q v"
  shows "finds_block order v (trailing_zeros x)"
proof (cases "x = 0")
  case True
  then show ?thesis using assms by (auto simp: finds_block_def trailing_zeros_def)
next
  case False
  note c = ctzll_props [OF False]
  have "ctzll x \<le> p" if "bit x p" for p using c(3) that not_less by blast
  then show ?thesis using assms c(2) False by (auto simp: finds_block_def trailing_zeros_def)
qed

lemma group_masks:
  "(0x5555555555555555 :: u64) = word_of_int (ones 2 32)"
  "(0x1111111111111111 :: u64) = word_of_int (ones 4 16)"
  "(0x0101010101010101 :: u64) = word_of_int (ones 8 8)"
  "(0x0001000100010001 :: u64) = word_of_int (ones 16 4)"
  by code_simp+

lemma bit_odd_mask: "bit (0xaaaaaaaaaaaaaaaa :: u64) q \<longleftrightarrow> odd q \<and> q < 64"
proof -
  have "(0xaaaaaaaaaaaaaaaa :: u64) = push_bit 1 0x5555555555555555" by simp
  also have "bit \<dots> q \<longleftrightarrow> 1 \<le> q \<and> q < 64 \<and> bit (ones 2 32) (q - 1)"
    unfolding group_masks bit_push_bit_iff by (auto simp: bit_word_of_int_iff)
  also have "\<dots> \<longleftrightarrow> odd q \<and> q < 64"
    by (auto simp: bit_ones) presburger
  finally show ?thesis .
qed

lemma finds_0: "finds_block 0 v (trailing_zeros (NOT v))"
  by (rule trailing_zeros_finds) (auto simp: block_free_def bit_not_iff)

lemma finds_1: "finds_block 1 v (trailing_zeros (NOT ((v OR drop_bit 1 v) OR 0xaaaaaaaaaaaaaaaa)))"
proof (rule trailing_zeros_finds)
  fix q
  have "block_free 1 q v \<longleftrightarrow> \<not> bit v q \<and> \<not> bit v (Suc q)"
    by (auto simp: block_free_def numeral_eq_Suc less_Suc_eq)
  then show "bit (NOT ((v OR drop_bit 1 v) OR 0xaaaaaaaaaaaaaaaa)) q \<longleftrightarrow> q < 64 \<and> 2 ^ 1 dvd q \<and> block_free 1 q v"
    unfolding bit_not_iff bit_or_iff bit_drop_bit_eq bit_odd_mask by auto
qed

lemma finds_group:
  assumes "w = 2 ^ order" "w * k = 64" "m = word_of_int (ones w k)"
  shows "finds_block order v (trailing_zeros (drop_bit (w - 1) ((v - m) AND NOT v) AND m))"
  using first_group [OF assms, of v] by (simp add: finds_block_def assms(1))

lemma finds_2: "finds_block 2 v (trailing_zeros (drop_bit 3 ((v - 0x1111111111111111) AND NOT v) AND 0x1111111111111111))"
  using finds_group [of 4 2 16 "0x1111111111111111" v] by (simp add: group_masks)

lemma finds_3: "finds_block 3 v (trailing_zeros (drop_bit 7 ((v - 0x0101010101010101) AND NOT v) AND 0x0101010101010101))"
  using finds_group [of 8 3 8 "0x0101010101010101" v] by (simp add: group_masks)

lemma finds_4: "finds_block 4 v (trailing_zeros (drop_bit 15 ((v - 0x0001000100010001) AND NOT v) AND 0x0001000100010001))"
  using finds_group [of 16 4 4 "0x0001000100010001" v] by (simp add: group_masks)

lemma finds_5: "finds_block 5 v (if (ucast v :: u32) = 0 then 0 else if drop_bit 32 v = 0 then 32 else 64)"
proof -
  have low: "(ucast v :: u32) = 0 \<longleftrightarrow> block_free 5 0 v"
    by (auto simp: block_free_def bit_eq_iff bit_ucast_iff)
  have high: "drop_bit 32 v = 0 \<longleftrightarrow> block_free 5 32 v"
    by (auto simp: block_free_def bit_eq_iff bit_drop_bit_eq) (metis add_less_cancel_left bit_imp_le_length len64 numeral_Bit0)
  have "p = 0 \<or> p = 32" if "p < 64" "2 ^ 5 dvd p" for p :: nat
    using that by (auto elim!: dvdE)
  then show ?thesis using low high by (auto simp: finds_block_def)
qed

lemma finds_6: "finds_block 6 v (if v = 0 then 0 else 64)"
proof -
  have "v = 0 \<longleftrightarrow> block_free 6 0 v"
    by (auto simp: block_free_def bit_eq_iff)
  moreover have "p = 0" if "p < 64" "2 ^ 6 dvd p" for p :: nat
    using that by (auto elim!: dvdE)
  ultimately show ?thesis by (auto simp: finds_block_def)
qed

lemma zeros_pos_finds:
  assumes "order \<le> 6"
  shows "finds_block order v (zeros_pos order v)"
proof -
  have "order \<in> {0, 1, 2, 3, 4, 5, 6}" using assms by auto
  then show ?thesis
    using finds_0 [of v] finds_1 [of v] finds_2 [of v] finds_3 [of v] finds_4 [of v] finds_5 [of v] finds_6 [of v]
    by (elim insertE emptyE) (simp_all only: zeros_pos_def, simp_all)
qed

section \<open>The bits of a field\<close>

text \<open>Bit \<open>i\<close> of a field, and the fields that differ from another in a block of bits only.\<close>

definition fbit :: "bitfield \<Rightarrow> nat \<Rightarrow> bool" where
  "fbit rows i \<longleftrightarrow> bit (rows ! (i div 64)) (i mod 64)"

definition block :: "nat \<Rightarrow> nat \<Rightarrow> nat set" where
  "block order p = {p..<p + 2 ^ order}"

definition field_ok :: "bitfield \<Rightarrow> bool" where
  "field_ok rows \<longleftrightarrow> length rows = 8"

definition field_upd :: "bitfield \<Rightarrow> nat set \<Rightarrow> bool \<Rightarrow> bitfield \<Rightarrow> bool" where
  "field_upd rows B b rows' \<longleftrightarrow> length rows' = length rows \<and>
     (\<forall>i < 64 * length rows. fbit rows' i \<longleftrightarrow> (if i \<in> B then b else fbit rows i))"

lemma fbit_row: "b < 64 \<Longrightarrow> fbit rows (64 * r + b) \<longleftrightarrow> bit (rows ! r) b"
  by (simp add: fbit_def)

lemma row_pos: "(i :: nat) = 64 * (i div 64) + i mod 64" by simp

lemma field_updI:
  assumes "length rows' = length rows"
    and "\<And>r b. r < length rows \<Longrightarrow> b < 64 \<Longrightarrow>
      bit (rows' ! r) b \<longleftrightarrow> (if 64 * r + b \<in> B then v else bit (rows ! r) b)"
  shows "field_upd rows B v rows'"
  unfolding field_upd_def
proof (intro conjI allI impI)
  fix i assume "i < 64 * length rows"
  then have "i div 64 < length rows" "i mod 64 < 64" by auto
  then have "bit (rows' ! (i div 64)) (i mod 64) \<longleftrightarrow>
      (if 64 * (i div 64) + i mod 64 \<in> B then v else bit (rows ! (i div 64)) (i mod 64))"
    by (rule assms(2))
  then show "fbit rows' i \<longleftrightarrow> (if i \<in> B then v else fbit rows i)" by (simp add: fbit_def)
qed (rule assms(1))

lemma field_eqI:
  assumes "length rows' = length rows" "\<And>i. i < 64 * length rows \<Longrightarrow> fbit rows' i = fbit rows i"
  shows "rows' = rows"
proof (rule nth_equalityI [OF assms(1)])
  fix r assume "r < length rows'"
  then have "bit (rows' ! r) b = bit (rows ! r) b" if "b < 64" for b
    using assms(1) assms(2) [of "64 * r + b"] that by (simp add: fbit_row)
  then show "rows' ! r = rows ! r" by (intro bit_eqI) auto
qed

text \<open>A block of at most 64 bits within a row.\<close>

lemma block_in_row:
  assumes "order \<le> 6" "2 ^ order dvd p" "p < (64 :: nat)"
  shows "p + 2 ^ order \<le> 64"
proof -
  from assms(2) obtain k where k: "p = 2 ^ order * k" by (elim dvdE)
  have six: "(64 :: nat) = 2 ^ order * 2 ^ (6 - order)" using assms(1) by (simp flip: power_add)
  with k assms(3) have "k < 2 ^ (6 - order)" by simp
  then have "2 ^ order * Suc k \<le> 2 ^ order * 2 ^ (6 - order)" by (intro mult_le_mono2) simp
  then show ?thesis using six k by simp
qed

lemma bit_block_mask:
  "bit (push_bit p (mask n) :: u64) b \<longleftrightarrow> p \<le> b \<and> b < p + n \<and> b < 64"
  by (auto simp: bit_push_bit_iff bit_mask_iff)

lemma row_update:
  assumes "r < length rows" "p + 2 ^ order \<le> 64"
    and "\<And>b. b < 64 \<Longrightarrow> bit v b \<longleftrightarrow> (if p \<le> b \<and> b < p + 2 ^ order then x else bit (rows ! r) b)"
  shows "field_upd rows (block order (64 * r + p)) x (rows[r := v])"
proof (rule field_updI)
  fix r' b assume r': "r' < length rows" "b < (64 :: nat)"
  have "64 * r' + b \<in> block order (64 * r + p) \<longleftrightarrow> r' = r \<and> p \<le> b \<and> b < p + 2 ^ order"
    using assms(2) r'(2) by (cases r' r rule: linorder_cases) (auto simp: block_def)
  then show "bit (rows[r := v] ! r') b \<longleftrightarrow> (if 64 * r' + b \<in> block order (64 * r + p) then x else bit (rows ! r') b)"
    using assms(1,3) r' by (auto simp: nth_list_update)
qed simp

section \<open>Claiming the next free block\<close>

definition block_clear :: "bitfield \<Rightarrow> nat \<Rightarrow> nat \<Rightarrow> bool" where
  "block_clear rows order p \<longleftrightarrow> (\<forall>i \<in> block order p. \<not> fbit rows i)"

definition claims :: "nat \<Rightarrow> bitfield \<Rightarrow> nat option \<times> bitfield \<Rightarrow> bool" where
  "claims order rows res \<longleftrightarrow>
     (case res of
        (None, rows') \<Rightarrow> rows' = rows \<and> (\<forall>p. p + 2 ^ order \<le> 512 \<longrightarrow> 2 ^ order dvd p \<longrightarrow> \<not> block_clear rows order p)
      | (Some p, rows') \<Rightarrow>
          2 ^ order dvd p \<and> p + 2 ^ order \<le> 512 \<and> block_clear rows order p \<and> field_upd rows (block order p) True rows')"

lemma set_for_offsetted: "0 < len \<Longrightarrow> set (for_offsetted start len) = {start - start mod len..<start - start mod len + len}"
proof -
  assume len: "0 < len"
  define a b where "a = start mod len" and "b = start - start mod len"
  have a: "a < len" using len by (simp add: a_def)
  have "(\<lambda>i. b + (i + a) mod len) ` {0..<len} = {b..<b + len}"
  proof (intro equalityI subsetI)
    fix x assume x: "x \<in> {b..<b + len}"
    define y where "y = x - b"
    have y: "y < len" "x = b + y" using x by (auto simp: y_def)
    define i where "i = (if a \<le> y then y - a else y + len - a)"
    have "i < len" "(i + a) mod len = y" using y a by (auto simp: i_def)
    then show "x \<in> (\<lambda>i. b + (i + a) mod len) ` {0..<len}" using y(2) by (intro image_eqI [of _ _ i]) auto
  qed (use len in auto)
  then show ?thesis by (simp add: for_offsetted_def a_def b_def)
qed

lemma set_for_offsetted_0: "start < len \<Longrightarrow> set (for_offsetted start len) = {0..<len}"
  by (simp add: set_for_offsetted)

lemma block_clear_row:
  assumes "p + 2 ^ order \<le> 64"
  shows "block_clear rows order (64 * r + p) \<longleftrightarrow> block_free order p (rows ! r)"
proof -
  have "fbit rows (64 * r + (p + i)) \<longleftrightarrow> bit (rows ! r) (p + i)" if "i < 2 ^ order" for i
    using assms that by (intro fbit_row) simp
  then show ?thesis
    by (auto simp: block_clear_def block_free_def block_def add.assoc dest!: le_Suc_ex)
qed

lemma aligned_split:
  assumes "order \<le> 6" "2 ^ order dvd (p :: nat)"
  shows "2 ^ order dvd p mod 64" "p mod 64 + 2 ^ order \<le> 64"
proof -
  have "(2 :: nat) ^ order dvd 2 ^ 6" using assms(1) by (rule le_imp_power_dvd)
  then show d: "2 ^ order dvd p mod 64" using assms(2) by (simp add: dvd_mod_iff)
  show "p mod 64 + 2 ^ order \<le> 64" by (rule block_in_row [OF assms(1) d]) simp
qed

lemma set_next_row_None:
  assumes "order \<le> 6" "set_next_row order is rows = (None, rows')"
  shows "rows' = rows \<and> (\<forall>r \<in> set is. \<forall>p < 64. 2 ^ order dvd p \<longrightarrow> \<not> block_free order p (rows ! r))"
  using assms(2)
proof (induction "is")
  case (Cons r rs)
  from Cons.prems have none: "first_zeros_aligned order (rows ! r) = None"
    by (auto split: option.splits)
  then have "\<not> zeros_pos order (rows ! r) < 64" by (auto simp: first_zeros_aligned_def Let_def split: if_splits)
  with zeros_pos_finds [OF assms(1), of "rows ! r"]
  have "\<forall>p < 64. 2 ^ order dvd p \<longrightarrow> \<not> block_free order p (rows ! r)"
    by (auto simp: finds_block_def)
  then show ?case using Cons none by auto
qed auto

lemma set_next_row_Some:
  assumes "order \<le> 6" "set_next_row order is rows = (Some q, rows')" "\<forall>r \<in> set is. r < length rows"
  shows "\<exists>r p. r < length rows \<and> q = 64 * r + p \<and> p + 2 ^ order \<le> 64 \<and> 2 ^ order dvd p \<and>
     block_free order p (rows ! r) \<and> field_upd rows (block order q) True rows'"
  using assms(2,3)
proof (induction "is")
  case (Cons r rs)
  show ?case
  proof (cases "first_zeros_aligned order (rows ! r)")
    case None
    then show ?thesis using Cons by auto
  next
    case (Some pv)
    define p where "p = zeros_pos order (rows ! r)"
    from Some have lt: "p < 64" and pv: "pv = (p, rows ! r OR push_bit p (mask (2 ^ order)))"
      by (auto simp: first_zeros_aligned_def Let_def p_def split: if_splits)
    from zeros_pos_finds [OF assms(1), of "rows ! r"] lt
    have p: "2 ^ order dvd p" "block_free order p (rows ! r)" by (auto simp: finds_block_def p_def)
    have fit: "p + 2 ^ order \<le> 64" by (rule block_in_row [OF assms(1) p(1) lt])
    from Cons.prems Some pv have q: "q = 64 * r + p" "rows' = rows[r := rows ! r OR push_bit p (mask (2 ^ order))]"
      by (auto simp: LLFREE_ATOMIC_SIZE_def)
    have "field_upd rows (block order q) True rows'"
      unfolding q using Cons.prems(2) fit by (intro row_update) (auto simp: bit_or_iff bit_block_mask)
    then show ?thesis using Cons.prems(2) q(1) p fit by (intro exI [of _ r] exI [of _ p]) simp
  qed
qed simp

text \<open>Blocks of whole rows.\<close>

lemma rows_update:
  assumes "2 ^ order = 64 * n" "length rows' = length rows"
    and "\<And>r. r < length rows \<Longrightarrow> rows' ! r = (if base \<le> r \<and> r < base + n then if x then -1 else 0 else rows ! r)"
  shows "field_upd rows (block order (64 * base)) x rows'"
proof (rule field_updI)
  fix r b assume r: "r < length rows" "b < (64 :: nat)"
  have "64 * r + b \<in> block order (64 * base) \<longleftrightarrow> base \<le> r \<and> r < base + n"
    using r(2) by (auto simp: block_def assms(1))
  then show "bit (rows' ! r) b \<longleftrightarrow> (if 64 * r + b \<in> block order (64 * base) then x else bit (rows ! r) b)"
    using assms(3) [OF r(1)] r(2) by auto
qed (rule assms(2))

lemma block_rows:
  assumes "2 ^ order = 64 * n"
  shows "(\<forall>i \<in> block order (64 * base). fbit rows i = x) \<longleftrightarrow>
     (\<forall>r. base \<le> r \<and> r < base + n \<longrightarrow> rows ! r = (if x then -1 else 0))" (is "?L \<longleftrightarrow> ?R")
proof
  assume L: ?L
  show ?R
  proof (intro allI impI)
    fix r assume r: "base \<le> r \<and> r < base + n"
    have "bit (rows ! r) b = x" if "b < 64" for b
      using bspec [OF L, of "64 * r + b"] that r by (auto simp: block_def assms fbit_row)
    then show "rows ! r = (if x then -1 else 0)" by (intro bit_eqI) auto
  qed
next
  assume R: ?R
  show ?L
  proof
    fix i assume "i \<in> block order (64 * base)"
    then have "base \<le> i div 64 \<and> i div 64 < base + n" by (auto simp: block_def assms)
    with R have "rows ! (i div 64) = (if x then -1 else 0)" by blast
    then show "fbit rows i = x" by (simp add: fbit_def)
  qed
qed

lemma undo_rows:
  assumes "base + i \<le> length rows" "\<And>j. j < i \<Longrightarrow> rows ! (base + j) = -1"
  shows "\<And>r. r < length rows \<Longrightarrow>
      fold (\<lambda>j rows. if rows ! (base + j) = -1 then rows[base + j := 0] else rows) [0..<i] rows ! r =
        (if base \<le> r \<and> r < base + i then 0 else rows ! r)"
    and "length (fold (\<lambda>j rows. if rows ! (base + j) = -1 then rows[base + j := 0] else rows) [0..<i] rows) = length rows"
  using assms
proof (induction i)
  case (Suc i)
  {
    case 1
    then show ?case using Suc.IH(1) [of r] Suc.IH(1) [of "base + i"] Suc.IH(2)
      by (auto simp: nth_list_update)
  next
    case 2
    then show ?case using Suc.IH(2) by simp
  }
qed auto

lemma claim_rows_spec:
  assumes "base + entries \<le> length rows" "i \<le> entries" "\<And>j. j < i \<Longrightarrow> rows ! (base + j) = -1"
    and "claim_rows base entries i rows = (ok, rows')"
  shows "length rows' = length rows \<and>
    (if ok then
       (\<forall>r. base + i \<le> r \<and> r < base + entries \<longrightarrow> rows ! r = 0) \<and>
       (\<forall>r < length rows. rows' ! r = (if base + i \<le> r \<and> r < base + entries then -1 else rows ! r))
     else
       (\<exists>r. base + i \<le> r \<and> r < base + entries \<and> rows ! r \<noteq> 0) \<and>
       (\<forall>r < length rows. rows' ! r = (if base \<le> r \<and> r < base + i then 0 else rows ! r)))"
  using assms
proof (induction base entries i rows rule: claim_rows.induct)
  case (1 base entries i rows)
  show ?case
  proof (cases "i < entries")
    case False
    with 1(3,5) show ?thesis by (auto simp: claim_rows.simps)
  next
    case lt: True
    show ?thesis
    proof (cases "rows ! (base + i) = 0")
      case False
      then have "ok = False" "rows' = fold (\<lambda>j rows. if rows ! (base + j) = -1 then rows[base + j := 0] else rows) [0..<i] rows"
        using 1(5) lt by (auto simp: claim_rows.simps)
      then show ?thesis using undo_rows [of base i rows] 1(2,4) lt False by auto
    next
      case True
      have step: "claim_rows base entries (Suc i) (rows[base + i := -1]) = (ok, rows')"
        using 1(5) lt True by (simp add: claim_rows.simps)
      have "rows[base + i := -1] ! (base + j) = -1" if "j < Suc i" for j
        using that 1(2,4) lt by (auto simp: nth_list_update less_Suc_eq)
      note IH = "1.IH" [OF lt True _ _ this step, simplified, OF 1(2)]
      have other: "rows[base + i := -1] ! r = rows ! r" if "r \<noteq> base + i" for r using that by simp
      have same: "rows[base + i := -1] ! (base + i) = -1" using 1(2) lt by simp
      show ?thesis
      proof (cases ok)
        case ok: True
        have "rows ! r = 0" if "base + i \<le> r \<and> r < base + entries" for r
          using IH ok that other [of r] True by (cases "r = base + i") auto
        moreover have "rows' ! r = (if base + i \<le> r \<and> r < base + entries then -1 else rows ! r)" if "r < length rows" for r
          using IH ok that other [of r] same lt by (cases "r = base + i") auto
        ultimately show ?thesis using IH ok 1(2) lt by simp
      next
        case bad: False
        have "\<exists>r. base + i \<le> r \<and> r < base + entries \<and> rows ! r \<noteq> 0"
          using IH bad 1(2) lt other by (auto simp: Suc_le_eq) (metis less_imp_le less_irrefl)
        moreover have "rows' ! r = (if base \<le> r \<and> r < base + i then 0 else rows ! r)" if "r < length rows" for r
          using IH bad that other [of r] True 1(2) lt by (cases "r = base + i") auto
        ultimately show ?thesis using IH bad 1(2) lt by simp
      qed
    qed
  qed
qed

lemma set_next_rows_None:
  assumes "2 ^ order = 64 * entries" "\<forall>k \<in> set is. k * entries + entries \<le> length rows"
    and "set_next_rows entries is rows = (None, rows')"
  shows "rows' = rows \<and> (\<forall>k \<in> set is. \<not> block_clear rows order (64 * (k * entries)))"
  using assms(2,3)
proof (induction "is")
  case (Cons k ks)
  obtain ok rows1 where c: "claim_rows (k * entries) entries 0 rows = (ok, rows1)" by fastforce
  note spec = claim_rows_spec [OF _ _ _ c]
  from Cons.prems c have bad: "\<not> ok" by (auto split: if_splits)
  have len: "k * entries + entries \<le> length rows" using Cons.prems(1) by simp
  have same: "rows1 = rows" using spec bad len by (intro nth_equalityI) auto
  have "\<exists>r. k * entries \<le> r \<and> r < k * entries + entries \<and> rows ! r \<noteq> 0" using spec bad len by auto
  then have "\<not> block_clear rows order (64 * (k * entries))"
    using block_rows [OF assms(1), of "k * entries" rows False] by (auto simp: block_clear_def)
  moreover have "set_next_rows entries ks rows = (None, rows')" using Cons.prems(2) c bad same by simp
  ultimately show ?case using Cons.IH Cons.prems(1) by auto
qed simp

lemma set_next_rows_Some:
  assumes "2 ^ order = 64 * entries" "\<forall>k \<in> set is. k * entries + entries \<le> length rows"
    and "set_next_rows entries is rows = (Some q, rows')"
  shows "\<exists>k. k \<in> set is \<and> q = 64 * (k * entries) \<and> block_clear rows order q \<and> field_upd rows (block order q) True rows'"
  using assms(2,3)
proof (induction "is")
  case (Cons k ks)
  obtain ok rows1 where c: "claim_rows (k * entries) entries 0 rows = (ok, rows1)" by fastforce
  note spec = claim_rows_spec [OF _ _ _ c]
  have len: "k * entries + entries \<le> length rows" using Cons.prems(1) by simp
  show ?case
  proof (cases ok)
    case True
    then have q: "q = 64 * (k * entries)" "rows' = rows1"
      using Cons.prems(2) c by (simp_all add: LLFREE_ATOMIC_SIZE_def)
    have "block_clear rows order q"
      using block_rows [OF assms(1), of "k * entries" rows False] spec True len by (auto simp: block_clear_def q)
    moreover have "field_upd rows (block order q) True rows'"
      unfolding q using spec True len by (intro rows_update [OF assms(1)]) auto
    ultimately show ?thesis using q(1) by auto
  next
    case bad: False
    have same: "rows1 = rows" using spec bad len by (intro nth_equalityI) auto
    then show ?thesis using Cons c bad by auto
  qed
qed simp

lemma pow_le_64: "order \<le> 6 \<Longrightarrow> 2 ^ order \<le> (64 :: nat)"
  using power_increasing [of order 6 "2 :: nat"] by simp

lemma field_set_next_small:
  assumes "field_ok rows" "order \<le> 6"
  shows "claims order rows (field_set_next start order rows)"
proof -
  obtain res rows' where r: "field_set_next start order rows = (res, rows')" by fastforce
  define row where "row = start div 64 mod 8"
  have len: "length rows = 8" using assms(1) by (simp add: field_ok_def)
  have visit: "set (for_offsetted row 8) = {0..<8}" by (rule set_for_offsetted_0) (simp add: row_def)
  have eq: "set_next_row order (for_offsetted row 8) rows = (res, rows')"
    using r pow_le_64 [OF assms(2)] by (simp add: field_set_next_def row_def field_consts)
  show ?thesis
  proof (cases res)
    case None
    note n = set_next_row_None [OF assms(2) eq [unfolded None]]
    have "\<not> block_clear rows order p" if p: "p + 2 ^ order \<le> 512" "2 ^ order dvd p" for p
    proof -
      have "0 < (2 :: nat) ^ order" by simp
      then have "p < 512" using p(1) by linarith
      then have "p div 64 < 8" by (simp add: div_less_iff_less_mult)
      then have "\<not> block_free order (p mod 64) (rows ! (p div 64))"
        using n visit aligned_split [OF assms(2) p(2)] by auto
      then show ?thesis
        using block_clear_row [OF aligned_split(2) [OF assms(2) p(2)], of rows "p div 64"] by simp
    qed
    then show ?thesis using n r None by (simp add: claims_def)
  next
    case (Some q)
    from set_next_row_Some [OF assms(2) eq [unfolded Some]] visit len
    obtain i p where p: "i < 8" "q = 64 * i + p" "p + 2 ^ order \<le> 64" "2 ^ order dvd p"
      "block_free order p (rows ! i)" "field_upd rows (block order q) True rows'" by auto
    have "(2 :: nat) ^ order dvd 2 ^ 6" using assms(2) by (rule le_imp_power_dvd)
    then have "2 ^ order dvd q" using p(2,4) by (auto intro: dvd_mult2)
    moreover have "block_clear rows order q" using p block_clear_row [OF p(3)] by simp
    ultimately show ?thesis using r Some p by (simp add: claims_def)
  qed
qed

lemma big_entries:
  assumes "6 < order" "order < 9"
  obtains entries where "2 ^ order = 64 * entries" "0 < entries" "entries dvd (8 :: nat)" "\<not> 2 ^ order \<le> (64 :: nat)"
proof -
  have "order = 7 \<or> order = 8" using assms by auto
  then show ?thesis using that [of 2] that [of 4] by auto
qed

lemma field_set_next_big:
  assumes "field_ok rows" "6 < order" "order < 9"
  shows "claims order rows (field_set_next start order rows)"
proof -
  obtain res rows' where r: "field_set_next start order rows = (res, rows')" by fastforce
  define row where "row = start div 64 mod 8"
  have len: "length rows = 8" using assms(1) by (simp add: field_ok_def)
  obtain entries where e: "2 ^ order = 64 * entries" "0 < entries" "entries dvd (8 :: nat)" "\<not> 2 ^ order \<le> (64 :: nat)"
    using assms(2,3) by (rule big_entries)
  define n where "n = 8 div entries"
  have n: "n * entries = 8" using e(3) by (simp add: n_def)
  have "row div entries < n" using n e(2) by (simp add: div_less_iff_less_mult row_def)
  then have visit: "set (for_offsetted (row div entries) n) = {0..<n}" by (rule set_for_offsetted_0)
  have fits: "k * entries + entries \<le> length rows" if "k \<in> set (for_offsetted (row div entries) n)" for k
  proof -
    have "Suc k * entries \<le> n * entries" using that visit by (intro mult_le_mono1) auto
    then show ?thesis using n len by simp
  qed
  have eq: "set_next_rows entries (for_offsetted (row div entries) n) rows = (res, rows')"
    using r e by (simp add: field_set_next_def row_def field_consts n_def Let_def)
  show ?thesis
  proof (cases res)
    case None
    have none: "rows' = rows \<and> (\<forall>k \<in> {0..<n}. \<not> block_clear rows order (64 * (k * entries)))"
      using set_next_rows_None [OF e(1) _ eq [unfolded None]] fits visit by simp
    have "\<not> block_clear rows order p" if p: "p + 2 ^ order \<le> 512" "2 ^ order dvd p" for p
    proof -
      from p(2) obtain k where "p = 2 ^ order * k" by (elim dvdE)
      then have k: "p = 64 * (k * entries)" by (simp add: e(1))
      have "Suc k * entries \<le> n * entries" using p(1) e(1) n k by simp
      then have "k < n" using e(2) by (simp only: mult_le_cancel2) simp
      then show ?thesis using none k by simp
    qed
    then show ?thesis using none r None by (simp add: claims_def)
  next
    case (Some q)
    from set_next_rows_Some [OF e(1) _ eq [unfolded Some]] fits obtain k where
      k: "k \<in> set (for_offsetted (row div entries) n)" "q = 64 * (k * entries)" "block_clear rows order q"
      "field_upd rows (block order q) True rows'" by blast
    have "2 ^ order dvd q" using k(2) e(1) by simp
    moreover have "q + 2 ^ order \<le> 512" using fits [OF k(1)] k(2) e(1) len by simp
    ultimately show ?thesis using r Some k by (simp add: claims_def)
  qed
qed

lemma field_set_next_claims:
  assumes "field_ok rows" "order < 9"
  shows "claims order rows (field_set_next start order rows)"
  using field_set_next_small [OF assms(1)] field_set_next_big [OF assms(1)] assms(2) by (cases "order \<le> 6") auto

section \<open>Toggling a block\<close>

lemma toggle_mask:
  assumes "order \<le> 6" "b + 2 ^ order \<le> 64"
  shows "bit (push_bit b (drop_bit (64 - 2 ^ order) (-1)) :: u64) i \<longleftrightarrow> b \<le> i \<and> i < b + 2 ^ order"
  using assms pow_le_64 [OF assms(1)] by (auto simp: bit_push_bit_iff bit_drop_bit_eq bit_mask_iff)

lemma row_toggle_exact:
  assumes m: "\<And>i. bit m i \<longleftrightarrow> b \<le> i \<and> i < b + 2 ^ order" and fit: "b + 2 ^ order \<le> 64"
  shows "row_toggle m expected v = None \<longleftrightarrow> \<not> (\<forall>i < 2 ^ order. bit v (b + i) = expected)"
    and "row_toggle m expected v = Some v' \<Longrightarrow> i < 64 \<Longrightarrow>
      bit v' i \<longleftrightarrow> (if b \<le> i \<and> i < b + 2 ^ order then \<not> expected else bit v i)"
proof -
  have "(\<forall>i < 2 ^ order. bit v (b + i) = expected) \<longleftrightarrow> (\<forall>i. bit m i \<longrightarrow> bit v i = expected)"
    using m by (auto dest!: le_Suc_ex)
  moreover have m64: "i < 64" if "bit m i" for i using that m fit by auto
  moreover have "v AND m = m \<longleftrightarrow> (\<forall>i. bit m i \<longrightarrow> bit v i)" using m64 by (auto simp: bit_eq_iff bit_and_iff)
  moreover have "v AND m = 0 \<longleftrightarrow> (\<forall>i. bit m i \<longrightarrow> \<not> bit v i)" using m64 by (auto simp: bit_eq_iff bit_and_iff)
  ultimately show "row_toggle m expected v = None \<longleftrightarrow> \<not> (\<forall>i < 2 ^ order. bit v (b + i) = expected)"
    by (auto simp: row_toggle_def)
  assume some: "row_toggle m expected v = Some v'" and i: "i < 64"
  from some have "v' = (if expected then v AND NOT m else v OR m)"
    by (simp add: row_toggle_def split: if_splits)
  then show "bit v' i \<longleftrightarrow> (if b \<le> i \<and> i < b + 2 ^ order then \<not> expected else bit v i)"
    using i by (simp add: bit_and_iff bit_or_iff bit_not_iff m) blast
qed

text \<open>A block has the value \<open>x\<close>.\<close>

definition block_is :: "bitfield \<Rightarrow> nat \<Rightarrow> nat \<Rightarrow> bool \<Rightarrow> bool" where
  "block_is rows order p x \<longleftrightarrow> (\<forall>i \<in> block order p. fbit rows i = x)"

lemma block_is_row:
  assumes "p + 2 ^ order \<le> 64"
  shows "block_is rows order (64 * r + p) x \<longleftrightarrow> (\<forall>i < 2 ^ order. bit (rows ! r) (p + i) = x)"
proof -
  have "fbit rows (64 * r + (p + i)) \<longleftrightarrow> bit (rows ! r) (p + i)" if "i < 2 ^ order" for i
    using assms that by (intro fbit_row) simp
  then show ?thesis by (auto simp: block_is_def block_def add.assoc dest!: le_Suc_ex)
qed

lemma toggle_rows_spec:
  assumes "row + n \<le> length rows" "i \<le> n"
    and "toggle_rows row n m i rows = (ok, rows')"
  shows "ok \<longleftrightarrow> (\<forall>r. row + i \<le> r \<and> r < row + n \<longrightarrow> rows ! r = m)"
    and "ok \<Longrightarrow> length rows' = length rows \<and>
      (\<forall>r < length rows. rows' ! r = (if row + i \<le> r \<and> r < row + n then NOT m else rows ! r))"
  using assms
proof (induction row n m i rows rule: toggle_rows.induct)
  case (1 row n m i rows)
  {
    case 1
    show ?case
    proof (cases "i < n \<and> rows ! (row + i) = m")
      case True
      have other: "rows[row + i := NOT m] ! r = rows ! r" if "r \<noteq> row + i" for r using that by simp
      have "toggle_rows row n m (Suc i) (rows[row + i := NOT m]) = (ok, rows')"
        using 1(3) True by (simp add: toggle_rows.simps)
      then have "ok \<longleftrightarrow> (\<forall>r. row + Suc i \<le> r \<and> r < row + n \<longrightarrow> rows[row + i := NOT m] ! r = m)"
        using "1.IH"(1) True 1(1) by simp
      moreover have "rows[row + i := NOT m] ! r = rows ! r" if "row + Suc i \<le> r" for r
        using that other [of r] by simp
      moreover have "row + i \<le> r \<longleftrightarrow> r = row + i \<or> row + Suc i \<le> r" for r by auto
      ultimately show ?thesis using True by metis
    next
      case False
      then show ?thesis using 1 by (auto simp: toggle_rows.simps split: if_splits)
    qed
  next
    case 2
    show ?case
    proof (cases "i < n")
      case True
      then have eq: "rows ! (row + i) = m" using 2(1,4) by (auto simp: toggle_rows.simps split: if_splits)
      have "toggle_rows row n m (Suc i) (rows[row + i := NOT m]) = (ok, rows')"
        using 2(4) True eq by (simp add: toggle_rows.simps)
      then have "length rows' = length rows \<and> (\<forall>r < length rows. rows' ! r =
          (if row + Suc i \<le> r \<and> r < row + n then NOT m else rows[row + i := NOT m] ! r))"
        using "1.IH"(2) True eq 2(1,2) by simp
      moreover have "row + i \<le> r \<longleftrightarrow> r = row + i \<or> row + Suc i \<le> r" for r by auto
      ultimately show ?thesis using True 2(2) by (simp add: nth_list_update)
    next
      case False
      then show ?thesis using 2 by (auto simp: toggle_rows.simps)
    qed
  }
qed

text \<open>
  Toggling a block succeeds exactly when all its bits have the expected value, and then flips them.
\<close>

lemma field_toggle_spec:
  assumes "field_ok rows" "order \<le> 9" "2 ^ order dvd index" "index < 512"
    and "field_toggle index order expected rows = (ok, rows')"
  shows "ok \<longleftrightarrow> block_is rows order index expected"
    and "ok \<Longrightarrow> field_upd rows (block order index) (\<not> expected) rows'"
    and "\<not> ok \<Longrightarrow> order \<le> 6 \<Longrightarrow> rows' = rows"
proof -
  define r b where "r = index div 64" and "b = index mod 64"
  have len: "length rows = 8" using assms(1) by (simp add: field_ok_def)
  have pos: "get_pos index = (r, b)" using assms(4) by (simp add: get_pos_def field_consts r_def b_def)
  have idx: "index = 64 * r + b" by (simp add: r_def b_def)
  have r8: "r < 8" using assms(4) by (simp add: r_def div_less_iff_less_mult)
  have small: "(ok \<longleftrightarrow> block_is rows order index expected) \<and>
      (ok \<longrightarrow> field_upd rows (block order index) (\<not> expected) rows') \<and> (\<not> ok \<longrightarrow> rows' = rows)" if o6: "order \<le> 6"
  proof -
    have fit: "b + 2 ^ order \<le> 64" using aligned_split(2) [OF o6 assms(3)] by (simp add: b_def)
    define m :: u64 where "m = push_bit b (drop_bit (64 - 2 ^ order) (-1))"
    note tog = row_toggle_exact [OF toggle_mask [OF o6 fit, folded m_def] fit, where v = "rows ! r" and expected = expected]
    have "(ok, rows') = (case row_toggle m expected (rows ! r) of Some v \<Rightarrow> (True, rows[r := v]) | None \<Rightarrow> (False, rows))"
      using assms(5) pow_le_64 [OF o6] by (simp add: field_toggle_def pos LLFREE_ATOMIC_SIZE_def m_def split: if_splits)
    then show ?thesis
      using tog block_is_row [OF fit, of rows r expected] r8 len fit
      by (auto simp: idx split: option.splits intro!: row_update)
  qed
  have big: "(ok \<longleftrightarrow> block_is rows order index expected) \<and>
      (ok \<longrightarrow> field_upd rows (block order index) (\<not> expected) rows')" if o6: "\<not> order \<le> 6"
  proof -
    have "order = 7 \<or> order = 8 \<or> order = 9" using o6 assms(2) by auto
    then obtain n where n: "2 ^ order = 64 * n" "\<not> 2 ^ order \<le> (64 :: nat)" "n dvd 8" "(1 :: nat) < n" by auto
    have "64 dvd (2 :: nat) ^ order" by (simp only: n(1)) simp
    then have "64 dvd index" using assms(3) by (rule dvd_trans)
    then have b: "b = 0" by (simp add: b_def)
    then have b0: "index = 64 * r" using idx by simp
    have "64 * n dvd 64 * r" using assms(3) unfolding n(1) b0 .
    then obtain k where k: "r = n * k" by (auto elim: dvdE)
    from n(3) obtain j where j: "8 = n * j" by (elim dvdE)
    with k r8 have "k < j" by simp
    then have "n * Suc k \<le> n * j" by (intro mult_le_mono2) simp
    then have fits: "r + n \<le> length rows" using j k len by simp
    have eq: "toggle_rows r n (if expected then -1 else 0) 0 rows = (ok, rows')"
      using assms(5) n by (simp add: field_toggle_def pos LLFREE_ATOMIC_SIZE_def)
    note spec = toggle_rows_spec [OF fits _ eq]
    have "ok \<longleftrightarrow> block_is rows order index expected"
      using spec(1) block_rows [OF n(1), of r rows expected] b0 by (simp add: block_is_def)
    moreover have "field_upd rows (block order index) (\<not> expected) rows'" if ok
      unfolding b0 using spec(2) that by (intro rows_update [OF n(1)]) auto
    ultimately show ?thesis by blast
  qed
  show "ok \<longleftrightarrow> block_is rows order index expected" using small big by (cases "order \<le> 6") auto
  show "ok \<Longrightarrow> field_upd rows (block order index) (\<not> expected) rows'" using small big by (cases "order \<le> 6") auto
  show "\<not> ok \<Longrightarrow> order \<le> 6 \<Longrightarrow> rows' = rows" using small by auto
qed

section \<open>Counting\<close>

definition set_bits_of :: "bitfield \<Rightarrow> nat set" where
  "set_bits_of rows = {i. i < 64 * length rows \<and> fbit rows i}"

lemma finite_set_bits_of [simp]: "finite (set_bits_of rows)"
  by (simp add: set_bits_of_def)

lemma count_ones_card: "count_ones v = card {i. i < 64 \<and> bit v i}"
proof -
  have "count_ones v = card (set (filter (bit v) [0..<64]))"
    unfolding count_ones_def by (rule distinct_card [symmetric]) simp
  also have "set (filter (bit v) [0..<64]) = {i. i < 64 \<and> bit v i}" by auto
  finally show ?thesis .
qed

lemma field_count_ones_card: "field_count_ones rows = card (set_bits_of rows)"
proof (induction rows)
  case (Cons v rows)
  have shift: "(64 + k) div 64 = Suc (k div 64)" for k :: nat by simp
  have "set_bits_of (v # rows) = {i. i < 64 \<and> bit v i} \<union> (\<lambda>i. 64 + i) ` set_bits_of rows" (is "_ = ?A \<union> ?B")
  proof (intro set_eqI iffI)
    fix i assume i: "i \<in> set_bits_of (v # rows)"
    show "i \<in> ?A \<union> ?B"
    proof (cases "i < 64")
      case False
      then obtain k where k: "i = 64 + k" by (metis le_Suc_ex not_less)
      with i have "k \<in> set_bits_of rows" by (simp add: set_bits_of_def fbit_def shift)
      with k show ?thesis by blast
    qed (use i in \<open>auto simp: set_bits_of_def fbit_def\<close>)
  qed (auto simp: set_bits_of_def fbit_def shift)
  moreover have "?A \<inter> ?B = {}" by auto
  ultimately have "card (set_bits_of (v # rows)) = card ?A + card ?B" by (simp add: card_Un_disjoint)
  also have "card ?B = card (set_bits_of rows)" by (rule card_image) (simp add: inj_on_def)
  finally show ?case using Cons by (simp add: field_count_ones_def count_ones_card)
qed (simp add: field_count_ones_def set_bits_of_def)

lemma card_block [simp]: "card (block order p) = 2 ^ order" "finite (block order p)"
  by (simp_all add: block_def)

lemma field_is_free_fbit: "index < 512 \<Longrightarrow> field_is_free index rows \<longleftrightarrow> \<not> fbit rows index"
proof -
  assume "index < 512"
  then have "field_is_free index rows \<longleftrightarrow> rows ! (index div 64) AND mask_bit (index mod 64) = 0"
    by (simp add: field_is_free_def get_pos_def field_consts mask_bit_def)
  also have "\<dots> \<longleftrightarrow> \<not> fbit rows index"
    using word64_nonzero_bit [of "rows ! (index div 64) AND mask_bit (index mod 64)"]
    by (auto simp: fbit_def bit_and_iff)
  finally show ?thesis .
qed

lemma field_upd_set:
  assumes "field_ok rows" "field_upd rows (block order p) True rows'" "p + 2 ^ order \<le> 512"
  shows "field_ok rows'" "set_bits_of rows' = set_bits_of rows \<union> block order p"
  using assms by (auto simp: field_upd_def field_ok_def set_bits_of_def block_def split: if_splits)

lemma field_upd_clear:
  assumes "field_ok rows" "field_upd rows (block order p) False rows'"
  shows "field_ok rows'" "set_bits_of rows' = set_bits_of rows - block order p"
  using assms by (auto simp: field_upd_def field_ok_def set_bits_of_def split: if_splits)

text \<open>
  C21: The word tricks are exact. For every row and every order up to 6, \<open>first_zeros_aligned\<close> claims the first
  aligned block of \<open>2 ^ order\<close> zero bits by setting exactly those bits, and fails only when the row has no such
  block.
\<close>

theorem first_zeros_aligned_exact:
  assumes "order \<le> 6"
  shows "case first_zeros_aligned order v of
       None \<Rightarrow> \<forall>p < 64. 2 ^ order dvd p \<longrightarrow> (\<exists>i < 2 ^ order. bit v (p + i))
     | Some (p, v') \<Rightarrow>
         p + 2 ^ order \<le> 64 \<and> 2 ^ order dvd p \<and> (\<forall>i < 2 ^ order. \<not> bit v (p + i)) \<and>
         (\<forall>q < p. 2 ^ order dvd q \<longrightarrow> (\<exists>i < 2 ^ order. bit v (q + i))) \<and>
         (\<forall>i < 64. bit v' i \<longleftrightarrow> p \<le> i \<and> i < p + 2 ^ order \<or> bit v i)"
proof (cases "zeros_pos order v < 64")
  case True
  with zeros_pos_finds [OF assms, of v] block_in_row [OF assms, of "zeros_pos order v"] show ?thesis
    by (auto simp: first_zeros_aligned_def finds_block_def block_free_def bit_or_iff bit_block_mask Let_def)
      (metis not_less order_less_trans)
next
  case False
  with zeros_pos_finds [OF assms, of v] show ?thesis
    by (auto simp: first_zeros_aligned_def finds_block_def block_free_def Let_def)
qed

theorem first_zeros_aligned_exact_witness:
  "first_zeros_aligned 3 0x0001000000000110 = Some (16, 0x0001000000ff0110) \<and>
   (\<exists>i < 8. bit (0x0001000000000110 :: u64) (0 + i)) \<and> (\<exists>i < 8. bit (0x0001000000000110 :: u64) (8 + i))"
proof -
  define v :: u64 where "v = 0x0001000000000110"
  have some: "first_zeros_aligned 3 v = Some (16, 0x0001000000ff0110)" unfolding v_def by code_simp
  with first_zeros_aligned_exact [of 3 v] have "\<forall>q < 16. 8 dvd q \<longrightarrow> (\<exists>i < 8. bit v (q + i))" by simp
  from spec [OF this, of 0] spec [OF this, of 8] some show ?thesis unfolding v_def [symmetric] by simp
qed

end
