(* ===== verification/Lower.thy ===== *)
theory Lower
  imports Bitfield
begin

text \<open>
  The lower allocator of the physical memory manager, \<open>src/kernel/mm/lower.c\<close> and \<open>src/kernel/mm/child.c\<close>: for
  every 512 frames a bit field and a child entry with the number of free frames and a flag for a huge frame; eight
  children form a tree. Every call runs to completion, and frame numbers, which are far below the width of the
  machine words, are natural numbers; the counters of the children keep their 15 and 16 bits.

  The contract is the set of free frames. The lemmas show that an allocation takes one aligned free block out of
  the set or changes nothing, that freeing an allocated block puts exactly its frames back, and that blocks handed
  out never overlap.
\<close>

section \<open>Data\<close>

definition LLFREE_HUGE_ORDER :: nat where "LLFREE_HUGE_ORDER = 9"
definition LLFREE_TREE_CHILDREN :: nat where "LLFREE_TREE_CHILDREN = 8"
definition LLFREE_TREE_SIZE :: nat where "LLFREE_TREE_SIZE = 4096"
definition LLFREE_TREE_ORDER :: nat where "LLFREE_TREE_ORDER = 12"

lemmas lower_consts = LLFREE_HUGE_ORDER_def LLFREE_TREE_CHILDREN_def LLFREE_TREE_SIZE_def field_consts

datatype ll_err = LLFREE_ERR_OK | LLFREE_ERR_MEMORY | LLFREE_ERR_ARGUMENT | LLFREE_ERR_INIT

text \<open>The result of an allocation: the frame, or an error.\<close>

datatype ll_result = Frame nat | Fail ll_err

record child =
  c_free :: nat
  c_huge :: bool

record lower =
  lo_frames :: nat
  lo_fields :: "bitfield list"
  lo_children :: "child list"

definition child_new :: "nat \<Rightarrow> bool \<Rightarrow> child" where
  "child_new free huge = \<lparr>c_free = free, c_huge = huge\<rparr>"

definition child_inc :: "nat \<Rightarrow> child \<Rightarrow> child option" where
  "child_inc order c =
     (let num_pages = 2 ^ order mod 2 ^ 16 in
      if c_huge c \<or> LLFREE_CHILD_SIZE < (c_free c + num_pages) mod 2 ^ 16 then None
      else Some (c\<lparr>c_free := (c_free c + num_pages) mod 2 ^ 15\<rparr>))"

definition child_dec :: "nat \<Rightarrow> child \<Rightarrow> child option" where
  "child_dec order c =
     (let num_pages = 2 ^ order mod 2 ^ 16 in
      if \<not> c_huge c \<and> num_pages \<le> c_free c then Some (c\<lparr>c_free := c_free c - num_pages\<rparr>) else None)"

definition div_ceil :: "nat \<Rightarrow> nat \<Rightarrow> nat" where
  "div_ceil a b = (a + b - 1) div b"

text \<open>\<open>align_down\<close> and \<open>align_up\<close> for a power of two.\<close>

definition align_down :: "nat \<Rightarrow> nat \<Rightarrow> nat" where
  "align_down val align = val - val mod align"

definition align_up :: "nat \<Rightarrow> nat \<Rightarrow> nat" where
  "align_up val align = align_down (val + align - 1) align"

definition child_count :: "lower \<Rightarrow> nat" where
  "child_count L = div_ceil (lo_frames L) LLFREE_CHILD_SIZE"

definition children_count :: "lower \<Rightarrow> nat" where
  "children_count L = div_ceil (child_count L) LLFREE_TREE_CHILDREN"

text \<open>Entry \<open>i\<close> of the children of all trees.\<close>

definition get_child :: "lower \<Rightarrow> nat \<Rightarrow> child" where
  "get_child L i = lo_children L ! i"

definition set_child :: "nat \<Rightarrow> child \<Rightarrow> lower \<Rightarrow> lower" where
  "set_child i c L = L\<lparr>lo_children := (lo_children L)[i := c]\<rparr>"

definition set_field :: "nat \<Rightarrow> bitfield \<Rightarrow> lower \<Rightarrow> lower" where
  "set_field i f L = L\<lparr>lo_fields := (lo_fields L)[i := f]\<rparr>"

definition child_from_frame :: "nat \<Rightarrow> nat" where
  "child_from_frame frame = frame div LLFREE_CHILD_SIZE"

definition frame_from_child :: "nat \<Rightarrow> nat" where
  "frame_from_child c = c * LLFREE_CHILD_SIZE"

section \<open>Initialisation\<close>

fun init_rows :: "nat \<Rightarrow> nat \<Rightarrow> bitfield" where
  "init_rows 0 free = []"
| "init_rows (Suc n) free =
     (if LLFREE_ATOMIC_SIZE \<le> free then 0 # init_rows n (free - LLFREE_ATOMIC_SIZE)
      else if 0 < free then push_bit free (-1) # init_rows n 0
      else (-1) # init_rows n 0)"

definition init_field :: "nat \<Rightarrow> bitfield" where
  "init_field free = init_rows FIELD_N free"

definition zero_field :: bitfield where
  "zero_field = replicate FIELD_N 0"

definition lower_clear :: "bool \<Rightarrow> lower \<Rightarrow> lower" where
  "lower_clear free_all L =
     (let child_c = child_count L;
          free = (\<lambda>i. if free_all then min LLFREE_CHILD_SIZE (lo_frames L - i * LLFREE_CHILD_SIZE) else 0)
      in L\<lparr>lo_children := map (\<lambda>i. child_new (free i) (free i = 0)) [0..<child_c] @
             replicate (align_up child_c LLFREE_TREE_CHILDREN - child_c) (child_new 0 True),
           lo_fields := map (\<lambda>i. if free i = 0 then zero_field else init_field (free i)) [0..<child_c]\<rparr>)"

definition lower_recover :: "lower \<Rightarrow> lower" where
  "lower_recover L =
     fold (\<lambda>i L.
       if c_huge (get_child L i) then set_field i field_init (set_child i (child_new 0 True) L)
       else set_child i (child_new (LLFREE_CHILD_SIZE - field_count_ones (lo_fields L ! i)) False) L)
       [0..<child_count L] L"

datatype init_mode = LLFREE_INIT_FREE | LLFREE_INIT_ALLOC | LLFREE_INIT_RECOVER | LLFREE_INIT_NONE
  | LLFREE_INIT_OTHER nat

text \<open>\<open>lower_init\<close> on the fields and children that are in the metadata memory.\<close>

definition lower_init :: "nat \<Rightarrow> init_mode \<Rightarrow> bitfield list \<Rightarrow> child list \<Rightarrow> ll_err \<times> lower" where
  "lower_init frames init fs cs =
     (let L = \<lparr>lo_frames = frames, lo_fields = fs, lo_children = cs\<rparr> in
      case init of
        LLFREE_INIT_FREE \<Rightarrow> (LLFREE_ERR_OK, lower_clear True L)
      | LLFREE_INIT_ALLOC \<Rightarrow> (LLFREE_ERR_OK, lower_clear False L)
      | LLFREE_INIT_NONE \<Rightarrow> (LLFREE_ERR_OK, L)
      | LLFREE_INIT_RECOVER \<Rightarrow> (LLFREE_ERR_OK, lower_recover L)
      | LLFREE_INIT_OTHER v \<Rightarrow> (LLFREE_ERR_INIT, L))"

section \<open>Allocation\<close>

text \<open>
  \<open>try_update_huge_n\<close> from its \<open>j\<close>-th child on. When a child does not have the expected value, the loop over \<open>k\<close>
  exchanges the children \<open>base_idx + (j - k)\<close> back.
\<close>

function update_huge :: "nat \<Rightarrow> nat \<Rightarrow> nat \<Rightarrow> child \<Rightarrow> child \<Rightarrow> child list \<Rightarrow> bool \<times> child list" where
  "update_huge base h_num j expected desired cs =
     (if j < h_num then
        if cs ! (base + j) = expected then update_huge base h_num (Suc j) expected desired (cs[base + j := desired])
        else
          (False,
           fold (\<lambda>k cs. if cs ! (base + (j - k)) = desired then cs[base + (j - k) := expected] else cs) [0..<j] cs)
      else (True, cs))"
  by pat_completeness auto
termination
  by (relation "measure (\<lambda>(base, h_num, j, expected, desired, cs). h_num - j)") auto

declare update_huge.simps [simp del]

definition try_update_huge_n :: "nat \<Rightarrow> nat \<Rightarrow> child \<Rightarrow> child \<Rightarrow> lower \<Rightarrow> bool \<times> lower" where
  "try_update_huge_n base_idx h_num expected desired L =
     (let (ok, cs) = update_huge base_idx h_num 0 expected desired (lo_children L) in (ok, L\<lparr>lo_children := cs\<rparr>))"

text \<open>The undo of a counter that was decremented.\<close>

definition undo_dec :: "nat \<Rightarrow> nat \<Rightarrow> lower \<Rightarrow> lower" where
  "undo_dec i order L =
     (case child_inc order (get_child L i) of None \<Rightarrow> L | Some c \<Rightarrow> set_child i c L)"

definition lower_get_at :: "nat \<Rightarrow> nat \<Rightarrow> lower \<Rightarrow> ll_result \<times> lower" where
  "lower_get_at frame order L =
     (if lo_frames L < frame + 2 ^ order \<or> frame mod 2 ^ order \<noteq> 0 then (Fail LLFREE_ERR_ARGUMENT, L)
      else
        let i = child_from_frame frame in
        if LLFREE_HUGE_ORDER \<le> order then
          let (ok, L) = try_update_huge_n i (2 ^ (order - LLFREE_HUGE_ORDER)) (child_new LLFREE_CHILD_SIZE False)
                (child_new 0 True) L
          in (if ok then Frame frame else Fail LLFREE_ERR_MEMORY, L)
        else
          (case child_dec order (get_child L i) of
             None \<Rightarrow> (Fail LLFREE_ERR_MEMORY, L)
           | Some c \<Rightarrow>
               let L = set_child i c L;
                   (ok, f) = field_toggle (frame mod LLFREE_CHILD_SIZE) order False (lo_fields L ! i);
                   L = set_field i f L
               in if ok then (Frame frame, L) else (Fail LLFREE_ERR_MEMORY, undo_dec i order L)))"

text \<open>The loops of \<open>lower_get\<close> over the children of a tree.\<close>

fun get_huge_loop :: "nat \<Rightarrow> nat list \<Rightarrow> lower \<Rightarrow> ll_result \<times> lower" where
  "get_huge_loop h_num [] L = (Fail LLFREE_ERR_MEMORY, L)"
| "get_huge_loop h_num (c # cs) L =
     (let i = c * h_num;
          (ok, L) = try_update_huge_n i h_num (child_new LLFREE_CHILD_SIZE False) (child_new 0 True) L
      in if ok then (Frame (frame_from_child i), L) else get_huge_loop h_num cs L)"

fun get_small_loop :: "nat \<Rightarrow> nat \<Rightarrow> nat list \<Rightarrow> lower \<Rightarrow> ll_result \<times> lower" where
  "get_small_loop start order [] L = (Fail LLFREE_ERR_MEMORY, L)"
| "get_small_loop start order (i # is) L =
     (case child_dec order (get_child L i) of
        None \<Rightarrow> get_small_loop start order is L
      | Some c \<Rightarrow>
          let L = set_child i c L;
              (pos, f) = field_set_next start order (lo_fields L ! i);
              L = set_field i f L
          in case pos of
               Some p \<Rightarrow> (Frame (frame_from_child i + p), L)
             | None \<Rightarrow> get_small_loop start order is (undo_dec i order L))"

definition lower_get :: "nat \<Rightarrow> nat \<Rightarrow> nat option \<Rightarrow> lower \<Rightarrow> ll_result \<times> lower" where
  "lower_get start_frame order frame L =
     (case frame of
        Some f \<Rightarrow> lower_get_at f order L
      | None \<Rightarrow>
          let idx = child_from_frame start_frame in
          if LLFREE_HUGE_ORDER \<le> order then
            let h_num = 2 ^ (order - LLFREE_HUGE_ORDER); idx = align_down idx h_num
            in get_huge_loop h_num (for_offsetted (idx div h_num) (LLFREE_TREE_CHILDREN div h_num)) L
          else get_small_loop start_frame order (for_offsetted idx LLFREE_TREE_CHILDREN) L)"

section \<open>Freeing\<close>

definition split_huge :: "nat \<Rightarrow> lower \<Rightarrow> ll_err \<times> lower" where
  "split_huge i L =
     (let (ok, f) = field_toggle 0 LLFREE_CHILD_ORDER False (lo_fields L ! i); L = set_field i f L in
      if ok then (LLFREE_ERR_OK, set_child i (child_new 0 False) L)
      else if \<not> c_huge (get_child L i) then (LLFREE_ERR_OK, L)
      else (LLFREE_ERR_MEMORY, L))"

definition lower_put :: "nat \<Rightarrow> nat \<Rightarrow> lower \<Rightarrow> ll_err \<times> lower" where
  "lower_put frame order L =
     (if lo_frames L < frame + 2 ^ order \<or> frame mod 2 ^ order \<noteq> 0 then (LLFREE_ERR_ARGUMENT, L)
      else
        let i = child_from_frame frame in
        if LLFREE_HUGE_ORDER \<le> order then
          let h_num = 2 ^ (order - LLFREE_HUGE_ORDER); base_idx = align_down i h_num in
          if i \<noteq> base_idx then (LLFREE_ERR_ARGUMENT, L)
          else
            let (ok, L) = try_update_huge_n base_idx h_num (child_new 0 True) (child_new LLFREE_CHILD_SIZE False) L
            in (if ok then LLFREE_ERR_OK else LLFREE_ERR_ARGUMENT, L)
        else
          let (r, L) = (if c_huge (get_child L i) then split_huge i L else (LLFREE_ERR_OK, L)) in
          if r \<noteq> LLFREE_ERR_OK then (r, L)
          else
            let (ok, f) = field_toggle (frame mod LLFREE_CHILD_SIZE) order True (lo_fields L ! i);
                L = set_field i f L
            in if \<not> ok then (LLFREE_ERR_MEMORY, L) else (LLFREE_ERR_OK, undo_dec i order L))"

section \<open>Statistics\<close>

record ll_stats =
  st_free_frames :: nat
  st_free_huge :: nat
  st_free_trees :: nat

definition lower_stats :: "lower \<Rightarrow> ll_stats" where
  "lower_stats L =
     fold (\<lambda>i st.
       let cs = take LLFREE_TREE_CHILDREN (drop (i * LLFREE_TREE_CHILDREN) (lo_children L));
           free = sum_list (map c_free cs)
       in \<lparr>st_free_frames = st_free_frames st + free,
           st_free_huge = st_free_huge st + length (filter (\<lambda>c. c_free c = LLFREE_CHILD_SIZE) cs),
           st_free_trees = st_free_trees st + (if free = LLFREE_TREE_SIZE then 1 else 0)\<rparr>)
       [0..<children_count L] \<lparr>st_free_frames = 0, st_free_huge = 0, st_free_trees = 0\<rparr>"

definition lower_stats_at :: "nat \<Rightarrow> nat \<Rightarrow> lower \<Rightarrow> ll_stats" where
  "lower_stats_at frame order L =
     (let none = \<lparr>st_free_frames = 0, st_free_huge = 0, st_free_trees = 0\<rparr>;
          i = child_from_frame frame; c = get_child L i
      in if lo_frames L \<le> frame then none
         else if order = 0 then
           if c_free c = LLFREE_CHILD_SIZE then none\<lparr>st_free_frames := 1\<rparr>
           else if 0 < c_free c then
             none\<lparr>st_free_frames := of_bool (field_is_free (frame mod LLFREE_CHILD_SIZE) (lo_fields L ! i))\<rparr>
           else none
         else if order = LLFREE_HUGE_ORDER then
           none\<lparr>st_free_frames := c_free c, st_free_huge := of_bool (c_free c = LLFREE_CHILD_SIZE)\<rparr>
         else if order = LLFREE_TREE_ORDER then
           let start = align_down (frame div 2 ^ LLFREE_CHILD_ORDER) LLFREE_TREE_CHILDREN;
               cs = map (\<lambda>j. get_child L (start + j)) [0..<LLFREE_TREE_CHILDREN];
               free = sum_list (map c_free cs)
           in \<lparr>st_free_frames = free, st_free_huge = length (filter (\<lambda>c. c_free c = LLFREE_CHILD_SIZE) cs),
               st_free_trees = of_bool (free = LLFREE_TREE_SIZE)\<rparr>
         else none)"

section \<open>The set of free frames\<close>

definition child_free :: "child \<Rightarrow> bitfield \<Rightarrow> nat set" where
  "child_free c f = (if c_huge c then {} else {0..<512} - set_bits_of f)"

definition child_ok :: "nat \<Rightarrow> child \<Rightarrow> bitfield \<Rightarrow> bool" where
  "child_ok limit c f \<longleftrightarrow> field_ok f \<and> c_free c = card (child_free c f) \<and> child_free c f \<subseteq> {0..<limit} \<and>
     (c_huge c \<longrightarrow> set_bits_of f = {})"

definition low_inv :: "lower \<Rightarrow> bool" where
  "low_inv L \<longleftrightarrow> length (lo_fields L) = child_count L \<and>
     length (lo_children L) = align_up (child_count L) 8 \<and>
     (\<forall>i < child_count L. child_ok (lo_frames L - i * 512) (lo_children L ! i) (lo_fields L ! i)) \<and>
     (\<forall>i. child_count L \<le> i \<longrightarrow> i < length (lo_children L) \<longrightarrow> lo_children L ! i = child_new 0 True)"

definition free_set :: "lower \<Rightarrow> nat set" where
  "free_set L = {f. f div 512 < child_count L \<and>
     f mod 512 \<in> child_free (lo_children L ! (f div 512)) (lo_fields L ! (f div 512))}"

lemma child_count_pos: "i < child_count L \<longleftrightarrow> i * 512 < lo_frames L"
  using less_eq_div_iff_mult_less_eq [of 512 "Suc i" "lo_frames L + 512 - 1"]
  by (auto simp: child_count_def div_ceil_def LLFREE_CHILD_SIZE_def less_eq_Suc_le [of i])

lemma align_up_8: "n \<le> align_up n 8" "align_up n 8 mod 8 = 0" "align_up n 8 < n + 8"
proof -
  have eq: "align_up n 8 = 8 * ((n + 7) div 8)" by (simp add: align_up_def align_down_def minus_mod_eq_mult_div)
  have "n + 7 = 8 * ((n + 7) div 8) + (n + 7) mod 8" "(n + 7) mod 8 < 8" by simp_all
  then show "n \<le> align_up n 8" "align_up n 8 < n + 8" unfolding eq by linarith+
  show "align_up n 8 mod 8 = 0" by (simp add: eq)
qed

lemma set_bits_bound: "field_ok f \<Longrightarrow> set_bits_of f \<subseteq> {0..<512}"
  by (auto simp: set_bits_of_def field_ok_def)

lemma low_invD:
  assumes "low_inv L" "i < child_count L"
  shows "child_ok (lo_frames L - i * 512) (lo_children L ! i) (lo_fields L ! i)"
    "i < length (lo_children L)" "i < length (lo_fields L)"
  using assms align_up_8(1) [of "child_count L"] by (auto simp: low_inv_def)

lemma free_set_bound: "low_inv L \<Longrightarrow> free_set L \<subseteq> {0..<lo_frames L}"
proof
  fix f assume inv: "low_inv L" and "f \<in> free_set L"
  then have "f div 512 < child_count L" "f mod 512 \<in> child_free (lo_children L ! (f div 512)) (lo_fields L ! (f div 512))"
    by (auto simp: free_set_def)
  with low_invD(1) [OF inv] have "f mod 512 < lo_frames L - f div 512 * 512" unfolding child_ok_def by fastforce
  then have "f mod 512 + f div 512 * 512 < lo_frames L" by (simp only: less_diff_conv)
  moreover have "f mod 512 + f div 512 * 512 = f" by simp
  ultimately show "f \<in> {0..<lo_frames L}" by (simp only: atLeastLessThan_iff) simp
qed

text \<open>The frames of block \<open>p\<close> of child \<open>i\<close>.\<close>

lemma block_child:
  assumes "p + 2 ^ order \<le> 512"
  shows "f \<in> block order (512 * i + p) \<longleftrightarrow> f div 512 = i \<and> f mod 512 \<in> block order p"
proof
  assume f: "f \<in> block order (512 * i + p)"
  then have "512 * i \<le> f" "f < 512 * Suc i" using assms by (auto simp: block_def)
  then have "f div 512 = i" by (metis div_nat_eqI mult.commute)
  moreover have "f = 512 * (f div 512) + f mod 512" by simp
  ultimately show "f div 512 = i \<and> f mod 512 \<in> block order p" using f by (auto simp: block_def)
next
  assume f: "f div 512 = i \<and> f mod 512 \<in> block order p"
  moreover have "f = 512 * (f div 512) + f mod 512" by simp
  ultimately show "f \<in> block order (512 * i + p)" by (auto simp: block_def)
qed

text \<open>Replacing the entry and the field of one child.\<close>

definition upd_child :: "nat \<Rightarrow> child \<Rightarrow> bitfield \<Rightarrow> lower \<Rightarrow> lower" where
  "upd_child i c f L = set_field i f (set_child i c L)"

lemma upd_child_simps [simp]:
  "lo_frames (upd_child i c f L) = lo_frames L"
  "child_count (upd_child i c f L) = child_count L"
  "lo_children (upd_child i c f L) = (lo_children L)[i := c]"
  "lo_fields (upd_child i c f L) = (lo_fields L)[i := f]"
  by (simp_all add: upd_child_def set_field_def set_child_def child_count_def)

lemma upd_child_inv:
  assumes "low_inv L" "i < child_count L" "child_ok (lo_frames L - i * 512) c f"
  shows "low_inv (upd_child i c f L)"
  using assms low_invD(2,3) [OF assms(1,2)] by (auto simp: low_inv_def nth_list_update)

lemma upd_child_free:
  assumes "low_inv L" "i < child_count L"
  shows "free_set (upd_child i c f L) =
     {x \<in> free_set L. x div 512 \<noteq> i} \<union> {x. x div 512 = i \<and> x mod 512 \<in> child_free c f}"
  using low_invD(2,3) [OF assms] assms(2) by (auto simp: free_set_def nth_list_update split: if_splits)

lemma pow_less_9: "order < 9 \<Longrightarrow> 2 ^ order \<le> (256 :: nat)"
  using power_increasing [of order 8 "2 :: nat"] by simp

lemma child_dec_Some:
  assumes "order < 9"
  shows "child_dec order c = Some c' \<longleftrightarrow> \<not> c_huge c \<and> 2 ^ order \<le> c_free c \<and> c' = c\<lparr>c_free := c_free c - 2 ^ order\<rparr>"
  using pow_less_9 [OF assms] by (auto simp: child_dec_def Let_def)

lemma child_inc_Some:
  assumes "order < 9" "c_free c + 2 ^ order \<le> 512" "\<not> c_huge c"
  shows "child_inc order c = Some (c\<lparr>c_free := c_free c + 2 ^ order\<rparr>)"
  using pow_less_9 [OF assms(1)] assms(2,3) by (simp add: child_inc_def Let_def LLFREE_CHILD_SIZE_def)

section \<open>Allocation takes one free block\<close>

lemma child_free_finite [simp]: "finite (child_free c f)"
  by (simp add: child_free_def)

lemma child_free_card: "card (child_free c f) \<le> 512"
  using card_mono [of "{0..<512}" "child_free c f"] by (auto simp: child_free_def)

lemma block_clear_free:
  assumes "field_ok f" "\<not> c_huge c" "p + 2 ^ order \<le> 512"
  shows "block_clear f order p \<longleftrightarrow> block order p \<subseteq> child_free c f"
  using assms by (auto simp: block_clear_def child_free_def set_bits_of_def field_ok_def block_def)

lemma take_block:
  assumes ok: "child_ok limit c f" and small: "\<not> c_huge c" and fit: "p + 2 ^ order \<le> 512"
    and clear: "block_clear f order p" and upd: "field_upd f (block order p) True f'"
  shows "child_ok limit (c\<lparr>c_free := c_free c - 2 ^ order\<rparr>) f'"
    "child_free (c\<lparr>c_free := c_free c - 2 ^ order\<rparr>) f' = child_free c f - block order p"
    "block order p \<subseteq> child_free c f"
proof -
  have f: "field_ok f" using ok by (simp add: child_ok_def)
  note u = field_upd_set [OF f upd fit]
  show sub: "block order p \<subseteq> child_free c f" using block_clear_free [OF f small fit] clear by blast
  show eq: "child_free (c\<lparr>c_free := c_free c - 2 ^ order\<rparr>) f' = child_free c f - block order p"
    using u(2) small by (auto simp: child_free_def)
  have "card (child_free c f - block order p) = card (child_free c f) - 2 ^ order"
    using sub by (simp add: card_Diff_subset)
  then show "child_ok limit (c\<lparr>c_free := c_free c - 2 ^ order\<rparr>) f'"
    unfolding child_ok_def eq using ok u(1) small by (auto simp: child_ok_def)
qed

lemma give_block:
  assumes ok: "child_ok limit c f" and small: "\<not> c_huge c" and fit: "p + 2 ^ order \<le> min 512 limit"
    and full: "block_is f order p True" and upd: "field_upd f (block order p) False f'"
  shows "child_ok limit (c\<lparr>c_free := c_free c + 2 ^ order\<rparr>) f'"
    "child_free (c\<lparr>c_free := c_free c + 2 ^ order\<rparr>) f' = child_free c f \<union> block order p"
    "block order p \<inter> child_free c f = {}"
proof -
  have f: "field_ok f" using ok by (simp add: child_ok_def)
  note u = field_upd_clear [OF f upd]
  have sub: "block order p \<subseteq> {0..<512}" using fit by (auto simp: block_def)
  have "block order p \<subseteq> set_bits_of f"
    using full fit f by (auto simp: block_is_def set_bits_of_def field_ok_def block_def)
  then show dis: "block order p \<inter> child_free c f = {}" by (auto simp: child_free_def)
  show eq: "child_free (c\<lparr>c_free := c_free c + 2 ^ order\<rparr>) f' = child_free c f \<union> block order p"
    using u(2) small sub by (auto simp: child_free_def)
  have "card (child_free c f \<union> block order p) = card (child_free c f) + 2 ^ order"
    using dis by (subst card_Un_disjoint) auto
  moreover have "block order p \<subseteq> {0..<limit}" using fit by (auto simp: block_def)
  ultimately show "child_ok limit (c\<lparr>c_free := c_free c + 2 ^ order\<rparr>) f'"
    unfolding child_ok_def eq using ok u(1) small by (auto simp: child_ok_def)
qed

text \<open>The block of a child in the set of free frames.\<close>

lemma block_free_set:
  assumes "i < child_count L" "p + 2 ^ order \<le> 512"
  shows "block order (512 * i + p) \<subseteq> free_set L \<longleftrightarrow>
     block order p \<subseteq> child_free (lo_children L ! i) (lo_fields L ! i)"
proof -
  have "block order (512 * i + p) = (\<lambda>x. 512 * i + x) ` block order p"
    by (auto simp: block_def image_iff intro!: bexI [of _ "_ - 512 * i"])
  moreover have "(512 * i + x) div 512 = i" "(512 * i + x) mod 512 = x" if "x \<in> block order p" for x
    using that assms(2) by (auto simp: block_def)
  ultimately show ?thesis using assms(1) by (auto simp: free_set_def)
qed

lemma aligned_child:
  assumes "order \<le> 9" "2 ^ order dvd (f :: nat)"
  shows "2 ^ order dvd f mod 512" "f mod 512 + 2 ^ order \<le> 512"
proof -
  have d9: "(2 :: nat) ^ order dvd 2 ^ 9" using assms(1) by (rule le_imp_power_dvd)
  then show d: "2 ^ order dvd f mod 512" using assms(2) by (simp add: dvd_mod_iff)
  from d obtain k where k: "f mod 512 = 2 ^ order * k" by (elim dvdE)
  from d9 obtain j where j: "512 = (2 :: nat) ^ order * j" by (auto elim!: dvdE)
  have "f mod 512 < 512" by simp
  then have "2 ^ order * k < 2 ^ order * j" using k j by simp
  then have "2 ^ order * Suc k \<le> 2 ^ order * j" by (intro mult_le_mono2) simp
  then show "f mod 512 + 2 ^ order \<le> 512" using k j by simp
qed

text \<open>
  What an allocation among the children \<open>S\<close> does: it takes a free aligned block in one of them, or changes
  nothing because none of them has one.
\<close>

definition takes :: "nat \<Rightarrow> nat set \<Rightarrow> lower \<Rightarrow> ll_result \<times> lower \<Rightarrow> bool" where
  "takes order S L res \<longleftrightarrow>
     (case res of
        (Fail e, L') \<Rightarrow> e = LLFREE_ERR_MEMORY \<and> L' = L \<and>
          (\<forall>f. 2 ^ order dvd f \<longrightarrow> f div 512 \<in> S \<longrightarrow> \<not> block order f \<subseteq> free_set L)
      | (Frame f, L') \<Rightarrow> 2 ^ order dvd f \<and> f div 512 \<in> S \<and> block order f \<subseteq> free_set L \<and>
          free_set L' = free_set L - block order f \<and> lo_frames L' = lo_frames L \<and> low_inv L' \<and>
          (\<forall>j. j \<noteq> f div 512 \<longrightarrow> lo_children L' ! j = lo_children L ! j) \<and>
          (order = 9 \<longrightarrow> c_huge (lo_children L' ! (f div 512))))"

lemma take_in_child:
  assumes inv: "low_inv L" and i: "i < child_count L" and small: "\<not> c_huge (lo_children L ! i)" and o9: "order < 9"
    and p: "2 ^ order dvd p" "p + 2 ^ order \<le> 512" "block_clear (lo_fields L ! i) order p"
      "field_upd (lo_fields L ! i) (block order p) True f'" and S: "i \<in> S"
  defines "c \<equiv> lo_children L ! i"
  shows "takes order S L (Frame (512 * i + p), upd_child i (c\<lparr>c_free := c_free c - 2 ^ order\<rparr>) f' L)"
proof -
  note t = take_block [OF low_invD(1) [OF inv i] small p(2,3,4), folded c_def]
  define L' where "L' = upd_child i (c\<lparr>c_free := c_free c - 2 ^ order\<rparr>) f' L"
  have inv': "low_inv L'" unfolding L'_def by (rule upd_child_inv [OF inv i t(1)])
  have "(2 :: nat) ^ order dvd 2 ^ 9" using o9 by (intro le_imp_power_dvd) simp
  then have d: "2 ^ order dvd 512 * i + p" using p(1) by (auto intro: dvd_mult2)
  have p512: "p < 512" using p(2) zero_less_power [of "2 :: nat" order] by linarith
  have sub: "block order (512 * i + p) \<subseteq> free_set L" using block_free_set [OF i p(2)] t(3) by (simp add: c_def)
  have "free_set L' = free_set L - block order (512 * i + p)"
    unfolding L'_def upd_child_free [OF inv i] t(2) using i
    by (auto simp: block_child [OF p(2)] free_set_def c_def)
  then show ?thesis
    using d sub inv' p512 S o9 unfolding L'_def takes_def by simp
qed

lemma undo_dec_restores:
  assumes inv: "low_inv L" and i: "i < child_count L" and o9: "order < 9"
    and dec: "child_dec order (lo_children L ! i) = Some c"
  shows "undo_dec i order (set_field i (lo_fields L ! i) (set_child i c L)) = L"
proof -
  note len = low_invD [OF inv i]
  from dec have c: "\<not> c_huge (lo_children L ! i)" "2 ^ order \<le> c_free (lo_children L ! i)"
    "c = (lo_children L ! i)\<lparr>c_free := c_free (lo_children L ! i) - 2 ^ order\<rparr>"
    by (auto simp: child_dec_Some [OF o9])
  have "c_free (lo_children L ! i) \<le> 512" using len(1) child_free_card by (simp add: child_ok_def)
  then have "child_inc order c = Some (lo_children L ! i)"
    using c by (subst child_inc_Some [OF o9]) auto
  then show ?thesis using len
    by (simp add: undo_dec_def get_child_def set_field_def set_child_def)
qed

lemma no_block_in_child:
  assumes inv: "low_inv L" and i: "i < child_count L" and o9: "order < 9"
    and dec: "child_dec order (lo_children L ! i) = None" and p: "p + 2 ^ order \<le> 512"
  shows "\<not> block order (512 * i + p) \<subseteq> free_set L"
proof
  assume "block order (512 * i + p) \<subseteq> free_set L"
  then have sub: "block order p \<subseteq> child_free (lo_children L ! i) (lo_fields L ! i)"
    using block_free_set [OF i p] by blast
  then have "2 ^ order \<le> card (child_free (lo_children L ! i) (lo_fields L ! i))"
    using card_mono [OF child_free_finite sub] by simp
  moreover have "block order p \<noteq> {}" by (simp add: block_def)
  with sub have "\<not> c_huge (lo_children L ! i)" by (auto simp: child_free_def)
  ultimately have "child_dec order (lo_children L ! i) \<noteq> None"
    using low_invD(1) [OF inv i] child_dec_Some [OF o9] by (auto simp: child_ok_def)
  with dec show False by simp
qed

text \<open>The children still to visit, when child \<open>i\<close> has no free block.\<close>

lemma none_extend:
  assumes order: "order \<le> 9"
    and none: "\<And>f. 2 ^ order dvd f \<Longrightarrow> f div 512 \<in> S - set (i # rest) \<Longrightarrow> \<not> block order f \<subseteq> free_set L"
    and none_i: "\<And>p. i < child_count L \<Longrightarrow> 2 ^ order dvd p \<Longrightarrow> p + 2 ^ order \<le> 512 \<Longrightarrow>
      \<not> block order (512 * i + p) \<subseteq> free_set L"
    and f: "2 ^ order dvd f" "f div 512 \<in> S - set rest"
  shows "\<not> block order f \<subseteq> free_set L"
proof (cases "f div 512 = i")
  case True
  note a = aligned_child [OF order f(1)]
  have eq: "512 * i + f mod 512 = f" using True by auto
  show ?thesis
  proof (cases "i < child_count L")
    case lt: True
    then show ?thesis using none_i [OF lt a] eq by simp
  next
    case False
    then have "f \<notin> free_set L" "f \<in> block order f" using True by (auto simp: free_set_def block_def)
    then show ?thesis by blast
  qed
qed (use f none in auto)

lemma usable_child:
  assumes "low_inv L" "i < length (lo_children L)" "\<not> c_huge (lo_children L ! i)"
  shows "i < child_count L"
proof (rule ccontr)
  assume "\<not> i < child_count L"
  with assms(1,2) have "lo_children L ! i = child_new 0 True" by (simp add: low_inv_def)
  with assms(3) show False by (simp add: child_new_def)
qed

lemma get_small_loop_takes:
  assumes inv: "low_inv L" and o9: "order < 9" and "is": "set is \<subseteq> S" "\<forall>i \<in> set is. i < length (lo_children L)"
    and none: "\<And>f. 2 ^ order dvd f \<Longrightarrow> f div 512 \<in> S - set is \<Longrightarrow> \<not> block order f \<subseteq> free_set L"
  shows "takes order S L (get_small_loop start order is L)"
  using "is" none
proof (induction "is")
  case Nil
  then show ?case by (simp add: takes_def)
next
  case (Cons i rest)
  have skip: "takes order S L (get_small_loop start order rest L)"
    if none_i: "\<And>p. i < child_count L \<Longrightarrow> 2 ^ order dvd p \<Longrightarrow> p + 2 ^ order \<le> 512 \<Longrightarrow> \<not> block order (512 * i + p) \<subseteq> free_set L"
    by (rule Cons.IH) (use Cons.prems none_extend [OF _ Cons.prems(3) none_i] o9 in auto)
  show ?case
  proof (cases "child_dec order (lo_children L ! i)")
    case None
    then show ?thesis using skip no_block_in_child [OF inv _ o9 None] by (simp add: get_child_def)
  next
    case (Some c)
    then have small: "\<not> c_huge (lo_children L ! i)"
      and c: "c = (lo_children L ! i)\<lparr>c_free := c_free (lo_children L ! i) - 2 ^ order\<rparr>"
      by (auto simp: child_dec_Some [OF o9])
    have i: "i < child_count L" by (rule usable_child [OF inv _ small]) (use Cons.prems(2) in simp)
    obtain pos f' where r: "field_set_next start order (lo_fields L ! i) = (pos, f')" by fastforce
    have fok: "field_ok (lo_fields L ! i)" using low_invD(1) [OF inv i] by (simp add: child_ok_def)
    have claims: "claims order (lo_fields L ! i) (pos, f')"
      using field_set_next_claims [OF fok o9, of start] r by simp
    show ?thesis
    proof (cases pos)
      case None
      from claims None have "f' = lo_fields L ! i"
        and no: "\<And>p. p + 2 ^ order \<le> 512 \<Longrightarrow> 2 ^ order dvd p \<Longrightarrow> \<not> block_clear (lo_fields L ! i) order p"
        by (auto simp: claims_def)
      then have "get_small_loop start order (i # rest) L = get_small_loop start order rest L"
        using Some r None undo_dec_restores [OF inv i o9 Some]
        by (simp add: get_child_def Let_def set_child_def set_field_def)
      moreover have "\<not> block order (512 * i + p) \<subseteq> free_set L" if "2 ^ order dvd p" "p + 2 ^ order \<le> 512" for p
        using no [OF that(2,1)] block_free_set [OF i that(2)] block_clear_free [OF fok small that(2)] by blast
      ultimately show ?thesis using skip by simp
    next
      case (Some p)
      with claims have p: "2 ^ order dvd p" "p + 2 ^ order \<le> 512" "block_clear (lo_fields L ! i) order p"
        "field_upd (lo_fields L ! i) (block order p) True f'" by (auto simp: claims_def)
      have "get_small_loop start order (i # rest) L = (Frame (512 * i + p), upd_child i c f' L)"
        using \<open>child_dec order (lo_children L ! i) = Some c\<close> r Some
        by (simp add: get_child_def Let_def set_child_def set_field_def upd_child_def frame_from_child_def LLFREE_CHILD_SIZE_def mult.commute)
      then show ?thesis
        using take_in_child [OF inv i small o9 p, of S] Cons.prems(1) c by simp
    qed
  qed
qed

lemma child_full:
  assumes ok: "child_ok limit c f" and c: "c = child_new 512 False"
  shows "child_free c f = {0..<512}" "set_bits_of f = {}"
proof -
  have "card (child_free c f) = card {0..<512 :: nat}" using ok by (simp add: child_ok_def c child_new_def)
  moreover have sub: "child_free c f \<subseteq> {0..<512}" by (auto simp: child_free_def)
  ultimately show all: "child_free c f = {0..<512}" by (intro card_subset_eq) auto
  show "set_bits_of f = {}"
    using all set_bits_bound [of f] ok by (auto simp: child_free_def c child_new_def child_ok_def)
qed

lemma get_huge_child:
  assumes inv: "low_inv L" and i: "i < length (lo_children L)"
  shows "try_update_huge_n i 1 (child_new 512 False) (child_new 0 True) L =
      (if lo_children L ! i = child_new 512 False then (True, set_child i (child_new 0 True) L) else (False, L))"
  by (simp add: try_update_huge_n_def set_child_def update_huge.simps)

lemma take_huge_child:
  assumes inv: "low_inv L" and i: "i < child_count L" and c: "lo_children L ! i = child_new 512 False" and S: "i \<in> S"
  shows "takes 9 S L (Frame (512 * i), set_child i (child_new 0 True) L)"
proof -
  note len = low_invD [OF inv i]
  note full = child_full [OF len(1) c]
  define L' where "L' = set_child i (child_new 0 True) L"
  have upd: "L' = upd_child i (child_new 0 True) (lo_fields L ! i) L"
    using len by (simp add: L'_def upd_child_def set_field_def set_child_def)
  have "child_ok (lo_frames L - i * 512) (child_new 0 True) (lo_fields L ! i)"
    using len(1) full(2) by (simp add: child_ok_def child_free_def child_new_def)
  then have inv': "low_inv L'" unfolding upd by (rule upd_child_inv [OF inv i])
  have "x \<in> block 9 (512 * i) \<longleftrightarrow> x div 512 = i" for x
    using block_child [of 0 9 x i] by (simp add: block_def)
  then have blk: "block 9 (512 * i) = {x. x div 512 = i}" by blast
  have "free_set L' = free_set L - block 9 (512 * i)"
    unfolding upd upd_child_free [OF inv i] by (auto simp: blk child_free_def child_new_def)
  moreover have "block 9 (512 * i) \<subseteq> free_set L"
    using block_free_set [OF i, of 0 9] full(1) by (simp add: block_def)
  ultimately show ?thesis
    using inv' S len unfolding L'_def by (simp add: takes_def set_child_def child_new_def nth_list_update)
qed

lemma no_huge_block:
  assumes inv: "low_inv L" and i: "i < child_count L" and c: "lo_children L ! i \<noteq> child_new 512 False"
  shows "\<not> block 9 (512 * i) \<subseteq> free_set L"
proof
  assume "block 9 (512 * i) \<subseteq> free_set L"
  then have "block 9 0 \<subseteq> child_free (lo_children L ! i) (lo_fields L ! i)"
    using block_free_set [OF i, of 0 9] by simp
  then have "child_free (lo_children L ! i) (lo_fields L ! i) = {0..<512}"
    by (auto simp: block_def child_free_def split: if_splits)
  then have "lo_children L ! i = child_new 512 False"
    using low_invD(1) [OF inv i]
    by (cases "lo_children L ! i") (auto simp: child_ok_def child_new_def child_free_def split: if_splits)
  with c show False by simp
qed

lemma get_huge_loop_takes:
  assumes inv: "low_inv L" and "is": "set is \<subseteq> S" "\<forall>i \<in> set is. i < length (lo_children L)"
    and none: "\<And>f. 2 ^ 9 dvd f \<Longrightarrow> f div 512 \<in> S - set is \<Longrightarrow> \<not> block 9 f \<subseteq> free_set L"
  shows "takes 9 S L (get_huge_loop 1 is L)"
  using "is" none
proof (induction "is")
  case Nil
  then show ?case by (simp add: takes_def)
next
  case (Cons i rest)
  have upd: "try_update_huge_n i 1 (child_new 512 False) (child_new 0 True) L =
      (if lo_children L ! i = child_new 512 False then (True, set_child i (child_new 0 True) L) else (False, L))"
    by (rule get_huge_child [OF inv]) (use Cons.prems in simp)
  show ?case
  proof (cases "lo_children L ! i = child_new 512 False")
    case True
    then have "i < child_count L"
      using usable_child [OF inv, of i] Cons.prems(2) by (simp add: child_new_def)
    then have "takes 9 S L (Frame (512 * i), set_child i (child_new 0 True) L)"
      by (rule take_huge_child [OF inv _ True]) (use Cons.prems(1) in simp)
    then show ?thesis using upd True by (simp add: frame_from_child_def LLFREE_CHILD_SIZE_def mult.commute)
  next
    case False
    have "takes 9 S L (get_huge_loop 1 rest L)"
      by (rule Cons.IH) (use Cons.prems none_extend [OF _ Cons.prems(3)] no_huge_block [OF inv _ False] in auto)
    then show ?thesis using upd False by (simp add: LLFREE_CHILD_SIZE_def)
  qed
qed

text \<open>The children of the tree of a frame.\<close>

definition tree_children :: "nat \<Rightarrow> nat set" where
  "tree_children f = {i. i div 8 = f div 4096}"

lemma tree_visit: "set (for_offsetted (start div 512) 8) = tree_children start"
proof -
  define t where "t = start div 4096"
  have "start div 512 - start div 512 mod 8 = 8 * t"
    by (simp add: t_def minus_mod_eq_mult_div div_mult2_eq [symmetric])
  then have "set (for_offsetted (start div 512) 8) = {8 * t..<8 * t + 8}" by (simp add: set_for_offsetted)
  also have "\<dots> = tree_children start" unfolding tree_children_def t_def by auto
  finally show ?thesis .
qed

lemma tree_in_range:
  assumes "low_inv L" "start < lo_frames L" "i \<in> tree_children start"
  shows "i < length (lo_children L)"
proof -
  define n where "n = length (lo_children L)"
  have "start div 512 < child_count L"
    using assms(2) div_times_less_eq_dividend [of start 512] by (simp only: child_count_pos)
  then have lt: "start div 512 < n" and n8: "n mod 8 = 0"
    using assms(1) align_up_8 [of "child_count L"] by (auto simp: low_inv_def n_def)
  have "start div 512 div 8 = i div 8" using assms(3) by (simp add: tree_children_def div_mult2_eq [symmetric])
  moreover obtain k where k: "n = 8 * k" using n8 by (auto elim!: dvdE simp: mod_eq_0_iff_dvd)
  ultimately have "i div 8 < k" using lt by (metis div_less_iff_less_mult mult.commute zero_less_numeral)
  then show ?thesis using k by (simp add: n_def [symmetric])
qed

lemma lower_get_takes:
  assumes inv: "low_inv L" and start: "start < lo_frames L" and order: "order \<le> 9"
  shows "takes order (tree_children start) L (lower_get start order None L)"
proof (cases "order = 9")
  case True
  have "lower_get start order None L = get_huge_loop 1 (for_offsetted (start div 512) 8) L"
    by (simp add: lower_get_def True lower_consts child_from_frame_def align_down_def Let_def)
  then show ?thesis
    using get_huge_loop_takes [OF inv, of "for_offsetted (start div 512) 8" "tree_children start"]
      tree_visit [of start] tree_in_range [OF inv start] True by simp
next
  case False
  then have "lower_get start order None L = get_small_loop start order (for_offsetted (start div 512) 8) L"
    using order by (simp add: lower_get_def lower_consts child_from_frame_def Let_def)
  then show ?thesis
    using get_small_loop_takes [OF inv, of order "for_offsetted (start div 512) 8" "tree_children start"]
      tree_visit [of start] tree_in_range [OF inv start] order False by simp
qed

section \<open>Freeing puts one block back\<close>

definition gives :: "nat \<Rightarrow> nat \<Rightarrow> lower \<Rightarrow> ll_err \<times> lower \<Rightarrow> bool" where
  "gives order f L res \<longleftrightarrow>
     (case res of (e, L') \<Rightarrow>
        e = LLFREE_ERR_OK \<and> free_set L' = free_set L \<union> block order f \<and> lo_frames L' = lo_frames L \<and> low_inv L' \<and>
        (\<forall>j. j \<noteq> f div 512 \<longrightarrow> lo_children L' ! j = lo_children L ! j))"

lemma block_taken:
  assumes inv: "low_inv L" and i: "i < child_count L" and small: "\<not> c_huge (lo_children L ! i)"
    and p: "p + 2 ^ order \<le> 512"
  shows "block order (512 * i + p) \<inter> free_set L = {} \<longleftrightarrow> block_is (lo_fields L ! i) order p True"
proof -
  have f: "field_ok (lo_fields L ! i)" using low_invD(1) [OF inv i] by (simp add: child_ok_def)
  have eq: "block order (512 * i + p) = (\<lambda>x. 512 * i + x) ` block order p"
    by (auto simp: block_def image_iff intro!: bexI [of _ "_ - 512 * i"])
  have "512 * i + x \<in> free_set L \<longleftrightarrow> \<not> fbit (lo_fields L ! i) x" if "x \<in> block order p" for x
  proof -
    have x: "(512 * i + x) div 512 = i" "(512 * i + x) mod 512 = x" "x < 512"
      using that p by (auto simp: block_def)
    show ?thesis using x(3) i small f unfolding free_set_def mem_Collect_eq x(1,2)
      by (auto simp: child_free_def set_bits_of_def field_ok_def)
  qed
  then show ?thesis unfolding eq block_is_def by auto
qed

lemma put_small_gives:
  assumes inv: "low_inv L" and i: "i < child_count L" and small: "\<not> c_huge (lo_children L ! i)" and o9: "order < 9"
    and f: "2 ^ order dvd f" "f + 2 ^ order \<le> lo_frames L" "i = f div 512"
    and taken: "block order f \<inter> free_set L = {}"
    and tog: "field_toggle (f mod 512) order True (lo_fields L ! i) = (ok, f')"
  shows "ok \<and> gives order f L (LLFREE_ERR_OK, undo_dec i order (set_field i f' L))"
proof -
  define p c where "p = f mod 512" and "c = lo_children L ! i"
  have p: "2 ^ order dvd p" "p + 2 ^ order \<le> 512" using aligned_child [OF _ f(1)] o9 by (auto simp: p_def)
  have eq: "512 * i + p = f" by (simp add: p_def f(3))
  note len = low_invD [OF inv i]
  have fok: "field_ok (lo_fields L ! i)" using len(1) by (simp add: child_ok_def)
  have full: "block_is (lo_fields L ! i) order p True"
    using block_taken [OF inv i small p(2)] taken by (simp add: eq)
  have p512: "p < 512" by (simp add: p_def)
  note t = field_toggle_spec [OF fok _ p(1) p512 tog [folded p_def]]
  have ok: ok using t(1) full o9 by simp
  have upd: "field_upd (lo_fields L ! i) (block order p) False f'" using t(2) ok o9 by simp
  have lim: "p + 2 ^ order \<le> min 512 (lo_frames L - i * 512)" using p(2) f(2) eq by auto
  note g = give_block [OF len(1) small lim full upd, folded c_def]
  have "c_free c + 2 ^ order \<le> 512"
    using g(1) child_free_card [of "c\<lparr>c_free := c_free c + 2 ^ order\<rparr>" f'] by (simp add: child_ok_def)
  then have "child_inc order c = Some (c\<lparr>c_free := c_free c + 2 ^ order\<rparr>)"
    using child_inc_Some [OF o9] small by (simp add: c_def)
  then have L': "undo_dec i order (set_field i f' L) = upd_child i (c\<lparr>c_free := c_free c + 2 ^ order\<rparr>) f' L"
    by (simp add: undo_dec_def get_child_def set_field_def set_child_def upd_child_def c_def)
  have "free_set (upd_child i (c\<lparr>c_free := c_free c + 2 ^ order\<rparr>) f' L) = free_set L \<union> block order f"
    unfolding upd_child_free [OF inv i] g(2) using i
    by (auto simp: eq [symmetric] block_child [OF p(2)] free_set_def c_def)
  then show ?thesis
    using ok upd_child_inv [OF inv i g(1)] f(3) unfolding L' gives_def by simp
qed

text \<open>Splitting a huge frame leaves the set of free frames as it is.\<close>

lemma split_huge_same:
  assumes inv: "low_inv L" and i: "i < child_count L" and huge: "c_huge (lo_children L ! i)"
  obtains L' where "split_huge i L = (LLFREE_ERR_OK, L')" "low_inv L'" "free_set L' = free_set L"
    "lo_frames L' = lo_frames L" "child_count L' = child_count L" "\<not> c_huge (lo_children L' ! i)"
    "\<forall>j. j \<noteq> i \<longrightarrow> lo_children L' ! j = lo_children L ! j"
proof -
  note len = low_invD [OF inv i]
  have f: "field_ok (lo_fields L ! i)" "set_bits_of (lo_fields L ! i) = {}"
    using len(1) huge by (auto simp: child_ok_def)
  obtain ok f' where tog: "field_toggle 0 9 False (lo_fields L ! i) = (ok, f')" by fastforce
  note t = field_toggle_spec [OF f(1) _ _ _ tog]
  have "block_is (lo_fields L ! i) 9 0 False"
    using f by (auto simp: block_is_def set_bits_of_def block_def field_ok_def)
  then have ok: ok using t(1) by simp
  have upd: "field_upd (lo_fields L ! i) (block 9 0) True f'" using t(2) ok by simp
  have f': "field_ok f'" "set_bits_of f' = {0..<512}"
    using field_upd_set [OF f(1) upd] f(2) by (simp_all add: block_def)
  define L' where "L' = upd_child i (child_new 0 False) f' L"
  have free: "child_free (child_new 0 False) f' = {}" by (simp add: child_free_def child_new_def f'(2))
  have cok: "child_ok (lo_frames L - i * 512) (child_new 0 False) f'"
    by (simp add: child_ok_def free f'(1)) (simp add: child_new_def)
  have "child_free (lo_children L ! i) (lo_fields L ! i) = {}" using huge by (simp add: child_free_def)
  then have same: "free_set L' = free_set L"
    unfolding L'_def upd_child_free [OF inv i] free by (auto simp: free_set_def)
  have "split_huge i L = (LLFREE_ERR_OK, L')"
    using tog ok by (simp add: split_huge_def LLFREE_CHILD_ORDER_def L'_def upd_child_def set_child_def set_field_def)
  then show ?thesis
    using that [of L'] upd_child_inv [OF inv i cok] same len by (simp add: L'_def child_new_def nth_list_update)
qed

lemma put_huge_gives:
  assumes inv: "low_inv L" and i: "i < child_count L" and huge: "c_huge (lo_children L ! i)"
    and lim: "512 * i + 512 \<le> lo_frames L"
  shows "gives 9 (512 * i) L (LLFREE_ERR_OK, set_child i (child_new 512 False) L)"
    "lo_children L ! i = child_new 0 True"
proof -
  note len = low_invD [OF inv i]
  have f: "field_ok (lo_fields L ! i)" "set_bits_of (lo_fields L ! i) = {}"
    using len(1) huge by (auto simp: child_ok_def)
  define L' where "L' = set_child i (child_new 512 False) L"
  have upd: "L' = upd_child i (child_new 512 False) (lo_fields L ! i) L"
    using len by (simp add: L'_def upd_child_def set_field_def set_child_def)
  have free: "child_free (child_new 512 False) (lo_fields L ! i) = {0..<512}"
    by (simp add: child_free_def child_new_def f(2))
  have cok: "child_ok (lo_frames L - i * 512) (child_new 512 False) (lo_fields L ! i)"
    using lim by (simp add: child_ok_def free f(1)) (auto simp: child_new_def)
  have "x \<in> block 9 (512 * i) \<longleftrightarrow> x div 512 = i" for x
    using block_child [of 0 9 x i] by (simp add: block_def)
  then have blk: "block 9 (512 * i) = {x. x div 512 = i}" by blast
  have "child_free (lo_children L ! i) (lo_fields L ! i) = {}" using huge by (simp add: child_free_def)
  then have "free_set L' = free_set L \<union> block 9 (512 * i)"
    unfolding upd upd_child_free [OF inv i] free blk by (auto simp: free_set_def)
  then show "gives 9 (512 * i) L (LLFREE_ERR_OK, set_child i (child_new 512 False) L)"
    using upd_child_inv [OF inv i cok] unfolding L'_def [symmetric] upd gives_def by simp
  show "lo_children L ! i = child_new 0 True"
    using len(1) huge by (cases "lo_children L ! i") (simp add: child_ok_def child_free_def child_new_def)
qed

lemma frame_child:
  assumes "low_inv L" "f + 2 ^ order \<le> lo_frames L"
  shows "f div 512 < child_count L"
proof -
  have "f div 512 * 512 \<le> f" by simp
  moreover have "0 < (2 :: nat) ^ order" by simp
  ultimately show ?thesis unfolding child_count_pos using assms(2) by linarith
qed

lemma lower_put_gives:
  assumes inv: "low_inv L" and order: "order \<le> 9" and f: "2 ^ order dvd f" "f + 2 ^ order \<le> lo_frames L"
    and taken: "block order f \<inter> free_set L = {}" and huge: "order = 9 \<Longrightarrow> c_huge (lo_children L ! (f div 512))"
  shows "gives order f L (lower_put f order L)"
proof -
  define i where "i = f div 512"
  have i: "i < child_count L" unfolding i_def by (rule frame_child [OF inv f(2)])
  have args: "\<not> (lo_frames L < f + 2 ^ order \<or> f mod 2 ^ order \<noteq> 0)" using f by simp
  show ?thesis
  proof (cases "order = 9")
    case True
    have fi: "f = 512 * i" using f(1) True by (auto simp: i_def)
    note h = put_huge_gives [OF inv i huge [OF True, folded i_def]]
    have "lower_put f order L = (LLFREE_ERR_OK, set_child i (child_new 512 False) L)"
      using args h(2) f(2) True fi
      by (simp add: lower_put_def lower_consts child_from_frame_def align_down_def try_update_huge_n_def
          update_huge.simps set_child_def)
    then show ?thesis using h(1) f(2) True fi by simp
  next
    case False
    then have o9: "order < 9" using order by simp
    have put: "gives order f L (lower_put f order L)"
      if L1: "(if c_huge (get_child L i) then split_huge i L else (LLFREE_ERR_OK, L)) = (LLFREE_ERR_OK, L1)" "low_inv L1"
        "free_set L1 = free_set L" "lo_frames L1 = lo_frames L" "child_count L1 = child_count L"
        "\<not> c_huge (lo_children L1 ! i)" "\<forall>j. j \<noteq> i \<longrightarrow> lo_children L1 ! j = lo_children L ! j" for L1
    proof -
      obtain ok f' where tog: "field_toggle (f mod 512) order True (lo_fields L1 ! i) = (ok, f')" by fastforce
      have g: "ok \<and> gives order f L1 (LLFREE_ERR_OK, undo_dec i order (set_field i f' L1))"
        by (rule put_small_gives [OF L1(2) _ L1(6) o9 f(1) _ i_def _ tog]) (use L1 i f(2) taken in auto)
      have "lower_put f order L = (LLFREE_ERR_OK, undo_dec i order (set_field i f' L1))"
        using args o9 L1(1) g tog unfolding lower_put_def
        by (simp add: LLFREE_HUGE_ORDER_def LLFREE_CHILD_SIZE_def child_from_frame_def i_def [symmetric])
      then show ?thesis using g L1(3,4,7) by (simp add: gives_def i_def)
    qed
    show ?thesis
    proof (cases "c_huge (lo_children L ! i)")
      case True
      then show ?thesis by (rule split_huge_same [OF inv i]) (auto intro: put simp: get_child_def True)
    next
      case False
      then show ?thesis by (intro put [of L]) (auto simp: get_child_def inv)
    qed
  qed
qed

section \<open>Initialisation\<close>

lemma init_rows_bits:
  "length (init_rows n free) = n \<and> (\<forall>i < 64 * n. fbit (init_rows n free) i \<longleftrightarrow> free \<le> i)"
proof (induction n arbitrary: free)
  case (Suc n)
  have shift: "(64 + k) div 64 = Suc (k div 64)" for k :: nat by simp
  have fbit_Cons: "fbit (v # rows) i \<longleftrightarrow> (if i < 64 then bit v i else fbit rows (i - 64))" for v rows i
    using shift [of "i - 64"] le_mod_geq [of 64 i] by (auto simp: fbit_def not_less)
  show ?case
    using Suc.IH [of "free - 64"] Suc.IH [of 0]
    by (auto simp: fbit_Cons LLFREE_ATOMIC_SIZE_def bit_push_bit_iff bit_not_iff bit_mask_iff not_less)
qed simp

lemma init_field_bits:
  assumes "free \<le> 512"
  shows "field_ok (init_field free)" "set_bits_of (init_field free) = {free..<512}"
  using init_rows_bits [of 8 free]
  by (auto simp: init_field_def field_ok_def set_bits_of_def field_consts)

lemma lower_init_free:
  assumes "lower_init n LLFREE_INIT_FREE fs cs = (r, L)"
  shows "r = LLFREE_ERR_OK" "lo_frames L = n" "low_inv L" "free_set L = {0..<n}"
proof -
  define L0 where "L0 = \<lparr>lo_frames = n, lo_fields = fs, lo_children = cs\<rparr>"
  define k where "k = child_count L0"
  define free where "free i = min 512 (n - i * 512)" for i :: nat
  from assms have L: "r = LLFREE_ERR_OK" "L = lower_clear True L0" by (simp_all add: lower_init_def L0_def)
  have k: "i < k \<longleftrightarrow> i * 512 < n" for i using child_count_pos [of i L0] by (simp add: k_def L0_def)
  have pos: "0 < free i" "free i \<le> 512" "free i \<le> n - i * 512" if "i < k" for i
    using that k [of i] by (auto simp: free_def)
  have parts: "lo_frames L = n" "child_count L = k" "length (lo_fields L) = k"
    "length (lo_children L) = align_up k 8"
    "\<And>i. k \<le> i \<Longrightarrow> i < align_up k 8 \<Longrightarrow> lo_children L ! i = child_new 0 True"
    using align_up_8(1) [of k] unfolding L k_def
    by (simp_all add: lower_clear_def L0_def child_count_def lower_consts Let_def nth_append)
  have nth: "lo_children L ! i = child_new (free i) False" "lo_fields L ! i = init_field (free i)" if "i < k" for i
  proof -
    have nz: "min 512 (n - i * 512) \<noteq> 0" using pos(1) [OF that] by (simp add: free_def)
    show "lo_children L ! i = child_new (free i) False" "lo_fields L ! i = init_field (free i)"
      using that unfolding L k_def free_def
      by (simp_all add: lower_clear_def L0_def child_count_def lower_consts Let_def nth_append nz)
  qed
  have cf: "child_free (lo_children L ! i) (lo_fields L ! i) = {0..<free i}" if "i < k" for i
    using pos [OF that] by (auto simp: nth [OF that] child_free_def child_new_def init_field_bits)
  have "child_ok (n - i * 512) (lo_children L ! i) (lo_fields L ! i)" if "i < k" for i
    using pos [OF that] unfolding child_ok_def cf [OF that] by (simp add: nth [OF that] child_new_def init_field_bits)
  then show "low_inv L"
    unfolding low_inv_def parts(1,2) by (simp add: parts(3,4,5))
  show "r = LLFREE_ERR_OK" "lo_frames L = n" by (rule L(1), rule parts(1))
  have split: "a < n \<and> b < n - a \<longleftrightarrow> a + b < n" for a b by linarith
  have "f \<in> free_set L \<longleftrightarrow> f < n" for f
  proof -
    have "f \<in> free_set L \<longleftrightarrow> f div 512 < k \<and> f mod 512 < free (f div 512)"
      using cf by (auto simp: free_set_def parts(2))
    also have "\<dots> \<longleftrightarrow> f div 512 * 512 < n \<and> f mod 512 < n - f div 512 * 512" by (auto simp: k free_def)
    also have "\<dots> \<longleftrightarrow> f div 512 * 512 + f mod 512 < n" by (rule split)
    also have "\<dots> \<longleftrightarrow> f < n" unfolding div_mult_mod_eq ..
    finally show ?thesis .
  qed
  then show "free_set L = {0..<n}" by (intro set_eqI) simp
qed

section \<open>Blocks handed out\<close>

text \<open>The allocator together with the blocks that are handed out, and what callers may do.\<close>

type_synonym low_world = "lower \<times> (nat \<times> nat) list"

inductive low_step :: "low_world \<Rightarrow> low_world \<Rightarrow> bool" where
  low_get: "start < lo_frames L \<Longrightarrow> order \<le> 9 \<Longrightarrow> lower_get start order None L = (res, L') \<Longrightarrow>
    low_step (L, own) (L', case res of Frame f \<Rightarrow> (f, order) # own | Fail e \<Rightarrow> own)"
| low_put: "(f, order) \<in> set own \<Longrightarrow> lower_put f order L = (e, L') \<Longrightarrow>
    low_step (L, own) (L', remove1 (f, order) own)"

inductive_cases low_stepE: "low_step s t"

definition low_start :: "nat \<Rightarrow> low_world \<Rightarrow> bool" where
  "low_start n s \<longleftrightarrow> (\<exists>fs cs. s = (snd (lower_init n LLFREE_INIT_FREE fs cs), []))"

definition blk :: "nat \<times> nat \<Rightarrow> nat set" where
  "blk b = block (snd b) (fst b)"

definition own_ok :: "lower \<Rightarrow> nat \<times> nat \<Rightarrow> bool" where
  "own_ok L b \<longleftrightarrow> snd b \<le> 9 \<and> 2 ^ snd b dvd fst b \<and> fst b + 2 ^ snd b \<le> lo_frames L \<and> blk b \<inter> free_set L = {} \<and>
     (snd b = 9 \<longrightarrow> c_huge (lo_children L ! (fst b div 512)))"

fun low_world_inv :: "nat \<Rightarrow> low_world \<Rightarrow> bool" where
  "low_world_inv n (L, own) \<longleftrightarrow> low_inv L \<and> lo_frames L = n \<and> distinct own \<and> (\<forall>b \<in> set own. own_ok L b) \<and>
     (\<forall>b \<in> set own. \<forall>b' \<in> set own. b \<noteq> b' \<longrightarrow> blk b \<inter> blk b' = {}) \<and>
     free_set L \<union> \<Union> (blk ` set own) = {0..<n}"

lemma blk_nonempty [simp]: "blk b \<noteq> {}"
  by (simp add: blk_def block_def)

text \<open>The child of a huge frame in use does not change.\<close>

lemma huge_child_other:
  assumes b: "own_ok L b" "snd b = 9" and b': "snd b' \<le> 9" "2 ^ snd b' dvd fst b'" and dis: "blk b \<inter> blk b' = {}"
  shows "fst b div 512 \<noteq> fst b' div 512"
proof
  assume same: "fst b div 512 = fst b' div 512"
  have "fst b = 512 * (fst b div 512)" using b by (auto simp: own_ok_def)
  then have "x \<in> blk b \<longleftrightarrow> x div 512 = fst b div 512" for x
    using block_child [of 0 9 x "fst b div 512"] b(2) by (simp add: blk_def block_def)
  then have "fst b' \<in> blk b" using same by simp
  moreover have "fst b' \<in> blk b'" by (simp add: blk_def block_def)
  ultimately show False using dis by blast
qed

lemma world_get:
  assumes w: "low_world_inv n (L, own)" and start: "start < lo_frames L" and order: "order \<le> 9"
    and get: "lower_get start order None L = (Frame f, L')"
  shows "low_world_inv n (L', (f, order) # own)"
proof -
  have inv: "low_inv L" using w by simp
  have t: "2 ^ order dvd f" "block order f \<subseteq> free_set L" "free_set L' = free_set L - block order f"
    "lo_frames L' = lo_frames L" "low_inv L'" "\<And>j. j \<noteq> f div 512 \<Longrightarrow> lo_children L' ! j = lo_children L ! j"
    "order = 9 \<Longrightarrow> c_huge (lo_children L' ! (f div 512))"
    using lower_get_takes [OF inv start order] unfolding takes_def get by simp_all
  have bnew: "blk (f, order) = block order f" by (simp add: blk_def)
  have fresh: "blk b \<inter> blk (f, order) = {}" if "b \<in> set own" for b
    using w that t(2) by (auto simp: own_ok_def bnew)
  have "f + 2 ^ order \<le> lo_frames L"
  proof -
    have pos: "0 < (2 :: nat) ^ order" by simp
    then have "f + (2 ^ order - 1) \<in> block order f" unfolding block_def atLeastLessThan_iff by linarith
    with t(2) free_set_bound [OF inv] have "f + (2 ^ order - 1) < lo_frames L" by auto
    with pos show ?thesis by linarith
  qed
  then have new: "own_ok L' (f, order)" using t order by (auto simp: own_ok_def bnew)
  have old: "own_ok L' b" if b: "b \<in> set own" for b
  proof -
    have ok: "own_ok L b" using w b by simp
    have "c_huge (lo_children L' ! (fst b div 512))" if "snd b = 9"
      using huge_child_other [OF ok that, of "(f, order)"] order t(1,6) fresh [OF b] ok that by (simp add: own_ok_def)
    then show ?thesis using ok t(3,4) by (auto simp: own_ok_def)
  qed
  have dis: "blk b \<inter> blk b' = {}" if "b \<in> set ((f, order) # own)" "b' \<in> set ((f, order) # own)" "b \<noteq> b'" for b b'
  proof (cases "b \<in> set own \<and> b' \<in> set own")
    case False
    with that show ?thesis using fresh [of b] fresh [of b'] by (auto simp del: Int_iff)
  qed (use w that in simp)
  have "free_set L' \<union> \<Union> (blk ` set ((f, order) # own)) = free_set L \<union> \<Union> (blk ` set own)"
    using t(2,3) by (auto simp: bnew)
  moreover have "(f, order) \<notin> set own" using fresh blk_nonempty by blast
  ultimately show ?thesis using w t(4,5) new old dis by (simp del: set_simps) (simp add: ball_Un)
qed

lemma world_put:
  assumes w: "low_world_inv n (L, own)" and own: "(f, order) \<in> set own" and put: "lower_put f order L = (e, L')"
  shows "e = LLFREE_ERR_OK" "low_world_inv n (L', remove1 (f, order) own)"
proof -
  have ok: "own_ok L (f, order)" using w own by auto
  have bnew: "blk (f, order) = block order f" by (simp add: blk_def)
  have "gives order f L (lower_put f order L)"
    by (rule lower_put_gives) (use ok w in \<open>auto simp: own_ok_def bnew\<close>)
  then have g: "e = LLFREE_ERR_OK" "free_set L' = free_set L \<union> block order f" "lo_frames L' = lo_frames L" "low_inv L'"
    "\<And>j. j \<noteq> f div 512 \<Longrightarrow> lo_children L' ! j = lo_children L ! j" by (auto simp: gives_def put)
  show "e = LLFREE_ERR_OK" by (rule g(1))
  have rest: "set (remove1 (f, order) own) = set own - {(f, order)}" using w by simp
  have other: "blk b \<inter> blk (f, order) = {}" if "b \<in> set own - {(f, order)}" for b using w own that by auto
  have old: "own_ok L' b" if b: "b \<in> set own - {(f, order)}" for b
  proof -
    have okb: "own_ok L b" using w b by simp
    have "c_huge (lo_children L' ! (fst b div 512))" if "snd b = 9"
      using huge_child_other [OF okb that, of "(f, order)"] ok g(5) other [OF b] okb that by (simp add: own_ok_def)
    then show ?thesis using okb g(2,3) other [OF b] by (auto simp: own_ok_def bnew)
  qed
  have "free_set L' \<union> \<Union> (blk ` (set own - {(f, order)})) = free_set L \<union> \<Union> (blk ` set own)"
    using own by (auto simp: g(2) bnew)
  then show "low_world_inv n (L', remove1 (f, order) own)"
    using w g(3,4) old by (auto simp: rest)
qed

interpretation lw: invariant_system "low_start n" low_step "low_world_inv n" for n
proof
  fix s assume "low_start n s"
  then obtain fs cs where s: "s = (snd (lower_init n LLFREE_INIT_FREE fs cs), [])" by (auto simp: low_start_def)
  obtain r L where "lower_init n LLFREE_INIT_FREE fs cs = (r, L)" by fastforce
  with lower_init_free [OF this] show "low_world_inv n s" by (simp add: s)
next
  fix s t assume inv: "low_world_inv n s" and "low_step s t"
  from this(2) show "low_world_inv n t"
  proof (cases rule: low_step.cases)
    case (low_get start L order res L' own)
    show ?thesis
    proof (cases res)
      case (Frame f)
      then show ?thesis using world_get [of n L own start order f L'] inv low_get by simp
    next
      case (Fail e)
      then have "L' = L" using lower_get_takes [of L start order] inv low_get by (auto simp: takes_def)
      then show ?thesis using inv low_get Fail by simp
    qed
  next
    case (low_put f order own L e L')
    then show ?thesis using world_put(2) [of n L own f order e L'] inv by simp
  qed
qed

section \<open>The counters agree with the set of free frames\<close>

text \<open>The loop of \<open>lower_stats\<close> adds up the trees one after another.\<close>

lemma sum_chunks:
  "sum_list (map (\<lambda>i. sum_list (map g (take k (drop (i * k) xs)))) [0..<n]) = (sum_list (map g (take (n * k) xs)) :: nat)"
proof (induction n)
  case (Suc n)
  have "take (k + n * k) xs = take (n * k) xs @ take k (drop (n * k) xs)" by (metis add.commute take_add)
  with Suc show ?case by simp
qed simp

lemma lower_stats_frames:
  "st_free_frames (lower_stats L) =
     sum_list (map (\<lambda>i. sum_list (map c_free (take 8 (drop (i * 8) (lo_children L))))) [0..<children_count L])"
proof -
  have "st_free_frames (fold (\<lambda>i st.
       let cs = take LLFREE_TREE_CHILDREN (drop (i * LLFREE_TREE_CHILDREN) (lo_children L));
           free = sum_list (map c_free cs)
       in \<lparr>st_free_frames = st_free_frames st + free,
           st_free_huge = st_free_huge st + length (filter (\<lambda>c. c_free c = LLFREE_CHILD_SIZE) cs),
           st_free_trees = st_free_trees st + (if free = LLFREE_TREE_SIZE then 1 else 0)\<rparr>) is st) =
     st_free_frames st + sum_list (map (\<lambda>i. sum_list (map c_free (take 8 (drop (i * 8) (lo_children L))))) is)" for "is" st
    by (induction "is" arbitrary: st) (simp_all add: LLFREE_TREE_CHILDREN_def Let_def)
  then show ?thesis by (simp add: lower_stats_def)
qed

lemma children_count_8: "low_inv L \<Longrightarrow> children_count L * 8 = length (lo_children L)"
  by (simp add: low_inv_def children_count_def div_ceil_def lower_consts align_up_def align_down_def minus_mod_eq_div_mult)

lemma free_set_card_on:
  assumes inv: "low_inv L" and I: "finite I" "I \<subseteq> {..<child_count L}"
  shows "card {f \<in> free_set L. f div 512 \<in> I} = (\<Sum>i \<in> I. c_free (lo_children L ! i))"
proof -
  let ?A = "\<lambda>i. (\<lambda>p. 512 * i + p) ` child_free (lo_children L ! i) (lo_fields L ! i)"
  have sub: "child_free c g \<subseteq> {0..<512}" for c g by (auto simp: child_free_def)
  have dm: "(512 * i + p) div 512 = i" "(512 * i + p) mod 512 = p" if "p \<in> child_free c g" for i p c g
    using sub [of c g] that by fastforce+
  have eq: "{f \<in> free_set L. f div 512 \<in> I} = (\<Union>i \<in> I. ?A i)"
  proof (rule set_eqI)
    fix f :: nat
    have "f = 512 * (f div 512) + f mod 512" by simp
    then have "f \<in> {f \<in> free_set L. f div 512 \<in> I} \<Longrightarrow> f \<in> (\<Union>i \<in> I. ?A i)" unfolding free_set_def by blast
    moreover have "f \<in> (\<Union>i \<in> I. ?A i) \<Longrightarrow> f \<in> {f \<in> free_set L. f div 512 \<in> I}"
      using I(2) dm unfolding free_set_def by fastforce
    ultimately show "f \<in> {f \<in> free_set L. f div 512 \<in> I} \<longleftrightarrow> f \<in> (\<Union>i \<in> I. ?A i)" by blast
  qed
  have "card (\<Union>i \<in> I. ?A i) = (\<Sum>i \<in> I. card (?A i))"
  proof (intro card_UN_disjoint ballI impI I(1))
    show "finite (?A i)" for i using sub by (meson finite_atLeastLessThan finite_imageI finite_subset)
    show "?A i \<inter> ?A j = {}" if "i \<noteq> j" for i j
      using that dm(1) by (auto dest: arg_cong [of _ _ "\<lambda>x. x div 512"])
  qed
  also have "\<dots> = (\<Sum>i \<in> I. c_free (lo_children L ! i))"
    using low_invD(1) [OF inv] I(2) by (intro sum.cong) (auto simp: child_ok_def card_image)
  finally show ?thesis using eq by simp
qed

lemma free_set_card:
  assumes "low_inv L"
  shows "card (free_set L) = (\<Sum>i < child_count L. c_free (lo_children L ! i))"
proof -
  have "{f \<in> free_set L. f div 512 \<in> {..<child_count L}} = free_set L" by (auto simp: free_set_def)
  then show ?thesis using free_set_card_on [OF assms, of "{..<child_count L}"] by simp
qed

lemma lower_stats_free:
  assumes inv: "low_inv L"
  shows "st_free_frames (lower_stats L) = card (free_set L)"
proof -
  have len: "child_count L \<le> length (lo_children L)" using inv align_up_8(1) by (simp add: low_inv_def)
  have "st_free_frames (lower_stats L) = sum_list (map c_free (lo_children L))"
    by (simp add: lower_stats_frames sum_chunks children_count_8 [OF inv])
  also have "\<dots> = (\<Sum>i < length (lo_children L). c_free (lo_children L ! i))"
    by (simp add: sum_list_sum_nth atLeast0LessThan)
  also have "\<dots> = (\<Sum>i < child_count L. c_free (lo_children L ! i))"
    using len inv by (intro sum.mono_neutral_right) (auto simp: low_inv_def child_new_def)
  finally show ?thesis by (simp add: free_set_card [OF inv])
qed

lemma lower_stats_at_frame:
  assumes inv: "low_inv L" and f: "f < lo_frames L"
  shows "st_free_frames (lower_stats_at f 0 L) = of_bool (f \<in> free_set L)"
proof -
  define i where "i = f div 512"
  have "i * 512 \<le> f" by (simp add: i_def)
  then have i: "i < child_count L" using f by (simp add: child_count_pos)
  define c g where "c = lo_children L ! i" and "g = lo_fields L ! i"
  have ok: "child_ok (lo_frames L - i * 512) c g" using low_invD(1) [OF inv i] by (simp add: c_def g_def)
  have sub: "child_free c g \<subseteq> {0..<512}" by (auto simp: child_free_def)
  have mem: "f \<in> free_set L \<longleftrightarrow> f mod 512 \<in> child_free c g" using i by (simp add: free_set_def i_def c_def g_def)
  have full: "child_free c g = {0..<512}" if "c_free c = 512"
    using ok that sub by (intro card_subset_eq) (simp_all add: child_ok_def)
  have none: "child_free c g = {}" if "c_free c = 0"
    using ok that finite_subset [OF sub] by (simp add: child_ok_def)
  have some: "f mod 512 \<in> child_free c g \<longleftrightarrow> field_is_free (f mod 512) g" if "c_free c \<noteq> 0"
  proof -
    have "\<not> c_huge c" using ok that by (auto simp: child_ok_def child_free_def)
    moreover have "field_ok g" using ok by (simp add: child_ok_def)
    ultimately show ?thesis by (simp add: child_free_def set_bits_of_def field_ok_def field_is_free_fbit)
  qed
  show ?thesis
    using f unfolding mem
    by (simp add: lower_stats_at_def lower_consts child_from_frame_def get_child_def full none some Let_def
        flip: i_def c_def g_def)
qed


text \<open>An allocation of one frame from a fresh allocator succeeds.\<close>

lemma first_get:
  assumes "0 < n"
  obtains L f where "reach (low_start n) low_step (L, [(f, 0)])"
proof -
  define L0 where "L0 = snd (lower_init n LLFREE_INIT_FREE [] [])"
  obtain r where "lower_init n LLFREE_INIT_FREE [] [] = (r, L0)" unfolding L0_def by (metis prod.collapse)
  note init = lower_init_free [OF this]
  have start: "reach (low_start n) low_step (L0, [])"
    by (rule reach_init) (auto simp: low_start_def L0_def)
  obtain res L where get: "lower_get 0 0 None L0 = (res, L)" by fastforce
  have t: "takes 0 (tree_children 0) L0 (res, L)"
    using lower_get_takes [OF init(3), of 0 0] init(2) assms get by simp
  have "block 0 0 \<subseteq> free_set L0" using init(4) assms by (simp add: block_def)
  then obtain f where "res = Frame f" using t by (cases res) (auto simp: takes_def tree_children_def)
  moreover have "low_step (L0, []) (L, case res of Frame f \<Rightarrow> (f, 0) # [] | Fail e \<Rightarrow> [])"
    by (rule low_get [OF _ _ get]) (use init(2) assms in simp_all)
  ultimately have "low_step (L0, []) (L, [(f, 0)])" by simp
  then show ?thesis by (rule that [OF reach_step [OF start]])
qed


text \<open>The exchange of two children, on a first child that is free and a second one that is not, and on two that are.\<close>

lemma update_huge_undo:
  "e \<noteq> d \<Longrightarrow> update_huge 0 2 0 e d (e # d # cs) = (False, d # e # cs)"
  by (simp add: update_huge.simps [of 0 2 0] update_huge.simps [of 0 2 "Suc 0"])

lemma update_huge_pair:
  "update_huge 2 2 0 e d (a # b # e # e # cs) = (True, a # b # d # d # cs)"
  by (simp add: update_huge.simps [of 2 2 0] update_huge.simps [of 2 2 "Suc 0"] update_huge.simps [of 2 2 "Suc (Suc 0)"])

text \<open>
  C36: Finding: an allocation of 1024 frames that meets a free child followed by a huge frame in use exchanges
  the wrong child back. It marks the huge frame in use as free and keeps the free child marked as taken.
\<close>

theorem huge_undo_frees_frame_in_use:
  "let L = \<lparr>lo_frames = 4096, lo_fields = replicate 8 field_init,
             lo_children = [child_new 512 False, child_new 0 True] @ replicate 6 (child_new 512 False)\<rparr>;
       (res, L') = lower_get 0 10 None L
   in res = Frame 1024 \<and>
      map (get_child L) [0, 1] = [child_new 512 False, child_new 0 True] \<and>
      map (get_child L') [0, 1] = [child_new 0 True, child_new 512 False]"
proof -
  define e d where "e = child_new 512 False" and "d = child_new 0 True"
  have "e \<noteq> d" by (simp add: e_def d_def child_new_def)
  have offs: "for_offsetted 0 4 = [0, 1, 2, 3]" by code_simp
  have six: "replicate 6 e = [e, e, e, e, e, e]" by (simp add: numeral_eq_Suc)
  define L where "L = \<lparr>lo_frames = 4096, lo_fields = replicate 8 field_init, lo_children = e # d # [e, e, e, e, e, e]\<rparr>"
  have "lower_get 0 10 None L = get_huge_loop 2 [0, 1, 2, 3] L"
    by (simp add: lower_get_def lower_consts child_from_frame_def align_down_def offs Let_def)
  also have "\<dots> = (Frame 1024, L\<lparr>lo_children := d # e # [d, d, e, e, e, e]\<rparr>)"
    using \<open>e \<noteq> d\<close>
    by (simp add: try_update_huge_n_def update_huge_undo update_huge_pair frame_from_child_def lower_consts L_def
        flip: e_def d_def)
  finally show ?thesis
    by (simp add: L_def get_child_def Let_def six flip: e_def d_def)
qed

end
