(* ===== verification/Trees.thy ===== *)
theory Trees
  imports Lower
begin

text \<open>
  The tree level of the LLFree allocator (\<open>src/kernel/mm/tree.c\<close> and \<open>trees.c\<close>). A tree is eight children of
  512 frames. Its entry counts the frames the tree still offers, says whether a local slot has reserved it, and
  names the class of requests it serves. The entries are 32 bit fields: 28 bits of counter, three bits of class.
  An atomic update of an entry is one step; the callbacks of the searches get the whole allocator state, of which
  the search reads the entries again in every iteration.
\<close>

section \<open>Entries\<close>

definition LLFREE_TREE_FREE_BITS :: nat where "LLFREE_TREE_FREE_BITS = 28"
definition LLFREE_MAX_CLASSES :: nat where "LLFREE_MAX_CLASSES = 8"
definition LLFREE_CLASS_NONE :: nat where "LLFREE_CLASS_NONE = 255"
definition TREES_SEARCH_BEST :: nat where "TREES_SEARCH_BEST = 8"

lemmas tree_consts = LLFREE_TREE_FREE_BITS_def LLFREE_MAX_CLASSES_def LLFREE_CLASS_NONE_def TREES_SEARCH_BEST_def

datatype policy_type = LLFREE_POLICY_MATCH | LLFREE_POLICY_STEAL | LLFREE_POLICY_DEMOTE | LLFREE_POLICY_INVALID

text \<open>A policy decision and its priority; the decision for a requested class, a target class and a free count.\<close>

type_synonym policy = "policy_type \<times> nat"
type_synonym policy_fn = "nat \<Rightarrow> nat \<Rightarrow> nat \<Rightarrow> policy"

record tree =
  tr_reserved :: bool
  tr_class :: nat
  tr_free :: nat

definition tree_new :: "bool \<Rightarrow> nat \<Rightarrow> nat \<Rightarrow> tree" where
  "tree_new reserved cls free =
     \<lparr>tr_reserved = reserved, tr_class = cls mod LLFREE_MAX_CLASSES, tr_free = free mod 2 ^ LLFREE_TREE_FREE_BITS\<rparr>"

definition set_free :: "nat \<Rightarrow> tree \<Rightarrow> tree" where
  "set_free free t = t\<lparr>tr_free := free mod 2 ^ LLFREE_TREE_FREE_BITS\<rparr>"

definition set_class :: "nat \<Rightarrow> tree \<Rightarrow> tree" where
  "set_class cls t = t\<lparr>tr_class := cls mod LLFREE_MAX_CLASSES\<rparr>"

definition tree_put :: "nat \<Rightarrow> policy_fn \<Rightarrow> nat \<Rightarrow> tree \<Rightarrow> tree" where
  "tree_put frames policy dflt t =
     (let free = tr_free t + frames; t = set_free free t in
      if free = LLFREE_TREE_SIZE \<and> fst (policy (tr_class t) dflt (tr_free t)) \<noteq> LLFREE_POLICY_INVALID
      then set_class dflt t else t)"

text \<open>On success the class the frames were taken from.\<close>

definition tree_steal :: "nat \<Rightarrow> nat \<Rightarrow> policy_fn \<Rightarrow> tree \<Rightarrow> (nat \<times> tree) option" where
  "tree_steal frames cls policy t =
     (if tr_free t < frames then None
      else case fst (policy cls (tr_class t) (tr_free t)) of
        LLFREE_POLICY_MATCH \<Rightarrow> Some (cls, set_class cls (set_free (tr_free t - frames) t))
      | LLFREE_POLICY_DEMOTE \<Rightarrow> Some (cls, set_class cls (set_free (tr_free t - frames) t))
      | LLFREE_POLICY_STEAL \<Rightarrow> Some (tr_class t, set_free (tr_free t - frames) t)
      | LLFREE_POLICY_INVALID \<Rightarrow> None)"

text \<open>On success whether the tree was reserved, and the resulting class.\<close>

definition tree_reserve_or_steal :: "nat \<Rightarrow> policy_fn \<Rightarrow> nat \<Rightarrow> tree \<Rightarrow> (bool \<times> nat \<times> tree) option" where
  "tree_reserve_or_steal frames policy cls t =
     (if tr_reserved t \<or> tr_free t < frames then None
      else case fst (policy cls (tr_class t) (tr_free t)) of
        LLFREE_POLICY_MATCH \<Rightarrow> Some (True, cls, set_class cls (set_free 0 (t\<lparr>tr_reserved := True\<rparr>)))
      | LLFREE_POLICY_DEMOTE \<Rightarrow> Some (True, cls, set_class cls (set_free 0 (t\<lparr>tr_reserved := True\<rparr>)))
      | LLFREE_POLICY_STEAL \<Rightarrow> Some (False, tr_class t, set_free (tr_free t - frames) t)
      | LLFREE_POLICY_INVALID \<Rightarrow> None)"

definition tree_unreserve_add :: "nat \<Rightarrow> nat \<Rightarrow> policy_fn \<Rightarrow> nat \<Rightarrow> tree \<Rightarrow> tree option" where
  "tree_unreserve_add frames cls policy dflt t =
     (if \<not> tr_reserved t then None
      else
        let t = t\<lparr>tr_reserved := False\<rparr>;
            t = (if fst (policy cls (tr_class t) frames) = LLFREE_POLICY_DEMOTE then set_class cls t else t)
        in Some (tree_put frames policy dflt t))"

definition tree_sync_steal :: "nat \<Rightarrow> tree \<Rightarrow> tree option" where
  "tree_sync_steal least t = (if tr_reserved t \<and> least < tr_free t then Some (set_free 0 t) else None)"

datatype tree_operation = LLFREE_TREE_OP_NONE | LLFREE_TREE_OP_ONLINE | LLFREE_TREE_OP_OFFLINE

definition tree_change :: "nat \<Rightarrow> nat \<Rightarrow> nat \<Rightarrow> tree_operation \<Rightarrow> nat \<Rightarrow> tree \<Rightarrow> tree option" where
  "tree_change match_class min_free change_class operation online_free t =
     (if tr_reserved t then None
      else if match_class \<noteq> LLFREE_CLASS_NONE \<and> tr_class t \<noteq> match_class then None
      else if tr_free t < min_free then None
      else
        let t = (if change_class \<noteq> LLFREE_CLASS_NONE then set_class change_class t else t) in
        case operation of
          LLFREE_TREE_OP_NONE \<Rightarrow> Some t
        | LLFREE_TREE_OP_OFFLINE \<Rightarrow> Some (set_free 0 t)
        | LLFREE_TREE_OP_ONLINE \<Rightarrow> if tr_free t \<noteq> 0 then None else Some (set_free online_free t))"

section \<open>The array of entries\<close>

record trees =
  ts_entries :: "tree list"
  ts_default :: nat

definition tree_from_frame :: "nat \<Rightarrow> nat" where
  "tree_from_frame f = f div 2 ^ LLFREE_TREE_ORDER"

definition frame_from_tree :: "nat \<Rightarrow> nat" where
  "frame_from_tree t = t * 2 ^ LLFREE_TREE_ORDER"

text \<open>Without an initialisation callback the entries of the buffer are kept.\<close>

definition trees_init :: "nat \<Rightarrow> tree list \<Rightarrow> (nat \<Rightarrow> nat) option \<Rightarrow> nat \<Rightarrow> trees" where
  "trees_init frames buffer init_fn dflt =
     \<lparr>ts_entries = (case init_fn of
          Some f \<Rightarrow> map (\<lambda>i. tree_new False dflt (f (frame_from_tree i))) [0..<div_ceil frames LLFREE_TREE_SIZE]
        | None \<Rightarrow> buffer),
      ts_default = dflt\<rparr>"

definition trees_load :: "nat \<Rightarrow> trees \<Rightarrow> tree" where
  "trees_load i ts = ts_entries ts ! i"

definition trees_store :: "nat \<Rightarrow> tree \<Rightarrow> trees \<Rightarrow> trees" where
  "trees_store i t ts = ts\<lparr>ts_entries := (ts_entries ts)[i := t]\<rparr>"

definition trees_steal :: "nat \<Rightarrow> nat \<Rightarrow> nat \<Rightarrow> policy_fn \<Rightarrow> trees \<Rightarrow> nat option \<times> trees" where
  "trees_steal i frames cls policy ts =
     (case tree_steal frames cls policy (trees_load i ts) of
        None \<Rightarrow> (None, ts)
      | Some (c, t) \<Rightarrow> (Some c, trees_store i t ts))"

definition trees_put :: "nat \<Rightarrow> nat \<Rightarrow> policy_fn \<Rightarrow> trees \<Rightarrow> trees" where
  "trees_put i frames policy ts = trees_store i (tree_put frames policy (ts_default ts) (trees_load i ts)) ts"

text \<open>On success whether the tree was reserved, its old free count and the resulting class.\<close>

definition trees_reserve_or_steal ::
    "nat \<Rightarrow> nat \<Rightarrow> policy_fn \<Rightarrow> nat \<Rightarrow> trees \<Rightarrow> (bool \<times> nat \<times> nat) option \<times> trees" where
  "trees_reserve_or_steal i frames policy cls ts =
     (let old = trees_load i ts in
      case tree_reserve_or_steal frames policy cls old of
        None \<Rightarrow> (None, ts)
      | Some (reserved, c, t) \<Rightarrow> (Some (reserved, tr_free old, c), trees_store i t ts))"

definition trees_unreserve :: "nat \<Rightarrow> nat \<Rightarrow> nat \<Rightarrow> policy_fn \<Rightarrow> trees \<Rightarrow> trees" where
  "trees_unreserve i free cls policy ts =
     (case tree_unreserve_add free cls policy (ts_default ts) (trees_load i ts) of
        None \<Rightarrow> ts
      | Some t \<Rightarrow> trees_store i t ts)"

definition trees_sync_steal :: "nat \<Rightarrow> nat \<Rightarrow> trees \<Rightarrow> nat option \<times> trees" where
  "trees_sync_steal i least ts =
     (let old = trees_load i ts in
      case tree_sync_steal least old of None \<Rightarrow> (None, ts) | Some t \<Rightarrow> (Some (tr_free old), trees_store i t ts))"

section \<open>Searches\<close>

text \<open>The tree visited in iteration \<open>i\<close>: alternately to the right and to the left of the start.\<close>

definition search_idx :: "nat \<Rightarrow> nat \<Rightarrow> nat \<Rightarrow> nat" where
  "search_idx start len i =
     (let off = (if even i then int (i div 2) else - int ((i + 1) div 2))
      in nat ((int (start + len) + off) mod 2 ^ 64) mod len)"

fun trees_search :: "nat \<Rightarrow> nat \<Rightarrow> nat list \<Rightarrow> (nat \<Rightarrow> 's \<Rightarrow> ll_err \<times> 's) \<Rightarrow> 's \<Rightarrow> ll_err \<times> 's" where
  "trees_search start len [] cb s = (LLFREE_ERR_MEMORY, s)"
| "trees_search start len (i # is) cb s =
     (let (res, s) = cb (search_idx start len i) s in
      if res \<noteq> LLFREE_ERR_MEMORY then (res, s) else trees_search start len is cb s)"

text \<open>The result of a call to the allocator: the frame and its class, or an error.\<close>

datatype llfree_result = Got nat nat | Err ll_err

text \<open>The table of the best candidates, by priority. Priority 0 means that the place is empty.\<close>

definition best_insert :: "nat \<Rightarrow> nat \<Rightarrow> (nat \<times> nat) list \<Rightarrow> (nat \<times> nat) list" where
  "best_insert prio idx best =
     (let pos = length (takeWhile (\<lambda>b. \<not> fst b < prio) best) in
      if pos < TREES_SEARCH_BEST then take TREES_SEARCH_BEST (take pos best @ (prio, idx) # drop pos best) else best)"

text \<open>The first loop: perfect matches are tried at once. The result is the search's own, or the candidates.\<close>

fun best_scan :: "('s \<Rightarrow> tree list) \<Rightarrow> nat \<Rightarrow> nat list \<Rightarrow> (nat \<Rightarrow> nat \<Rightarrow> policy) \<Rightarrow> (nat \<Rightarrow> 's \<Rightarrow> llfree_result \<times> 's) \<Rightarrow>
    (nat \<times> nat) list \<Rightarrow> 's \<Rightarrow> (llfree_result + (nat \<times> nat) list) \<times> 's" where
  "best_scan ent start [] rate cb best s = (Inr best, s)"
| "best_scan ent start (i # is) rate cb best s =
     (let idx = search_idx start (length (ent s)) i; t = ent s ! idx in
      if tr_reserved t then best_scan ent start is rate cb best s
      else
        let p = rate (tr_class t) (tr_free t) in
        if fst p = LLFREE_POLICY_INVALID then best_scan ent start is rate cb best s
        else if p = (LLFREE_POLICY_MATCH, 255) then
          let (res, s) = cb idx s in
          if res \<noteq> Err LLFREE_ERR_MEMORY then (Inl res, s) else best_scan ent start is rate cb best s
        else best_scan ent start is rate cb (best_insert ((snd p + 1) mod 256) idx best) s)"

fun best_try :: "(nat \<times> nat) list \<Rightarrow> (nat \<Rightarrow> 's \<Rightarrow> llfree_result \<times> 's) \<Rightarrow> 's \<Rightarrow> llfree_result \<times> 's" where
  "best_try [] cb s = (Err LLFREE_ERR_MEMORY, s)"
| "best_try ((prio, idx) # best) cb s =
     (if prio = 0 then (Err LLFREE_ERR_MEMORY, s)
      else
        let (res, s) = cb idx s in
        if res \<noteq> Err LLFREE_ERR_MEMORY then (res, s) else best_try best cb s)"

definition trees_search_best :: "('s \<Rightarrow> tree list) \<Rightarrow> nat \<Rightarrow> nat \<Rightarrow> nat \<Rightarrow> (nat \<Rightarrow> nat \<Rightarrow> policy) \<Rightarrow>
    (nat \<Rightarrow> 's \<Rightarrow> llfree_result \<times> 's) \<Rightarrow> 's \<Rightarrow> llfree_result \<times> 's" where
  "trees_search_best ent start offset len rate cb s =
     (case best_scan ent start [offset..<len] rate cb (replicate TREES_SEARCH_BEST (0, 0)) s of
        (Inl res, s) \<Rightarrow> (res, s)
      | (Inr best, s) \<Rightarrow> best_try best cb s)"

section \<open>Statistics and changes\<close>

text \<open>The counters of \<open>ll_tree_stats_t\<close>; \<open>ts_classes\<close> has the free and allocated frames of each class.\<close>

record tree_stats =
  ts_free_frames :: nat
  ts_free_trees :: nat
  ts_classes :: "(nat \<times> nat) list"

definition no_stats :: tree_stats where
  "no_stats = \<lparr>ts_free_frames = 0, ts_free_trees = 0, ts_classes = replicate LLFREE_MAX_CLASSES (0, 0)\<rparr>"

definition add_class :: "nat \<Rightarrow> nat \<Rightarrow> nat \<Rightarrow> (nat \<times> nat) list \<Rightarrow> (nat \<times> nat) list" where
  "add_class c free alloc cs = cs[c := (fst (cs ! c) + free, snd (cs ! c) + alloc)]"

definition trees_stats :: "trees \<Rightarrow> tree_stats" where
  "trees_stats ts =
     fold (\<lambda>t st. \<lparr>ts_free_frames = ts_free_frames st + tr_free t,
                   ts_free_trees = ts_free_trees st + of_bool (tr_free t = LLFREE_TREE_SIZE),
                   ts_classes = add_class (tr_class t) (tr_free t) (LLFREE_TREE_SIZE - tr_free t) (ts_classes st)\<rparr>)
       (ts_entries ts) no_stats"

record tree_match =
  tm_id :: "nat option"
  tm_class :: nat
  tm_free :: nat

text \<open>One iteration of the compare-and-swap loop; nothing else changes the entry meanwhile.\<close>

definition trees_change_at ::
    "tree_match \<Rightarrow> nat \<times> tree_operation \<Rightarrow> (nat \<Rightarrow> nat) \<Rightarrow> nat \<Rightarrow> trees \<Rightarrow> ll_err \<times> trees" where
  "trees_change_at m change fetch_free i ts =
     (let online_free = (if snd change = LLFREE_TREE_OP_ONLINE then fetch_free i else 0) in
      case tree_change (tm_class m) (tm_free m) (fst change) (snd change) online_free (trees_load i ts) of
        None \<Rightarrow> (LLFREE_ERR_MEMORY, ts)
      | Some t \<Rightarrow> (LLFREE_ERR_OK, trees_store i t ts))"

definition trees_change :: "tree_match \<Rightarrow> nat \<times> tree_operation \<Rightarrow> (nat \<Rightarrow> nat) \<Rightarrow> trees \<Rightarrow> ll_err \<times> trees" where
  "trees_change m change fetch_free ts =
     (let len = length (ts_entries ts) in
      if LLFREE_TREE_SIZE < tm_free m then (LLFREE_ERR_MEMORY, ts)
      else case tm_id m of
        Some i \<Rightarrow> if len \<le> i then (LLFREE_ERR_MEMORY, ts) else trees_change_at m change fetch_free i ts
      | None \<Rightarrow> trees_search 0 len [0..<len] (trees_change_at m change fetch_free) ts)"

end
