(* ===== verification/Locals.thy ===== *)
theory Locals
  imports Trees
begin

text \<open>
  The local slots of the LLFree allocator (\<open>src/kernel/mm/local.c\<close>). Every class of requests has a number of slots,
  one per processor, and every slot holds at most one reserved tree: the frames taken out of the tree's own counter
  and the row of bits where the next allocation starts. A slot is a 64 bit field with 28 bits of counter and 35 bits
  of row. The free-and-reserve heuristic is compiled out (\<open>LLFREE_ENABLE_FREE_RESERVE\<close> is false).
\<close>

section \<open>Reservations\<close>

record reserved =
  rs_present :: bool
  rs_free :: nat
  rs_start_row :: nat

definition LLFREE_ATOMIC_ORDER :: nat where "LLFREE_ATOMIC_ORDER = 6"

definition row_from_frame :: "nat \<Rightarrow> nat" where
  "row_from_frame f = f div 2 ^ LLFREE_ATOMIC_ORDER"

definition frame_from_row :: "nat \<Rightarrow> nat" where
  "frame_from_row r = r * 2 ^ LLFREE_ATOMIC_ORDER"

definition tree_from_row :: "nat \<Rightarrow> nat" where
  "tree_from_row r = tree_from_frame (frame_from_row r)"

definition row_from_tree :: "nat \<Rightarrow> nat" where
  "row_from_tree t = row_from_frame (frame_from_tree t)"

definition ll_reserved_new :: "bool \<Rightarrow> nat \<Rightarrow> nat \<Rightarrow> reserved" where
  "ll_reserved_new present free start_row =
     \<lparr>rs_present = present, rs_free = free mod 2 ^ LLFREE_TREE_FREE_BITS,
      rs_start_row = start_row mod 2 ^ (64 - LLFREE_TREE_FREE_BITS - 1)\<rparr>"

definition ll_reserved_dec :: "nat option \<Rightarrow> nat \<Rightarrow> reserved \<Rightarrow> reserved option" where
  "ll_reserved_dec tree_idx frames r =
     (if \<not> rs_present r then None
      else if tree_idx \<noteq> None \<and> tree_from_row (rs_start_row r) \<noteq> the tree_idx then None
      else if rs_free r < frames then None
      else Some (r\<lparr>rs_free := rs_free r - frames\<rparr>))"

definition ll_reserved_inc :: "nat \<Rightarrow> nat \<Rightarrow> reserved \<Rightarrow> reserved option" where
  "ll_reserved_inc tree_idx frames r =
     (if \<not> rs_present r \<or> tree_from_row (rs_start_row r) \<noteq> tree_idx then None
      else Some (r\<lparr>rs_free := (rs_free r + frames) mod 2 ^ LLFREE_TREE_FREE_BITS\<rparr>))"

definition ll_reserved_set_start :: "nat \<Rightarrow> reserved \<Rightarrow> reserved option" where
  "ll_reserved_set_start start_row r =
     (if \<not> rs_present r \<or> tree_from_row (rs_start_row r) \<noteq> tree_from_row start_row then None
      else Some (r\<lparr>rs_start_row := start_row mod 2 ^ (64 - LLFREE_TREE_FREE_BITS - 1)\<rparr>))"

definition ll_reserved_take :: "nat option \<Rightarrow> nat \<Rightarrow> reserved \<Rightarrow> reserved option" where
  "ll_reserved_take tree_idx frames r =
     (case ll_reserved_dec tree_idx frames r of None \<Rightarrow> None | Some _ \<Rightarrow> Some (ll_reserved_new False 0 0))"

section \<open>The slots of every class\<close>

text \<open>For each of the eight classes its slots, or \<open>None\<close> when the class is not configured.\<close>

type_synonym locals = "reserved list option list"

record classing =
  cl_classes :: "(nat \<times> nat) list"
  cl_default :: nat
  cl_policy :: policy_fn

definition ll_local_init :: "classing \<Rightarrow> locals" where
  "ll_local_init cl =
     fold (\<lambda>(cls, count) loc. loc[cls := Some (replicate count (ll_reserved_new False 0 0))]) (cl_classes cl)
       (replicate LLFREE_MAX_CLASSES None)"

definition ll_local_class_locals :: "nat \<Rightarrow> locals \<Rightarrow> nat option" where
  "ll_local_class_locals cls loc =
     (if LLFREE_MAX_CLASSES \<le> cls then None else map_option length (loc ! cls))"

text \<open>The slot of a class and an index, and its update.\<close>

definition slot :: "nat \<Rightarrow> nat \<Rightarrow> locals \<Rightarrow> reserved" where
  "slot cls index loc = the (loc ! cls) ! index"

definition set_slot :: "nat \<Rightarrow> nat \<Rightarrow> reserved \<Rightarrow> locals \<Rightarrow> locals" where
  "set_slot cls index r loc = loc[cls := Some ((the (loc ! cls))[index := r])]"

text \<open>The outcome of an operation on a slot: whether it succeeded, the class, and the slot before it.\<close>

record local_result =
  lr_success :: bool
  lr_class :: nat
  lr_old :: reserved

definition make_result :: "bool \<Rightarrow> nat \<Rightarrow> reserved \<Rightarrow> local_result" where
  "make_result success cls old = \<lparr>lr_success = success, lr_class = cls, lr_old = old\<rparr>"

definition update_slot :: "nat \<Rightarrow> nat \<Rightarrow> (reserved \<Rightarrow> reserved option) \<Rightarrow> locals \<Rightarrow> local_result \<times> locals" where
  "update_slot cls index f loc =
     (let old = slot cls index loc in
      case f old of
        None \<Rightarrow> (make_result False cls old, loc)
      | Some r \<Rightarrow> (make_result True cls old, set_slot cls index r loc))"

definition ll_local_get :: "nat \<Rightarrow> nat \<Rightarrow> nat option \<Rightarrow> nat \<Rightarrow> locals \<Rightarrow> local_result \<times> locals" where
  "ll_local_get cls index tree_idx frames loc = update_slot cls index (ll_reserved_dec tree_idx frames) loc"

definition ll_local_put :: "nat \<Rightarrow> nat \<Rightarrow> nat \<Rightarrow> nat \<Rightarrow> locals \<Rightarrow> bool \<times> locals" where
  "ll_local_put cls index tree_idx frames loc =
     (let (r, loc) = update_slot cls index (ll_reserved_inc tree_idx frames) loc in (lr_success r, loc))"

definition ll_local_set_start :: "nat \<Rightarrow> nat \<Rightarrow> nat \<Rightarrow> locals \<Rightarrow> local_result \<times> locals" where
  "ll_local_set_start cls index start_row loc = update_slot cls index (ll_reserved_set_start start_row) loc"

definition ll_local_swap :: "nat \<Rightarrow> nat \<Rightarrow> nat \<Rightarrow> nat \<Rightarrow> locals \<Rightarrow> local_result \<times> locals" where
  "ll_local_swap cls index new_tree new_free loc =
     update_slot cls index (\<lambda>_. Some (ll_reserved_new True new_free (row_from_tree new_tree))) loc"

text \<open>The slots of one class that a search visits, starting at an index.\<close>

fun steal_slots :: "nat \<Rightarrow> nat list \<Rightarrow> nat option \<Rightarrow> nat \<Rightarrow> locals \<Rightarrow> local_result option \<times> locals" where
  "steal_slots cls [] tree_idx frames loc = (None, loc)"
| "steal_slots cls (j # js) tree_idx frames loc =
     (let (r, loc') = update_slot cls j (ll_reserved_dec tree_idx frames) loc in
      if lr_success r then (Some r, loc') else steal_slots cls js tree_idx frames loc)"

fun steal_classes ::
    "nat \<Rightarrow> nat \<Rightarrow> nat list \<Rightarrow> nat option \<Rightarrow> nat \<Rightarrow> policy_fn \<Rightarrow> locals \<Rightarrow> local_result option \<times> locals" where
  "steal_classes cls index [] tree_idx frames policy loc = (None, loc)"
| "steal_classes cls index (i # is) tree_idx frames policy loc =
     (let target = (i + cls) mod LLFREE_MAX_CLASSES in
      case loc ! target of
        None \<Rightarrow> steal_classes cls index is tree_idx frames policy loc
      | Some es \<Rightarrow>
          if es = [] then steal_classes cls index is tree_idx frames policy loc
          else if fst (policy cls target frames) \<notin> {LLFREE_POLICY_MATCH, LLFREE_POLICY_STEAL}
          then steal_classes cls index is tree_idx frames policy loc
          else
            case steal_slots target (map (\<lambda>j. (index + j) mod length es) [0..<length es]) tree_idx frames loc of
              (Some r, loc) \<Rightarrow> (Some r, loc)
            | (None, loc) \<Rightarrow> steal_classes cls index is tree_idx frames policy loc)"

definition ll_local_steal ::
    "nat \<Rightarrow> nat \<Rightarrow> nat option \<Rightarrow> nat \<Rightarrow> policy_fn \<Rightarrow> locals \<Rightarrow> local_result option \<times> locals" where
  "ll_local_steal cls index tree_idx frames policy loc =
     steal_classes cls index [0..<LLFREE_MAX_CLASSES] tree_idx frames policy loc"

text \<open>The row to allocate from, and the reservation the caller has to give back, if any.\<close>

record demote_result =
  dm_row :: nat
  dm_unreserve :: bool
  dm_unres_row :: nat
  dm_unres_class :: nat
  dm_unres_free :: nat

text \<open>What follows once slot \<open>j\<close> of the target class was taken: \<open>old\<close> is what it held.\<close>

definition demote_found :: "nat \<Rightarrow> nat option \<Rightarrow> nat option \<Rightarrow> nat \<Rightarrow> reserved \<Rightarrow> locals \<Rightarrow> demote_result \<times> locals" where
  "demote_found cls index tree_idx frames old loc =
     (let new_res = (case ll_reserved_dec tree_idx frames old of None \<Rightarrow> old | Some r \<Rightarrow> r) in
      case (index, ll_local_class_locals cls loc) of
        (Some idx, Some len) \<Rightarrow>
          if idx < len then
            let prev = slot cls idx loc in
            (\<lparr>dm_row = rs_start_row new_res, dm_unreserve = rs_present prev, dm_unres_row = rs_start_row prev,
              dm_unres_class = cls, dm_unres_free = rs_free prev\<rparr>,
             set_slot cls idx new_res loc)
          else
            (\<lparr>dm_row = rs_start_row new_res, dm_unreserve = True, dm_unres_row = rs_start_row new_res,
              dm_unres_class = cls, dm_unres_free = rs_free new_res\<rparr>, loc)
      | _ \<Rightarrow>
          (\<lparr>dm_row = rs_start_row new_res, dm_unreserve = True, dm_unres_row = rs_start_row new_res,
            dm_unres_class = cls, dm_unres_free = rs_free new_res\<rparr>, loc))"

fun take_slots :: "nat \<Rightarrow> nat list \<Rightarrow> nat option \<Rightarrow> nat \<Rightarrow> locals \<Rightarrow> reserved option \<times> locals" where
  "take_slots cls [] tree_idx frames loc = (None, loc)"
| "take_slots cls (j # js) tree_idx frames loc =
     (let (r, loc') = update_slot cls j (ll_reserved_take tree_idx frames) loc in
      if lr_success r then (Some (lr_old r), loc') else take_slots cls js tree_idx frames loc)"

fun demote_classes ::
    "nat \<Rightarrow> nat option \<Rightarrow> nat list \<Rightarrow> nat option \<Rightarrow> nat \<Rightarrow> policy_fn \<Rightarrow> locals \<Rightarrow> demote_result option \<times> locals" where
  "demote_classes cls index [] tree_idx frames policy loc = (None, loc)"
| "demote_classes cls index (i # is) tree_idx frames policy loc =
     (let target = (i + cls) mod LLFREE_MAX_CLASSES; idx = (case index of None \<Rightarrow> 0 | Some i \<Rightarrow> i) in
      case loc ! target of
        None \<Rightarrow> demote_classes cls index is tree_idx frames policy loc
      | Some es \<Rightarrow>
          if es = [] then demote_classes cls index is tree_idx frames policy loc
          else if fst (policy cls target frames) \<noteq> LLFREE_POLICY_DEMOTE
          then demote_classes cls index is tree_idx frames policy loc
          else
            case take_slots target (map (\<lambda>j. (idx + j) mod length es) [0..<length es]) tree_idx frames loc of
              (Some old, loc) \<Rightarrow> (let (d, loc) = demote_found cls index tree_idx frames old loc in (Some d, loc))
            | (None, loc) \<Rightarrow> demote_classes cls index is tree_idx frames policy loc)"

definition ll_local_demote_any ::
    "nat \<Rightarrow> nat option \<Rightarrow> nat option \<Rightarrow> nat \<Rightarrow> policy_fn \<Rightarrow> locals \<Rightarrow> demote_result option \<times> locals" where
  "ll_local_demote_any cls index tree_idx frames policy loc =
     demote_classes cls index [1..<LLFREE_MAX_CLASSES] tree_idx frames policy loc"

definition ll_local_drain :: "nat \<Rightarrow> nat \<Rightarrow> locals \<Rightarrow> local_result \<times> locals" where
  "ll_local_drain cls index loc =
     (let (r, loc) = update_slot cls index (\<lambda>_. Some (ll_reserved_new False 0 0)) loc
      in (make_result (rs_present (lr_old r)) cls (lr_old r), loc))"

text \<open>All slots with their class, class by class.\<close>

definition all_slots :: "locals \<Rightarrow> (nat \<times> reserved) list" where
  "all_slots loc =
     concat (map (\<lambda>c. case loc ! c of None \<Rightarrow> [] | Some es \<Rightarrow> map (Pair c) es) [0..<LLFREE_MAX_CLASSES])"

definition ll_local_stats :: "locals \<Rightarrow> tree_stats" where
  "ll_local_stats loc =
     fold (\<lambda>(c, r) st.
       if rs_present r then
         \<lparr>ts_free_frames = ts_free_frames st + rs_free r,
          ts_free_trees = ts_free_trees st + of_bool (rs_free r = LLFREE_TREE_SIZE),
          ts_classes = add_class c (rs_free r) 0 (ts_classes st)\<rparr>
       else st) (all_slots loc) no_stats"

section \<open>Sums over the slots\<close>

definition slot_sum :: "(reserved \<Rightarrow> nat) \<Rightarrow> locals \<Rightarrow> nat" where
  "slot_sum f loc = sum_list (map (\<lambda>es. case es of None \<Rightarrow> 0 | Some es \<Rightarrow> sum_list (map f es)) loc)"

definition slot_at :: "nat \<Rightarrow> nat \<Rightarrow> locals \<Rightarrow> bool" where
  "slot_at c i loc \<longleftrightarrow> c < length loc \<and> (case loc ! c of None \<Rightarrow> False | Some es \<Rightarrow> i < length es)"

definition slot_shape :: "locals \<Rightarrow> nat option list" where
  "slot_shape loc = map (map_option length) loc"

lemma sum_list_upd:
  fixes xs :: "nat list"
  shows "k < length xs \<Longrightarrow> sum_list (xs[k := x]) + xs ! k = sum_list xs + x"
  by (induction xs arbitrary: k) (auto split: nat.splits)

lemma slot_sum_set:
  assumes "slot_at c i loc"
  shows "slot_sum f (set_slot c i r loc) + f (slot c i loc) = slot_sum f loc + f r"
proof -
  from assms obtain es where es: "c < length loc" "loc ! c = Some es" "i < length es"
    by (auto simp: slot_at_def split: option.splits)
  let ?g = "\<lambda>es. case es of None \<Rightarrow> 0 | Some es \<Rightarrow> sum_list (map f es)"
  have "slot_sum f (set_slot c i r loc) = sum_list ((map ?g loc)[c := sum_list (map f (es[i := r]))])"
    using es by (simp add: slot_sum_def set_slot_def map_update)
  then have "slot_sum f (set_slot c i r loc) + sum_list (map f es) = slot_sum f loc + sum_list (map f (es[i := r]))"
    using sum_list_upd [of c "map ?g loc" "sum_list (map f (es[i := r]))"] es by (simp add: slot_sum_def)
  moreover have "sum_list (map f (es[i := r])) + f (es ! i) = sum_list (map f es) + f r"
    using sum_list_upd [of i "map f es" "f r"] es by (simp add: map_update)
  moreover have "slot c i loc = es ! i" using es by (simp add: slot_def)
  ultimately show ?thesis by simp
qed

lemma slot_le_sum:
  assumes "slot_at c i loc"
  shows "f (slot c i loc) \<le> slot_sum f loc"
proof -
  from assms obtain es where es: "c < length loc" "loc ! c = Some es" "i < length es"
    by (auto simp: slot_at_def split: option.splits)
  let ?g = "\<lambda>es. case es of None \<Rightarrow> 0 | Some es \<Rightarrow> sum_list (map f es)"
  have "f (es ! i) \<le> sum_list (map f es)" using es(3) by (intro member_le_sum_list) auto
  also have "\<dots> = map ?g loc ! c" using es by simp
  also have "\<dots> \<le> slot_sum f loc" using es(1) unfolding slot_sum_def by (intro member_le_sum_list nth_mem) simp_all
  finally show ?thesis using es by (simp add: slot_def)
qed

lemma slot_shape_set: "slot_at c i loc \<Longrightarrow> slot_shape (set_slot c i r loc) = slot_shape loc"
  by (auto simp: slot_shape_def set_slot_def slot_at_def map_update list_update_same_conv split: option.splits)

lemma slot_at_shape: "slot_shape loc = slot_shape loc' \<Longrightarrow> slot_at c i loc \<longleftrightarrow> slot_at c i loc'"
proof -
  assume eq: "slot_shape loc = slot_shape loc'"
  then have len: "length loc = length loc'" by (metis slot_shape_def length_map)
  have "map_option length (loc ! c) = map_option length (loc' ! c)" if "c < length loc"
    using arg_cong [OF eq, of "\<lambda>xs. xs ! c"] that len by (simp add: slot_shape_def)
  then show ?thesis using len by (auto simp: slot_at_def split: option.splits)
qed

lemma locals_shape: "slot_shape loc = slot_shape loc' \<Longrightarrow> length loc = 8 \<Longrightarrow> ll_local_class_locals c loc = ll_local_class_locals c loc'"
proof -
  assume eq: "slot_shape loc = slot_shape loc'" and "length loc = 8"
  moreover from eq have "length loc = length loc'" by (metis slot_shape_def length_map)
  moreover from calculation have "map_option length (loc ! c) = map_option length (loc' ! c)" if "c < 8"
    using eq that unfolding slot_shape_def by (metis nth_map)
  ultimately show ?thesis by (simp add: ll_local_class_locals_def tree_consts)
qed

lemma slot_set:
  assumes "slot_at c i loc"
  shows "slot c' i' (set_slot c i r loc) = (if c' = c \<and> i' = i then r else slot c' i' loc)"
  using assms by (auto simp: slot_def set_slot_def slot_at_def nth_list_update split: option.splits)

lemma class_locals_slot:
  "ll_local_class_locals c loc = Some n \<Longrightarrow> length loc = 8 \<Longrightarrow> i < n \<Longrightarrow> slot_at c i loc"
  by (auto simp: ll_local_class_locals_def slot_at_def tree_consts split: if_splits)

lemma update_slotE:
  assumes "update_slot c i f loc = (r, loc')"
  obtains (fail) "f (slot c i loc) = None" "r = make_result False c (slot c i loc)" "loc' = loc"
  | (ok) v where "f (slot c i loc) = Some v" "r = make_result True c (slot c i loc)" "loc' = set_slot c i v loc"
proof (cases "f (slot c i loc)")
  case None
  with assms show ?thesis by (intro fail) (auto simp: update_slot_def)
next
  case (Some v)
  with assms show ?thesis by (intro ok) (auto simp: update_slot_def)
qed

lemma all_slots_iff:
  assumes "length loc = 8"
  shows "(c, r) \<in> set (all_slots loc) \<longleftrightarrow> (\<exists>i. slot_at c i loc \<and> slot c i loc = r)"
proof -
  have "(c, r) \<in> set (all_slots loc) \<longleftrightarrow>
      c < 8 \<and> (case loc ! c of None \<Rightarrow> False | Some es \<Rightarrow> r \<in> set es)"
    by (auto simp: all_slots_def tree_consts split: option.splits intro: bexI [of _ c])
  also have "\<dots> \<longleftrightarrow> (\<exists>i. slot_at c i loc \<and> slot c i loc = r)"
    using assms by (cases "loc ! c") (auto simp: slot_at_def slot_def in_set_conv_nth)
  finally show ?thesis .
qed

lemma slot_sum_all:
  assumes "length loc = 8"
  shows "slot_sum f loc = sum_list (map (\<lambda>(c, r). f r) (all_slots loc))"
proof -
  have "sum_list (map (\<lambda>(c, r). f r) (concat (map (\<lambda>c. case loc ! c of None \<Rightarrow> [] | Some es \<Rightarrow> map (Pair c) es) cs))) =
      sum_list (map (\<lambda>c. case loc ! c of None \<Rightarrow> 0 | Some es \<Rightarrow> sum_list (map f es)) cs)" for cs
    by (induction cs) (auto simp: comp_def split: option.splits)
  moreover have "map (\<lambda>c. case loc ! c of None \<Rightarrow> 0 | Some es \<Rightarrow> sum_list (map f es)) [0..<8] =
      map (\<lambda>es. case es of None \<Rightarrow> 0 | Some es \<Rightarrow> sum_list (map f es)) loc"
    using assms by (intro nth_equalityI) auto
  ultimately show ?thesis by (simp add: slot_sum_def all_slots_def tree_consts)
qed

end
