(* ===== verification/Llfree.thy ===== *)
theory Llfree
  imports Locals
begin

text \<open>
  The LLFree frame allocator (\<open>src/kernel/mm/llfree.c\<close>) on top of the lower allocator, the tree entries and the
  local slots. A request first tries the tree that its local slot has reserved, then reserves or steals another one
  found by the searches, and when memory is short steals from or demotes the reservations of other slots. The state
  is a record of the three levels and the policy; every call runs to completion.

  The lemmas account for frames that an operation has taken out of one counter and not yet put into another. They
  show that between calls the counters of a tree and of the slot that reserved it add up to the number of its free
  frames, so that \<open>llfree_validate\<close> never complains, and that no frame is handed out twice.
\<close>

section \<open>State and requests\<close>

record llfree =
  lf_lower :: lower
  lf_local :: locals
  lf_trees :: trees
  lf_policy :: policy_fn
  lf_num_classes :: nat

record request =
  rq_order :: nat
  rq_class :: nat
  rq_local :: "nat option"

definition MIN_PAGES :: nat where "MIN_PAGES = 2 ^ LLFREE_HUGE_ORDER"
definition MAX_PAGES :: nat where "MAX_PAGES = 2 ^ (64 - 12)"

text \<open>Position of the highest bit, and the next power of two.\<close>

fun log2 :: "nat \<Rightarrow> nat" where
  "log2 v = (if v \<le> 1 then 0 else Suc (log2 (v div 2)))"

declare log2.simps [simp del]

definition next_pow2 :: "nat \<Rightarrow> nat" where
  "next_pow2 v = (if v \<le> 1 then 1 else 2 ^ (log2 (v - 1) + 1))"

section \<open>Initialisation\<close>

definition init_tree_cb :: "lower \<Rightarrow> nat \<Rightarrow> nat" where
  "init_tree_cb L tree_start_frame =
     sum_list (map (\<lambda>j. c_free (get_child L (tree_from_frame tree_start_frame * LLFREE_TREE_CHILDREN + j)))
       [0..<LLFREE_TREE_CHILDREN])"

text \<open>The metadata memory \<open>fs\<close>, \<open>cs\<close> and \<open>es\<close>: bit fields, children and tree entries found there.\<close>

definition llfree_init ::
    "nat \<Rightarrow> init_mode \<Rightarrow> bitfield list \<Rightarrow> child list \<Rightarrow> tree list \<Rightarrow> classing \<Rightarrow> llfree \<Rightarrow> ll_err \<times> llfree" where
  "llfree_init frames init fs cs es cl s =
     (if (case init of LLFREE_INIT_OTHER v \<Rightarrow> 5 \<le> v | _ \<Rightarrow> False) then (LLFREE_ERR_INIT, s)
      else if frames < MIN_PAGES \<or> MAX_PAGES < frames then (LLFREE_ERR_INIT, s)
      else
        let (res, L) = lower_init frames init fs cs; s = s\<lparr>lf_lower := L\<rparr> in
        if res \<noteq> LLFREE_ERR_OK then (res, s)
        else
          (LLFREE_ERR_OK,
           s\<lparr>lf_trees := trees_init frames es (if init = LLFREE_INIT_NONE then None else Some (init_tree_cb L)) (cl_default cl),
             lf_local := ll_local_init cl,
             lf_policy := cl_policy cl,
             lf_num_classes := length (cl_classes cl)\<rparr>))"

section \<open>Rating trees\<close>

definition rate_reserve_near_tree :: "nat \<Rightarrow> nat \<Rightarrow> policy_fn \<Rightarrow> nat \<Rightarrow> nat \<Rightarrow> policy" where
  "rate_reserve_near_tree cls frames policy tree_class free =
     (if free < frames then (LLFREE_POLICY_INVALID, 0)
      else
        let p = policy cls tree_class free in
        if fst p = LLFREE_POLICY_MATCH then p
        else if fst p = LLFREE_POLICY_DEMOTE \<and> free = LLFREE_TREE_SIZE then (LLFREE_POLICY_MATCH, 255)
        else (LLFREE_POLICY_INVALID, 0))"

definition rate_reserve_global_tree :: "nat \<Rightarrow> nat \<Rightarrow> policy_fn \<Rightarrow> nat \<Rightarrow> nat \<Rightarrow> policy" where
  "rate_reserve_global_tree cls frames policy tree_class free =
     (if free < frames then (LLFREE_POLICY_INVALID, 0)
      else
        let p = policy cls tree_class free in
        if fst p = LLFREE_POLICY_MATCH then (LLFREE_POLICY_MATCH, 255)
        else if fst p = LLFREE_POLICY_DEMOTE \<and> free = LLFREE_TREE_SIZE then (LLFREE_POLICY_MATCH, 255)
        else p)"

definition rate_global_tree :: "nat \<Rightarrow> nat \<Rightarrow> policy_fn \<Rightarrow> nat \<Rightarrow> nat \<Rightarrow> policy" where
  "rate_global_tree cls frames policy tree_class free =
     (if free < frames then (LLFREE_POLICY_INVALID, 0) else policy cls tree_class free)"

section \<open>Allocation\<close>

text \<open>Calls of the levels below on the allocator state.\<close>

definition get_lower :: "nat \<Rightarrow> nat \<Rightarrow> nat option \<Rightarrow> llfree \<Rightarrow> ll_result \<times> llfree" where
  "get_lower start order frame s =
     (let (res, L) = lower_get start order frame (lf_lower s) in (res, s\<lparr>lf_lower := L\<rparr>))"

definition put_tree :: "nat \<Rightarrow> nat \<Rightarrow> llfree \<Rightarrow> llfree" where
  "put_tree i frames s = s\<lparr>lf_trees := trees_put i frames (lf_policy s) (lf_trees s)\<rparr>"

definition unreserve_tree :: "nat \<Rightarrow> nat \<Rightarrow> nat \<Rightarrow> llfree \<Rightarrow> llfree" where
  "unreserve_tree i free cls s = s\<lparr>lf_trees := trees_unreserve i free cls (lf_policy s) (lf_trees s)\<rparr>"

definition swap_reserved :: "nat \<Rightarrow> nat \<Rightarrow> nat \<Rightarrow> nat \<Rightarrow> llfree \<Rightarrow> llfree" where
  "swap_reserved cls local new_idx new_free s =
     (let (old, loc) = ll_local_swap cls local new_idx new_free (lf_local s); s = s\<lparr>lf_local := loc\<rparr> in
      if rs_present (lr_old old)
      then unreserve_tree (tree_from_row (rs_start_row (lr_old old))) (rs_free (lr_old old)) (lr_class old) s
      else s)"

text \<open>Giving back what \<open>trees_reserve_or_steal\<close> took.\<close>

definition give_back :: "bool \<Rightarrow> nat \<Rightarrow> nat \<Rightarrow> nat \<Rightarrow> nat \<Rightarrow> llfree \<Rightarrow> llfree" where
  "give_back reserved idx old_free frames target s =
     (if reserved then unreserve_tree idx old_free target s else put_tree idx frames s)"

definition reserve_or_steal_cb :: "nat \<Rightarrow> nat \<Rightarrow> nat \<Rightarrow> nat \<Rightarrow> llfree \<Rightarrow> llfree_result \<times> llfree" where
  "reserve_or_steal_cb order cls local idx s =
     (let frames = 2 ^ order;
          (r, ts) = trees_reserve_or_steal idx frames (lf_policy s) cls (lf_trees s);
          s = s\<lparr>lf_trees := ts\<rparr>
      in case r of
           None \<Rightarrow> (Err LLFREE_ERR_MEMORY, s)
         | Some (reserved, old_free, target) \<Rightarrow>
             (let len = (case ll_local_class_locals target (lf_local s) of None \<Rightarrow> 0 | Some n \<Rightarrow> n) in
              if len = 0 then (Err LLFREE_ERR_MEMORY, give_back reserved idx old_free frames target s)
              else
                let (res, s) = get_lower (frame_from_tree idx) order None s in
                case res of
                  Frame f \<Rightarrow>
                    (Got f target,
                     if reserved then swap_reserved target (local mod len) idx (old_free - frames) s else s)
                | Fail e \<Rightarrow> (Err e, give_back reserved idx old_free frames target s)))"

definition steal_cb :: "nat \<Rightarrow> nat \<Rightarrow> nat \<Rightarrow> llfree \<Rightarrow> llfree_result \<times> llfree" where
  "steal_cb order cls idx s =
     (let frames = 2 ^ order;
          (r, ts) = trees_steal idx frames cls (lf_policy s) (lf_trees s);
          s = s\<lparr>lf_trees := ts\<rparr>
      in case r of
           None \<Rightarrow> (Err LLFREE_ERR_MEMORY, s)
         | Some c \<Rightarrow>
             (let (res, s) = get_lower (frame_from_tree idx) order None s in
              case res of Frame f \<Rightarrow> (Got f c, s) | Fail e \<Rightarrow> (Err e, put_tree idx frames s)))"

abbreviation entries :: "llfree \<Rightarrow> tree list" where
  "entries s \<equiv> ts_entries (lf_trees s)"

definition search_and_reserve :: "nat \<Rightarrow> nat \<Rightarrow> nat \<Rightarrow> nat \<Rightarrow> llfree \<Rightarrow> llfree_result \<times> llfree" where
  "search_and_reserve cls local order start s =
     (let len = length (entries s);
          cl_trees = 64 div 4;
          near = max (len div 16) (cl_trees div 4);
          start = align_down start (next_pow2 (2 * near));
          (res, s) =
            (if order < LLFREE_HUGE_ORDER
             then trees_search_best entries start 1 near (rate_reserve_near_tree cls (2 ^ order) (lf_policy s))
                    (reserve_or_steal_cb order cls local) s
             else (Err LLFREE_ERR_MEMORY, s))
      in if res \<noteq> Err LLFREE_ERR_MEMORY then (res, s)
         else trees_search_best entries start 0 len (rate_reserve_global_tree cls (2 ^ order) (lf_policy s))
                (reserve_or_steal_cb order cls local) s)"

definition sync_with_global :: "nat \<Rightarrow> nat \<Rightarrow> nat \<Rightarrow> reserved \<Rightarrow> llfree \<Rightarrow> bool \<times> llfree" where
  "sync_with_global cls index needed old s =
     (if needed \<le> rs_free old then (False, s)
      else
        let tree_idx = tree_from_row (rs_start_row old);
            (stolen, ts) = trees_sync_steal tree_idx (needed - rs_free old) (lf_trees s);
            s = s\<lparr>lf_trees := ts\<rparr>
        in case stolen of
             None \<Rightarrow> (False, s)
           | Some n \<Rightarrow>
               (let (ok, loc) = ll_local_put cls index tree_idx n (lf_local s) in
                if ok then (True, s\<lparr>lf_local := loc\<rparr>) else (False, put_tree tree_idx n s)))"

text \<open>The second component is the new start of the search, when the caller gets one.\<close>

function get_local :: "bool \<Rightarrow> nat \<Rightarrow> nat \<Rightarrow> nat \<Rightarrow> nat \<Rightarrow> nat option \<Rightarrow> llfree \<Rightarrow> llfree_result \<times> nat option \<times> llfree" where
  "get_local sync cls index order frames frame s =
     (let (old, loc) = ll_local_get cls index (map_option tree_from_frame frame) frames (lf_local s);
          r = lr_old old; s = s\<lparr>lf_local := loc\<rparr>
      in if lr_success old then
           (let (res, s) = get_lower (frame_from_row (rs_start_row r)) order frame s in
            case res of
              Frame f \<Rightarrow>
                (let start_row = row_from_frame f in
                 (Got f cls, None,
                  if rs_start_row r \<noteq> start_row
                  then s\<lparr>lf_local := snd (ll_local_set_start cls index start_row (lf_local s))\<rparr> else s))
            | Fail e \<Rightarrow>
                (let t = tree_from_row (rs_start_row r) in (Err e, Some t, put_tree t frames s)))
         else
           let (ok, s') = (if sync \<and> rs_present r then sync_with_global cls index frames r s else (False, s)) in
           if ok \<and> sync then get_local False cls index order frames frame s'
           else (Err LLFREE_ERR_MEMORY, if rs_present r then Some (tree_from_row (rs_start_row r)) else None, s'))"
  by pat_completeness auto
termination
  by (relation "measure (\<lambda>(sync, _). of_bool sync)") auto

declare get_local.simps [simp del]

definition steal_local :: "request \<Rightarrow> nat option \<Rightarrow> llfree \<Rightarrow> llfree_result \<times> llfree" where
  "steal_local rq frame s =
     (let frames = 2 ^ rq_order rq;
          index = (case rq_local rq of None \<Rightarrow> 0 | Some i \<Rightarrow> i);
          (r, loc) = ll_local_steal (rq_class rq) index (map_option tree_from_frame frame) frames (lf_policy s) (lf_local s);
          s = s\<lparr>lf_local := loc\<rparr>
      in case r of
           None \<Rightarrow> (Err LLFREE_ERR_MEMORY, s)
         | Some r \<Rightarrow>
             (let row = rs_start_row (lr_old r); (res, s) = get_lower (frame_from_row row) (rq_order rq) frame s in
              case res of
                Frame f \<Rightarrow> (Got f (lr_class r), s)
              | Fail e \<Rightarrow> (Err e, put_tree (tree_from_row row) frames s)))"

definition demote_local :: "request \<Rightarrow> nat option \<Rightarrow> llfree \<Rightarrow> llfree_result \<times> llfree" where
  "demote_local rq frame s =
     (let frames = 2 ^ rq_order rq;
          (d, loc) = ll_local_demote_any (rq_class rq) (rq_local rq) (map_option tree_from_frame frame) frames (lf_policy s)
            (lf_local s);
          s = s\<lparr>lf_local := loc\<rparr>
      in case d of
           None \<Rightarrow> (Err LLFREE_ERR_MEMORY, s)
         | Some d \<Rightarrow>
             (let s = (if dm_unreserve d
                       then unreserve_tree (tree_from_row (dm_unres_row d)) (dm_unres_free d) (dm_unres_class d) s else s);
                  (res, s) = get_lower (frame_from_row (dm_row d)) (rq_order rq) frame s
              in case res of
                   Frame f \<Rightarrow> (Got f (rq_class rq), s)
                 | Fail e \<Rightarrow> (Err e, put_tree (tree_from_row (dm_row d)) frames s)))"

definition llfree_get_at :: "nat \<Rightarrow> request \<Rightarrow> llfree \<Rightarrow> llfree_result \<times> llfree" where
  "llfree_get_at frame rq s =
     (let tree_idx = tree_from_frame frame; frames = 2 ^ rq_order rq;
          (res, s) =
            (case rq_local rq of
               None \<Rightarrow> (Err LLFREE_ERR_MEMORY, s)
             | Some i \<Rightarrow> (let (res, _, s) = get_local True (rq_class rq) i (rq_order rq) frames (Some frame) s in (res, s)))
      in if res \<noteq> Err LLFREE_ERR_MEMORY then (res, s)
         else
           let (c, ts) = trees_steal tree_idx frames (rq_class rq) (lf_policy s) (lf_trees s); s = s\<lparr>lf_trees := ts\<rparr> in
           case c of
             Some c \<Rightarrow>
               (let (res, s) = get_lower frame (rq_order rq) (Some frame) s in
                case res of Frame f \<Rightarrow> (Got f c, s) | Fail e \<Rightarrow> (Err e, put_tree tree_idx frames s))
           | None \<Rightarrow>
               (let (res, s) = steal_local rq (Some frame) s in
                if res \<noteq> Err LLFREE_ERR_MEMORY then (res, s) else demote_local rq (Some frame) s))"

definition validate_request :: "request \<Rightarrow> nat option \<Rightarrow> llfree \<Rightarrow> bool" where
  "validate_request rq frame s =
     (let req_frames = 2 ^ rq_order rq in
      if LLFREE_TREE_ORDER < rq_order rq then False
      else case ll_local_class_locals (rq_class rq) (lf_local s) of
        None \<Rightarrow> False
      | Some n \<Rightarrow>
          if (case rq_local rq of None \<Rightarrow> False | Some i \<Rightarrow> n \<le> i) then False
          else if lo_frames (lf_lower s) < req_frames then False
          else case frame of
            None \<Rightarrow> True
          | Some f \<Rightarrow> f \<le> lo_frames (lf_lower s) - req_frames \<and> f mod req_frames = 0)"

definition llfree_get :: "nat option \<Rightarrow> request \<Rightarrow> llfree \<Rightarrow> llfree_result \<times> llfree" where
  "llfree_get frame rq s =
     (if \<not> validate_request rq frame s then (Err LLFREE_ERR_ARGUMENT, s)
      else case frame of
        Some f \<Rightarrow> llfree_get_at f rq s
      | None \<Rightarrow>
          let len = length (entries s); frames = 2 ^ rq_order rq;
              count = (case ll_local_class_locals (rq_class rq) (lf_local s) of None \<Rightarrow> 0 | Some n \<Rightarrow> n);
              start = (case rq_local rq of Some i \<Rightarrow> if count \<noteq> 0 then len div count * i else 0 | None \<Rightarrow> 0);
              (res, s) =
                (case rq_local rq of
                   Some i \<Rightarrow>
                     if count \<noteq> 0 \<and> count < len then
                       let (res, out, s) = get_local True (rq_class rq) i (rq_order rq) frames None s;
                           start = (case out of None \<Rightarrow> start | Some t \<Rightarrow> t)
                       in if res \<noteq> Err LLFREE_ERR_MEMORY then (res, s)
                          else search_and_reserve (rq_class rq) i (rq_order rq) start s
                     else trees_search_best entries start 0 len (rate_global_tree (rq_class rq) frames (lf_policy s))
                            (steal_cb (rq_order rq) (rq_class rq)) s
                 | None \<Rightarrow> trees_search_best entries start 0 len (rate_global_tree (rq_class rq) frames (lf_policy s))
                            (steal_cb (rq_order rq) (rq_class rq)) s)
          in if res \<noteq> Err LLFREE_ERR_MEMORY then (res, s)
             else
               let (res, s) = steal_local rq None s in
               if res \<noteq> Err LLFREE_ERR_MEMORY then (res, s) else demote_local rq None s)"

section \<open>Freeing, draining and changing trees\<close>

definition llfree_put :: "nat \<Rightarrow> request \<Rightarrow> llfree \<Rightarrow> ll_err \<times> llfree" where
  "llfree_put frame rq s =
     (if \<not> validate_request rq (Some frame) s then (LLFREE_ERR_ARGUMENT, s)
      else
        let (res, L) = lower_put frame (rq_order rq) (lf_lower s); s = s\<lparr>lf_lower := L\<rparr> in
        if res \<noteq> LLFREE_ERR_OK then (res, s)
        else
          let tree_idx = tree_from_frame frame; alloc_frames = 2 ^ rq_order rq;
              (ok, loc) =
                (case rq_local rq of
                   None \<Rightarrow> (False, lf_local s)
                 | Some i \<Rightarrow> ll_local_put (rq_class rq) i tree_idx alloc_frames (lf_local s))
          in if ok then (LLFREE_ERR_OK, s\<lparr>lf_local := loc\<rparr>)
             else (LLFREE_ERR_OK, put_tree tree_idx alloc_frames s))"

definition llfree_change_tree :: "tree_match \<Rightarrow> nat \<times> tree_operation \<Rightarrow> llfree \<Rightarrow> ll_err \<times> llfree" where
  "llfree_change_tree m change s =
     (let fetch_free = (\<lambda>i. st_free_frames (lower_stats_at (frame_from_tree i) LLFREE_TREE_ORDER (lf_lower s)));
          (res, ts) = trees_change m change fetch_free (lf_trees s)
      in (res, s\<lparr>lf_trees := ts\<rparr>))"

definition drain_slot :: "nat \<Rightarrow> nat \<Rightarrow> llfree \<Rightarrow> llfree" where
  "drain_slot cls i s =
     (let (old, loc) = ll_local_drain cls i (lf_local s); s = s\<lparr>lf_local := loc\<rparr> in
      if \<not> rs_present (lr_old old) then s
      else unreserve_tree (tree_from_row (rs_start_row (lr_old old))) (rs_free (lr_old old)) (lr_class old) s)"

definition llfree_drain :: "llfree \<Rightarrow> llfree" where
  "llfree_drain s =
     fold (\<lambda>t s. case ll_local_class_locals t (lf_local s) of
                   None \<Rightarrow> s
                 | Some n \<Rightarrow> fold (drain_slot t) [0..<n] s)
       [0..<LLFREE_MAX_CLASSES] s"

section \<open>Statistics and validation\<close>

definition llfree_tree_stats :: "llfree \<Rightarrow> tree_stats" where
  "llfree_tree_stats s =
     (let a = ll_local_stats (lf_local s); b = trees_stats (lf_trees s) in
      \<lparr>ts_free_frames = ts_free_frames a + ts_free_frames b,
       ts_free_trees = ts_free_trees a + ts_free_trees b,
       ts_classes = map2 (\<lambda>x y. (fst x + fst y, snd x + snd y)) (ts_classes a) (ts_classes b)\<rparr>)"

definition llfree_stats :: "llfree \<Rightarrow> ll_stats" where
  "llfree_stats s = lower_stats (lf_lower s)"

definition llfree_stats_at :: "nat \<Rightarrow> nat \<Rightarrow> llfree \<Rightarrow> ll_stats" where
  "llfree_stats_at frame order s = lower_stats_at frame order (lf_lower s)"

text \<open>Whether all checks of \<open>validate_tree\<close> and of \<open>llfree_validate\<close> hold.\<close>

definition validate_tree :: "llfree \<Rightarrow> reserved \<Rightarrow> bool" where
  "validate_tree s r =
     (let i = tree_from_row (rs_start_row r); t = trees_load i (lf_trees s); free = tr_free t + rs_free r in
      tr_reserved t \<and> tr_class t < lf_num_classes s \<and> free \<le> LLFREE_TREE_SIZE \<and>
      free = st_free_frames (lower_stats_at (frame_from_row (rs_start_row r)) LLFREE_TREE_ORDER (lf_lower s)))"

definition llfree_validate :: "llfree \<Rightarrow> bool" where
  "llfree_validate s \<longleftrightarrow>
     st_free_frames (lower_stats (lf_lower s)) = ts_free_frames (llfree_tree_stats s) \<and>
     list_all (\<lambda>i. let t = trees_load i (lf_trees s) in
         tr_free t \<le> LLFREE_TREE_SIZE \<and> tr_class t < lf_num_classes s \<and>
         (\<not> tr_reserved t \<longrightarrow>
            st_free_frames (lower_stats_at (frame_from_tree i) LLFREE_TREE_ORDER (lf_lower s)) = tr_free t))
       [0..<length (entries s)] \<and>
     list_all (\<lambda>(c, r). rs_free r \<le> LLFREE_TREE_SIZE \<and> (rs_present r \<longrightarrow> validate_tree s r)) (all_slots (lf_local s))"

section \<open>Free frames of a tree\<close>

definition tree_frames :: "nat \<Rightarrow> nat set" where
  "tree_frames t = {f. f div 4096 = t}"

definition tfree :: "lower \<Rightarrow> nat \<Rightarrow> nat" where
  "tfree L t = card (free_set L \<inter> tree_frames t)"

lemma tree_frames_interval: "tree_frames t = {4096 * t..<4096 * t + 4096}"
proof (rule set_eqI)
  fix f :: nat
  have "f = 4096 * (f div 4096) + f mod 4096" "f mod 4096 < 4096" by simp_all
  then show "f \<in> tree_frames t \<longleftrightarrow> f \<in> {4096 * t..<4096 * t + 4096}"
    unfolding tree_frames_def mem_Collect_eq atLeastLessThan_iff by linarith
qed

lemma tree_frames_card [simp]: "finite (tree_frames t)" "card (tree_frames t) = 4096"
  unfolding tree_frames_interval by simp_all

lemma tfree_le: "tfree L t \<le> 4096"
  using card_mono [of "tree_frames t" "free_set L \<inter> tree_frames t"] by (simp add: tfree_def)

lemma block_in_tree:
  assumes "2 ^ order dvd f" "order \<le> 9"
  shows "block order f \<subseteq> tree_frames (f div 4096)"
proof
  fix x assume x: "x \<in> block order f"
  have a: "f mod 512 + 2 ^ order \<le> 512" by (rule aligned_child(2) [OF assms(2,1)])
  have "f mod 4096 = 512 * (f div 512 mod 8) + f mod 512"
    using mod_mult2_eq [of f 512 8] by simp
  moreover have "f div 512 mod 8 \<le> 7" using mod_less_divisor [of 8 "f div 512"] by linarith
  ultimately have "f mod 4096 + 2 ^ order \<le> 4096" using a by linarith
  moreover have "f = 4096 * (f div 4096) + f mod 4096" by simp
  moreover have "f \<le> x" "x < f + 2 ^ order" using x by (auto simp: block_def)
  ultimately show "x \<in> tree_frames (f div 4096)"
    unfolding tree_frames_interval atLeastLessThan_iff by linarith
qed

lemma block_other_tree:
  assumes "2 ^ order dvd f" "order \<le> 9" "t \<noteq> f div 4096"
  shows "block order f \<inter> tree_frames t = {}"
  using block_in_tree [OF assms(1,2)] assms(3) by (auto simp: tree_frames_def)

lemma tfree_take:
  assumes "block order f \<subseteq> free_set L" "free_set L' = free_set L - block order f" "2 ^ order dvd f" "order \<le> 9"
  shows "tfree L' t + (if t = f div 4096 then 2 ^ order else 0) = tfree L t"
proof (cases "t = f div 4096")
  case True
  have sub: "block order f \<subseteq> free_set L \<inter> tree_frames t" using assms(1) block_in_tree [OF assms(3,4)] True by auto
  have "free_set L' \<inter> tree_frames t = (free_set L \<inter> tree_frames t) - block order f" using assms(2) by auto
  then have "tfree L' t = tfree L t - 2 ^ order"
    unfolding tfree_def using card_Diff_subset [OF _ sub] by simp
  moreover have "2 ^ order \<le> tfree L t"
    unfolding tfree_def using card_mono [OF _ sub] by simp
  ultimately show ?thesis using True by simp
next
  case False
  have "free_set L' \<inter> tree_frames t = free_set L \<inter> tree_frames t"
    using assms(2) block_other_tree [OF assms(3,4) False] by auto
  then show ?thesis using False by (simp add: tfree_def)
qed

lemma tfree_give:
  assumes "block order f \<inter> free_set L = {}" "free_set L' = free_set L \<union> block order f" "2 ^ order dvd f" "order \<le> 9"
  shows "tfree L' t = tfree L t + (if t = f div 4096 then 2 ^ order else 0)"
proof -
  have "block order f \<subseteq> free_set L'" "free_set L = free_set L' - block order f" using assms(1,2) by auto
  from tfree_take [OF this assms(3,4), of t] show ?thesis by simp
qed

text \<open>What \<open>lower_get\<close> does to the counts, seen from the tree it searches.\<close>

lemma lower_get_tree:
  assumes inv: "low_inv L" and start: "start < lo_frames L" and order: "order \<le> 9"
    and get: "lower_get start order None L = (res, L')"
  shows "case res of
      Frame f \<Rightarrow> low_inv L' \<and> lo_frames L' = lo_frames L \<and> f div 4096 = start div 4096 \<and> f < lo_frames L \<and>
        (\<forall>t. tfree L' t + (if t = start div 4096 then 2 ^ order else 0) = tfree L t)
    | Fail e \<Rightarrow> e = LLFREE_ERR_MEMORY \<and> L' = L"
proof -
  have t: "takes order (tree_children start) L (res, L')" using lower_get_takes [OF inv start order] get by simp
  show ?thesis
  proof (cases res)
    case (Frame f)
    with t have f: "f div 512 \<in> tree_children start" "2 ^ order dvd f" "block order f \<subseteq> free_set L"
      "free_set L' = free_set L - block order f" "lo_frames L' = lo_frames L" "low_inv L'"
      by (auto simp: takes_def)
    have "f div 4096 = f div 512 div 8" by (simp add: div_mult2_eq [symmetric])
    then have tree: "f div 4096 = start div 4096" using f(1) by (simp add: tree_children_def)
    have "f \<in> block order f" by (simp add: block_def)
    then have "f < lo_frames L" using f(3) free_set_bound [OF inv] by auto
    with f(5,6) tree tfree_take [OF f(3,4,2) order] show ?thesis by (simp add: Frame)
  next
    case (Fail e)
    with t show ?thesis by (auto simp: takes_def)
  qed
qed

section \<open>Accounting for free frames\<close>

text \<open>
  While an operation runs, it holds frames that it took out of a counter (\<open>h t\<close> of tree \<open>t\<close>) and trees that are
  marked reserved and are in no slot (\<open>p\<close>). The counter of a tree, the counter of the slot that reserved it and
  what is held add up to its free frames.
\<close>

definition res_free :: "nat \<Rightarrow> reserved \<Rightarrow> nat" where
  "res_free t r = (if rs_present r \<and> tree_from_row (rs_start_row r) = t then rs_free r else 0)"

definition res_cnt :: "nat \<Rightarrow> reserved \<Rightarrow> nat" where
  "res_cnt t r = of_bool (rs_present r \<and> tree_from_row (rs_start_row r) = t)"

definition slot_ok :: "nat \<Rightarrow> reserved \<Rightarrow> bool" where
  "slot_ok n r \<longleftrightarrow> (if rs_present r then rs_start_row r * 64 < n else rs_free r = 0)"

definition shape_ok :: "llfree \<Rightarrow> bool" where
  "shape_ok s \<longleftrightarrow> low_inv (lf_lower s) \<and> lo_frames (lf_lower s) \<le> 2 ^ 41 \<and> 0 < lo_frames (lf_lower s) \<and>
     length (entries s) = div_ceil (lo_frames (lf_lower s)) 4096 \<and> length (lf_local s) = 8 \<and>
     lf_num_classes s \<le> 8 \<and> ts_default (lf_trees s) < lf_num_classes s \<and>
     (\<forall>i < length (entries s). tr_class (entries s ! i) < lf_num_classes s) \<and>
     (\<forall>c. ll_local_class_locals c (lf_local s) \<noteq> None \<longrightarrow> c < lf_num_classes s) \<and>
     (\<forall>c i. slot_at c i (lf_local s) \<longrightarrow> c < lf_num_classes s \<and> slot_ok (lo_frames (lf_lower s)) (slot c i (lf_local s)))"

definition acct :: "(nat \<Rightarrow> nat) \<Rightarrow> nat set \<Rightarrow> llfree \<Rightarrow> bool" where
  "acct h p s \<longleftrightarrow> shape_ok s \<and>
     (\<forall>t < length (entries s).
        tr_free (entries s ! t) + slot_sum (res_free t) (lf_local s) + h t = tfree (lf_lower s) t \<and>
        slot_sum (res_cnt t) (lf_local s) + of_bool (t \<in> p) = of_bool (tr_reserved (entries s ! t)))"

lemma acct_shape: "acct h p s \<Longrightarrow> shape_ok s"
  unfolding acct_def by (rule conjunct1)

lemma acctD:
  assumes "acct h p s" "t < length (entries s)"
  shows "tr_free (entries s ! t) + slot_sum (res_free t) (lf_local s) + h t = tfree (lf_lower s) t"
    "slot_sum (res_cnt t) (lf_local s) + of_bool (t \<in> p) = of_bool (tr_reserved (entries s ! t))"
    "tr_free (entries s ! t) + h t \<le> 4096" "tr_class (entries s ! t) < 8"
proof -
  show *: "tr_free (entries s ! t) + slot_sum (res_free t) (lf_local s) + h t = tfree (lf_lower s) t"
    "slot_sum (res_cnt t) (lf_local s) + of_bool (t \<in> p) = of_bool (tr_reserved (entries s ! t))"
    using assms by (auto simp: acct_def)
  show "tr_free (entries s ! t) + h t \<le> 4096" using *(1) tfree_le [of "lf_lower s" t] by linarith
  show "tr_class (entries s ! t) < 8" using acct_shape [OF assms(1)] assms(2) unfolding shape_ok_def by (meson less_le_trans)
qed

lemma tree_count: "t < div_ceil n 4096 \<longleftrightarrow> 4096 * t < n"
  using less_eq_div_iff_mult_less_eq [of 4096 "Suc t" "n + 4096 - 1"]
  by (auto simp: div_ceil_def less_eq_Suc_le [of t])

lemma tree_of_row [simp]: "tree_from_row r = r div 64"
  by (simp add: tree_from_row_def tree_from_frame_def frame_from_row_def LLFREE_TREE_ORDER_def LLFREE_ATOMIC_ORDER_def
      div_mult2_eq [of "r * 64" 64 64, simplified])

lemma slot_okD:
  assumes "shape_ok s" "slot_at c i (lf_local s)" "rs_present (slot c i (lf_local s))"
  shows "rs_start_row (slot c i (lf_local s)) * 64 < lo_frames (lf_lower s)"
    "rs_start_row (slot c i (lf_local s)) div 64 < length (entries s)" "c < lf_num_classes s"
proof -
  let ?r = "rs_start_row (slot c i (lf_local s))"
  show r: "?r * 64 < lo_frames (lf_lower s)" "c < lf_num_classes s"
    using assms by (auto simp: shape_ok_def slot_ok_def)
  have "?r div 64 * 64 \<le> ?r" by simp
  then have "4096 * (?r div 64) < lo_frames (lf_lower s)" using r(1) by linarith
  then show "?r div 64 < length (entries s)" using assms(1) by (simp add: shape_ok_def tree_count)
qed

text \<open>Changes of one tree entry, of one slot and of the lower allocator.\<close>

lemma acct_tree:
  assumes a: "acct h p s" and i: "i < length (entries s)"
    and t: "tr_free t + h' i = tr_free (entries s ! i) + h i" "tr_class t < lf_num_classes s"
      "of_bool (tr_reserved t) + of_bool (i \<in> p) = (of_bool (tr_reserved (entries s ! i)) + of_bool (i \<in> p') :: nat)"
    and other: "\<And>j. j \<noteq> i \<Longrightarrow> h' j = h j" "\<And>j. j \<noteq> i \<Longrightarrow> j \<in> p' \<longleftrightarrow> j \<in> p"
  shows "acct h' p' (s\<lparr>lf_trees := trees_store i t (lf_trees s)\<rparr>)"
proof -
  have "tr_class ((entries s)[i := t] ! j) < lf_num_classes s" if "j < length (entries s)" for j
    using acct_shape [OF a] t(2) that by (cases "j = i") (simp_all add: shape_ok_def)
  then have "shape_ok (s\<lparr>lf_trees := trees_store i t (lf_trees s)\<rparr>)"
    using acct_shape [OF a] by (simp add: shape_ok_def trees_store_def)
  moreover have "tr_free ((entries s)[i := t] ! j) + slot_sum (res_free j) (lf_local s) + h' j = tfree (lf_lower s) j \<and>
      slot_sum (res_cnt j) (lf_local s) + of_bool (j \<in> p') = of_bool (tr_reserved ((entries s)[i := t] ! j))"
    if j: "j < length (entries s)" for j
  proof (cases "j = i")
    case True
    have "slot_sum (res_cnt j) (lf_local s) + of_bool (j \<in> p') = of_bool (tr_reserved t)"
      "tr_free t + slot_sum (res_free j) (lf_local s) + h' j = tfree (lf_lower s) j"
      using acctD(1,2) [OF a j] t(1,3) unfolding True by linarith+
    then show ?thesis using i by (simp add: True)
  next
    case False
    then show ?thesis using acctD(1,2) [OF a j] other by simp
  qed
  ultimately show ?thesis by (simp add: acct_def trees_store_def)
qed

lemma acct_slot:
  assumes a: "acct h p s" and c: "slot_at c i (lf_local s)"
    and ok: "slot_ok (lo_frames (lf_lower s)) r"
    and r: "\<And>t. t < length (entries s) \<Longrightarrow> res_free t r + h' t = res_free t (slot c i (lf_local s)) + h t"
      "\<And>t. t < length (entries s) \<Longrightarrow>
         res_cnt t r + of_bool (t \<in> p') = res_cnt t (slot c i (lf_local s)) + of_bool (t \<in> p)"
  shows "acct h' p' (s\<lparr>lf_local := set_slot c i r (lf_local s)\<rparr>)"
proof -
  have "slot_at c' i' (set_slot c i r (lf_local s)) \<longleftrightarrow> slot_at c' i' (lf_local s)" for c' i'
    by (rule slot_at_shape [OF slot_shape_set [OF c]])
  moreover have "length (set_slot c i r (lf_local s)) = length (lf_local s)" by (simp add: set_slot_def)
  moreover have "ll_local_class_locals c' (set_slot c i r (lf_local s)) = ll_local_class_locals c' (lf_local s)" for c'
    using acct_shape [OF a] locals_shape [OF slot_shape_set [OF c]] by (simp add: shape_ok_def set_slot_def)
  ultimately have "shape_ok (s\<lparr>lf_local := set_slot c i r (lf_local s)\<rparr>)"
    using acct_shape [OF a] c ok by (auto simp: shape_ok_def slot_set)
  moreover have "tr_free (entries s ! t) + slot_sum (res_free t) (set_slot c i r (lf_local s)) + h' t = tfree (lf_lower s) t \<and>
      slot_sum (res_cnt t) (set_slot c i r (lf_local s)) + of_bool (t \<in> p') = of_bool (tr_reserved (entries s ! t))"
    if "t < length (entries s)" for t
    using acctD(1,2) [OF a that] r [OF that] slot_sum_set [OF c, of "res_free t" r] slot_sum_set [OF c, of "res_cnt t" r]
    by linarith
  ultimately show ?thesis by (simp add: acct_def)
qed

lemma acct_lower:
  assumes a: "acct h p s" and L: "low_inv L" "lo_frames L = lo_frames (lf_lower s)"
    and h: "\<And>t. h' t + tfree (lf_lower s) t = h t + tfree L t"
  shows "acct h' p (s\<lparr>lf_lower := L\<rparr>)"
proof -
  have "tr_free (entries s ! t) + slot_sum (res_free t) (lf_local s) + h' t = tfree L t"
    if "t < length (entries s)" for t
    using acctD(1) [OF a that] h [of t] by linarith
  moreover have "slot_sum (res_cnt t) (lf_local s) + of_bool (t \<in> p) = of_bool (tr_reserved (entries s ! t))"
    if "t < length (entries s)" for t
    using acctD(2) [OF a that] .
  ultimately show ?thesis using a L by (auto simp: acct_def shape_ok_def)
qed

section \<open>The accounts of the single operations\<close>

text \<open>What stays as it is: the number of trees and frames, the classes and their slots.\<close>

definition sim :: "llfree \<Rightarrow> llfree \<Rightarrow> bool" where
  "sim s s' \<longleftrightarrow> length (entries s') = length (entries s) \<and> slot_shape (lf_local s') = slot_shape (lf_local s) \<and>
     lo_frames (lf_lower s') = lo_frames (lf_lower s) \<and> lf_num_classes s' = lf_num_classes s"

lemma sim_refl [simp, intro]: "sim s s"
  by (simp add: sim_def)

lemma sim_trans: "sim s s' \<Longrightarrow> sim s' s'' \<Longrightarrow> sim s s''"
  by (simp add: sim_def)

lemma sim_slot: "sim s s' \<Longrightarrow> slot_at c i (lf_local s') \<longleftrightarrow> slot_at c i (lf_local s)"
  by (rule slot_at_shape) (simp add: sim_def)

lemma tree_put_simps:
  assumes "tr_free t + frames \<le> 4096"
  shows "tr_free (tree_put frames pol d t) = tr_free t + frames" "tr_reserved (tree_put frames pol d t) = tr_reserved t"
    "tr_class (tree_put frames pol d t) \<in> {tr_class t, d mod 8}"
  using assms by (simp_all add: tree_put_def set_free_def set_class_def tree_consts Let_def)

lemma put_tree_acct:
  assumes a: "acct h p s" and i: "i < length (entries s)" and f: "frames \<le> h i"
  shows "acct (h(i := h i - frames)) p (put_tree i frames s)" "sim s (put_tree i frames s)"
    "lf_lower (put_tree i frames s) = lf_lower s"
proof -
  let ?t = "entries s ! i"
  let ?t' = "tree_put frames (lf_policy s) (ts_default (lf_trees s)) ?t"
  have le: "tr_free ?t + frames \<le> 4096" using acctD(3) [OF a i] f by linarith
  note t = tree_put_simps [OF le, of "lf_policy s" "ts_default (lf_trees s)"]
  have cls: "tr_class ?t' < lf_num_classes s"
    using t(3) acct_shape [OF a] i by (auto simp: shape_ok_def)
  have eq: "put_tree i frames s = s\<lparr>lf_trees := trees_store i ?t' (lf_trees s)\<rparr>"
    by (simp add: put_tree_def trees_put_def trees_load_def)
  show "acct (h(i := h i - frames)) p (put_tree i frames s)"
    unfolding eq by (rule acct_tree [OF a i]) (use f t cls in simp_all)
  show "sim s (put_tree i frames s)" "lf_lower (put_tree i frames s) = lf_lower s"
    unfolding eq by (simp_all add: sim_def trees_store_def)
qed

lemma tree_unreserve_simps:
  assumes "tr_reserved t" "tr_free t + frames \<le> 4096"
  obtains t' where "tree_unreserve_add frames cls pol d t = Some t'" "tr_free t' = tr_free t + frames"
    "\<not> tr_reserved t'" "tr_class t' \<in> {tr_class t, cls mod 8, d mod 8}"
proof -
  define u where "u = (let t = t\<lparr>tr_reserved := False\<rparr> in
    if fst (pol cls (tr_class t) frames) = LLFREE_POLICY_DEMOTE then set_class cls t else t)"
  have u: "tr_free u = tr_free t" "\<not> tr_reserved u" "tr_class u \<in> {tr_class t, cls mod 8}"
    by (simp_all add: u_def set_class_def tree_consts Let_def)
  have "tree_unreserve_add frames cls pol d t = Some (tree_put frames pol d u)"
    using assms(1) by (simp add: tree_unreserve_add_def u_def Let_def)
  then show ?thesis using that tree_put_simps [of u frames pol d] u assms(2) by auto
qed

lemma unreserve_tree_acct:
  assumes a: "acct h p s" and i: "i < length (entries s)" "i \<in> p" and f: "free \<le> h i" and c: "cls < lf_num_classes s"
  shows "acct (h(i := h i - free)) (p - {i}) (unreserve_tree i free cls s)" "sim s (unreserve_tree i free cls s)"
    "lf_lower (unreserve_tree i free cls s) = lf_lower s"
proof -
  let ?t = "entries s ! i"
  have res: "tr_reserved ?t" using acctD(2) [OF a i(1)] i(2) by (cases "tr_reserved ?t") simp_all
  have le: "tr_free ?t + free \<le> 4096" using acctD(3) [OF a i(1)] f by linarith
  obtain t where t: "tree_unreserve_add free cls (lf_policy s) (ts_default (lf_trees s)) ?t = Some t"
    "tr_free t = tr_free ?t + free" "\<not> tr_reserved t" "tr_class t \<in> {tr_class ?t, cls mod 8, ts_default (lf_trees s) mod 8}"
    by (rule tree_unreserve_simps [OF res le])
  have cls: "tr_class t < lf_num_classes s"
    using t(4) acct_shape [OF a] i c by (auto simp: shape_ok_def)
  have eq: "unreserve_tree i free cls s = s\<lparr>lf_trees := trees_store i t (lf_trees s)\<rparr>"
    using t(1) by (simp add: unreserve_tree_def trees_unreserve_def trees_load_def)
  show "acct (h(i := h i - free)) (p - {i}) (unreserve_tree i free cls s)"
    unfolding eq by (rule acct_tree [OF a i(1)]) (use f t cls res i in simp_all)
  show "sim s (unreserve_tree i free cls s)" "lf_lower (unreserve_tree i free cls s) = lf_lower s"
    unfolding eq by (simp_all add: sim_def trees_store_def)
qed

text \<open>Taking frames out of a tree, or reserving it.\<close>

lemma set_free_simps [simp]:
  "n < 2 ^ 28 \<Longrightarrow> tr_free (set_free n t) = n" "tr_reserved (set_free n t) = tr_reserved t" "tr_class (set_free n t) = tr_class t"
  "tr_free (set_class c t) = tr_free t" "tr_reserved (set_class c t) = tr_reserved t" "tr_class (set_class c t) = c mod 8"
  by (simp_all add: set_free_def set_class_def tree_consts)

lemma trees_steal_acct:
  assumes a: "acct h p s" and i: "i < length (entries s)" and c: "cls < lf_num_classes s"
    and st: "trees_steal i frames cls (lf_policy s) (lf_trees s) = (Some c', ts)"
  shows "acct (h(i := h i + frames)) p (s\<lparr>lf_trees := ts\<rparr>)" "sim s (s\<lparr>lf_trees := ts\<rparr>)" "c' < lf_num_classes s"
proof -
  let ?t = "entries s ! i"
  from st obtain t where t: "tree_steal frames cls (lf_policy s) ?t = Some (c', t)" "ts = trees_store i t (lf_trees s)"
    by (auto simp: trees_steal_def trees_load_def split: option.splits)
  have le: "tr_free ?t < 2 ^ 28" using acctD(3) [OF a i] by simp
  have cls: "cls mod 8 = cls" "tr_class ?t < lf_num_classes s" using acct_shape [OF a] c i by (auto simp: shape_ok_def)
  have t': "frames \<le> tr_free ?t" "tr_free t = tr_free ?t - frames" "tr_reserved t = tr_reserved ?t"
    "tr_class t < lf_num_classes s" "c' < lf_num_classes s"
    using t(1) le c cls by (auto simp: tree_steal_def split: if_splits policy_type.splits)
  show "acct (h(i := h i + frames)) p (s\<lparr>lf_trees := ts\<rparr>)"
    unfolding t(2) by (rule acct_tree [OF a i]) (use t' in simp_all)
  show "sim s (s\<lparr>lf_trees := ts\<rparr>)" by (simp add: sim_def t(2) trees_store_def)
  show "c' < lf_num_classes s" by (rule t'(5))
qed

lemma trees_reserve_or_steal_acct:
  assumes a: "acct h p s" and i: "i < length (entries s)" and c: "cls < lf_num_classes s"
    and st: "trees_reserve_or_steal i frames (lf_policy s) cls (lf_trees s) = (Some (reserved, old, c'), ts)"
  shows "acct (h(i := h i + (if reserved then old else frames))) (if reserved then insert i p else p) (s\<lparr>lf_trees := ts\<rparr>)"
    "sim s (s\<lparr>lf_trees := ts\<rparr>)" "c' < lf_num_classes s" "frames \<le> old" "i \<notin> p"
proof -
  let ?t = "entries s ! i"
  from st obtain t where t: "tree_reserve_or_steal frames (lf_policy s) cls ?t = Some (reserved, c', t)"
    "ts = trees_store i t (lf_trees s)" "old = tr_free ?t"
    by (auto simp: trees_reserve_or_steal_def trees_load_def Let_def split: option.splits)
  have le: "tr_free ?t < 2 ^ 28" using acctD(3) [OF a i] by simp
  have cls: "cls mod 8 = cls" "tr_class ?t < lf_num_classes s" using acct_shape [OF a] c i by (auto simp: shape_ok_def)
  have t': "frames \<le> tr_free ?t" "tr_free t = (if reserved then 0 else tr_free ?t - frames)" "tr_reserved t = reserved"
    "\<not> tr_reserved ?t" "tr_class t < lf_num_classes s" "c' < lf_num_classes s"
    using t(1) le c cls by (auto simp: tree_reserve_or_steal_def split: if_splits policy_type.splits)
  show "i \<notin> p" using acctD(2) [OF a i] t'(4) by (cases "i \<in> p") simp_all
  then show "acct (h(i := h i + (if reserved then old else frames))) (if reserved then insert i p else p) (s\<lparr>lf_trees := ts\<rparr>)"
    unfolding t(2) by (intro acct_tree [OF a i]) (use t' t(3) in auto)
  show "sim s (s\<lparr>lf_trees := ts\<rparr>)" by (simp add: sim_def t(2) trees_store_def)
  show "c' < lf_num_classes s" "frames \<le> old" by (use t' t(3) in simp_all)
qed

lemma trees_sync_steal_acct:
  assumes a: "acct h p s" and i: "i < length (entries s)"
    and st: "trees_sync_steal i least (lf_trees s) = (Some n, ts)"
  shows "acct (h(i := h i + n)) p (s\<lparr>lf_trees := ts\<rparr>)" "sim s (s\<lparr>lf_trees := ts\<rparr>)"
proof -
  let ?t = "entries s ! i"
  from st have t: "ts = trees_store i (set_free 0 ?t) (lf_trees s)" "n = tr_free ?t"
    by (auto simp: trees_sync_steal_def tree_sync_steal_def trees_load_def Let_def split: option.splits if_splits)
  have "tr_class ?t < lf_num_classes s" using acct_shape [OF a] i by (auto simp: shape_ok_def)
  then show "acct (h(i := h i + n)) p (s\<lparr>lf_trees := ts\<rparr>)"
    unfolding t(1) by (intro acct_tree [OF a i]) (use t(2) in simp_all)
  show "sim s (s\<lparr>lf_trees := ts\<rparr>)" by (simp add: sim_def t trees_store_def)
qed

lemma get_lower_acct:
  assumes a: "acct h p s" and start: "start < lo_frames (lf_lower s)" and order: "order \<le> 9"
    and h: "2 ^ order \<le> h (start div 4096)" and get: "get_lower start order None s = (res, s')"
  shows "case res of
      Frame f \<Rightarrow> acct (h(start div 4096 := h (start div 4096) - 2 ^ order)) p s' \<and> sim s s' \<and> lf_local s' = lf_local s \<and>
        lower_get start order None (lf_lower s) = (Frame f, lf_lower s') \<and> f div 4096 = start div 4096 \<and>
        f < lo_frames (lf_lower s)
    | Fail e \<Rightarrow> e = LLFREE_ERR_MEMORY \<and> s' = s"
proof -
  obtain L where L: "lower_get start order None (lf_lower s) = (res, L)" "s' = s\<lparr>lf_lower := L\<rparr>"
    using get by (auto simp: get_lower_def Let_def split: prod.splits)
  have inv: "low_inv (lf_lower s)" using acct_shape [OF a] by (simp add: shape_ok_def)
  note tree = lower_get_tree [OF inv start order L(1)]
  show ?thesis
  proof (cases res)
    case (Frame f)
    with tree have f: "low_inv L" "lo_frames L = lo_frames (lf_lower s)" "f div 4096 = start div 4096" "f < lo_frames (lf_lower s)"
      "\<And>t. tfree L t + (if t = start div 4096 then 2 ^ order else 0) = tfree (lf_lower s) t" by auto
    have "(h(start div 4096 := h (start div 4096) - 2 ^ order)) t + tfree (lf_lower s) t = h t + tfree L t" for t
      using f(5) [of t] h by (cases "t = start div 4096") simp_all
    then have "acct (h(start div 4096 := h (start div 4096) - 2 ^ order)) p s'"
      unfolding L(2) by (rule acct_lower [OF a f(1,2)])
    then show ?thesis using f L Frame by (simp add: sim_def)
  next
    case (Fail e)
    then show ?thesis using tree L(2) by simp
  qed
qed

text \<open>A slot that gives frames away or gets frames back.\<close>

lemma slot_counts:
  assumes a: "acct h p s" and c: "slot_at c i (lf_local s)" and r: "rs_present (slot c i (lf_local s))"
  defines "t \<equiv> rs_start_row (slot c i (lf_local s)) div 64"
  shows "t < length (entries s)" "t \<notin> p" "rs_free (slot c i (lf_local s)) + h t \<le> 4096"
proof -
  show t: "t < length (entries s)" unfolding t_def by (rule slot_okD(2) [OF acct_shape [OF a] c r])
  have "res_cnt t (slot c i (lf_local s)) = 1" "res_free t (slot c i (lf_local s)) = rs_free (slot c i (lf_local s))"
    using r by (simp_all add: res_cnt_def res_free_def t_def)
  then have le: "1 \<le> slot_sum (res_cnt t) (lf_local s)" "rs_free (slot c i (lf_local s)) \<le> slot_sum (res_free t) (lf_local s)"
    using slot_le_sum [OF c, of "res_cnt t"] slot_le_sum [OF c, of "res_free t"] by simp_all
  have "of_bool (tr_reserved (entries s ! t)) \<le> (1 :: nat)" by simp
  then have "of_bool (t \<in> p) < (1 :: nat)" using acctD(2) [OF a t] le(1) by linarith
  then show "t \<notin> p" by simp
  show "rs_free (slot c i (lf_local s)) + h t \<le> 4096"
    using acctD(1) [OF a t] le(2) tfree_le [of "lf_lower s" t] by linarith
qed

lemma slot_shape_sim: "slot_at c i (lf_local s) \<Longrightarrow> sim s (s\<lparr>lf_local := set_slot c i r (lf_local s)\<rparr>)"
  by (simp add: sim_def slot_shape_set)

lemma reserved_dec_acct:
  assumes a: "acct h p s" and c: "slot_at c i (lf_local s)"
    and d: "ll_reserved_dec None frames (slot c i (lf_local s)) = Some r"
  defines "t \<equiv> rs_start_row (slot c i (lf_local s)) div 64"
  shows "acct (h(t := h t + frames)) p (s\<lparr>lf_local := set_slot c i r (lf_local s)\<rparr>)" "t < length (entries s)"
    "rs_start_row (slot c i (lf_local s)) * 64 < lo_frames (lf_lower s)" "rs_present (slot c i (lf_local s))"
proof -
  let ?o = "slot c i (lf_local s)"
  have r: "rs_present ?o" "frames \<le> rs_free ?o" "r = ?o\<lparr>rs_free := rs_free ?o - frames\<rparr>"
    using d by (auto simp: ll_reserved_dec_def split: if_splits)
  show "rs_start_row ?o * 64 < lo_frames (lf_lower s)" "t < length (entries s)"
    using slot_okD [OF acct_shape [OF a] c r(1)] by (simp_all add: t_def)
  then have "slot_ok (lo_frames (lf_lower s)) r" using r by (simp add: slot_ok_def)
  then show "acct (h(t := h t + frames)) p (s\<lparr>lf_local := set_slot c i r (lf_local s)\<rparr>)"
    by (rule acct_slot [OF a c]) (use r in \<open>auto simp: res_free_def res_cnt_def t_def\<close>)
  show "rs_present ?o" by (rule r(1))
qed

lemma reserved_inc_acct:
  assumes a: "acct h p s" and c: "slot_at c i (lf_local s)"
    and d: "ll_reserved_inc t frames (slot c i (lf_local s)) = Some r" and h: "frames \<le> h t"
  shows "acct (h(t := h t - frames)) p (s\<lparr>lf_local := set_slot c i r (lf_local s)\<rparr>)"
proof -
  let ?o = "slot c i (lf_local s)"
  have r: "rs_present ?o" "rs_start_row ?o div 64 = t" "r = ?o\<lparr>rs_free := (rs_free ?o + frames) mod 2 ^ 28\<rparr>"
    using d by (auto simp: ll_reserved_inc_def tree_consts split: if_splits)
  have "rs_free ?o + h t \<le> 4096" using slot_counts(3) [OF a c r(1)] r(2) by simp
  then have "(rs_free ?o + frames) mod 2 ^ 28 = rs_free ?o + frames" using h by (intro mod_less) simp
  with r(3) have r': "r = ?o\<lparr>rs_free := rs_free ?o + frames\<rparr>" by simp
  have "slot_ok (lo_frames (lf_lower s)) r"
    using slot_okD(1) [OF acct_shape [OF a] c r(1)] r(1) by (simp add: slot_ok_def r')
  then show ?thesis
    by (rule acct_slot [OF a c]) (use r(1,2) h in \<open>auto simp: res_free_def res_cnt_def r'\<close>)
qed

text \<open>A new reservation in a slot; what the slot held before is given back to its tree.\<close>

lemma slot_swap_acct:
  assumes a: "acct (h(t := h t + n)) (insert t p) s" and t: "t < length (entries s)" "t \<notin> p" and c: "slot_at c i (lf_local s)"
    and r: "rs_present r" "rs_start_row r div 64 = t" "rs_start_row r * 64 < lo_frames (lf_lower s)" "rs_free r = n"
  defines "old \<equiv> slot c i (lf_local s)"
  defines "j \<equiv> rs_start_row old div 64"
  shows "\<not> rs_present old \<Longrightarrow> acct h p (s\<lparr>lf_local := set_slot c i r (lf_local s)\<rparr>)"
    "rs_present old \<Longrightarrow> acct (h(j := h j + rs_free old)) (insert j p) (s\<lparr>lf_local := set_slot c i r (lf_local s)\<rparr>)"
    "rs_present old \<Longrightarrow> j < length (entries s) \<and> j \<notin> p"
proof -
  have ok: "slot_ok (lo_frames (lf_lower s)) r" using r by (simp add: slot_ok_def)
  show "acct h p (s\<lparr>lf_local := set_slot c i r (lf_local s)\<rparr>)" if "\<not> rs_present old"
    by (rule acct_slot [OF a c ok]) (use r that t in \<open>auto simp: res_free_def res_cnt_def old_def\<close>)
  have j: "j < length (entries s)" "j \<notin> insert t p" if "rs_present old"
    using slot_counts(1,2) [OF a c] that by (simp_all add: old_def j_def)
  then show "acct (h(j := h j + rs_free old)) (insert j p) (s\<lparr>lf_local := set_slot c i r (lf_local s)\<rparr>)" if "rs_present old"
    using that
    by (intro acct_slot [OF a c ok]) (use r that t in \<open>auto simp: res_free_def res_cnt_def old_def j_def\<close>)
  show "rs_present old \<Longrightarrow> j < length (entries s) \<and> j \<notin> p" using j by simp
qed

lemma reserved_new_tree:
  assumes "shape_ok s" "t < length (entries s)" "n \<le> 4096"
  defines "r \<equiv> ll_reserved_new True n (row_from_tree t)"
  shows "rs_present r" "rs_start_row r div 64 = t" "rs_start_row r * 64 < lo_frames (lf_lower s)" "rs_free r = n"
proof -
  have lt: "4096 * t < lo_frames (lf_lower s)" "lo_frames (lf_lower s) \<le> 2 ^ 41"
    using assms(1,2) by (simp_all add: shape_ok_def tree_count)
  then have "t * 64 < 2 ^ 35" by simp
  then have r: "r = \<lparr>rs_present = True, rs_free = n, rs_start_row = t * 64\<rparr>"
    using assms(3) by (simp add: r_def ll_reserved_new_def row_from_tree_def row_from_frame_def frame_from_tree_def
        LLFREE_ATOMIC_ORDER_def LLFREE_TREE_ORDER_def tree_consts)
  show "rs_present r" "rs_start_row r div 64 = t" "rs_start_row r * 64 < lo_frames (lf_lower s)" "rs_free r = n"
    using lt(1) by (simp_all add: r)
qed

lemma swap_reserved_acct:
  assumes a: "acct (h(t := h t + n)) (insert t p) s" and t: "t < length (entries s)" "t \<notin> p" and c: "slot_at c i (lf_local s)"
  shows "acct h p (swap_reserved c i t n s)" "sim s (swap_reserved c i t n s)"
    "lf_lower (swap_reserved c i t n s) = lf_lower s"
proof -
  define r where "r = ll_reserved_new True n (row_from_tree t)"
  define old where "old = slot c i (lf_local s)"
  define j where "j = rs_start_row old div 64"
  define s1 where "s1 = s\<lparr>lf_local := set_slot c i r (lf_local s)\<rparr>"
  have n: "n \<le> 4096" using acctD(3) [OF a t(1)] by simp
  note new = reserved_new_tree [OF acct_shape [OF a] t(1) n, folded r_def]
  note sw = slot_swap_acct [OF a t c new, folded old_def, folded j_def, folded s1_def]
  have sim1: "sim s s1" unfolding s1_def by (rule slot_shape_sim [OF c])
  have eq: "swap_reserved c i t n s = (if rs_present old then unreserve_tree j (rs_free old) c s1 else s1)"
    by (simp add: swap_reserved_def ll_local_swap_def update_slot_def make_result_def Let_def r_def old_def j_def s1_def)
  have "acct h p (swap_reserved c i t n s) \<and> sim s (swap_reserved c i t n s) \<and> lf_lower (swap_reserved c i t n s) = lf_lower s"
  proof (cases "rs_present old")
    case True
    have j: "j < length (entries s1)" "j \<notin> p" using sw(3) [OF True] by (simp_all add: s1_def)
    have cls: "c < lf_num_classes s1" using acct_shape [OF a] c by (auto simp: shape_ok_def s1_def)
    note u = unreserve_tree_acct [OF sw(2) [OF True] j(1) _ _ cls, of "rs_free old"]
    have "acct h p (unreserve_tree j (rs_free old) c s1)" using u(1) j(2) by simp
    moreover have "sim s (unreserve_tree j (rs_free old) c s1)" using u(2) sim1 sim_trans by simp
    ultimately show ?thesis using u(3) True by (simp add: eq s1_def)
  qed (use sw(1) sim1 in \<open>simp add: eq, simp add: s1_def\<close>)
  then show "acct h p (swap_reserved c i t n s)" "sim s (swap_reserved c i t n s)"
    "lf_lower (swap_reserved c i t n s) = lf_lower s" by simp_all
qed

lemma give_back_acct:
  assumes a: "acct (h(t := h t + (if reserved then old else frames))) (if reserved then insert t p else p) s"
    and t: "t < length (entries s)" "t \<notin> p" and c: "c < lf_num_classes s"
  shows "acct h p (give_back reserved t old frames c s)" "sim s (give_back reserved t old frames c s)"
    "lf_lower (give_back reserved t old frames c s) = lf_lower s"
  using unreserve_tree_acct [of "h(t := h t + old)" "insert t p" s t old c] put_tree_acct [of "h(t := h t + frames)" p s t frames]
    a t c by (auto simp: give_back_def)

section \<open>Allocation keeps the accounts\<close>

text \<open>
  The contract of every step of an allocation: the accounts are as before, and either one call of \<open>lower_get\<close>
  took the frame that is returned, or memory ran out and the lower allocator is unchanged.
\<close>

fun outcome :: "nat \<Rightarrow> (nat \<Rightarrow> nat) \<Rightarrow> nat set \<Rightarrow> llfree \<Rightarrow> llfree_result \<times> llfree \<Rightarrow> bool" where
  "outcome order h p s (res, s') \<longleftrightarrow> acct h p s' \<and> sim s s' \<and>
     (case res of
        Got f c \<Rightarrow> \<exists>start < lo_frames (lf_lower s). lower_get start order None (lf_lower s) = (Frame f, lf_lower s')
      | Err e \<Rightarrow> e = LLFREE_ERR_MEMORY \<and> lf_lower s' = lf_lower s)"

lemma outcome_none [intro]: "acct h p s \<Longrightarrow> outcome order h p s (Err LLFREE_ERR_MEMORY, s)"
  by simp

lemma outcome_trans:
  assumes "acct h p s1" "sim s s1" "lf_lower s1 = lf_lower s" "outcome order h p s1 r"
  shows "outcome order h p s r"
  using assms by (cases r; cases "fst r") (auto simp: sim_def)

lemma outcome_err: "outcome order h p s (Err e, s1) \<Longrightarrow> acct h p s1 \<and> sim s s1 \<and> lf_lower s1 = lf_lower s"
  by simp

lemma frame_of_tree:
  assumes "shape_ok s" "t < length (entries s)"
  shows "frame_from_tree t < lo_frames (lf_lower s)" "frame_from_tree t div 4096 = t"
  using assms by (simp_all add: frame_from_tree_def LLFREE_TREE_ORDER_def shape_ok_def tree_count mult.commute)

lemma frame_of_row:
  "frame_from_row r = r * 64" "frame_from_row r div 4096 = r div 64"
  by (simp_all add: frame_from_row_def LLFREE_ATOMIC_ORDER_def div_mult2_eq [of "r * 64" 64 64, simplified])

text \<open>Allocating frames of tree \<open>t\<close> that are held.\<close>

lemma held_get:
  assumes a: "acct (h(t := h t + n)) p s" and n: "2 ^ order \<le> n" and order: "order \<le> 9"
    and start: "start < lo_frames (lf_lower s)" "start div 4096 = t" and get: "get_lower start order None s = (res, s')"
  shows "case res of
      Frame f \<Rightarrow> acct (h(t := h t + (n - 2 ^ order))) p s' \<and> sim s s' \<and> lf_local s' = lf_local s \<and>
        lower_get start order None (lf_lower s) = (Frame f, lf_lower s') \<and> f div 4096 = t \<and> f < lo_frames (lf_lower s)
    | Fail e \<Rightarrow> e = LLFREE_ERR_MEMORY \<and> s' = s"
proof -
  have eq: "(h(t := h t + n))(t := h t + n - 2 ^ order) = h(t := h t + (n - 2 ^ order))" using n by simp
  have "2 ^ order \<le> (h(t := h t + n)) (start div 4096)" using n start(2) by simp
  note g = get_lower_acct [OF a start(1) order this get]
  then show ?thesis unfolding start(2) fun_upd_same eq by (cases res) simp_all
qed

lemma reserve_or_steal_cb_outcome:
  assumes a: "acct h p s" and i: "idx < length (entries s)" and c: "cls < lf_num_classes s" and order: "order \<le> 9"
  shows "outcome order h p s (reserve_or_steal_cb order cls local idx s)"
proof -
  obtain r ts where ts: "trees_reserve_or_steal idx (2 ^ order) (lf_policy s) cls (lf_trees s) = (r, ts)" by fastforce
  show ?thesis
  proof (cases r)
    case None
    then have "ts = lf_trees s" using ts by (auto simp: trees_reserve_or_steal_def Let_def split: option.splits)
    then show ?thesis using None ts a by (simp add: reserve_or_steal_cb_def)
  next
    case (Some x)
    obtain reserved old target where x: "x = (reserved, old, target)" by (cases x)
    define s1 where "s1 = s\<lparr>lf_trees := ts\<rparr>"
    define n where "n = (case ll_local_class_locals target (lf_local s1) of None \<Rightarrow> 0 | Some n \<Rightarrow> n)"
    obtain res s2 where get: "get_lower (frame_from_tree idx) order None s1 = (res, s2)" by fastforce
    note t = trees_reserve_or_steal_acct [OF a i c ts [unfolded Some x], folded s1_def]
    have i1: "idx < length (entries s1)" "target < lf_num_classes s1" "lf_lower s1 = lf_lower s"
      using t(2,3) i by (simp_all add: sim_def s1_def)
    have eq: "reserve_or_steal_cb order cls local idx s =
      (if n = 0 then (Err LLFREE_ERR_MEMORY, give_back reserved idx old (2 ^ order) target s1)
       else case res of
         Frame f \<Rightarrow> (Got f target, if reserved then swap_reserved target (local mod n) idx (old - 2 ^ order) s2 else s2)
       | Fail e \<Rightarrow> (Err e, give_back reserved idx old (2 ^ order) target s2))"
      unfolding reserve_or_steal_cb_def Let_def ts Some x using get by (cases res) (simp_all add: s1_def n_def)
    note gb = give_back_acct [OF t(1) i1(1) t(5) i1(2)]
    have failed: "outcome order h p s (Err LLFREE_ERR_MEMORY, give_back reserved idx old (2 ^ order) target s1)"
      using gb sim_trans [OF t(2) gb(2)] i1(3) by simp
    show ?thesis
    proof (cases "n = 0")
      case False
      have start: "frame_from_tree idx < lo_frames (lf_lower s1)" "frame_from_tree idx div 4096 = idx"
        using frame_of_tree [OF acct_shape [OF t(1)] i1(1)] by simp_all
      have h: "2 ^ order \<le> (if reserved then old else 2 ^ order)" using t(4) by simp
      note g = held_get [OF t(1) h order start get]
      show ?thesis
      proof (cases res)
        case (Frame f)
        with g have g': "acct (h(idx := h idx + ((if reserved then old else 2 ^ order) - 2 ^ order)))
            (if reserved then insert idx p else p) s2" "sim s1 s2" "lf_local s2 = lf_local s1"
          "lower_get (frame_from_tree idx) order None (lf_lower s) = (Frame f, lf_lower s2)" by (simp_all add: i1)
        have len: "length (lf_local s1) = 8" using acct_shape [OF t(1)] by (simp add: shape_ok_def)
        have "slot_at target (local mod n) (lf_local s2)"
          unfolding g'(3) using False by (intro class_locals_slot [of _ _ n])
            (auto simp: n_def len split: option.splits)
        moreover have "idx < length (entries s2)" using g'(2) i1 by (simp add: sim_def)
        ultimately have sw: "acct h p (swap_reserved target (local mod n) idx (old - 2 ^ order) s2)"
          "sim s2 (swap_reserved target (local mod n) idx (old - 2 ^ order) s2)"
          "lf_lower (swap_reserved target (local mod n) idx (old - 2 ^ order) s2) = lf_lower s2" if reserved
          using swap_reserved_acct [of h idx "old - 2 ^ order" p s2 target "local mod n"] g'(1) t(5) that by simp_all
        have sim: "sim s s2" using t(2) g'(2) sim_trans by blast
        have "acct h p (if reserved then swap_reserved target (local mod n) idx (old - 2 ^ order) s2 else s2)"
          using sw(1) g'(1) by (cases reserved) simp_all
        moreover have "sim s (if reserved then swap_reserved target (local mod n) idx (old - 2 ^ order) s2 else s2)"
          using sim sw(2) sim_trans by auto
        ultimately show ?thesis
          using False sw(3) g'(4) start(1) i1(3) by (auto simp: eq Frame)
      next
        case (Fail e)
        then show ?thesis using g failed False by (simp add: eq)
      qed
    qed (use failed in \<open>simp add: eq\<close>)
  qed
qed

lemma steal_cb_outcome:
  assumes a: "acct h p s" and i: "idx < length (entries s)" and c: "cls < lf_num_classes s" and order: "order \<le> 9"
  shows "outcome order h p s (steal_cb order cls idx s)"
proof -
  obtain r ts where ts: "trees_steal idx (2 ^ order) cls (lf_policy s) (lf_trees s) = (r, ts)" by fastforce
  show ?thesis
  proof (cases r)
    case None
    then have "ts = lf_trees s" using ts by (auto simp: trees_steal_def split: option.splits)
    then show ?thesis using None ts a by (simp add: steal_cb_def)
  next
    case (Some c')
    define s1 where "s1 = s\<lparr>lf_trees := ts\<rparr>"
    obtain res s2 where get: "get_lower (frame_from_tree idx) order None s1 = (res, s2)" by fastforce
    note t = trees_steal_acct [OF a i c ts [unfolded Some], folded s1_def]
    have i1: "idx < length (entries s1)" "lf_lower s1 = lf_lower s" using t(2) i by (simp_all add: sim_def s1_def)
    have start: "frame_from_tree idx < lo_frames (lf_lower s1)" "frame_from_tree idx div 4096 = idx"
      using frame_of_tree [OF acct_shape [OF t(1)] i1(1)] by simp_all
    note g = held_get [OF t(1) order_refl order start get]
    have eq: "steal_cb order cls idx s =
      (case res of Frame f \<Rightarrow> (Got f c', s2) | Fail e \<Rightarrow> (Err e, put_tree idx (2 ^ order) s2))"
      unfolding steal_cb_def Let_def ts Some using get by (simp add: s1_def)
    show ?thesis
    proof (cases res)
      case (Frame f)
      then show ?thesis using g t(2) sim_trans start(1) i1(2) by (auto simp: eq)
    next
      case (Fail e)
      then have s2: "s2 = s1" "e = LLFREE_ERR_MEMORY" using g by simp_all
      note put = put_tree_acct [OF t(1) i1(1), of "2 ^ order"]
      have "acct h p (put_tree idx (2 ^ order) s1)" using put(1) by simp
      moreover have "sim s (put_tree idx (2 ^ order) s1)" using t(2) put(2) sim_trans by simp
      ultimately show ?thesis using put(3) i1(2) by (simp add: eq Fail s2)
    qed
  qed
qed

text \<open>The searches keep whatever every call of their callback keeps.\<close>

lemma search_idx_less: "0 < n \<Longrightarrow> search_idx start n i < n"
  by (simp add: search_idx_def Let_def)

lemma best_insert_idx:
  "(\<forall>b \<in> set best. snd b < n) \<Longrightarrow> idx < n \<Longrightarrow> \<forall>b \<in> set (best_insert prio idx best). snd b < n"
  by (auto simp: best_insert_def Let_def dest!: in_set_takeD in_set_dropD)

lemma best_scan_outcome:
  assumes cb: "\<And>idx s. acct h p s \<Longrightarrow> sim s0 s \<Longrightarrow> idx < length (entries s) \<Longrightarrow> outcome order h p s (cb idx s)"
    and s: "acct h p s" "sim s0 s" and best: "\<forall>b \<in> set best. snd b < length (entries s0)" and n: "0 < length (entries s0)"
  shows "case best_scan entries start is rate cb best s of
      (Inl res, s') \<Rightarrow> outcome order h p s (res, s')
    | (Inr best', s') \<Rightarrow> acct h p s' \<and> sim s0 s' \<and> lf_lower s' = lf_lower s \<and> (\<forall>b \<in> set best'. snd b < length (entries s0))"
  using s best
proof (induction "is" arbitrary: best s)
  case (Cons i "is")
  define idx where "idx = search_idx start (length (entries s)) i"
  define q where "q = rate (tr_class (entries s ! idx)) (tr_free (entries s ! idx))"
  have len: "length (entries s) = length (entries s0)" using Cons.prems(2) by (simp add: sim_def)
  have idx: "idx < length (entries s)" unfolding idx_def using n len by (intro search_idx_less) simp
  obtain res s1 where c: "cb idx s = (res, s1)" by fastforce
  have o: "outcome order h p s (res, s1)" using cb [OF Cons.prems(1,2) idx] c by simp
  consider (skip) "tr_reserved (entries s ! idx) \<or> fst q = LLFREE_POLICY_INVALID"
    | (perfect) "\<not> tr_reserved (entries s ! idx)" "q = (LLFREE_POLICY_MATCH, 255)"
    | (keep) "\<not> tr_reserved (entries s ! idx)" "fst q \<noteq> LLFREE_POLICY_INVALID" "q \<noteq> (LLFREE_POLICY_MATCH, 255)" by blast
  then show ?case
  proof cases
    case skip
    then have "best_scan entries start (i # is) rate cb best s = best_scan entries start is rate cb best s"
      by (auto simp: idx_def q_def Let_def)
    then show ?thesis using Cons.IH [OF Cons.prems] by simp
  next
    case perfect
    then have eq: "best_scan entries start (i # is) rate cb best s =
        (if res \<noteq> Err LLFREE_ERR_MEMORY then (Inl res, s1) else best_scan entries start is rate cb best s1)"
      using c by (simp add: idx_def q_def Let_def)
    show ?thesis
    proof (cases "res = Err LLFREE_ERR_MEMORY")
      case True
      then have s1: "acct h p s1" "sim s s1" "lf_lower s1 = lf_lower s" using o by simp_all
      note IH = Cons.IH [OF s1(1) sim_trans [OF Cons.prems(2) s1(2)] Cons.prems(3)]
      show ?thesis
        using IH outcome_trans [OF s1] s1(3) True unfolding eq by (auto split: prod.splits sum.splits simp del: outcome.simps)
    qed (use o eq in \<open>simp del: outcome.simps\<close>)
  next
    case keep
    then have eq: "best_scan entries start (i # is) rate cb best s =
        best_scan entries start is rate cb (best_insert ((snd q + 1) mod 256) idx best) s"
      by (simp add: idx_def q_def Let_def)
    have "\<forall>b \<in> set (best_insert ((snd q + 1) mod 256) idx best). snd b < length (entries s0)"
      using best_insert_idx [OF Cons.prems(3)] idx len by simp
    then show ?thesis unfolding eq by (rule Cons.IH [OF Cons.prems(1,2)])
  qed
qed simp

lemma best_try_outcome:
  assumes cb: "\<And>idx s. acct h p s \<Longrightarrow> sim s0 s \<Longrightarrow> idx < length (entries s) \<Longrightarrow> outcome order h p s (cb idx s)"
    and s: "acct h p s" "sim s0 s" and best: "\<forall>b \<in> set best. snd b < length (entries s0)"
  shows "outcome order h p s (best_try best cb s)"
  using s best
proof (induction best arbitrary: s)
  case (Cons b best)
  obtain prio idx where b: "b = (prio, idx)" by (cases b)
  obtain res s1 where c: "cb idx s = (res, s1)" by fastforce
  have "idx < length (entries s)" using Cons.prems b by (simp add: sim_def)
  from cb [OF Cons.prems(1,2) this] have o: "outcome order h p s (res, s1)" by (simp only: c)
  show ?case
  proof (cases "prio \<noteq> 0 \<and> res = Err LLFREE_ERR_MEMORY")
    case True
    then have s1: "acct h p s1" "sim s s1" "lf_lower s1 = lf_lower s" using o by simp_all
    have "outcome order h p s1 (best_try best cb s1)"
      by (rule Cons.IH [OF s1(1) sim_trans [OF Cons.prems(2) s1(2)]]) (use Cons.prems(3) in simp)
    then show ?thesis using outcome_trans [OF s1] True c by (simp add: b)
  qed (use o c Cons.prems(1) in \<open>auto simp: b simp del: outcome.simps\<close>)
qed auto

lemma trees_search_best_outcome:
  assumes cb: "\<And>idx s. acct h p s \<Longrightarrow> sim s0 s \<Longrightarrow> idx < length (entries s) \<Longrightarrow> outcome order h p s (cb idx s)"
    and s: "acct h p s0"
  shows "outcome order h p s0 (trees_search_best entries start offset len rate cb s0)"
proof -
  have n: "0 < length (entries s0)" using acct_shape [OF s] tree_count [of 0] by (simp add: shape_ok_def)
  have "\<forall>b \<in> set (replicate TREES_SEARCH_BEST (0 :: nat, 0)). snd b < length (entries s0)" using n by simp
  note scan = best_scan_outcome [of h p s0 order cb, OF cb s sim_refl this n, of start "[offset..<len]" rate]
  obtain r s1 where r: "best_scan entries start [offset..<len] rate cb (replicate TREES_SEARCH_BEST (0, 0)) s0 = (r, s1)"
    by fastforce
  show ?thesis
  proof (cases r)
    case (Inl res)
    then show ?thesis using scan r by (simp add: trees_search_best_def del: outcome.simps)
  next
    case (Inr best)
    then have s1: "acct h p s1" "sim s0 s1" "lf_lower s1 = lf_lower s0" "\<forall>b \<in> set best. snd b < length (entries s0)"
      using scan r by simp_all
    have "outcome order h p s1 (best_try best cb s1)"
      by (rule best_try_outcome [of h p s0, OF cb s1(1,2,4)])
    then show ?thesis using outcome_trans [OF s1(1-3)] r Inr by (simp add: trees_search_best_def)
  qed
qed

lemma set_start_acct:
  assumes a: "acct h p s" and c: "slot_at c i (lf_local s)" and f: "f < lo_frames (lf_lower s)"
  shows "acct h p (s\<lparr>lf_local := snd (ll_local_set_start c i (row_from_frame f) (lf_local s))\<rparr>)"
    "sim s (s\<lparr>lf_local := snd (ll_local_set_start c i (row_from_frame f) (lf_local s))\<rparr>)"
proof -
  let ?o = "slot c i (lf_local s)"
  have n: "f < 2 ^ 41" using acct_shape [OF a] f by (simp add: shape_ok_def)
  have row: "row_from_frame f = f div 64" by (simp add: row_from_frame_def LLFREE_ATOMIC_ORDER_def)
  have "f div 64 < 2 ^ 35" using n by (simp add: less_mult_imp_div_less)
  then have m: "f div 64 mod 2 ^ 35 = f div 64" by simp
  obtain res loc where u: "update_slot c i (ll_reserved_set_start (f div 64)) (lf_local s) = (res, loc)" by fastforce
  have "acct h p (s\<lparr>lf_local := loc\<rparr>) \<and> sim s (s\<lparr>lf_local := loc\<rparr>)"
    using u
  proof (cases rule: update_slotE)
    case (ok v)
    then have v: "rs_present ?o" "rs_start_row ?o div 64 = f div 64 div 64" "v = ?o\<lparr>rs_start_row := f div 64\<rparr>"
      using m by (auto simp: ll_reserved_set_start_def tree_consts split: if_splits)
    have "f div 64 * 64 \<le> f" by simp
    then have "slot_ok (lo_frames (lf_lower s)) v" using f v(1) by (simp add: slot_ok_def v(3))
    then have "acct h p (s\<lparr>lf_local := set_slot c i v (lf_local s)\<rparr>)"
      by (rule acct_slot [OF a c]) (use v in \<open>simp_all add: res_free_def res_cnt_def\<close>)
    then show ?thesis using ok(3) slot_shape_sim [OF c] by simp
  qed (use a in simp)
  then show "acct h p (s\<lparr>lf_local := snd (ll_local_set_start c i (row_from_frame f) (lf_local s))\<rparr>)"
    "sim s (s\<lparr>lf_local := snd (ll_local_set_start c i (row_from_frame f) (lf_local s))\<rparr>)"
    by (simp_all add: ll_local_set_start_def row u)
qed

lemma sync_with_global_acct:
  assumes a: "acct h p s" and c: "slot_at c i (lf_local s)" and r: "rs_present (slot c i (lf_local s))"
    and sync: "sync_with_global c i needed (slot c i (lf_local s)) s = (ok, s')"
  shows "acct h p s' \<and> sim s s' \<and> lf_lower s' = lf_lower s"
proof -
  define t where "t = rs_start_row (slot c i (lf_local s)) div 64"
  have t: "t < length (entries s)" unfolding t_def by (rule slot_counts(1) [OF a c r])
  obtain st ts where ts: "trees_sync_steal t (needed - rs_free (slot c i (lf_local s))) (lf_trees s) = (st, ts)" by fastforce
  show ?thesis
  proof (cases "needed \<le> rs_free (slot c i (lf_local s)) \<or> st = None")
    case True
    moreover from ts have "ts = lf_trees s" if "st = None"
      using that by (auto simp: trees_sync_steal_def Let_def split: option.splits)
    ultimately have "s' = s" using sync ts by (auto simp: sync_with_global_def Let_def t_def split: if_splits)
    then show ?thesis using a by simp
  next
    case False
    then obtain n where n: "st = Some n" by auto
    define s1 where "s1 = s\<lparr>lf_trees := ts\<rparr>"
    note st = trees_sync_steal_acct [OF a t ts [unfolded n], folded s1_def]
    obtain res loc where u: "update_slot c i (ll_reserved_inc t n) (lf_local s1) = (res, loc)" by fastforce
    have c1: "slot_at c i (lf_local s1)" using c by (simp add: s1_def)
    have s': "s' = (if lr_success res then s1\<lparr>lf_local := loc\<rparr> else put_tree t n s1)"
      using sync False ts u n by (auto simp: sync_with_global_def ll_local_put_def Let_def t_def s1_def split: if_splits)
    show ?thesis
      using u
    proof (cases rule: update_slotE)
      case fail
      then have "s' = put_tree t n s1" by (simp add: s' make_result_def)
      moreover have "t < length (entries s1)" using t st(2) by (simp add: sim_def)
      ultimately show ?thesis
        using put_tree_acct [OF st(1), of t n] sim_trans [OF st(2)] by (simp add: s1_def)
    next
      case (ok v)
      have "acct h p (s1\<lparr>lf_local := set_slot c i v (lf_local s1)\<rparr>)"
        using reserved_inc_acct [OF st(1) c1 ok(1)] by simp
      then show ?thesis using ok sim_trans [OF st(2) slot_shape_sim [OF c1, of v]] by (simp add: s' make_result_def s1_def)
    qed
  qed
qed

lemma get_local_outcome:
  assumes "acct h p s" "slot_at c i (lf_local s)" "order \<le> 9" "get_local sync c i order (2 ^ order) None s = (r, out, s')"
  shows "outcome order h p s (r, s')"
  using assms
proof (induction sync arbitrary: s rule: measure_induct_rule [of "\<lambda>b. of_bool b :: nat"])
  case (less sync)
  note a = less.prems(1) and c = less.prems(2) and order = less.prems(3) and get = less.prems(4)
  let ?o = "slot c i (lf_local s)"
  obtain old loc where u: "update_slot c i (ll_reserved_dec None (2 ^ order)) (lf_local s) = (old, loc)" by fastforce
  show ?case
    using u
  proof (cases rule: update_slotE)
    case fail
    obtain ok s1 where s1: "(if sync \<and> rs_present ?o then sync_with_global c i (2 ^ order) ?o s else (False, s)) = (ok, s1)"
      by fastforce
    have acc: "acct h p s1" "sim s s1" "lf_lower s1 = lf_lower s"
      using s1 sync_with_global_acct [OF a c] a by (auto split: if_splits)
    have c1: "slot_at c i (lf_local s1)" using c sim_slot [OF acc(2)] by simp
    have eq: "get_local sync c i order (2 ^ order) None s =
       (if ok \<and> sync then get_local False c i order (2 ^ order) None s1
        else (Err LLFREE_ERR_MEMORY, if rs_present ?o then Some (tree_from_row (rs_start_row ?o)) else None, s1))"
      using s1 fail u
      by (subst get_local.simps)
        (cases "sync \<and> rs_present ?o"; auto simp: ll_local_get_def make_result_def Let_def split: if_splits)
    show ?thesis
    proof (cases "ok \<and> sync")
      case True
      then have "outcome order h p s1 (r, s')" using less.IH [of False, OF _ acc(1) c1 order] get eq by simp
      then show ?thesis by (rule outcome_trans [OF acc])
    qed (use get eq acc in auto)
  next
    case (ok v)
    define t where "t = rs_start_row ?o div 64"
    define s1 where "s1 = s\<lparr>lf_local := loc\<rparr>"
    note d = reserved_dec_acct [OF a c ok(1), folded t_def, folded ok(3), folded s1_def]
    have sim1: "sim s s1" unfolding s1_def ok(3) by (rule slot_shape_sim [OF c])
    obtain res s2 where g: "get_lower (frame_from_row (rs_start_row ?o)) order None s1 = (res, s2)" by fastforce
    have eq: "get_local sync c i order (2 ^ order) None s =
      (case res of
         Frame f \<Rightarrow> (Got f c, None, if rs_start_row ?o \<noteq> row_from_frame f
            then s2\<lparr>lf_local := snd (ll_local_set_start c i (row_from_frame f) (lf_local s2))\<rparr> else s2)
       | Fail e \<Rightarrow> (Err e, Some t, put_tree t (2 ^ order) s2))"
      using g ok u by (subst get_local.simps) (cases res; simp add: ll_local_get_def make_result_def Let_def t_def s1_def)
    have start: "frame_from_row (rs_start_row ?o) < lo_frames (lf_lower s1)" "frame_from_row (rs_start_row ?o) div 4096 = t"
      using d(3) by (simp_all add: frame_of_row t_def s1_def)
    note got = held_get [OF d(1) order_refl order start g]
    have t1: "t < length (entries s1)" using d(2) sim1 by (simp add: sim_def)
    show ?thesis
    proof (cases res)
      case (Frame f)
      with got have f: "acct h p s2" "sim s1 s2" "lf_local s2 = lf_local s1" "f < lo_frames (lf_lower s2)"
        "lower_get (frame_from_row (rs_start_row ?o)) order None (lf_lower s) = (Frame f, lf_lower s2)"
        by (simp_all add: sim_def s1_def)
      have sim2: "sim s s2" using sim1 f(2) by (rule sim_trans)
      have c2: "slot_at c i (lf_local s2)" using c sim_slot [OF sim2] by simp
      note ss = set_start_acct [OF f(1) c2 f(4)]
      have "acct h p s' \<and> sim s s' \<and> lf_lower s' = lf_lower s2 \<and> r = Got f c"
        using get ss f(1) sim2 sim_trans [OF sim2 ss(2)] unfolding eq Frame by (auto split: if_splits)
      then show ?thesis using f(5) start(1) by (auto simp: s1_def)
    next
      case (Fail e)
      with got have "s2 = s1" "e = LLFREE_ERR_MEMORY" by simp_all
      moreover note put_tree_acct [OF d(1) t1, of "2 ^ order"]
      ultimately show ?thesis using get sim_trans [OF sim1] unfolding eq Fail by (auto simp: s1_def)
    qed
  qed
qed

text \<open>Stealing from the slots of other classes.\<close>

definition stole :: "nat \<Rightarrow> locals \<Rightarrow> local_result option \<times> locals \<Rightarrow> bool" where
  "stole frames loc res \<longleftrightarrow>
     (case res of
        (None, loc') \<Rightarrow> loc' = loc
      | (Some r, loc') \<Rightarrow> \<exists>c j v. slot_at c j loc \<and> ll_reserved_dec None frames (slot c j loc) = Some v \<and>
          loc' = set_slot c j v loc \<and> lr_old r = slot c j loc)"

lemma steal_slots_stole:
  assumes "\<And>j. j \<in> set js \<Longrightarrow> slot_at c j loc"
  shows "stole frames loc (steal_slots c js None frames loc)"
  using assms
proof (induction js)
  case (Cons j js)
  obtain r loc' where u: "update_slot c j (ll_reserved_dec None frames) loc = (r, loc')" by fastforce
  have j: "slot_at c j loc" using Cons.prems by simp
  show ?case
    using u
  proof (cases rule: update_slotE)
    case fail
    then show ?thesis using Cons u by (simp add: make_result_def)
  next
    case (ok v)
    then show ?thesis using j u by (auto simp: stole_def make_result_def)
  qed
qed (simp add: stole_def)

lemma slot_atI: "c < length loc \<Longrightarrow> loc ! c = Some es \<Longrightarrow> j < length es \<Longrightarrow> slot_at c j loc"
  by (simp add: slot_at_def)

lemma steal_classes_stole:
  assumes len: "length loc = 8"
  shows "stole frames loc (steal_classes c index is None frames policy loc)"
proof (induction "is")
  case (Cons i "is")
  define k where "k = (i + c) mod 8"
  have k: "k < length loc" by (simp add: k_def len)
  show ?case
  proof (cases "loc ! k")
    case None
    then show ?thesis using Cons by (simp add: k_def tree_consts Let_def)
  next
    case (Some es)
    define js where "js = map (\<lambda>j. (index + j) mod length es) [0..<length es]"
    have st: "stole frames loc (steal_slots k js None frames loc)" if "es \<noteq> []"
      by (rule steal_slots_stole) (use that k Some in \<open>auto simp: js_def intro!: slot_atI\<close>)
    obtain r loc' where r: "steal_slots k js None frames loc = (r, loc')" by fastforce
    show ?thesis
    proof (cases "es = [] \<or> fst (policy c k frames) \<notin> {LLFREE_POLICY_MATCH, LLFREE_POLICY_STEAL}")
      case True
      then show ?thesis using Cons Some by (auto simp: k_def tree_consts Let_def)
    next
      case False
      then have "steal_classes c index (i # is) None frames policy loc =
          (case r of Some x \<Rightarrow> (Some x, loc') | None \<Rightarrow> steal_classes c index is None frames policy loc')"
        using Some r by (cases r) (auto simp: k_def [symmetric] js_def tree_consts Let_def)
      then show ?thesis using Cons st False r by (cases r) (auto simp: stole_def)
    qed
  qed
qed (simp add: stole_def)

text \<open>An allocation in a tree of which frames are held, and what failing gives back.\<close>

lemma held_outcome:
  assumes a: "acct (h(t := h t + 2 ^ order)) p s1" and t: "t < length (entries s1)" and order: "order \<le> 9"
    and sim: "sim s s1" and low: "lf_lower s1 = lf_lower s"
    and start: "start < lo_frames (lf_lower s1)" "start div 4096 = t" and get: "get_lower start order None s1 = (res, s2)"
  shows "outcome order h p s (case res of Frame f \<Rightarrow> (Got f c, s2) | Fail e \<Rightarrow> (Err e, put_tree t (2 ^ order) s2))"
proof -
  note g = held_get [OF a order_refl order start get]
  show ?thesis
  proof (cases res)
    case (Frame f)
    then show ?thesis using g sim sim_trans start(1) low by auto
  next
    case (Fail e)
    then have "s2 = s1" "e = LLFREE_ERR_MEMORY" using g by simp_all
    then show ?thesis using put_tree_acct [OF a t, of "2 ^ order"] sim sim_trans low Fail by auto
  qed
qed

lemma steal_local_outcome:
  assumes a: "acct h p s" and order: "rq_order rq \<le> 9"
  shows "outcome (rq_order rq) h p s (steal_local rq None s)"
proof -
  define index where "index = (case rq_local rq of None \<Rightarrow> 0 | Some i \<Rightarrow> i)"
  obtain r loc where st: "ll_local_steal (rq_class rq) index None (2 ^ rq_order rq) (lf_policy s) (lf_local s) = (r, loc)"
    by fastforce
  have len: "length (lf_local s) = 8" using acct_shape [OF a] by (simp add: shape_ok_def)
  have stole: "stole (2 ^ rq_order rq) (lf_local s) (r, loc)"
    using steal_classes_stole [OF len] st by (metis ll_local_steal_def)
  show ?thesis
  proof (cases r)
    case None
    then have "steal_local rq None s = (Err LLFREE_ERR_MEMORY, s)"
      using st stole by (simp add: steal_local_def stole_def index_def [symmetric] Let_def)
    then show ?thesis using a by simp
  next
    case (Some x)
    then obtain c j v where v: "slot_at c j (lf_local s)" "ll_reserved_dec None (2 ^ rq_order rq) (slot c j (lf_local s)) = Some v"
      "loc = set_slot c j v (lf_local s)" "lr_old x = slot c j (lf_local s)" using stole by (auto simp: stole_def)
    define row where "row = rs_start_row (slot c j (lf_local s))"
    define s1 where "s1 = s\<lparr>lf_local := loc\<rparr>"
    note d = reserved_dec_acct [OF a v(1,2), folded row_def, folded v(3), folded s1_def]
    have sim1: "sim s s1" unfolding s1_def v(3) by (rule slot_shape_sim [OF v(1)])
    obtain res s2 where g: "get_lower (frame_from_row row) (rq_order rq) None s1 = (res, s2)" by fastforce
    have "steal_local rq None s = (case res of Frame f \<Rightarrow> (Got f (lr_class x), s2)
        | Fail e \<Rightarrow> (Err e, put_tree (row div 64) (2 ^ rq_order rq) s2))"
      using st g Some v(4) by (cases res) (simp_all add: steal_local_def index_def [symmetric] row_def s1_def Let_def)
    then show ?thesis
      using held_outcome [OF d(1) _ order sim1 _ _ _ g, of "lr_class x"] d(2,3) sim1
      by (simp add: frame_of_row s1_def sim_def del: outcome.simps)
  qed
qed

text \<open>Taking a whole reservation from the slot of another class.\<close>

definition took :: "nat \<Rightarrow> nat \<Rightarrow> locals \<Rightarrow> reserved option \<times> locals \<Rightarrow> bool" where
  "took c frames loc res \<longleftrightarrow>
     (case res of
        (None, loc') \<Rightarrow> loc' = loc
      | (Some old, loc') \<Rightarrow> \<exists>j. slot_at c j loc \<and> old = slot c j loc \<and> rs_present old \<and> frames \<le> rs_free old \<and>
          loc' = set_slot c j (ll_reserved_new False 0 0) loc)"

lemma take_slots_took:
  assumes "\<And>j. j \<in> set js \<Longrightarrow> slot_at c j loc"
  shows "took c frames loc (take_slots c js None frames loc)"
  using assms
proof (induction js)
  case (Cons j js)
  obtain r loc' where u: "update_slot c j (ll_reserved_take None frames) loc = (r, loc')" by fastforce
  have j: "slot_at c j loc" using Cons.prems by simp
  show ?case
    using u
  proof (cases rule: update_slotE)
    case fail
    then show ?thesis using Cons u by (simp add: make_result_def)
  next
    case (ok v)
    then have "rs_present (slot c j loc)" "frames \<le> rs_free (slot c j loc)" "v = ll_reserved_new False 0 0"
      by (auto simp: ll_reserved_take_def ll_reserved_dec_def split: option.splits if_splits)
    then show ?thesis using j u ok by (auto simp: took_def make_result_def)
  qed
qed (simp add: took_def)

text \<open>The state after a demotion: frames of the tree of row \<open>dm_row\<close> are held, once what was there is unreserved.\<close>

definition unres :: "demote_result \<Rightarrow> llfree \<Rightarrow> llfree" where
  "unres d s = (if dm_unreserve d then unreserve_tree (tree_from_row (dm_unres_row d)) (dm_unres_free d) (dm_unres_class d) s else s)"

definition demoted :: "nat \<Rightarrow> (nat \<Rightarrow> nat) \<Rightarrow> nat set \<Rightarrow> llfree \<Rightarrow> demote_result \<times> locals \<Rightarrow> bool" where
  "demoted frames h p s res \<longleftrightarrow>
     (case res of (d, loc) \<Rightarrow>
        let t = dm_row d div 64; s' = unres d (s\<lparr>lf_local := loc\<rparr>) in
        acct (h(t := h t + frames)) p s' \<and> sim s s' \<and> lf_lower s' = lf_lower s \<and> t < length (entries s) \<and>
        dm_row d * 64 < lo_frames (lf_lower s))"

lemma demote_found_demoted:
  assumes a: "acct h p s" and j: "slot_at k j (lf_local s)" "old = slot k j (lf_local s)" "rs_present old" "frames \<le> rs_free old"
    and c: "c < lf_num_classes s" "k \<noteq> c"
  shows "demoted frames h p s
    (demote_found c index None frames old (set_slot k j (ll_reserved_new False 0 0) (lf_local s)))"
proof -
  define t where "t = rs_start_row old div 64"
  define loc where "loc = set_slot k j (ll_reserved_new False 0 0) (lf_local s)"
  define s1 where "s1 = s\<lparr>lf_local := loc\<rparr>"
  define new where "new = old\<lparr>rs_free := rs_free old - frames\<rparr>"
  have row: "rs_start_row old * 64 < lo_frames (lf_lower s)" using slot_okD(1) [OF acct_shape [OF a] j(1)] j by simp
  have t: "t < length (entries s)" "t \<notin> p" using slot_counts(1,2) [OF a j(1)] j by (simp_all add: t_def)
  have "slot_ok (lo_frames (lf_lower s)) (ll_reserved_new False 0 0)" by (simp add: slot_ok_def ll_reserved_new_def)
  then have a1: "acct (h(t := h t + rs_free old)) (insert t p) s1"
    unfolding s1_def loc_def
    by (rule acct_slot [OF a j(1)]) (use j t in \<open>auto simp: res_free_def res_cnt_def t_def ll_reserved_new_def\<close>)
  have sim1: "sim s s1" unfolding s1_def loc_def by (rule slot_shape_sim [OF j(1)])
  have t1: "t < length (entries s1)" and c1: "c < lf_num_classes s1" using t c by (simp_all add: s1_def)
  have dec: "ll_reserved_dec None frames old = Some new" using j by (simp add: ll_reserved_dec_def new_def)
  have keep: "demoted frames h p s
      (\<lparr>dm_row = rs_start_row new, dm_unreserve = True, dm_unres_row = rs_start_row new, dm_unres_class = c,
        dm_unres_free = rs_free new\<rparr>, loc)"
  proof -
    have eq: "(h(t := h t + rs_free old))(t := h t + rs_free old - (rs_free old - frames)) = h(t := h t + frames)"
      using j(4) by simp
    note u = unreserve_tree_acct [OF a1 t1 _ _ c1, of "rs_free old - frames"]
    have "acct (h(t := h t + frames)) p (unreserve_tree t (rs_free old - frames) c s1)"
      using u(1) t(2) eq by simp
    then show ?thesis using u(2,3) sim_trans [OF sim1] row t
      by (simp add: demoted_def unres_def new_def t_def [symmetric] s1_def [symmetric] Let_def) (simp add: s1_def)
  qed
  have swap: "demoted frames h p s
      (\<lparr>dm_row = rs_start_row new, dm_unreserve = rs_present prev, dm_unres_row = rs_start_row prev, dm_unres_class = c,
        dm_unres_free = rs_free prev\<rparr>, set_slot c idx new loc)"
    if slot: "slot_at c idx loc" and prev: "prev = slot c idx loc" for idx prev
  proof -
    define g where "g = h(t := h t + frames)"
    define s2 where "s2 = s1\<lparr>lf_local := set_slot c idx new loc\<rparr>"
    define i where "i = rs_start_row prev div 64"
    have "h(t := h t + rs_free old) = g(t := g t + rs_free new)" using j(4) by (simp add: g_def new_def)
    then have a2: "acct (g(t := g t + rs_free new)) (insert t p) s1" using a1 by simp
    have slot1: "slot_at c idx (lf_local s1)" and prev1: "prev = slot c idx (lf_local s1)" using slot prev by (simp_all add: s1_def)
    have new: "rs_present new" "rs_start_row new div 64 = t" "rs_start_row new * 64 < lo_frames (lf_lower s1)"
      using j row by (simp_all add: new_def t_def s1_def)
    note sw = slot_swap_acct [OF a2 t1 t(2) slot1 new refl, folded prev1, folded i_def]
    have s2: "s2 = s1\<lparr>lf_local := set_slot c idx new (lf_local s1)\<rparr>" by (simp add: s2_def s1_def)
    have sim2: "sim s s2" unfolding s2 using sim1 slot_shape_sim [OF slot1] sim_trans by blast
    have low2: "lf_lower s2 = lf_lower s" by (simp add: s2_def s1_def)
    have loc2: "s\<lparr>lf_local := set_slot c idx new loc\<rparr> = s2" by (simp add: s2_def s1_def)
    have tree: "rs_start_row new div 64 = t" "rs_start_row new * 64 < lo_frames (lf_lower s)" using new by (simp_all add: s1_def)
    show ?thesis
    proof (cases "rs_present prev")
      case True
      have i: "i < length (entries s2)" "i \<notin> p" using sw(3) [OF True] by (simp_all add: s2)
      have c2: "c < lf_num_classes s2" using c1 by (simp add: s2)
      note u = unreserve_tree_acct [OF sw(2) [OF True, folded s2] i(1) _ _ c2, of "rs_free prev"]
      have "acct g p (unreserve_tree i (rs_free prev) c s2)" using u(1) i(2) by simp
      then show ?thesis using True u(2,3) sim_trans [OF sim2] low2 t(1) tree
        by (simp add: demoted_def unres_def loc2 i_def [symmetric] g_def)
    next
      case False
      then show ?thesis using sw(1) [OF False, folded s2] sim2 low2 t(1) tree
        by (simp add: demoted_def unres_def loc2 g_def)
    qed
  qed
  show ?thesis
  proof (cases index)
    case None
    then show ?thesis using keep dec by (simp add: demote_found_def loc_def [symmetric])
  next
    case (Some idx)
    have len: "length loc = 8" using acct_shape [OF a] by (simp add: shape_ok_def loc_def set_slot_def)
    show ?thesis
    proof (cases "\<exists>n. ll_local_class_locals c loc = Some n \<and> idx < n")
      case True
      then have "slot_at c idx loc" using class_locals_slot len by blast
      then show ?thesis using swap [OF _ refl] True dec Some
        by (auto simp: demote_found_def loc_def [symmetric] Let_def)
    next
      case False
      then show ?thesis using keep dec Some
        by (cases "ll_local_class_locals c loc") (auto simp: demote_found_def loc_def [symmetric] Let_def)
    qed
  qed
qed

lemma demote_classes_demoted:
  assumes a: "acct h p s" and c: "c < lf_num_classes s" and ne: "\<And>i. i \<in> set is \<Longrightarrow> (i + c) mod 8 \<noteq> c"
  shows "case demote_classes c index is None frames policy (lf_local s) of
      (None, loc) \<Rightarrow> loc = lf_local s | (Some d, loc) \<Rightarrow> demoted frames h p s (d, loc)"
  using ne
proof (induction "is")
  case (Cons i "is")
  define k where "k = (i + c) mod 8"
  have len: "length (lf_local s) = 8" using acct_shape [OF a] by (simp add: shape_ok_def)
  have k: "k < length (lf_local s)" "k \<noteq> c" using Cons.prems by (simp_all add: k_def len)
  have IH: "case demote_classes c index is None frames policy (lf_local s) of
      (None, loc) \<Rightarrow> loc = lf_local s | (Some d, loc) \<Rightarrow> demoted frames h p s (d, loc)"
    using Cons by simp
  show ?case
  proof (cases "lf_local s ! k")
    case None
    then show ?thesis using IH by (simp add: k_def tree_consts Let_def)
  next
    case (Some es)
    define idx where "idx = (case index of None \<Rightarrow> 0 | Some i \<Rightarrow> i)"
    define js where "js = map (\<lambda>j. (idx + j) mod length es) [0..<length es]"
    obtain r loc where r: "take_slots k js None frames (lf_local s) = (r, loc)" by fastforce
    have tk: "took k frames (lf_local s) (r, loc)" if "es \<noteq> []"
      unfolding r [symmetric] by (rule take_slots_took) (use that k Some in \<open>auto simp: js_def intro!: slot_atI\<close>)
    show ?thesis
    proof (cases "es = [] \<or> fst (policy c k frames) \<noteq> LLFREE_POLICY_DEMOTE")
      case True
      then show ?thesis using IH Some by (auto simp: k_def tree_consts Let_def)
    next
      case False
      then have eq: "demote_classes c index (i # is) None frames policy (lf_local s) =
          (case r of
             Some old \<Rightarrow> (let (d, loc) = demote_found c index None frames old loc in (Some d, loc))
           | None \<Rightarrow> demote_classes c index is None frames policy loc)"
        using Some r by (cases r) (auto simp: k_def [symmetric] js_def idx_def tree_consts Let_def)
      show ?thesis
      proof (cases r)
        case None
        then have "loc = lf_local s" using tk False by (simp add: took_def)
        then show ?thesis unfolding eq None using IH by simp
      next
        case (Some old)
        then obtain j where j: "slot_at k j (lf_local s)" "old = slot k j (lf_local s)" "rs_present old"
          "frames \<le> rs_free old" "loc = set_slot k j (ll_reserved_new False 0 0) (lf_local s)"
          using tk False by (auto simp: took_def)
        have "demoted frames h p s (demote_found c index None frames old loc)"
          unfolding j(5) by (rule demote_found_demoted [OF a j(1-4) c k(2)])
        then show ?thesis unfolding eq Some by (auto split: prod.splits)
      qed
    qed
  qed
qed simp

lemma demote_local_outcome:
  assumes a: "acct h p s" and order: "rq_order rq \<le> 9" and c: "rq_class rq < lf_num_classes s"
  shows "outcome (rq_order rq) h p s (demote_local rq None s)"
proof -
  have c8: "rq_class rq < 8" using acct_shape [OF a] c by (simp add: shape_ok_def)
  have ne: "(i + rq_class rq) mod 8 \<noteq> rq_class rq" if "i \<in> set [1..<8]" for i
    using that c8 by (auto simp: mod_if)
  obtain r loc where r: "ll_local_demote_any (rq_class rq) (rq_local rq) None (2 ^ rq_order rq) (lf_policy s) (lf_local s) = (r, loc)"
    by fastforce
  have dem: "case ll_local_demote_any (rq_class rq) (rq_local rq) None (2 ^ rq_order rq) (lf_policy s) (lf_local s) of
      (None, loc) \<Rightarrow> loc = lf_local s | (Some d, loc) \<Rightarrow> demoted (2 ^ rq_order rq) h p s (d, loc)"
    unfolding ll_local_demote_any_def LLFREE_MAX_CLASSES_def by (rule demote_classes_demoted [OF a c ne])
  show ?thesis
  proof (cases r)
    case None
    then have "loc = lf_local s" using dem r by simp
    then have "demote_local rq None s = (Err LLFREE_ERR_MEMORY, s)" using r None by (simp add: demote_local_def Let_def)
    then show ?thesis using a by simp
  next
    case (Some d)
    define t where "t = dm_row d div 64"
    define s1 where "s1 = unres d (s\<lparr>lf_local := loc\<rparr>)"
    have "demoted (2 ^ rq_order rq) h p s (d, loc)" using dem r Some by simp
    then have d: "acct (h(t := h t + 2 ^ rq_order rq)) p s1" "sim s s1" "lf_lower s1 = lf_lower s" "t < length (entries s1)"
      "frame_from_row (dm_row d) < lo_frames (lf_lower s1)" "frame_from_row (dm_row d) div 4096 = t"
      by (simp_all add: demoted_def Let_def t_def s1_def frame_of_row sim_def)
    obtain res s2 where g: "get_lower (frame_from_row (dm_row d)) (rq_order rq) None s1 = (res, s2)" by fastforce
    have "demote_local rq None s = (case res of Frame f \<Rightarrow> (Got f (rq_class rq), s2)
        | Fail e \<Rightarrow> (Err e, put_tree t (2 ^ rq_order rq) s2))"
      using r g Some unfolding s1_def unres_def t_def by (cases res) (simp_all add: demote_local_def Let_def)
    then show ?thesis using held_outcome [OF d(1,4) order d(2,3,5,6) g] by (simp only:)
  qed
qed

lemma search_and_reserve_outcome:
  assumes a: "acct h p s" and order: "order \<le> 9" and c: "cls < lf_num_classes s"
  shows "outcome order h p s (search_and_reserve cls local order start s)"
proof -
  have cb: "outcome order h p s' (reserve_or_steal_cb order cls local idx s')"
    if "acct h p s'" "sim s0 s'" "idx < length (entries s')" "cls < lf_num_classes s0" for idx s0 s'
    by (rule reserve_or_steal_cb_outcome [OF that(1,3) _ order]) (use that in \<open>simp add: sim_def\<close>)
  define near where "near = max (length (entries s) div 16) (64 div 4 div 4)"
  define st where "st = align_down start (next_pow2 (2 * near))"
  define q where "q = (if order < LLFREE_HUGE_ORDER
      then trees_search_best entries st 1 near (rate_reserve_near_tree cls (2 ^ order) (lf_policy s))
             (reserve_or_steal_cb order cls local) s
      else (Err LLFREE_ERR_MEMORY, s))"
  have q: "outcome order h p s q"
    unfolding q_def using trees_search_best_outcome [of h p s order, OF cb a] c a by (simp del: outcome.simps) auto
  obtain res s1 where rs: "q = (res, s1)" by fastforce
  have eq: "search_and_reserve cls local order start s =
      (if res \<noteq> Err LLFREE_ERR_MEMORY then (res, s1)
       else trees_search_best entries st 0 (length (entries s)) (rate_reserve_global_tree cls (2 ^ order) (lf_policy s1))
              (reserve_or_steal_cb order cls local) s1)"
    unfolding search_and_reserve_def Let_def near_def [symmetric] st_def [symmetric] q_def [symmetric] rs by simp
  show ?thesis
  proof (cases "res = Err LLFREE_ERR_MEMORY")
    case True
    then have s1: "acct h p s1" "sim s s1" "lf_lower s1 = lf_lower s" using q rs by simp_all
    have "cls < lf_num_classes s1" using c s1(2) by (simp add: sim_def)
    then show ?thesis
      using outcome_trans [OF s1] trees_search_best_outcome [of h p s1 order, OF cb s1(1)] True by (simp add: eq del: outcome.simps)
  qed (use q rs eq in \<open>simp del: outcome.simps\<close>)
qed

lemma llfree_get_outcome:
  assumes a: "acct h p s" and valid: "validate_request rq None s" and order: "rq_order rq \<le> 9"
  shows "outcome (rq_order rq) h p s (llfree_get None rq s)"
proof -
  obtain n where n: "ll_local_class_locals (rq_class rq) (lf_local s) = Some n" "\<And>i. rq_local rq = Some i \<Longrightarrow> i < n"
    using valid by (auto simp: validate_request_def Let_def not_le split: option.splits if_splits)
  have c: "rq_class rq < lf_num_classes s" "length (lf_local s) = 8" using acct_shape [OF a] n(1) by (auto simp: shape_ok_def)
  define start where "start = (case rq_local rq of Some i \<Rightarrow> if n \<noteq> 0 then length (entries s) div n * i else 0 | None \<Rightarrow> 0)"
  define glob where "glob = trees_search_best entries start 0 (length (entries s))
      (rate_global_tree (rq_class rq) (2 ^ rq_order rq) (lf_policy s)) (steal_cb (rq_order rq) (rq_class rq)) s"
  define q where "q = (case rq_local rq of
      Some i \<Rightarrow>
        if n \<noteq> 0 \<and> n < length (entries s) then
          let (res, out, s) = get_local True (rq_class rq) i (rq_order rq) (2 ^ rq_order rq) None s;
              start = (case out of None \<Rightarrow> start | Some t \<Rightarrow> t)
          in if res \<noteq> Err LLFREE_ERR_MEMORY then (res, s) else search_and_reserve (rq_class rq) i (rq_order rq) start s
        else glob
    | None \<Rightarrow> glob)"
  have glob: "outcome (rq_order rq) h p s glob"
    unfolding glob_def
    by (rule trees_search_best_outcome [OF _ a], rule steal_cb_outcome) (use c order in \<open>simp_all add: sim_def\<close>)
  have q: "outcome (rq_order rq) h p s q"
  proof (cases "\<exists>i. rq_local rq = Some i \<and> n \<noteq> 0 \<and> n < length (entries s)")
    case True
    then obtain i where i: "rq_local rq = Some i" "n \<noteq> 0" "n < length (entries s)" by blast
    obtain res out s1 where g: "get_local True (rq_class rq) i (rq_order rq) (2 ^ rq_order rq) None s = (res, out, s1)"
      by (metis prod_cases3)
    have slot: "slot_at (rq_class rq) i (lf_local s)" using class_locals_slot n i c by blast
    have o: "outcome (rq_order rq) h p s (res, s1)" by (rule get_local_outcome [OF a slot order g])
    have eq: "q = (if res \<noteq> Err LLFREE_ERR_MEMORY then (res, s1) else
        search_and_reserve (rq_class rq) i (rq_order rq) (case out of None \<Rightarrow> start | Some t \<Rightarrow> t) s1)"
      using i g by (simp add: q_def)
    show ?thesis
    proof (cases "res = Err LLFREE_ERR_MEMORY")
      case True
      then have s1: "acct h p s1" "sim s s1" "lf_lower s1 = lf_lower s" using o by simp_all
      have "rq_class rq < lf_num_classes s1" using c s1(2) by (simp add: sim_def)
      then show ?thesis using outcome_trans [OF s1] search_and_reserve_outcome [OF s1(1) order] True
        by (simp add: eq del: outcome.simps)
    qed (use o eq in \<open>simp del: outcome.simps\<close>)
  next
    case False
    then have "q = glob" by (auto simp: q_def split: option.splits)
    then show ?thesis using glob by (simp only:)
  qed
  obtain res s1 where rs: "q = (res, s1)" by fastforce
  obtain res2 s2 where st: "steal_local rq None s1 = (res2, s2)" by fastforce
  have eq: "llfree_get None rq s =
      (if res \<noteq> Err LLFREE_ERR_MEMORY then (res, s1)
       else if res2 \<noteq> Err LLFREE_ERR_MEMORY then (res2, s2) else demote_local rq None s2)"
    using valid n(1) rs st unfolding llfree_get_def q_def glob_def start_def
    by (simp add: Let_def split: option.splits)
  show ?thesis
  proof (cases "res = Err LLFREE_ERR_MEMORY")
    case True
    then have s1: "acct h p s1" "sim s s1" "lf_lower s1 = lf_lower s" using q rs by simp_all
    have o2: "outcome (rq_order rq) h p s1 (res2, s2)" using steal_local_outcome [OF s1(1) order] st by simp
    have "outcome (rq_order rq) h p s1 (llfree_get None rq s)"
    proof (cases "res2 = Err LLFREE_ERR_MEMORY")
      case True2: True
      then have s2: "acct h p s2" "sim s1 s2" "lf_lower s2 = lf_lower s1" using o2 by simp_all
      have "rq_class rq < lf_num_classes s2" using c(1) s1(2) s2(2) by (simp add: sim_def)
      then show ?thesis using outcome_trans [OF s2] demote_local_outcome [OF s2(1) order] True True2
        by (simp add: eq del: outcome.simps)
    qed (use o2 eq True in \<open>simp del: outcome.simps\<close>)
    then show ?thesis by (rule outcome_trans [OF s1])
  qed (use q rs eq in \<open>simp del: outcome.simps\<close>)
qed

section \<open>Freeing, draining and changing classes\<close>

lemma put_outcome:
  assumes a: "acct h p s" and own: "own_ok (lf_lower s) (f, rq_order rq)" and valid: "validate_request rq (Some f) s"
    and put: "llfree_put f rq s = (e, s')"
  shows "e = LLFREE_ERR_OK" "acct h p s'" "sim s s'"
    "lower_put f (rq_order rq) (lf_lower s) = (LLFREE_ERR_OK, lf_lower s')"
proof -
  let ?L = "lf_lower s" and ?n = "2 ^ rq_order rq"
  define t where "t = f div 4096"
  have inv: "low_inv ?L" and len: "length (lf_local s) = 8" using acct_shape [OF a] by (simp_all add: shape_ok_def)
  have o: "rq_order rq \<le> 9" "?n dvd f" "f + ?n \<le> lo_frames ?L" "block (rq_order rq) f \<inter> free_set ?L = {}"
    "rq_order rq = 9 \<longrightarrow> c_huge (lo_children ?L ! (f div 512))"
    using own by (auto simp: own_ok_def blk_def)
  have "gives (rq_order rq) f ?L (lower_put f (rq_order rq) ?L)" by (rule lower_put_gives) (use inv o in auto)
  then obtain L where L: "lower_put f (rq_order rq) ?L = (LLFREE_ERR_OK, L)" "free_set L = free_set ?L \<union> block (rq_order rq) f"
    "lo_frames L = lo_frames ?L" "low_inv L" by (auto simp: gives_def split: prod.splits)
  define s1 where "s1 = s\<lparr>lf_lower := L\<rparr>"
  have "(h(t := h t + ?n)) i + tfree ?L i = h i + tfree L i" for i
    using tfree_give [OF o(4) L(2) o(2,1), of i] by (simp add: t_def)
  then have a1: "acct (h(t := h t + ?n)) p s1" unfolding s1_def by (rule acct_lower [OF a L(4,3)])
  have sim1: "sim s s1" using L(3) by (simp add: sim_def s1_def)
  have "f < lo_frames ?L" using o(3) by (meson le_less_trans less_add_same_cancel1 not_less zero_less_numeral zero_less_power)
  moreover have "4096 * t \<le> f" by (simp add: t_def)
  ultimately have t: "t < length (entries s1)" using acct_shape [OF a] by (simp add: shape_ok_def tree_count s1_def)
  define u where "u = (case rq_local rq of None \<Rightarrow> (False, lf_local s)
      | Some i \<Rightarrow> ll_local_put (rq_class rq) i t ?n (lf_local s))"
  obtain ok loc where u': "u = (ok, loc)" by fastforce
  have eq: "llfree_put f rq s = (LLFREE_ERR_OK, if ok then s1\<lparr>lf_local := loc\<rparr> else put_tree t ?n s1)"
    using valid L(1) u' unfolding u_def
    by (auto simp: llfree_put_def tree_from_frame_def LLFREE_TREE_ORDER_def t_def s1_def Let_def split: option.splits)
  have "acct h p s' \<and> sim s s' \<and> lf_lower s' = L"
  proof (cases ok)
    case True
    then obtain i where i: "rq_local rq = Some i" "ll_local_put (rq_class rq) i t ?n (lf_local s1) = (True, loc)"
      using u' by (auto simp: u_def s1_def split: option.splits)
    have slot: "slot_at (rq_class rq) i (lf_local s1)"
      using valid i(1) len by (auto simp: validate_request_def Let_def s1_def split: option.splits if_splits intro!: class_locals_slot)
    obtain r loc' where up: "update_slot (rq_class rq) i (ll_reserved_inc t ?n) (lf_local s1) = (r, loc')" by fastforce
    show ?thesis
      using up
    proof (cases rule: update_slotE)
      case (ok v)
      have "acct h p (s1\<lparr>lf_local := set_slot (rq_class rq) i v (lf_local s1)\<rparr>)"
        using reserved_inc_acct [OF a1 slot ok(1)] by simp
      then show ?thesis
        using put eq True up ok i(2) sim_trans [OF sim1 slot_shape_sim [OF slot, of v]]
        by (auto simp: ll_local_put_def s1_def)
    qed (use i(2) up in \<open>simp add: ll_local_put_def make_result_def\<close>)
  next
    case False
    then show ?thesis using put eq put_tree_acct [OF a1 t, of ?n] sim_trans [OF sim1] by (auto simp: s1_def)
  qed
  then show "e = LLFREE_ERR_OK" "acct h p s'" "sim s s'" "lower_put f (rq_order rq) ?L = (LLFREE_ERR_OK, lf_lower s')"
    using put eq L(1) by simp_all
qed

lemma drain_slot_acct:
  assumes a: "acct h p s" and c: "slot_at c i (lf_local s)"
  shows "acct h p (drain_slot c i s) \<and> sim s (drain_slot c i s) \<and> lf_lower (drain_slot c i s) = lf_lower s"
proof -
  define old where "old = slot c i (lf_local s)"
  define t where "t = rs_start_row old div 64"
  define e where "e = ll_reserved_new False 0 0"
  define s1 where "s1 = s\<lparr>lf_local := set_slot c i e (lf_local s)\<rparr>"
  have e: "\<not> rs_present e" "slot_ok (lo_frames (lf_lower s)) e" by (simp_all add: e_def ll_reserved_new_def slot_ok_def)
  have sim1: "sim s s1" unfolding s1_def by (rule slot_shape_sim [OF c])
  have eq: "drain_slot c i s = (if rs_present old then unreserve_tree t (rs_free old) c s1 else s1)"
    by (simp add: drain_slot_def ll_local_drain_def update_slot_def make_result_def Let_def old_def t_def e_def s1_def)
  show ?thesis
  proof (cases "rs_present old")
    case True
    have t: "t < length (entries s)" "t \<notin> p" using slot_counts(1,2) [OF a c] True by (simp_all add: old_def t_def)
    have "acct (h(t := h t + rs_free old)) (insert t p) s1"
      unfolding s1_def by (rule acct_slot [OF a c e(2)]) (use True e t in \<open>auto simp: res_free_def res_cnt_def old_def t_def\<close>)
    moreover have "t < length (entries s1)" "c < lf_num_classes s1"
      using t slot_okD(3) [OF acct_shape [OF a] c] True by (simp_all add: s1_def old_def)
    ultimately show ?thesis
      using unreserve_tree_acct [of "h(t := h t + rs_free old)" "insert t p" s1 t "rs_free old" c] t(2) True sim_trans [OF sim1]
      by (auto simp: eq s1_def)
  next
    case False
    have "acct h p s1"
      unfolding s1_def by (rule acct_slot [OF a c e(2)]) (use False e in \<open>simp_all add: res_free_def res_cnt_def old_def\<close>)
    then show ?thesis using False sim1 by (simp add: eq) (simp add: s1_def)
  qed
qed

lemma drain_slots_acct:
  assumes "acct h p s" "\<And>i. i \<in> set is \<Longrightarrow> slot_at c i (lf_local s)"
  shows "acct h p (fold (drain_slot c) is s) \<and> sim s (fold (drain_slot c) is s) \<and> lf_lower (fold (drain_slot c) is s) = lf_lower s"
  using assms
proof (induction "is" arbitrary: s)
  case (Cons i "is")
  have d: "acct h p (drain_slot c i s)" "sim s (drain_slot c i s)" "lf_lower (drain_slot c i s) = lf_lower s"
    using drain_slot_acct [OF Cons.prems(1)] Cons.prems(2) by simp_all
  have "slot_at c j (lf_local (drain_slot c i s))" if "j \<in> set is" for j
    using Cons.prems(2) that sim_slot [OF d(2)] by simp
  then show ?case using Cons.IH [OF d(1)] d sim_trans [OF d(2)] by simp
qed simp

lemma llfree_drain_acct:
  assumes "acct h p s"
  shows "acct h p (llfree_drain s) \<and> sim s (llfree_drain s) \<and> lf_lower (llfree_drain s) = lf_lower s"
proof -
  let ?f = "\<lambda>t s. case ll_local_class_locals t (lf_local s) of None \<Rightarrow> s | Some n \<Rightarrow> fold (drain_slot t) [0..<n] s"
  have step: "acct h p (?f t s) \<and> sim s (?f t s) \<and> lf_lower (?f t s) = lf_lower s" if a: "acct h p s" for t s
  proof (cases "ll_local_class_locals t (lf_local s)")
    case (Some n)
    have "length (lf_local s) = 8" using acct_shape [OF a] by (simp add: shape_ok_def)
    then show ?thesis using drain_slots_acct [OF a, of "[0..<n]" t] class_locals_slot [OF Some] Some by simp
  qed (use a in simp)
  have "acct h p (fold ?f cs s) \<and> sim s (fold ?f cs s) \<and> lf_lower (fold ?f cs s) = lf_lower s" if "acct h p s" for cs s
    using that
  proof (induction cs arbitrary: s)
    case (Cons c cs)
    note s1 = step [OF Cons.prems, of c]
    then show ?case using Cons.IH [of "?f c s"] sim_trans [of s "?f c s"] by (simp del: split_paired_All)
  qed simp
  then show ?thesis unfolding llfree_drain_def using assms by blast
qed

text \<open>Changing the class of a tree, without taking it on- or offline.\<close>

lemma trees_change_at_acct:
  assumes a: "acct h p s" and i: "i < length (entries s)" and c: "c = LLFREE_CLASS_NONE \<or> c < lf_num_classes s"
    and r: "trees_change_at m (c, LLFREE_TREE_OP_NONE) ff i (lf_trees s) = (e, ts)"
  shows "acct h p (s\<lparr>lf_trees := ts\<rparr>) \<and> sim s (s\<lparr>lf_trees := ts\<rparr>)"
proof (cases "tree_change (tm_class m) (tm_free m) c LLFREE_TREE_OP_NONE 0 (entries s ! i)")
  case None
  then have "ts = lf_trees s" using r by (simp add: trees_change_at_def trees_load_def)
  then show ?thesis using a by simp
next
  case (Some t)
  let ?t = "entries s ! i"
  have ts: "ts = trees_store i t (lf_trees s)" using r Some by (simp add: trees_change_at_def trees_load_def)
  have "t = (if c \<noteq> LLFREE_CLASS_NONE then set_class c ?t else ?t)"
    using Some by (auto simp: tree_change_def Let_def split: if_splits)
  moreover have "lf_num_classes s \<le> 8" "tr_class ?t < lf_num_classes s" using acct_shape [OF a] i by (auto simp: shape_ok_def)
  ultimately have "acct h p (s\<lparr>lf_trees := ts\<rparr>)"
    unfolding ts using c by (intro acct_tree [OF a i]) auto
  then show ?thesis by (simp add: sim_def ts trees_store_def)
qed

lemma trees_change_acct:
  assumes a: "acct h p s" and c: "c = LLFREE_CLASS_NONE \<or> c < lf_num_classes s"
    and r: "llfree_change_tree m (c, LLFREE_TREE_OP_NONE) s = (e, s')"
  shows "acct h p s' \<and> sim s s' \<and> lf_lower s' = lf_lower s"
proof -
  obtain ff ts where ff: "trees_change m (c, LLFREE_TREE_OP_NONE) ff (lf_trees s) = (e, ts)" "s' = s\<lparr>lf_trees := ts\<rparr>"
    using r by (auto simp: llfree_change_tree_def Let_def split: prod.splits)
  let ?cb = "trees_change_at m (c, LLFREE_TREE_OP_NONE) ff"
  have n: "0 < length (entries s)" using acct_shape [OF a] tree_count [of 0] by (simp add: shape_ok_def)
  have search: "acct h p (s\<lparr>lf_trees := ts\<rparr>) \<and> sim s (s\<lparr>lf_trees := ts\<rparr>)"
    if "trees_search 0 (length (entries s)) is ?cb ts0 = (e, ts)" "acct h p (s\<lparr>lf_trees := ts0\<rparr>)" "sim s (s\<lparr>lf_trees := ts0\<rparr>)"
    for "is" ts0
    using that
  proof (induction "is" arbitrary: ts0)
    case (Cons i "is")
    obtain e1 ts1 where s1: "?cb (search_idx 0 (length (entries s)) i) ts0 = (e1, ts1)" by fastforce
    have "search_idx 0 (length (entries s)) i < length (entries (s\<lparr>lf_trees := ts0\<rparr>))"
      using search_idx_less [OF n] Cons.prems(3) by (simp add: sim_def)
    note ch = trees_change_at_acct [OF Cons.prems(2) this, of c m ff e1 ts1]
    have "acct h p (s\<lparr>lf_trees := ts1\<rparr>)" "sim (s\<lparr>lf_trees := ts0\<rparr>) (s\<lparr>lf_trees := ts1\<rparr>)"
      using ch c s1 by simp_all
    moreover note sim_trans [OF Cons.prems(3) this(2)]
    ultimately show ?case using Cons.IH [of ts1] Cons.prems(1) s1 by (simp split: if_splits)
  qed simp
  have "acct h p (s\<lparr>lf_trees := ts\<rparr>) \<and> sim s (s\<lparr>lf_trees := ts\<rparr>)"
  proof (cases "tm_id m")
    case None
    then show ?thesis using ff(1) search [of "[0..<length (entries s)]" "lf_trees s"] a
      by (auto simp: trees_change_def Let_def split: if_splits)
  next
    case (Some i)
    show ?thesis
    proof (cases "LLFREE_TREE_SIZE < tm_free m \<or> length (entries s) \<le> i")
      case False
      then have "?cb i (lf_trees s) = (e, ts)" "i < length (entries s)" using ff(1) Some by (simp_all add: trees_change_def)
      then show ?thesis using trees_change_at_acct [OF a _ c] by blast
    qed (use ff(1) Some a in \<open>auto simp: trees_change_def Let_def split: if_splits\<close>)
  qed
  then show ?thesis by (simp add: ff(2))
qed

section \<open>Counting the free frames of a tree\<close>

lemma tfree_children:
  assumes inv: "low_inv L" and t: "4096 * t < lo_frames L"
  shows "tfree L t = sum_list (map (\<lambda>j. c_free (get_child L (t * 8 + j))) [0..<8])"
proof -
  let ?I = "{t * 8..<t * 8 + 8} \<inter> {..<child_count L}"
  have "tree_frames t = {f. f div 512 \<in> {t * 8..<t * 8 + 8}}"
  proof (rule set_eqI)
    fix f :: nat
    have "f div 4096 = f div 512 div 8" by (simp add: div_mult2_eq [symmetric])
    then show "f \<in> tree_frames t \<longleftrightarrow> f \<in> {f. f div 512 \<in> {t * 8..<t * 8 + 8}}"
      unfolding tree_frames_def by auto
  qed
  then have "free_set L \<inter> tree_frames t = {f \<in> free_set L. f div 512 \<in> ?I}" by (auto simp: free_set_def)
  then have "tfree L t = (\<Sum>i \<in> ?I. c_free (lo_children L ! i))"
    using free_set_card_on [OF inv, of ?I] by (simp add: tfree_def)
  also have "\<dots> = (\<Sum>i \<in> {t * 8..<t * 8 + 8}. c_free (lo_children L ! i))"
  proof (rule sum.mono_neutral_left)
    show "\<forall>i \<in> {t * 8..<t * 8 + 8} - ?I. c_free (lo_children L ! i) = 0"
    proof
      fix i assume i: "i \<in> {t * 8..<t * 8 + 8} - ?I"
      have "i div 8 = t" using i by auto
      then have "i \<in> tree_children (4096 * t)" by (simp add: tree_children_def)
      then have "i < length (lo_children L)" by (rule tree_in_range [OF inv t])
      then show "c_free (lo_children L ! i) = 0" using inv i by (auto simp: low_inv_def child_new_def)
    qed
  qed auto
  also have "\<dots> = (\<Sum>j \<in> {0..<8}. c_free (lo_children L ! (t * 8 + j)))"
    using sum.shift_bounds_nat_ivl [of "\<lambda>i. c_free (lo_children L ! i)" 0 "t * 8" 8] by (simp add: add.commute)
  finally show ?thesis by (simp add: sum_list_distinct_conv_sum_set get_child_def)
qed

lemma stats_at_tree:
  assumes inv: "low_inv L" and f: "f < lo_frames L"
  shows "st_free_frames (lower_stats_at f LLFREE_TREE_ORDER L) = tfree L (f div 4096)"
proof -
  have "align_down (f div 512) 8 = f div 4096 * 8"
    by (simp add: align_down_def minus_mod_eq_div_mult div_mult2_eq [symmetric])
  moreover have "4096 * (f div 4096) < lo_frames L"
    using f by (meson le_less_trans times_div_less_eq_dividend)
  ultimately show ?thesis
    using f tfree_children [OF inv, of "f div 4096"]
    by (simp add: lower_stats_at_def lower_consts LLFREE_TREE_ORDER_def comp_def Let_def)
qed

section \<open>Validation\<close>

lemma trees_stats_free: "ts_free_frames (trees_stats ts) = sum_list (map tr_free (ts_entries ts))"
proof -
  have "ts_free_frames (fold (\<lambda>t st. \<lparr>ts_free_frames = ts_free_frames st + tr_free t,
                   ts_free_trees = ts_free_trees st + of_bool (tr_free t = LLFREE_TREE_SIZE),
                   ts_classes = add_class (tr_class t) (tr_free t) (LLFREE_TREE_SIZE - tr_free t) (ts_classes st)\<rparr>) xs st) =
      ts_free_frames st + sum_list (map tr_free xs)" for xs :: "tree list" and st
    by (induction xs arbitrary: st) simp_all
  then show ?thesis by (simp add: trees_stats_def no_stats_def)
qed

lemma local_stats_free:
  "length loc = 8 \<Longrightarrow> ts_free_frames (ll_local_stats loc) = slot_sum (\<lambda>r. if rs_present r then rs_free r else 0) loc"
proof -
  have "ts_free_frames (fold (\<lambda>(c, r) st.
       if rs_present r then
         \<lparr>ts_free_frames = ts_free_frames st + rs_free r,
          ts_free_trees = ts_free_trees st + of_bool (rs_free r = LLFREE_TREE_SIZE),
          ts_classes = add_class c (rs_free r) 0 (ts_classes st)\<rparr>
       else st) xs st) = ts_free_frames st + sum_list (map (\<lambda>(c, r). if rs_present r then rs_free r else 0) xs)"
    for xs :: "(nat \<times> reserved) list" and st
    by (induction xs arbitrary: st) (auto split: prod.splits)
  then show "length loc = 8 \<Longrightarrow> ts_free_frames (ll_local_stats loc) = slot_sum (\<lambda>r. if rs_present r then rs_free r else 0) loc"
    by (simp add: ll_local_stats_def no_stats_def slot_sum_all)
qed

lemma slot_sum_swap:
  "(\<Sum>t < n. slot_sum (f t) loc) = slot_sum (\<lambda>r. \<Sum>t < n. f t r) loc"
proof -
  have one: "(\<Sum>t < n. sum_list (map (f t) es)) = sum_list (map (\<lambda>r. \<Sum>t < n. f t r) es)" for es
    by (induction es) (simp_all add: sum.distrib)
  show ?thesis
    unfolding slot_sum_def by (induction loc) (auto simp: sum.distrib one split: option.splits)
qed

lemma slot_sum_cong:
  assumes "\<And>c i. slot_at c i loc \<Longrightarrow> f (slot c i loc) = g (slot c i loc)"
  shows "slot_sum f loc = slot_sum g loc"
proof -
  have "(case e of None \<Rightarrow> 0 | Some es \<Rightarrow> sum_list (map f es)) = (case e of None \<Rightarrow> 0 | Some es \<Rightarrow> sum_list (map g es))"
    if e: "e \<in> set loc" for e
  proof (cases e)
    case (Some es)
    from e obtain c where c: "c < length loc" "loc ! c = e" by (auto simp: in_set_conv_nth)
    have "f r = g r" if "r \<in> set es" for r
    proof -
      from that obtain i where i: "i < length es" "es ! i = r" by (auto simp: in_set_conv_nth)
      then show ?thesis using assms [of c i] c Some by (simp add: slot_at_def slot_def)
    qed
    then have "map f es = map g es" by simp
    then show ?thesis unfolding Some option.case by (rule arg_cong)
  qed simp
  then show ?thesis unfolding slot_sum_def by (intro arg_cong [of _ _ sum_list] map_cong) auto
qed

lemma free_set_trees:
  assumes inv: "low_inv L"
  shows "(\<Sum>t < div_ceil (lo_frames L) 4096. tfree L t) = card (free_set L)"
proof -
  have fin: "finite (free_set L)" using free_set_bound [OF inv] finite_subset by blast
  have eq: "free_set L = (\<Union>t \<in> {..<div_ceil (lo_frames L) 4096}. free_set L \<inter> tree_frames t)"
  proof
    show "free_set L \<subseteq> (\<Union>t \<in> {..<div_ceil (lo_frames L) 4096}. free_set L \<inter> tree_frames t)"
    proof
      fix f assume f: "f \<in> free_set L"
      then have "f < lo_frames L" using free_set_bound [OF inv] by auto
      then have "4096 * (f div 4096) < lo_frames L" by (meson le_less_trans times_div_less_eq_dividend)
      then have "f div 4096 < div_ceil (lo_frames L) 4096" by (simp add: tree_count)
      then show "f \<in> (\<Union>t \<in> {..<div_ceil (lo_frames L) 4096}. free_set L \<inter> tree_frames t)"
        using f by (auto simp: tree_frames_def)
    qed
  qed auto
  have "card (\<Union>t \<in> {..<div_ceil (lo_frames L) 4096}. free_set L \<inter> tree_frames t) =
      (\<Sum>t < div_ceil (lo_frames L) 4096. card (free_set L \<inter> tree_frames t))"
    by (rule card_UN_disjoint) (use fin in \<open>auto simp: tree_frames_def\<close>)
  then show ?thesis using eq by (simp add: tfree_def)
qed

lemma slot_sum_0:
  assumes "\<And>c i. slot_at c i loc \<Longrightarrow> f (slot c i loc) = 0"
  shows "slot_sum f loc = 0"
proof -
  have "slot_sum (\<lambda>_. 0) loc = 0" unfolding slot_sum_def by (induction loc) (simp_all split: option.splits)
  then show ?thesis using slot_sum_cong [of loc f "\<lambda>_. 0"] assms by simp
qed

text \<open>No slot counts frames of a tree that no slot reserves.\<close>

lemma unreserved_free:
  assumes "slot_sum (res_cnt t) loc = 0"
  shows "slot_sum (res_free t) loc = 0"
proof (rule slot_sum_0)
  fix c i assume "slot_at c i loc"
  then have "res_cnt t (slot c i loc) = 0" using slot_le_sum [of c i loc "res_cnt t"] assms by simp
  then show "res_free t (slot c i loc) = 0" by (auto simp: res_cnt_def res_free_def split: if_splits)
qed

lemma acct_count:
  assumes a: "acct (\<lambda>_. 0) {} s"
  shows "ts_free_frames (llfree_tree_stats s) = card (free_set (lf_lower s))"
proof -
  let ?n = "length (entries s)"
  have sh: "length (lf_local s) = 8" "low_inv (lf_lower s)" "?n = div_ceil (lo_frames (lf_lower s)) 4096"
    using acct_shape [OF a] by (simp_all add: shape_ok_def)
  have one: "(\<Sum>t < ?n. res_free t (slot c i (lf_local s))) =
      (if rs_present (slot c i (lf_local s)) then rs_free (slot c i (lf_local s)) else 0)" if "slot_at c i (lf_local s)" for c i
    using slot_okD(2) [OF acct_shape [OF a] that] by (auto simp: res_free_def)
  have "ts_free_frames (llfree_tree_stats s) =
      slot_sum (\<lambda>r. if rs_present r then rs_free r else 0) (lf_local s) + (\<Sum>t < ?n. tr_free (entries s ! t))"
    using local_stats_free [OF sh(1)]
    by (simp add: llfree_tree_stats_def trees_stats_free sum_list_sum_nth atLeast0LessThan Let_def)
  also have "slot_sum (\<lambda>r. if rs_present r then rs_free r else 0) (lf_local s) = (\<Sum>t < ?n. slot_sum (res_free t) (lf_local s))"
    unfolding slot_sum_swap by (rule slot_sum_cong) (simp add: one)
  also have "(\<Sum>t < ?n. slot_sum (res_free t) (lf_local s)) + (\<Sum>t < ?n. tr_free (entries s ! t)) =
      (\<Sum>t < ?n. tfree (lf_lower s) t)"
    unfolding sum.distrib [symmetric] using acctD(1) [OF a] by (intro sum.cong) (auto simp: add.commute)
  finally show ?thesis using free_set_trees [OF sh(2)] sh(3) by simp
qed

lemma acct_validate_tree:
  assumes a: "acct (\<lambda>_. 0) {} s" and c: "slot_at c i (lf_local s)" and r: "rs_present (slot c i (lf_local s))"
  shows "validate_tree s (slot c i (lf_local s))"
proof -
  let ?r = "slot c i (lf_local s)"
  define t where "t = rs_start_row ?r div 64"
  note ok = slot_okD [OF acct_shape [OF a] c r, folded t_def]
  have cnt: "1 \<le> slot_sum (res_cnt t) (lf_local s)"
    using slot_le_sum [OF c, of "res_cnt t"] r by (simp add: res_cnt_def t_def)
  then have res: "tr_reserved (entries s ! t)" using acctD(2) [OF a ok(2)] by (cases "tr_reserved (entries s ! t)") simp_all
  have one: "slot_sum (res_cnt t) (lf_local s) = 1" using acctD(2) [OF a ok(2)] res by simp
  have "slot_sum (res_free t) (lf_local s) = rs_free ?r"
  proof -
    define e where "e = ll_reserved_new False 0 0"
    have e: "res_cnt t e = 0" "res_free t e = 0" by (simp_all add: e_def res_cnt_def res_free_def ll_reserved_new_def)
    have "slot_sum (res_cnt t) (set_slot c i e (lf_local s)) = 0"
      using slot_sum_set [OF c, of "res_cnt t" e] one r e by (simp add: res_cnt_def t_def)
    then have "slot_sum (res_free t) (set_slot c i e (lf_local s)) = 0" by (rule unreserved_free)
    then show ?thesis using slot_sum_set [OF c, of "res_free t" e] r e by (simp add: res_free_def t_def)
  qed
  then have sum: "tr_free (entries s ! t) + rs_free ?r = tfree (lf_lower s) t" using acctD(1) [OF a ok(2)] by simp
  have "st_free_frames (lower_stats_at (frame_from_row (rs_start_row ?r)) LLFREE_TREE_ORDER (lf_lower s)) = tfree (lf_lower s) t"
    using stats_at_tree [of "lf_lower s" "frame_from_row (rs_start_row ?r)"] ok(1) acct_shape [OF a]
    by (simp add: frame_of_row shape_ok_def t_def)
  moreover have "tr_class (entries s ! t) < lf_num_classes s" using acct_shape [OF a] ok(2) by (simp add: shape_ok_def)
  ultimately show ?thesis
    using sum res tfree_le [of "lf_lower s" t]
    by (simp add: validate_tree_def trees_load_def LLFREE_TREE_SIZE_def Let_def flip: t_def)
qed

lemma acct_validate:
  assumes a: "acct (\<lambda>_. 0) {} s"
  shows "llfree_validate s"
proof -
  have sh: "length (lf_local s) = 8" "low_inv (lf_lower s)" using acct_shape [OF a] by (simp_all add: shape_ok_def)
  have "tr_free (entries s ! i) \<le> LLFREE_TREE_SIZE \<and> tr_class (entries s ! i) < lf_num_classes s \<and>
      (\<not> tr_reserved (entries s ! i) \<longrightarrow>
        st_free_frames (lower_stats_at (frame_from_tree i) LLFREE_TREE_ORDER (lf_lower s)) = tr_free (entries s ! i))"
    if i: "i < length (entries s)" for i
  proof -
    have cls: "tr_class (entries s ! i) < lf_num_classes s" using acct_shape [OF a] i by (simp add: shape_ok_def)
    have "tr_free (entries s ! i) = tfree (lf_lower s) i" if "\<not> tr_reserved (entries s ! i)"
    proof -
      have "slot_sum (res_cnt i) (lf_local s) = 0" using acctD(2) [OF a i] that by simp
      then have "slot_sum (res_free i) (lf_local s) = 0" by (rule unreserved_free)
      then show ?thesis using acctD(1) [OF a i] by simp
    qed
    then show ?thesis
      using cls acctD(3) [OF a i] stats_at_tree [OF sh(2) frame_of_tree(1) [OF acct_shape [OF a] i]]
        frame_of_tree(2) [OF acct_shape [OF a] i] by (simp add: LLFREE_TREE_SIZE_def)
  qed
  moreover have "rs_free r \<le> LLFREE_TREE_SIZE \<and> (rs_present r \<longrightarrow> validate_tree s r)"
    if "(c, r) \<in> set (all_slots (lf_local s))" for c r
  proof -
    from that obtain i where i: "slot_at c i (lf_local s)" "slot c i (lf_local s) = r" using all_slots_iff [OF sh(1)] by blast
    have "slot_ok (lo_frames (lf_lower s)) r" using acct_shape [OF a] i by (auto simp: shape_ok_def)
    then show ?thesis
      using acct_validate_tree [OF a i(1)] slot_counts(3) [OF a i(1)] i(2)
      by (cases "rs_present r") (simp_all add: slot_ok_def LLFREE_TREE_SIZE_def)
  qed
  ultimately show ?thesis
    using acct_count [OF a] lower_stats_free [OF sh(2)]
    by (auto simp: llfree_validate_def list_all_iff trees_load_def Let_def)
qed

section \<open>Initialisation and reachable states\<close>

text \<open>A configuration with classes \<open>0, 1, \<dots>\<close>, as \<open>llfree_classing_simple\<close> and \<open>llfree_classing_movable\<close> build them.\<close>

definition llfree_simple_policy :: policy_fn where
  "llfree_simple_policy requested target free =
     (if target < requested then (LLFREE_POLICY_STEAL, 0)
      else if requested < target then (LLFREE_POLICY_DEMOTE, 0)
      else if LLFREE_TREE_SIZE div 2 \<le> free then (LLFREE_POLICY_MATCH, 1)
      else if LLFREE_TREE_SIZE div 64 \<le> free then (LLFREE_POLICY_MATCH, 255)
      else (LLFREE_POLICY_MATCH, 0))"

definition llfree_classing_simple :: "nat \<Rightarrow> classing" where
  "llfree_classing_simple cores =
     \<lparr>cl_classes = [(0, cores), (1, cores)], cl_default = 1, cl_policy = llfree_simple_policy\<rparr>"

definition classing_ok :: "classing \<Rightarrow> bool" where
  "classing_ok cl \<longleftrightarrow> map fst (cl_classes cl) = [0..<length (cl_classes cl)] \<and> length (cl_classes cl) \<le> 8 \<and>
     cl_default cl < length (cl_classes cl)"

lemma classing_simple_ok: "classing_ok (llfree_classing_simple cores)"
  by (simp add: classing_ok_def llfree_classing_simple_def numeral_2_eq_2)

definition all_empty :: "nat set \<Rightarrow> locals \<Rightarrow> bool" where
  "all_empty C loc \<longleftrightarrow> length loc = 8 \<and>
     (\<forall>c < 8. case loc ! c of None \<Rightarrow> True | Some es \<Rightarrow> c \<in> C \<and> set es \<subseteq> {ll_reserved_new False 0 0})"

lemma local_init_empty: "all_empty (fst ` set (cl_classes cl)) (ll_local_init cl)"
proof -
  have "all_empty (C \<union> fst ` set cs)
      (fold (\<lambda>(class, count) loc. loc[class := Some (replicate count (ll_reserved_new False 0 0))]) cs loc)"
    if "all_empty C loc" for cs C loc
    using that
  proof (induction cs arbitrary: C loc)
    case (Cons x cs)
    obtain c n where x: "x = (c, n)" by (cases x)
    have "all_empty (insert c C) (loc[c := Some (replicate n (ll_reserved_new False 0 0))])"
      using Cons.prems
      by (cases "c < 8") (auto simp: all_empty_def nth_list_update list_update_beyond split: option.splits if_splits)
    from Cons.IH [OF this] show ?case by (simp add: x)
  qed simp
  from this [of "{}" "replicate 8 None" "cl_classes cl"] show ?thesis
    by (simp add: ll_local_init_def tree_consts all_empty_def)
qed

lemma init_acct:
  assumes cl: "classing_ok cl" and n: "n \<le> 2 ^ 41"
    and init: "llfree_init n LLFREE_INIT_FREE fs cs es cl s0 = (LLFREE_ERR_OK, s)"
  shows "acct (\<lambda>_. 0) {} s" "lower_init n LLFREE_INIT_FREE fs cs = (LLFREE_ERR_OK, lf_lower s)" "lo_frames (lf_lower s) = n"
    "\<And>t. t < length (entries s) \<Longrightarrow> entries s ! t = tree_new False (cl_default cl) (tfree (lf_lower s) t)"
    "lf_local s = ll_local_init cl" "lf_policy s = cl_policy cl"
proof -
  obtain r L where L: "lower_init n LLFREE_INIT_FREE fs cs = (r, L)" by fastforce
  note low = lower_init_free [OF L]
  have pos: "0 < n" using init by (auto simp: llfree_init_def MIN_PAGES_def lower_consts split: if_splits)
  have s: "lf_lower s = L" "lf_trees s = trees_init n es (Some (init_tree_cb L)) (cl_default cl)" "lf_local s = ll_local_init cl"
    "lf_num_classes s = length (cl_classes cl)"
    using init L low(1) by (auto simp: llfree_init_def Let_def split: if_splits)
  show "lower_init n LLFREE_INIT_FREE fs cs = (LLFREE_ERR_OK, lf_lower s)" "lo_frames (lf_lower s) = n"
    "lf_local s = ll_local_init cl" using L low s by simp_all
  show "lf_policy s = cl_policy cl" using init L low(1) by (auto simp: llfree_init_def Let_def split: if_splits)
  have emp: "all_empty (fst ` set (cl_classes cl)) (lf_local s)" using local_init_empty s(3) by simp
  have "fst ` set (cl_classes cl) = {..<length (cl_classes cl)}"
    using cl by (metis classing_ok_def set_map set_upt atLeast0LessThan)
  with emp have cls: "c < lf_num_classes s" "slot c i (lf_local s) = ll_reserved_new False 0 0" if "slot_at c i (lf_local s)" for c i
    using that by (fastforce simp: all_empty_def slot_at_def slot_def s(4) split: option.splits dest!: nth_mem)+
  have cls': "c < lf_num_classes s" if "ll_local_class_locals c (lf_local s) \<noteq> None" for c
    using emp that \<open>fst ` set (cl_classes cl) = _\<close>
    by (fastforce simp: all_empty_def ll_local_class_locals_def tree_consts s(4) split: option.splits if_splits)
  have len: "length (entries s) = div_ceil n 4096" by (simp add: s(2) trees_init_def LLFREE_TREE_SIZE_def)
  have entry: "entries s ! t = tree_new False (cl_default cl) (tfree L t)" if "t < length (entries s)" for t
  proof -
    have "4096 * t < lo_frames L" using that by (simp add: len tree_count low(2))
    then have "init_tree_cb L (frame_from_tree t) = tfree L t"
      using tfree_children [OF low(3)]
      by (simp add: init_tree_cb_def tree_from_frame_def frame_from_tree_def LLFREE_TREE_ORDER_def lower_consts)
    then show ?thesis using that by (simp add: s(2) trees_init_def LLFREE_TREE_SIZE_def)
  qed
  then show "\<And>t. t < length (entries s) \<Longrightarrow> entries s ! t = tree_new False (cl_default cl) (tfree (lf_lower s) t)"
    by (simp add: s(1))
  have tf: "tfree L t < 2 ^ 28" for t using tfree_le [of L t] by simp
  have def8: "cl_default cl < lf_num_classes s" "lf_num_classes s \<le> 8" using cl by (simp_all add: s(4) classing_ok_def)
  have "shape_ok s"
    unfolding shape_ok_def
    using low n pos len emp cls cls' entry def8
    by (auto simp: s(1,2) trees_init_def all_empty_def tree_new_def tree_consts slot_ok_def ll_reserved_new_def)
  moreover have "slot_sum (res_free t) (lf_local s) = 0" "slot_sum (res_cnt t) (lf_local s) = 0" for t
    by (rule slot_sum_0, simp add: cls(2) res_free_def res_cnt_def ll_reserved_new_def)+
  ultimately show "acct (\<lambda>_. 0) {} s"
    using tf by (simp add: acct_def entry tree_new_def tree_consts s(1))
qed

text \<open>
  The allocator and the blocks that are in use. Requests may be invalid; then nothing changes. Trees are not taken
  on- or offline.
\<close>

type_synonym lf_world = "llfree \<times> (nat \<times> nat) list"

definition lf_start :: "nat \<Rightarrow> classing \<Rightarrow> lf_world \<Rightarrow> bool" where
  "lf_start n cl w \<longleftrightarrow> n \<le> 2 ^ 41 \<and> classing_ok cl \<and>
     (\<exists>fs cs es s0 s. llfree_init n LLFREE_INIT_FREE fs cs es cl s0 = (LLFREE_ERR_OK, s) \<and> w = (s, []))"

inductive lf_step :: "lf_world \<Rightarrow> lf_world \<Rightarrow> bool" where
  lf_get: "rq_order rq \<le> 9 \<Longrightarrow> llfree_get None rq s = (res, s') \<Longrightarrow>
    lf_step (s, own) (s', case res of Got f c \<Rightarrow> (f, rq_order rq) # own | Err e \<Rightarrow> own)"
| lf_put: "(f, rq_order rq) \<in> set own \<Longrightarrow> llfree_put f rq s = (e, s') \<Longrightarrow>
    lf_step (s, own) (s', if e = LLFREE_ERR_OK then remove1 (f, rq_order rq) own else own)"
| lf_drain: "lf_step (s, own) (llfree_drain s, own)"
| lf_class: "c = LLFREE_CLASS_NONE \<or> c < lf_num_classes s \<Longrightarrow> llfree_change_tree m (c, LLFREE_TREE_OP_NONE) s = (e, s') \<Longrightarrow>
    lf_step (s, own) (s', own)"

fun lf_inv :: "nat \<Rightarrow> lf_world \<Rightarrow> bool" where
  "lf_inv n (s, own) \<longleftrightarrow> acct (\<lambda>_. 0) {} s \<and> low_world_inv n (lf_lower s, own)"

lemma lf_inv_get:
  assumes inv: "lf_inv n (s, own)" and order: "rq_order rq \<le> 9" and get: "llfree_get None rq s = (res, s')"
  shows "lf_inv n (s', case res of Got f c \<Rightarrow> (f, rq_order rq) # own | Err e \<Rightarrow> own)"
proof (cases "validate_request rq None s")
  case True
  have "outcome (rq_order rq) (\<lambda>_. 0) {} s (res, s')"
    using llfree_get_outcome [OF _ True order, of "\<lambda>_. 0" "{}"] inv get by simp
  then show ?thesis
    using inv world_get [OF _ _ order, of n "lf_lower s" own] by (cases res) (auto simp del: low_world_inv.simps)
next
  case False
  then show ?thesis using inv get by (auto simp: llfree_get_def simp del: low_world_inv.simps)
qed

lemma lf_inv_put:
  assumes inv: "lf_inv n (s, own)" and own: "(f, rq_order rq) \<in> set own" and put: "llfree_put f rq s = (e, s')"
  shows "lf_inv n (s', if e = LLFREE_ERR_OK then remove1 (f, rq_order rq) own else own)"
    "validate_request rq (Some f) s \<Longrightarrow> e = LLFREE_ERR_OK"
proof -
  have ok: "own_ok (lf_lower s) (f, rq_order rq)" using inv own by auto
  show "e = LLFREE_ERR_OK" if "validate_request rq (Some f) s"
    using put_outcome(1) [OF _ ok that put, of "\<lambda>_. 0" "{}"] inv by simp
  show "lf_inv n (s', if e = LLFREE_ERR_OK then remove1 (f, rq_order rq) own else own)"
  proof (cases "validate_request rq (Some f) s")
    case True
    note p = put_outcome [OF _ ok True put, of "\<lambda>_. 0" "{}"]
    show ?thesis using p inv world_put(2) [OF _ own, of n "lf_lower s"] by (simp del: low_world_inv.simps)
  next
    case False
    then show ?thesis using inv put by (auto simp: llfree_put_def simp del: low_world_inv.simps)
  qed
qed

interpretation lf: invariant_system "lf_start n cl" lf_step "lf_inv n" for n cl
proof
  fix w assume w: "lf_start n cl w"
  then obtain fs cs es s0 s where s: "llfree_init n LLFREE_INIT_FREE fs cs es cl s0 = (LLFREE_ERR_OK, s)" "w = (s, [])"
    by (auto simp: lf_start_def)
  have i: "acct (\<lambda>_. 0) {} s" "lower_init n LLFREE_INIT_FREE fs cs = (LLFREE_ERR_OK, lf_lower s)"
    using init_acct [OF _ _ s(1)] w by (simp_all add: lf_start_def)
  show "lf_inv n w" using i(1) lower_init_free [OF i(2)] by (simp add: s(2))
next
  fix w w' assume inv: "lf_inv n w" and "lf_step w w'"
  from this(2) show "lf_inv n w'"
  proof cases
    case (lf_get rq s res s' own)
    then show ?thesis using lf_inv_get [of n s own rq res s'] inv by (simp del: lf_inv.simps)
  next
    case (lf_put f rq own s e s')
    then show ?thesis using lf_inv_put(1) [of n s own f rq e s'] inv by (simp del: lf_inv.simps)
  next
    case (lf_drain s own)
    then show ?thesis using llfree_drain_acct [of "\<lambda>_. 0" "{}" s] inv by simp
  next
    case (lf_class c s m e s' own)
    then show ?thesis using trees_change_acct [of "\<lambda>_. 0" "{}" s c m e s'] inv by simp
  qed
qed


text \<open>The first allocation from a fresh allocator with one tree.\<close>

lemma first_alloc:
  assumes n: "512 \<le> n" "n \<le> 4096" and cores: "0 < cores"
    and s: "llfree_init n LLFREE_INIT_FREE fs cs es (llfree_classing_simple cores) s0 = (LLFREE_ERR_OK, s)"
  obtains f s' where "llfree_get None \<lparr>rq_order = 0, rq_class = 0, rq_local = Some 0\<rparr> s = (Got f 0, s')"
proof -
  let ?rq = "\<lparr>rq_order = 0, rq_class = 0, rq_local = Some 0\<rparr> :: request"
  note i = init_acct [OF classing_simple_ok _ s]
  obtain L where L: "lower_init n LLFREE_INIT_FREE fs cs = (LLFREE_ERR_OK, L)" and low: "lf_lower s = L"
    using i(2) n by auto
  note free = lower_init_free(4) [OF L]
  have len: "length (entries s) = 1" using acct_shape [OF i(1)] i(3) n by (simp add: shape_ok_def div_ceil_def)
  have t: "entries s = [\<lparr>tr_reserved = False, tr_class = 1, tr_free = n\<rparr>]"
  proof -
    have "free_set L \<inter> tree_frames 0 = {0..<n}" unfolding free tree_frames_interval using n(2) by auto
    then have "tfree L 0 = n" by (simp add: tfree_def)
    moreover obtain x where "entries s = [x]" using len by (auto simp: length_Suc_conv)
    ultimately show ?thesis using i(4) [of 0] low n by (simp add: tree_new_def tree_consts llfree_classing_simple_def)
  qed
  have loc: "ll_local_class_locals 0 (lf_local s) = Some cores"
    using i(5) n by (simp add: ll_local_init_def llfree_classing_simple_def ll_local_class_locals_def tree_consts)
  have pol: "lf_policy s = llfree_simple_policy" using i(6) n by (simp add: llfree_classing_simple_def)
  define s1 where "s1 = s\<lparr>lf_trees := trees_store 0 \<lparr>tr_reserved = False, tr_class = 0, tr_free = n - 1\<rparr> (lf_trees s)\<rparr>"
  obtain res L' where get: "lower_get 0 0 None L = (res, L')" by fastforce
  have "takes 0 (tree_children 0) L (res, L')"
    using lower_get_takes [OF lower_init_free(3) [OF L], of 0 0] lower_init_free(2) [OF L] get n by simp
  moreover have "block 0 0 \<subseteq> free_set L" using n by (simp add: free block_def)
  ultimately obtain f where f: "res = Frame f" by (cases res) (auto simp: takes_def tree_children_def)
  have cb: "steal_cb 0 0 0 s = (Got f 0, s1\<lparr>lf_lower := L'\<rparr>)"
    using get f low n
    by (simp add: steal_cb_def trees_steal_def trees_load_def t tree_steal_def pol llfree_simple_policy_def set_class_def
        set_free_def tree_consts get_lower_def frame_from_tree_def s1_def lower_consts)
  have idx: "search_idx 0 (Suc 0) 0 = 0" by (simp add: search_idx_def)
  have best: "best_insert 1 0 (replicate 8 (0, 0)) = (1, 0) # replicate 7 (0, 0)" by code_simp
  have scan: "best_scan entries 0 [0..<1] (rate_global_tree 0 1 llfree_simple_policy) (steal_cb 0 0) (replicate 8 (0, 0)) s =
      (Inr ((1, 0) # replicate 7 (0, 0)), s)"
    using best n by (simp add: t idx rate_global_tree_def llfree_simple_policy_def lower_consts Let_def)
  have "llfree_get None ?rq s = (Got f 0, s1\<lparr>lf_lower := L'\<rparr>)"
    using i(3) loc scan cb n cores
    by (simp add: llfree_get_def validate_request_def LLFREE_TREE_ORDER_def len pol trees_search_best_def tree_consts)
  then show ?thesis using that by blast
qed



end
