(* ===== verification/Pmm.thy ===== *)
theory Pmm
  imports Llfree
begin

text \<open>
  The physical memory manager (\<open>src/kernel/mm/pmm.c\<close>): the choice of the memory it manages, the allocation of pages
  from LLFree, the reference counts of pages that address spaces share, the pool of zeroed pages and the reserve for
  32 bit DMA. Physical addresses are natural numbers below 2^64, with 0 for the null pointer; the counters are 64 bit
  words and the reference counts 16 bit words. Memory is the state of the pages, 512 words each, by page frame number.
  Every call runs to completion on one processor.
\<close>

section \<open>Constants and sizes\<close>

definition PAGE_SIZE :: nat where "PAGE_SIZE = 4096"
definition PAGE_SHIFT :: nat where "PAGE_SHIFT = 12"
definition DMA32_RESERVE_BYTES :: nat where "DMA32_RESERVE_BYTES = 3 * 1024 * 1024"
definition PMM_REF_MAX_FRAMES :: nat where "PMM_REF_MAX_FRAMES = 2 ^ 22"
definition ZPOOL_SIZE :: nat where "ZPOOL_SIZE = 32"
definition MAX_CPUS :: nat where "MAX_CPUS = 16"
definition UINT64_MAX :: nat where "UINT64_MAX = 2 ^ 64 - 1"
definition LLFREE_MAX_ORDER :: nat where "LLFREE_MAX_ORDER = LLFREE_TREE_ORDER"

lemmas pmm_consts = PAGE_SIZE_def PAGE_SHIFT_def DMA32_RESERVE_BYTES_def PMM_REF_MAX_FRAMES_def ZPOOL_SIZE_def MAX_CPUS_def
  UINT64_MAX_def LLFREE_MAX_ORDER_def LLFREE_TREE_ORDER_def

definition PAGE_ALIGN_UP :: "nat \<Rightarrow> nat" where
  "PAGE_ALIGN_UP x = (x + PAGE_SIZE - 1) mod 2 ^ 64 div PAGE_SIZE * PAGE_SIZE"

definition PAGE_ALIGN_DOWN :: "nat \<Rightarrow> nat" where
  "PAGE_ALIGN_DOWN x = x div PAGE_SIZE * PAGE_SIZE"

text \<open>The metadata of LLFree: a bit field, a group of eight children and a slot are 64 bytes, a tree entry 4 bytes.\<close>

definition lower_metadata_size :: "nat \<Rightarrow> nat" where
  "lower_metadata_size frames =
     (let children = div_ceil frames LLFREE_CHILD_SIZE; trees = div_ceil children LLFREE_TREE_CHILDREN
      in align_up (children * 64) 64 + align_up (trees * 64) (max 64 64))"

definition trees_metadata_size :: "nat \<Rightarrow> nat" where
  "trees_metadata_size frames = align_up (4 * div_ceil frames LLFREE_TREE_SIZE) 64"

definition ll_local_size :: "classing \<Rightarrow> nat" where
  "ll_local_size cl = align_up 256 64 + 64 * sum_list (map snd (cl_classes cl))"

section \<open>The memory to manage\<close>

record memmap_entry =
  me_base :: nat
  me_length :: nat
  me_usable :: bool

text \<open>The base and the size of the DMA reserve; size 0 when no region is large enough.\<close>

definition dma_best :: "memmap_entry list \<Rightarrow> nat \<times> nat" where
  "dma_best mmap =
     fold (\<lambda>e (best_start, best_end).
       if \<not> me_usable e \<or> 0x100000000 \<le> me_base e \<or> UINT64_MAX - me_base e < me_length e then (best_start, best_end)
       else
         let start = max (PAGE_ALIGN_UP (me_base e)) 0x100000;
             e' = PAGE_ALIGN_DOWN (min (me_base e + me_length e) 0x100000000)
         in if start < e' \<and> best_end - best_start < e' - start then (start, e') else (best_start, best_end))
       mmap (0, 0)"

definition reserve_dma32 :: "memmap_entry list \<Rightarrow> nat \<times> nat" where
  "reserve_dma32 mmap =
     (let (best_start, best_end) = dma_best mmap;
          bytes = min (PAGE_ALIGN_DOWN ((best_end - best_start) div 2)) DMA32_RESERVE_BYTES
      in if bytes < 16 * PAGE_SIZE then (0, 0) else (best_end - bytes, bytes))"

text \<open>The largest usable region that avoids the DMA reserve: its base and length.\<close>

definition cut_dma :: "nat \<times> nat \<Rightarrow> nat \<times> nat \<Rightarrow> nat \<times> nat" where
  "cut_dma dma r =
     (let (dma_base, dma_bytes) = dma; (start, e) = r in
      if dma_bytes \<noteq> 0 \<and> start < dma_base + dma_bytes \<and> dma_base < e then
        let before = (if start < dma_base then dma_base - start else 0);
            after = (if dma_base + dma_bytes < e then e - (dma_base + dma_bytes) else 0)
        in if before < after then (dma_base + dma_bytes, e) else (start, dma_base)
      else (start, e))"

definition find_region :: "nat \<times> nat \<Rightarrow> memmap_entry list \<Rightarrow> nat \<times> nat" where
  "find_region dma mmap =
     fold (\<lambda>e (region_base, region_len).
       if \<not> me_usable e then (region_base, region_len)
       else if UINT64_MAX - me_base e < me_length e \<or> UINT64_MAX - PAGE_SIZE < me_base e then (region_base, region_len)
       else
         let (start, e') = cut_dma dma (PAGE_ALIGN_UP (me_base e), PAGE_ALIGN_DOWN (me_base e + me_length e))
         in if start < e' \<and> region_len < e' - start then (start, e' - start) else (region_base, region_len))
       mmap (0, 0)"

text \<open>The highest usable address; a sum that exceeds 64 bits wraps around.\<close>

definition highest_frame :: "memmap_entry list \<Rightarrow> nat" where
  "highest_frame mmap =
     fold (\<lambda>e highest. if me_usable e then max highest ((me_base e + me_length e) mod 2 ^ 64) else highest) mmap 0
       div PAGE_SIZE"

definition usable_pages :: "memmap_entry list \<Rightarrow> nat" where
  "usable_pages mmap = fold (\<lambda>e n. if me_usable e then (n + me_length e div PAGE_SIZE) mod 2 ^ 64 else n) mmap 0"

text \<open>What \<open>pmm_init\<close> decides: where the metadata is, the first managed frame and the number of managed frames.\<close>

datatype layout = Layout nat nat nat | NoRegion | Halt | TooSmall nat

definition pmm_layout :: "memmap_entry list \<Rightarrow> nat \<Rightarrow> layout" where
  "pmm_layout mmap kernel_end_phys =
     (let total = highest_frame mmap;
          cl = llfree_classing_simple MAX_CPUS;
          meta_total = ll_local_size cl + trees_metadata_size total + lower_metadata_size total;
          (region_base, region_len) = find_region (reserve_dma32 mmap) mmap;
          meta_phys = (if region_base \<le> kernel_end_phys \<and> kernel_end_phys < region_base + region_len
                       then PAGE_ALIGN_UP kernel_end_phys else region_base);
          region_end = region_base + region_len
      in if region_base = 0 then NoRegion
         else if region_end < meta_phys \<or> region_end - meta_phys < meta_total \<or>
                 region_end - meta_phys - meta_total < 513 * PAGE_SIZE then Halt
         else
           let first = (meta_phys + meta_total + PAGE_SIZE - 1) div PAGE_SIZE;
               managed = region_end div PAGE_SIZE - first
           in if managed < 512 then TooSmall first else Layout meta_phys first managed)"

section \<open>State\<close>

text \<open>
  \<open>pm_zpool\<close> is the part of \<open>g_zpool\<close> below \<open>g_zpool_top\<close>. The reference counts are an array of
  \<open>PMM_REF_MAX_FRAMES\<close> elements, of which only elements below that bound are accessed.
\<close>

record dma32 =
  dm_base :: nat
  dm_bytes :: nat
  dm_used :: nat

record pmm =
  pm_llfree :: llfree
  pm_first_frame :: nat
  pm_refs :: "nat \<Rightarrow> u16"
  pm_zpool :: "nat list"
  pm_dma32 :: dma32
  pm_total_frames :: nat
  pm_usable_pages :: nat
  pm_free_frames :: u64
  pm_alloc_total :: u64
  pm_free_total :: u64
  pm_mem :: "nat \<Rightarrow> nat \<Rightarrow> u64"

definition pmm_ref_index :: "nat \<Rightarrow> pmm \<Rightarrow> nat" where
  "pmm_ref_index phys m = nat ((int (phys div 2 ^ PAGE_SHIFT) - int (pm_first_frame m)) mod 2 ^ 64) mod 2 ^ 32"

definition pmm_ref_set :: "nat \<Rightarrow> pmm \<Rightarrow> pmm" where
  "pmm_ref_set phys m =
     (let i = pmm_ref_index phys m in
      if i < PMM_REF_MAX_FRAMES then m\<lparr>pm_refs := (pm_refs m)(i := 1)\<rparr> else m)"

definition cpu_request :: "nat \<Rightarrow> nat \<Rightarrow> request" where
  "cpu_request order cpu = \<lparr>rq_order = order, rq_class = 0, rq_local = Some cpu\<rparr>"

definition zero_page :: "nat \<Rightarrow> pmm \<Rightarrow> pmm" where
  "zero_page phys m = m\<lparr>pm_mem := (pm_mem m)(phys div PAGE_SIZE := (\<lambda>_. 0))\<rparr>"

definition copy_page :: "nat \<Rightarrow> nat \<Rightarrow> pmm \<Rightarrow> pmm" where
  "copy_page dst src m = m\<lparr>pm_mem := (pm_mem m)(dst div PAGE_SIZE := pm_mem m (src div PAGE_SIZE))\<rparr>"

section \<open>Single pages\<close>

definition pmm_alloc :: "nat \<Rightarrow> pmm \<Rightarrow> nat \<times> pmm" where
  "pmm_alloc cpu m =
     (case llfree_get None (cpu_request 0 cpu) (pm_llfree m) of
        (Err e, s) \<Rightarrow> (0, m\<lparr>pm_llfree := s\<rparr>)
      | (Got f c, s) \<Rightarrow>
          (let phys = (f + pm_first_frame m) * 2 ^ PAGE_SHIFT in
           (phys, pmm_ref_set phys (m\<lparr>pm_llfree := s, pm_free_frames := pm_free_frames m - 1,
                                      pm_alloc_total := pm_alloc_total m + 1\<rparr>))))"

definition pmm_alloc_zeroed :: "nat \<Rightarrow> pmm \<Rightarrow> nat \<times> pmm" where
  "pmm_alloc_zeroed cpu m =
     (if pm_zpool m \<noteq> [] then
        let phys = last (pm_zpool m) in
        (phys, pmm_ref_set phys (m\<lparr>pm_zpool := butlast (pm_zpool m), pm_free_frames := pm_free_frames m - 1,
                                   pm_alloc_total := pm_alloc_total m + 1\<rparr>))
      else
        let (phys, m) = pmm_alloc cpu m in if phys = 0 then (0, m) else (phys, zero_page phys m))"

definition pmm_retain :: "nat \<Rightarrow> pmm \<Rightarrow> bool \<times> pmm" where
  "pmm_retain phys m =
     (if phys = 0 then (False, m)
      else
        let i = pmm_ref_index phys m in
        if PMM_REF_MAX_FRAMES \<le> i then (False, m)
        else if pm_refs m i = 0 \<or> pm_refs m i = - 1 then (False, m)
        else (True, m\<lparr>pm_refs := (pm_refs m)(i := pm_refs m i + 1)\<rparr>))"

definition pmm_ref_count :: "nat \<Rightarrow> pmm \<Rightarrow> u16" where
  "pmm_ref_count phys m =
     (if phys = 0 then 0
      else let i = pmm_ref_index phys m in if i < PMM_REF_MAX_FRAMES then pm_refs m i else 0)"

text \<open>Giving a page back to LLFree.\<close>

definition pmm_release :: "nat \<Rightarrow> nat \<Rightarrow> nat \<Rightarrow> pmm \<Rightarrow> pmm" where
  "pmm_release order cpu phys m =
     (let frame = nat ((int (phys div 2 ^ PAGE_SHIFT) - int (pm_first_frame m)) mod 2 ^ 64);
          (r, s) = llfree_put frame (cpu_request order cpu) (pm_llfree m);
          m = m\<lparr>pm_llfree := s\<rparr>
      in if r = LLFREE_ERR_OK
         then m\<lparr>pm_free_frames := pm_free_frames m + 2 ^ order, pm_free_total := pm_free_total m + 2 ^ order\<rparr> else m)"

definition pmm_free :: "nat \<Rightarrow> nat \<Rightarrow> pmm \<Rightarrow> pmm" where
  "pmm_free cpu phys m =
     (if phys = 0 then m
      else
        let idx = pmm_ref_index phys m in
        if idx < PMM_REF_MAX_FRAMES then
          let old = pm_refs m idx; m = m\<lparr>pm_refs := (pm_refs m)(idx := old - 1)\<rparr> in
          if old = 0 then m\<lparr>pm_refs := (pm_refs m)(idx := pm_refs m idx + 1)\<rparr>
          else if 1 < old then m
          else pmm_release 0 cpu phys m
        else pmm_release 0 cpu phys m)"

section \<open>Contiguous pages\<close>

text \<open>The shift of the loop variable loses its only bit when more than 2^63 pages are asked for; then the loop does not end.\<close>

partial_function (option) order_loop :: "u64 \<Rightarrow> u8 \<Rightarrow> u64 \<Rightarrow> u8 option" where
  "order_loop p order n = (if p < n then order_loop (push_bit 1 p) (order + 1) n else Some order)"

declare order_loop.simps [code]

definition order_for_pages :: "u64 \<Rightarrow> u8 option" where
  "order_for_pages n = (if n = 0 then Some 0 else order_loop 1 0 n)"

definition pmm_alloc_contiguous :: "nat \<Rightarrow> u64 \<Rightarrow> pmm \<Rightarrow> (nat \<times> pmm) option" where
  "pmm_alloc_contiguous cpu n m =
     (if n = 0 then Some (0, m)
      else if n = 1 then Some (pmm_alloc cpu m)
      else case order_for_pages n of
        None \<Rightarrow> None
      | Some order \<Rightarrow>
          let order = unat order in
          if LLFREE_MAX_ORDER < order then Some (0, m)
          else
            (case llfree_get None (cpu_request order cpu) (pm_llfree m) of
               (Err e, s) \<Rightarrow> Some (0, m\<lparr>pm_llfree := s\<rparr>)
             | (Got f c, s) \<Rightarrow>
                 let phys = (f + pm_first_frame m) * 2 ^ PAGE_SHIFT;
                     m = m\<lparr>pm_llfree := s, pm_free_frames := pm_free_frames m - 2 ^ order,
                           pm_alloc_total := pm_alloc_total m + 2 ^ order\<rparr>
                 in Some (phys, fold (\<lambda>i. pmm_ref_set (phys + i * PAGE_SIZE)) [0..<2 ^ order] m)))"

definition pmm_free_contiguous :: "nat \<Rightarrow> nat \<Rightarrow> u64 \<Rightarrow> pmm \<Rightarrow> pmm option" where
  "pmm_free_contiguous cpu phys n m =
     (if phys = 0 \<or> n = 0 then Some m
      else if n = 1 then Some (pmm_free cpu phys m)
      else case order_for_pages n of
        None \<Rightarrow> None
      | Some order \<Rightarrow>
          let order = unat order in
          if LLFREE_MAX_ORDER < order then Some m
          else
            Some (pmm_release order cpu phys
              (fold (\<lambda>i m. let idx = pmm_ref_index (phys + i * PAGE_SIZE) m in
                       if idx < PMM_REF_MAX_FRAMES then m\<lparr>pm_refs := (pm_refs m)(idx := 0)\<rparr> else m)
                 [0..<2 ^ order] m)))"

section \<open>Initialisation and the DMA reserve\<close>

text \<open>The loop that fills the pool of zeroed pages.\<close>

fun zpool_fill :: "nat \<Rightarrow> nat \<Rightarrow> pmm \<Rightarrow> pmm" where
  "zpool_fill cpu 0 m = m"
| "zpool_fill cpu (Suc k) m =
     (let (phys, m) = pmm_alloc cpu m in
      if phys = 0 then m
      else let m = zero_page phys m in zpool_fill cpu k (m\<lparr>pm_zpool := pm_zpool m @ [phys]\<rparr>))"

text \<open>\<open>None\<close> when the kernel halts.\<close>

definition pmm_init ::
    "nat \<Rightarrow> memmap_entry list \<Rightarrow> nat \<Rightarrow> bitfield list \<Rightarrow> child list \<Rightarrow> tree list \<Rightarrow> pmm \<Rightarrow> pmm option" where
  "pmm_init cpu mmap kernel_end_phys fs cs es m =
     (let (base, bytes) = reserve_dma32 mmap;
          m = m\<lparr>pm_total_frames := highest_frame mmap, pm_usable_pages := usable_pages mmap,
                pm_dma32 := \<lparr>dm_base = base, dm_bytes = bytes, dm_used = 0\<rparr>\<rparr> in
      case pmm_layout mmap kernel_end_phys of
        Layout meta_phys first managed \<Rightarrow>
          (let (r, s) = llfree_init managed LLFREE_INIT_FREE fs cs es (llfree_classing_simple MAX_CPUS) (pm_llfree m);
               m = m\<lparr>pm_llfree := s, pm_first_frame := first\<rparr>
           in if r \<noteq> LLFREE_ERR_OK then Some m
              else Some (zpool_fill cpu ZPOOL_SIZE (m\<lparr>pm_free_frames := of_nat managed, pm_refs := (\<lambda>_. 0), pm_zpool := []\<rparr>)))
      | TooSmall first \<Rightarrow> Some (m\<lparr>pm_first_frame := first\<rparr>)
      | NoRegion \<Rightarrow> Some m
      | Halt \<Rightarrow> None)"

definition pmm_dma32_reserve_alloc :: "nat \<Rightarrow> pmm \<Rightarrow> nat \<times> pmm" where
  "pmm_dma32_reserve_alloc pages m =
     (if pages = 0 \<or> DMA32_RESERVE_BYTES div PAGE_SIZE < pages then (0, m)
      else
        let bytes = pages * PAGE_SIZE; d = pm_dma32 m in
        if bytes \<le> dm_bytes d - dm_used d
        then (dm_base d + dm_used d, m\<lparr>pm_dma32 := d\<lparr>dm_used := dm_used d + bytes\<rparr>\<rparr>) else (0, m))"

section \<open>The order of a number of pages\<close>

lemma unat_pow2:
  assumes "j < 64"
  shows "unat ((2 :: u64) ^ j) = 2 ^ j"
proof -
  have "(2 :: nat) ^ j < 2 ^ 64" using assms by (intro power_strict_increasing) simp_all
  then have "unat (of_nat (2 ^ j) :: u64) = 2 ^ j" by (subst unat_of_nat) simp
  then show ?thesis by simp
qed

lemma order_loop_Some:
  assumes "j \<le> k" "k \<le> 63" "unat n \<le> 2 ^ k" "k = 0 \<or> 2 ^ (k - 1) < unat n"
  shows "order_loop (push_bit j 1) (of_nat j) n = Some (of_nat k)"
  using assms
proof (induction "k - j" arbitrary: j)
  case 0
  then have [simp]: "j = k" by simp
  have "unat (push_bit k (1 :: u64)) = 2 ^ k" using 0 by (simp add: unat_pow2)
  then have "\<not> push_bit k 1 < n" using 0 by (simp add: word_less_nat_alt)
  then show ?case by (subst order_loop.simps) simp
next
  case (Suc d)
  then have j: "j < k" by simp
  have "unat (push_bit j (1 :: u64)) = 2 ^ j" using Suc.prems j by (simp add: unat_pow2)
  moreover have "(2 :: nat) ^ j \<le> 2 ^ (k - 1)" using j by (intro power_increasing) simp_all
  ultimately have "unat (push_bit j (1 :: u64)) < unat n" using Suc.prems j by linarith
  then have "push_bit j 1 < n" by (simp only: word_less_nat_alt)
  moreover have "order_loop (push_bit (Suc j) 1) (of_nat (Suc j)) n = Some (of_nat k)"
    by (rule Suc.hyps(1)) (use Suc j in simp_all)
  ultimately show ?case by (subst order_loop.simps) (simp add: push_bit_push_bit ac_simps)
qed

lemma order_loop_0: "n \<noteq> 0 \<Longrightarrow> order_loop 0 r n = None"
proof (rule ccontr)
  assume n: "n \<noteq> 0" and "order_loop 0 r n \<noteq> None"
  then obtain y where "order_loop 0 r n = Some y" by blast
  moreover have "order_loop p r n = Some y \<Longrightarrow> p = 0 \<longrightarrow> n = 0" for p r y n
    by (rule order_loop.raw_induct [where P = "\<lambda>p r n y. p = 0 \<longrightarrow> n = 0"])
      (auto split: if_splits simp: word_greater_zero_iff)
  ultimately show False using n by blast
qed

lemma order_least: "0 < (n :: nat) \<Longrightarrow> n \<le> 2 ^ 63 \<Longrightarrow> \<exists>k \<le> 63. n \<le> 2 ^ k \<and> (k = 0 \<or> 2 ^ (k - 1) < n)"
proof -
  assume n: "0 < n" "n \<le> 2 ^ 63"
  define k where "k = (LEAST k. n \<le> 2 ^ k)"
  have "n \<le> 2 ^ k" "k \<le> 63" unfolding k_def using n(2) by (rule LeastI, rule Least_le)
  moreover have "\<not> n \<le> 2 ^ (k - 1)" if "k \<noteq> 0" using not_less_Least [of "k - 1" "\<lambda>k. n \<le> 2 ^ k"] that by (simp add: k_def)
  ultimately show ?thesis by (meson not_le)
qed

text \<open>The order is the least one whose block holds \<open>n\<close> pages, and the loop ends exactly up to 2^63 pages.\<close>

lemma order_for_pages_exact:
  assumes "n \<noteq> 0" "unat n \<le> 2 ^ 63"
  obtains k where "order_for_pages n = Some (of_nat k)" "k \<le> 63" "unat n \<le> 2 ^ k" "k = 0 \<or> 2 ^ (k - 1) < unat n"
proof -
  have "0 < unat n" using assms(1) by (simp add: unat_gt_0)
  from order_least [OF this assms(2)] obtain k where k: "k \<le> 63" "unat n \<le> 2 ^ k" "k = 0 \<or> 2 ^ (k - 1) < unat n" by blast
  from order_loop_Some [of 0, OF _ k] have "order_for_pages n = Some (of_nat k)" using assms(1) by (simp add: order_for_pages_def)
  then show ?thesis using that k by blast
qed

lemma order_for_pages_hangs:
  assumes "2 ^ 63 < unat n"
  shows "order_for_pages n = None"
proof -
  have step: "order_loop (push_bit j 1) (of_nat j) n = order_loop (push_bit 63 1) 63 n" if "j \<le> 63" for j
    using that
  proof (induction "63 - j" arbitrary: j)
    case (Suc d)
    have "unat (push_bit j (1 :: u64)) = 2 ^ j" using Suc.prems by (simp add: unat_pow2)
    moreover have "(2 :: nat) ^ j \<le> 2 ^ 63" using Suc.prems by (intro power_increasing) simp_all
    ultimately have "push_bit j 1 < n" using assms by (simp add: word_less_nat_alt)
    then have "order_loop (push_bit j 1) (of_nat j) n = order_loop (push_bit (Suc j) 1) (of_nat (Suc j)) n"
      by (subst order_loop.simps) (simp add: push_bit_push_bit ac_simps)
    then show ?case using Suc.hyps(1) [of "Suc j"] Suc by simp
  qed simp
  have "unat (push_bit 63 (1 :: u64)) = 2 ^ 63" by (simp add: unat_pow2)
  then have "push_bit 63 1 < n" using assms by (simp add: word_less_nat_alt)
  moreover have "push_bit 1 (push_bit 63 (1 :: u64)) = 0" by (simp add: push_bit_push_bit)
  moreover have "n \<noteq> 0" using assms by auto
  ultimately have "order_loop (push_bit 63 1) 63 n = None"
    by (subst order_loop.simps) (simp only: order_loop_0 if_True not_False_eq_True)
  then show ?thesis using step [of 0] \<open>n \<noteq> 0\<close> by (simp add: order_for_pages_def)
qed

section \<open>The layout of physical memory\<close>

lemma div_mult_4096: "(x :: nat) div 4096 * 4096 \<le> x \<and> x < x div 4096 * 4096 + 4096 \<and> x div 4096 * 4096 mod 4096 = 0"
  using div_mult_mod_eq [of x 4096] mod_less_divisor [of 4096 x] by simp

lemma PAGE_ALIGN_UP_ge:
  assumes "x + 4095 < 2 ^ 64"
  shows "x \<le> PAGE_ALIGN_UP x \<and> PAGE_ALIGN_UP x < x + 4096 \<and> PAGE_ALIGN_UP x mod 4096 = 0"
proof -
  have "PAGE_ALIGN_UP x = (x + 4095) div 4096 * 4096" using assms by (simp add: PAGE_ALIGN_UP_def PAGE_SIZE_def)
  then show ?thesis using div_mult_4096 [of "x + 4095"] by (intro conjI; (linarith | simp))
qed

lemma PAGE_ALIGN_DOWN_le: "PAGE_ALIGN_DOWN x \<le> x \<and> x < PAGE_ALIGN_DOWN x + 4096 \<and> PAGE_ALIGN_DOWN x mod 4096 = 0"
  unfolding PAGE_ALIGN_DOWN_def PAGE_SIZE_def by (rule div_mult_4096)

text \<open>The memory from \<open>b\<close> to \<open>t\<close> lies in one usable entry of the memory map.\<close>

definition within_usable :: "memmap_entry list \<Rightarrow> nat \<Rightarrow> nat \<Rightarrow> bool" where
  "within_usable mmap b t \<longleftrightarrow>
     (\<exists>e \<in> set mmap. me_usable e \<and> me_base e \<le> b \<and> t \<le> me_base e + me_length e \<and> me_base e + me_length e < 2 ^ 64)"

lemma within_usable_mono: "within_usable mmap b t \<Longrightarrow> b \<le> b' \<Longrightarrow> t' \<le> t \<Longrightarrow> within_usable mmap b' t'"
  unfolding within_usable_def by (meson order_trans)

definition apart :: "nat \<times> nat \<Rightarrow> nat \<Rightarrow> nat \<Rightarrow> bool" where
  "apart dma b t \<longleftrightarrow> snd dma = 0 \<or> t \<le> fst dma \<or> fst dma + snd dma \<le> b"

lemma dma_best_within:
  "dma_best mmap = (b, t) \<Longrightarrow> b < t \<Longrightarrow>
     within_usable mmap b t \<and> 0x100000 \<le> b \<and> t \<le> 0x100000000 \<and> t mod 4096 = 0"
proof -
  let ?P = "\<lambda>(b, t). b < t \<longrightarrow> within_usable mmap b t \<and> 0x100000 \<le> b \<and> t \<le> 0x100000000 \<and> t mod 4096 = 0"
  have "?P (dma_best mmap)"
    unfolding dma_best_def
  proof (rule fold_invariant [where Q = "\<lambda>e. e \<in> set mmap"])
    fix e s
    assume e: "e \<in> set mmap" and s: "?P s"
    obtain bs be where [simp]: "s = (bs, be)" by (cases s)
    let ?up = "PAGE_ALIGN_UP (me_base e)" and ?dn = "PAGE_ALIGN_DOWN (min (me_base e + me_length e) 0x100000000)"
    have "within_usable mmap (max ?up 0x100000) ?dn"
      if "me_usable e" "me_base e < 0x100000000" "me_length e \<le> UINT64_MAX - me_base e"
    proof -
      have "me_base e \<le> max ?up 0x100000" using PAGE_ALIGN_UP_ge [of "me_base e"] that(2) by (simp add: le_max_iff_disj)
      moreover have "?dn \<le> me_base e + me_length e" using PAGE_ALIGN_DOWN_le [of "min (me_base e + me_length e) 0x100000000"] by simp
      moreover have "me_base e + me_length e < 2 ^ 64" using that by (simp add: UINT64_MAX_def)
      ultimately show ?thesis using e that(1) unfolding within_usable_def by blast
    qed
    then show "?P ((\<lambda>e (best_start, best_end).
       if \<not> me_usable e \<or> 0x100000000 \<le> me_base e \<or> UINT64_MAX - me_base e < me_length e then (best_start, best_end)
       else
         let start = max (PAGE_ALIGN_UP (me_base e)) 0x100000;
             e' = PAGE_ALIGN_DOWN (min (me_base e + me_length e) 0x100000000)
         in if start < e' \<and> best_end - best_start < e' - start then (start, e') else (best_start, best_end)) e s)"
      using s PAGE_ALIGN_DOWN_le [of "min (me_base e + me_length e) 0x100000000"]
      by (simp add: Let_def not_less not_le)
  qed simp_all
  then show "dma_best mmap = (b, t) \<Longrightarrow> b < t \<Longrightarrow> ?thesis" by simp
qed

text \<open>The reserve for DMA is page aligned, above the first megabyte, below 4 GiB and in a usable entry.\<close>

lemma reserve_dma32_within:
  assumes "reserve_dma32 mmap = (b, n)" "n \<noteq> 0"
  shows "within_usable mmap b (b + n) \<and> 0x100000 \<le> b \<and> b + n \<le> 0x100000000 \<and> b mod 4096 = 0 \<and> n mod 4096 = 0"
proof -
  obtain s t where st: "dma_best mmap = (s, t)" by (cases "dma_best mmap")
  define k where "k = min (PAGE_ALIGN_DOWN ((t - s) div 2)) DMA32_RESERVE_BYTES"
  have k: "b = t - k" "n = k" using assms st by (auto simp: reserve_dma32_def k_def Let_def split: if_splits)
  have le: "k \<le> (t - s) div 2" using PAGE_ALIGN_DOWN_le [of "(t - s) div 2"] by (simp add: k_def min_le_iff_disj)
  then have lt: "s < t" using assms(2) k by (cases "s < t") simp_all
  note w = dma_best_within [OF st lt]
  have m: "k mod 4096 = 0"
    using PAGE_ALIGN_DOWN_le [of "(t - s) div 2"] by (simp add: k_def DMA32_RESERVE_BYTES_def min_def)
  moreover have "(t - k) mod 4096 = 0" using w m by (metis dvd_diff_nat mod_0_imp_dvd dvd_imp_mod_0)
  moreover have "s \<le> t - k" "t - k + k = t" using le lt by linarith+
  ultimately show ?thesis using w k within_usable_mono [of mmap s t "t - k" t] by auto
qed

text \<open>Ranges of the reserve are handed out in ascending order, each behind the last.\<close>

lemma dma32_alloc_fresh:
  assumes "pmm_dma32_reserve_alloc pages m = (phys, m')" "phys \<noteq> 0" "dm_used (pm_dma32 m) \<le> dm_bytes (pm_dma32 m)"
  shows "phys = dm_base (pm_dma32 m) + dm_used (pm_dma32 m)" "dm_used (pm_dma32 m') = dm_used (pm_dma32 m) + pages * PAGE_SIZE"
    "0 < pages" "dm_used (pm_dma32 m') \<le> dm_bytes (pm_dma32 m')" "dm_base (pm_dma32 m') = dm_base (pm_dma32 m)"
    "dm_bytes (pm_dma32 m') = dm_bytes (pm_dma32 m)"
  using assms by (auto simp: pmm_dma32_reserve_alloc_def Let_def split: if_splits)

lemma cut_dma_apart:
  assumes "cut_dma dma (b, t) = (b', t')" "b' < t'"
  shows "b \<le> b' \<and> t' \<le> t \<and> apart dma b' t' \<and> (t' = t \<or> t' = fst dma)"
  using assms unfolding cut_dma_def apart_def by (auto simp: Let_def split: prod.splits if_splits)

lemma find_region_ok:
  assumes "find_region dma mmap = (b, n)" "n \<noteq> 0" "fst dma mod 4096 = 0"
  shows "within_usable mmap b (b + n) \<and> apart dma b (b + n) \<and> (b + n) mod 4096 = 0"
proof -
  let ?P = "\<lambda>(b, n). n \<noteq> 0 \<longrightarrow> within_usable mmap b (b + n) \<and> apart dma b (b + n) \<and> (b + n) mod 4096 = 0"
  have "?P (find_region dma mmap)"
    unfolding find_region_def
  proof (rule fold_invariant [where Q = "\<lambda>e. e \<in> set mmap"])
    fix e s
    assume e: "e \<in> set mmap" and s: "?P s"
    obtain rb rl where [simp]: "s = (rb, rl)" by (cases s)
    let ?up = "PAGE_ALIGN_UP (me_base e)" and ?dn = "PAGE_ALIGN_DOWN (me_base e + me_length e)"
    obtain b t where bt: "cut_dma dma (?up, ?dn) = (b, t)" by (cases "cut_dma dma (?up, ?dn)")
    have "within_usable mmap b t \<and> apart dma b t \<and> t mod 4096 = 0"
      if "me_usable e" "me_length e \<le> UINT64_MAX - me_base e" "me_base e \<le> UINT64_MAX - PAGE_SIZE" "b < t"
    proof -
      have "me_base e \<le> ?up" using PAGE_ALIGN_UP_ge [of "me_base e"] that(3) by (simp add: UINT64_MAX_def PAGE_SIZE_def)
      moreover have "?dn \<le> me_base e + me_length e" using PAGE_ALIGN_DOWN_le [of "me_base e + me_length e"] by simp
      moreover have "me_base e + me_length e < 2 ^ 64" using that(2,3) by (simp add: UINT64_MAX_def PAGE_SIZE_def)
      ultimately have "within_usable mmap ?up ?dn" using e that(1) unfolding within_usable_def by blast
      then show ?thesis
        using cut_dma_apart [OF bt that(4)] within_usable_mono PAGE_ALIGN_DOWN_le assms(3) by metis
    qed
    then show "?P ((\<lambda>e (region_base, region_len).
       if \<not> me_usable e then (region_base, region_len)
       else if UINT64_MAX - me_base e < me_length e \<or> UINT64_MAX - PAGE_SIZE < me_base e then (region_base, region_len)
       else
         let (start, e') = cut_dma dma (PAGE_ALIGN_UP (me_base e), PAGE_ALIGN_DOWN (me_base e + me_length e))
         in if start < e' \<and> region_len < e' - start then (start, e' - start) else (region_base, region_len)) e s)"
      using s bt by (simp add: not_less)
  qed simp_all
  then show ?thesis using assms(1,2) by simp
qed

lemma highest_frame_ge:
  assumes "e \<in> set mmap" "me_usable e" "me_base e + me_length e < 2 ^ 64"
  shows "(me_base e + me_length e) div PAGE_SIZE \<le> highest_frame mmap"
proof -
  let ?f = "\<lambda>e highest. if me_usable e then max highest ((me_base e + me_length e) mod 2 ^ 64) else highest"
  have mono: "x \<le> fold ?f es x" for es and x :: nat
  proof (induction es arbitrary: x)
    case (Cons a es)
    have "x \<le> ?f a x" by simp
    also have "\<dots> \<le> fold ?f es (?f a x)" by (rule Cons.IH)
    finally show ?case by (simp only: fold_simps)
  qed simp
  have "me_base e + me_length e \<le> fold ?f mmap x" for x using assms(1)
  proof (induction mmap arbitrary: x)
    case (Cons a es)
    then show ?case using mono [of "?f a x" es] assms(2,3) by (auto simp del: max_less_iff_conj)
  qed simp
  then show ?thesis unfolding highest_frame_def by (intro div_le_mono) simp
qed

lemma align_up_mono: "0 < k \<Longrightarrow> a \<le> b \<Longrightarrow> align_up a k \<le> align_up b k"
  unfolding align_up_def align_down_def minus_mod_eq_div_mult by (intro mult_right_mono div_le_mono) simp_all

lemma div_ceil_mono: "a \<le> b \<Longrightarrow> div_ceil a k \<le> div_ceil b k"
  unfolding div_ceil_def by (intro div_le_mono) simp

text \<open>The metadata that LLFree needs for \<open>n\<close> frames.\<close>

definition metadata_size :: "nat \<Rightarrow> nat" where
  "metadata_size n = ll_local_size (llfree_classing_simple MAX_CPUS) + trees_metadata_size n + lower_metadata_size n"

lemma metadata_size_mono: "a \<le> b \<Longrightarrow> metadata_size a \<le> metadata_size b"
  unfolding metadata_size_def trees_metadata_size_def lower_metadata_size_def Let_def
  by (intro add_mono mult_mono align_up_mono div_ceil_mono) simp_all

lemma metadata_size_pos: "0 < metadata_size n"
  by (simp add: metadata_size_def ll_local_size_def align_up_def align_down_def)

text \<open>What follows from the choice of the memory to manage.\<close>

lemma pmm_layout_cases:
  assumes "pmm_layout mmap kend = Layout meta first n"
  obtains rb rl where "find_region (reserve_dma32 mmap) mmap = (rb, rl)" "rb \<noteq> 0"
    "meta = (if rb \<le> kend \<and> kend < rb + rl then PAGE_ALIGN_UP kend else rb)" "meta \<le> rb + rl"
    "metadata_size (highest_frame mmap) + 513 * 4096 \<le> rb + rl - meta"
    "first = (meta + metadata_size (highest_frame mmap) + 4095) div 4096" "n = (rb + rl) div 4096 - first" "512 \<le> n"
proof -
  obtain rb rl where "find_region (reserve_dma32 mmap) mmap = (rb, rl)" by fastforce
  note f = this
  define M where "M = metadata_size (highest_frame mmap)"
  define mp where "mp = (if rb \<le> kend \<and> kend < rb + rl then PAGE_ALIGN_UP kend else rb)"
  have *: "rb \<noteq> 0 \<and> \<not> rb + rl < mp \<and> \<not> rb + rl - mp < M \<and> \<not> rb + rl - mp - M < 513 * 4096 \<and>
      \<not> (rb + rl) div 4096 - (mp + M + 4096 - 1) div 4096 < 512 \<and> meta = mp \<and>
      first = (mp + M + 4096 - 1) div 4096 \<and> n = (rb + rl) div 4096 - (mp + M + 4096 - 1) div 4096"
    using assms f unfolding pmm_layout_def Let_def PAGE_SIZE_def metadata_size_def [symmetric] f split
      mp_def [symmetric] M_def [symmetric]
    by (simp only: split: if_splits layout.splits) auto
  then have "M + 513 * 4096 \<le> rb + rl - mp" by linarith
  then show ?thesis
    by (intro that [OF f]) (use * in \<open>simp_all add: mp_def [symmetric] M_def [symmetric]\<close>)
qed

lemma pmm_layout_ok:
  assumes "pmm_layout mmap kend = Layout meta first n"
  shows "within_usable mmap meta ((first + n) * 4096)" "apart (reserve_dma32 mmap) meta ((first + n) * 4096)"
    "meta + metadata_size n \<le> first * 4096" "512 \<le> n" "0 < first" "(first + n) * 4096 < 2 ^ 64"
    "\<not> (meta < kend \<and> kend < (first + n) * 4096)"
proof -
  obtain rb rl where r: "find_region (reserve_dma32 mmap) mmap = (rb, rl)" "rb \<noteq> 0"
    "meta = (if rb \<le> kend \<and> kend < rb + rl then PAGE_ALIGN_UP kend else rb)" "meta \<le> rb + rl"
    "metadata_size (highest_frame mmap) + 513 * 4096 \<le> rb + rl - meta"
    "first = (meta + metadata_size (highest_frame mmap) + 4095) div 4096" "n = (rb + rl) div 4096 - first" "512 \<le> n"
    by (rule pmm_layout_cases [OF assms])
  have rl: "rl \<noteq> 0" using r(3,5) by (cases "rl = 0") (simp_all split: if_splits)
  obtain db dn where d: "reserve_dma32 mmap = (db, dn)" by fastforce
  have "fst (reserve_dma32 mmap) mod 4096 = 0"
  proof (cases "dn = 0")
    case True
    then have "db = 0 \<or> db mod 4096 = 0" using d unfolding reserve_dma32_def PAGE_SIZE_def by (auto simp: Let_def split: prod.splits if_splits)
    then show ?thesis using d by auto
  next
    case False
    then show ?thesis using reserve_dma32_within [OF d] d by simp
  qed
  note reg = find_region_ok [OF r(1) rl this]
  have top: "(first + n) * 4096 = rb + rl"
  proof -
    have "(rb + rl) div 4096 * 4096 = rb + rl" using reg by (metis mod_0_imp_dvd dvd_div_mult_self)
    moreover have "first + n = (rb + rl) div 4096" using r(7,8) by simp
    ultimately show ?thesis by simp
  qed
  have lt: "rb + rl < 2 ^ 64" using reg unfolding within_usable_def by (auto intro: le_less_trans)
  have up: "kend \<le> PAGE_ALIGN_UP kend" if "kend < rb + rl"
  proof -
    obtain q where "rb + rl = 4096 * q" using reg by (auto elim: dvdE simp: mod_eq_0_iff_dvd)
    then have "rb + rl + 4096 \<le> 2 ^ 64" using lt by simp
    then show ?thesis using PAGE_ALIGN_UP_ge [of kend] that by simp
  qed
  have meta: "rb \<le> meta" using r(3) up by (auto split: if_splits)
  show "within_usable mmap meta ((first + n) * 4096)" using reg meta unfolding top by (auto intro: within_usable_mono)
  show "apart (reserve_dma32 mmap) meta ((first + n) * 4096)" using reg meta unfolding top apart_def by auto
  show "(first + n) * 4096 < 2 ^ 64" using lt top by simp
  show "\<not> (meta < kend \<and> kend < (first + n) * 4096)" using r(3) up meta unfolding top by auto
  show "512 \<le> n" by (rule r(8))
  show "0 < first" using r(2,6) meta by (simp add: div_greater_zero_iff)
  have "(rb + rl) div 4096 \<le> highest_frame mmap"
  proof -
    from reg obtain e where e: "e \<in> set mmap" "me_usable e" "rb + rl \<le> me_base e + me_length e" "me_base e + me_length e < 2 ^ 64"
      unfolding within_usable_def by blast
    have "(rb + rl) div 4096 \<le> (me_base e + me_length e) div 4096" using e(3) by (rule div_le_mono)
    also have "\<dots> \<le> highest_frame mmap" using highest_frame_ge [OF e(1,2,4)] by (simp add: PAGE_SIZE_def)
    finally show ?thesis .
  qed
  then have "metadata_size n \<le> metadata_size (highest_frame mmap)" using r(7) by (intro metadata_size_mono) simp
  moreover have "meta + metadata_size (highest_frame mmap) \<le> first * 4096" unfolding r(6) by simp
  ultimately show "meta + metadata_size n \<le> first * 4096" by simp
qed

text \<open>
  C22: The layout that the physical memory manager chooses is sound, whatever memory map the boot loader reports. The
  metadata and the managed frames lie in one usable entry, the metadata buffers are large enough for the managed
  frames and end below the first of them, the kernel image does not reach into them when it ends in the region, and
  the reserve for DMA lies in a usable entry below 4 GiB and shares no byte with them.
\<close>

theorem pmm_layout_sound:
  assumes "pmm_layout mmap kend = Layout meta first n"
  shows "within_usable mmap meta ((first + n) * PAGE_SIZE) \<and>
    meta + ll_local_size (llfree_classing_simple MAX_CPUS) + trees_metadata_size n + lower_metadata_size n \<le> first * PAGE_SIZE \<and>
    MIN_PAGES \<le> n \<and> (first + n) * PAGE_SIZE < 2 ^ 64 \<and> \<not> (meta < kend \<and> kend < (first + n) * PAGE_SIZE) \<and>
    (case reserve_dma32 mmap of (base, bytes) \<Rightarrow> bytes = 0 \<or>
       within_usable mmap base (base + bytes) \<and> base + bytes \<le> 2 ^ 32 \<and>
       {base..<base + bytes} \<inter> {meta..<(first + n) * PAGE_SIZE} = {})"
proof -
  note l = pmm_layout_ok [OF assms]
  obtain b k where d: "reserve_dma32 mmap = (b, k)" by fastforce
  have "{b..<b + k} \<inter> {meta..<(first + n) * 4096} = {}" if "k \<noteq> 0" using l(2) that by (auto simp: d apart_def)
  then show ?thesis
    using l reserve_dma32_within [OF d] by (auto simp: d PAGE_SIZE_def MIN_PAGES_def lower_consts metadata_size_def)
qed

text \<open>A machine with 32 MiB of memory from the first megabyte on, and a kernel image that ends at 4 MiB.\<close>

definition small_map :: "memmap_entry list" where
  "small_map = [\<lparr>me_base = 0x100000, me_length = 0x2000000, me_usable = True\<rparr>]"

lemma small_map_layout: "pmm_layout small_map 0x400000 = Layout 0x400000 0x401 6655" "reserve_dma32 small_map = (0x1e00000, 0x300000)"
  by (simp_all add: pmm_layout_def small_map_def find_region_def reserve_dma32_def dma_best_def cut_dma_def highest_frame_def
      PAGE_ALIGN_UP_def PAGE_ALIGN_DOWN_def pmm_consts ll_local_size_def trees_metadata_size_def lower_metadata_size_def
      llfree_classing_simple_def align_up_def align_down_def div_ceil_def lower_consts Let_def)

theorem pmm_layout_sound_witness:
  "pmm_layout small_map 0x400000 = Layout 0x400000 0x401 6655 \<and> within_usable small_map 0x400000 0x1e00000 \<and>
     {0x1e00000..<0x2100000} \<inter> {0x400000..<0x1e00000::nat} = {}"
  using pmm_layout_sound [OF small_map_layout(1)] small_map_layout by (simp add: PAGE_SIZE_def)

section \<open>Pages and their references\<close>

text \<open>The frame allocator with blocks \<open>own\<close> in use, and a slot of class 0 for every processor.\<close>

definition frames_inv :: "nat \<Rightarrow> llfree \<Rightarrow> (nat \<times> nat) list \<Rightarrow> bool" where
  "frames_inv n s own \<longleftrightarrow> lf_inv n (s, own) \<and> ll_local_class_locals 0 (lf_local s) = Some MAX_CPUS"

lemma cpu_request_simps [simp]: "rq_order (cpu_request order cpu) = order" "rq_class (cpu_request order cpu) = 0"
    "rq_local (cpu_request order cpu) = Some cpu"
  by (simp_all add: cpu_request_def)

lemma sim_class_locals: "sim s s' \<Longrightarrow> shape_ok s \<Longrightarrow> ll_local_class_locals c (lf_local s') = ll_local_class_locals c (lf_local s)"
  using locals_shape [of "lf_local s" "lf_local s'" c] by (simp add: sim_def shape_ok_def)

lemma frames_inv_get:
  assumes inv: "frames_inv n s own" and order: "order \<le> 9" and get: "llfree_get None (cpu_request order cpu) s = (res, s')"
  shows "frames_inv n s' (case res of Got f c \<Rightarrow> (f, order) # own | Err e \<Rightarrow> own)"
proof -
  have i: "lf_inv n (s, own)" and a: "acct (\<lambda>_. 0) {} s" using inv by (simp_all add: frames_inv_def)
  have "lf_inv n (s', case res of Got f c \<Rightarrow> (f, order) # own | Err e \<Rightarrow> own)"
    using lf_inv_get [OF i _ get] order by (cases res) (simp_all del: lf_inv.simps)
  moreover have "ll_local_class_locals 0 (lf_local s') = ll_local_class_locals 0 (lf_local s)"
  proof (cases "validate_request (cpu_request order cpu) None s")
    case True
    have "outcome order (\<lambda>_. 0) {} s (res, s')"
      using llfree_get_outcome [OF a True] order get by (simp del: outcome.simps)
    then have "sim s s'" by simp
    then show ?thesis by (rule sim_class_locals) (rule acct_shape [OF a])
  next
    case False
    then show ?thesis using get by (auto simp: llfree_get_def)
  qed
  ultimately show ?thesis using inv by (simp add: frames_inv_def)
qed

lemma frames_inv_own:
  assumes "frames_inv n s own" "(f, k) \<in> set own"
  shows "f + 2 ^ k \<le> n" "2 ^ k dvd f" "k \<le> 9" "blk (f, k) \<inter> free_set (lf_lower s) = {}"
    "b \<in> set own \<Longrightarrow> b \<noteq> (f, k) \<Longrightarrow> blk b \<inter> blk (f, k) = {}"
proof -
  have "own_ok (lf_lower s) (f, k)" "lo_frames (lf_lower s) = n" using assms by (auto simp: frames_inv_def)
  then show "f + 2 ^ k \<le> n" "2 ^ k dvd f" "k \<le> 9" "blk (f, k) \<inter> free_set (lf_lower s) = {}" by (simp_all add: own_ok_def)
  show "blk b \<inter> blk (f, k) = {}" if "b \<in> set own" "b \<noteq> (f, k)" using assms that by (simp add: frames_inv_def)
qed

lemma frames_inv_distinct: "frames_inv n s own \<Longrightarrow> distinct own"
  by (simp add: frames_inv_def)

lemma frames_inv_put:
  assumes inv: "frames_inv n s own" and own: "(f, order) \<in> set own" and cpu: "cpu < MAX_CPUS"
    and put: "llfree_put f (cpu_request order cpu) s = (e, s')"
  shows "e = LLFREE_ERR_OK" "frames_inv n s' (remove1 (f, order) own)"
proof -
  have i: "lf_inv n (s, own)" and a: "acct (\<lambda>_. 0) {} s" using inv by (simp_all add: frames_inv_def)
  note o = frames_inv_own(1-3) [OF inv own]
  have n: "lo_frames (lf_lower s) = n" using i by simp
  have ok: "own_ok (lf_lower s) (f, order)" using i own by auto
  have v: "validate_request (cpu_request order cpu) (Some f) s"
    using inv cpu o n by (auto simp: validate_request_def frames_inv_def LLFREE_TREE_ORDER_def)
  have ok': "own_ok (lf_lower s) (f, rq_order (cpu_request order cpu))" using ok by simp
  show e: "e = LLFREE_ERR_OK" using lf_inv_put(2) [OF i _ put v] own by simp
  have "lf_inv n (s', remove1 (f, order) own)" using lf_inv_put(1) [OF i _ put] own e by (simp del: lf_inv.simps)
  moreover have "sim s s'" using put_outcome [OF a ok' v put] by simp
  then have "ll_local_class_locals 0 (lf_local s') = ll_local_class_locals 0 (lf_local s)"
    by (rule sim_class_locals) (rule acct_shape [OF a])
  ultimately show "frames_inv n s' (remove1 (f, order) own)" using inv by (simp add: frames_inv_def del: lf_inv.simps)
qed

text \<open>The frames outside the blocks in use are free.\<close>

lemma frames_inv_free:
  assumes "frames_inv n s own"
  shows "free_set (lf_lower s) = {0..<n} - \<Union> (blk ` set own)"
proof -
  have "free_set (lf_lower s) \<union> \<Union> (blk ` set own) = {0..<n}" "\<And>b. b \<in> set own \<Longrightarrow> blk b \<inter> free_set (lf_lower s) = {}"
    using assms by (simp_all add: frames_inv_def own_ok_def)
  then show ?thesis by blast
qed

text \<open>
  Page \<open>i\<close> is the \<open>i\<close>th managed page. \<open>cnt i\<close> is the number of references to it that are handed out, \<open>big\<close> the blocks
  of several pages that are handed out.
\<close>

definition page_addr :: "pmm \<Rightarrow> nat \<Rightarrow> nat" where
  "page_addr m i = (i + pm_first_frame m) * 4096"

definition pooled :: "pmm \<Rightarrow> nat \<Rightarrow> bool" where
  "pooled m i \<longleftrightarrow> page_addr m i \<in> set (pm_zpool m)"

definition in_blocks :: "(nat \<times> nat) list \<Rightarrow> nat \<Rightarrow> bool" where
  "in_blocks big i \<longleftrightarrow> (\<exists>b \<in> set big. i \<in> blk b)"

definition pages_inv :: "nat \<Rightarrow> (nat \<times> nat) list \<Rightarrow> pmm \<Rightarrow> (nat \<Rightarrow> nat) \<Rightarrow> (nat \<times> nat) list \<Rightarrow> bool" where
  "pages_inv n own m cnt big \<longleftrightarrow>
     frames_inv n (pm_llfree m) own \<and> n \<le> 2 ^ 32 \<and> 0 < pm_first_frame m \<and> pm_first_frame m + n \<le> 2 ^ 52 \<and>
     (\<forall>b. b \<in> set own \<longleftrightarrow> snd b = 0 \<and> (0 < cnt (fst b) \<or> pooled m (fst b)) \<or> b \<in> set big) \<and>
     (\<forall>b \<in> set big. 0 < snd b) \<and> distinct (pm_zpool m) \<and> (\<forall>i. pooled m i \<longrightarrow> cnt i = 0) \<and>
     (\<forall>p \<in> set (pm_zpool m). (\<exists>i. p = page_addr m i) \<and> pm_mem m (p div 4096) = (\<lambda>_. 0)) \<and>
     (\<forall>i < n. i < 2 ^ 22 \<longrightarrow> unat (pm_refs m i) = cnt i + of_bool (pooled m i) + of_bool (in_blocks big i)) \<and>
     (\<forall>i. 2 ^ 22 \<le> i \<longrightarrow> cnt i \<le> 1)"

lemma page_addr_inj [simp]: "page_addr m i = page_addr m j \<longleftrightarrow> i = j"
  by (simp add: page_addr_def)

lemma page_addr_div [simp]: "page_addr m i div 4096 = i + pm_first_frame m" "page_addr m i div 2 ^ PAGE_SHIFT = i + pm_first_frame m"
  by (simp_all add: page_addr_def PAGE_SHIFT_def)

lemma page_addr_cong: "pm_first_frame m' = pm_first_frame m \<Longrightarrow> page_addr m' = page_addr m"
  by (simp add: page_addr_def fun_eq_iff)

lemma page_addr_updates [simp]:
  "page_addr (m\<lparr>pm_llfree := s\<rparr>) = page_addr m" "page_addr (m\<lparr>pm_refs := r\<rparr>) = page_addr m"
  "page_addr (m\<lparr>pm_zpool := z\<rparr>) = page_addr m" "page_addr (m\<lparr>pm_free_frames := c\<rparr>) = page_addr m"
  "page_addr (m\<lparr>pm_alloc_total := c\<rparr>) = page_addr m" "page_addr (m\<lparr>pm_free_total := c\<rparr>) = page_addr m"
  "page_addr (m\<lparr>pm_mem := mem\<rparr>) = page_addr m" "page_addr (m\<lparr>pm_dma32 := d\<rparr>) = page_addr m"
  by (simp_all add: page_addr_def fun_eq_iff)

lemma pooled_updates [simp]:
  "pooled (m\<lparr>pm_llfree := s\<rparr>) = pooled m" "pooled (m\<lparr>pm_refs := r\<rparr>) = pooled m"
  "pooled (m\<lparr>pm_free_frames := c\<rparr>) = pooled m" "pooled (m\<lparr>pm_alloc_total := c\<rparr>) = pooled m"
  "pooled (m\<lparr>pm_free_total := c\<rparr>) = pooled m" "pooled (m\<lparr>pm_mem := mem\<rparr>) = pooled m" "pooled (m\<lparr>pm_dma32 := d\<rparr>) = pooled m"
  "pooled (m\<lparr>pm_zpool := z\<rparr>) i \<longleftrightarrow> page_addr m i \<in> set z"
  by (simp_all add: pooled_def fun_eq_iff)

lemma pages_inv_counters [simp]:
  "pages_inv n own (m\<lparr>pm_free_frames := c\<rparr>) cnt big = pages_inv n own m cnt big"
  "pages_inv n own (m\<lparr>pm_alloc_total := c\<rparr>) cnt big = pages_inv n own m cnt big"
  "pages_inv n own (m\<lparr>pm_free_total := c\<rparr>) cnt big = pages_inv n own m cnt big"
  "pages_inv n own (m\<lparr>pm_dma32 := d\<rparr>) cnt big = pages_inv n own m cnt big"
  by (simp_all add: pages_inv_def)

lemma ref_index_page:
  assumes "i < 2 ^ 32"
  shows "pmm_ref_index (page_addr m i) m = i"
  using assms by (simp add: pmm_ref_index_def)

lemma blk_single [simp]: "blk (i, 0) = {i}"
  by (auto simp: blk_def block_def)

lemma pages_invD:
  assumes "pages_inv n own m cnt big"
  shows "frames_inv n (pm_llfree m) own" "n \<le> 2 ^ 32" "0 < pm_first_frame m" "pm_first_frame m + n \<le> 2 ^ 52"
    "\<And>b. b \<in> set own \<longleftrightarrow> snd b = 0 \<and> (0 < cnt (fst b) \<or> pooled m (fst b)) \<or> b \<in> set big"
    "\<And>b. b \<in> set big \<Longrightarrow> 0 < snd b" "distinct (pm_zpool m)" "\<And>i. pooled m i \<Longrightarrow> cnt i = 0"
    "\<And>p. p \<in> set (pm_zpool m) \<Longrightarrow> \<exists>i. p = page_addr m i" "\<And>p. p \<in> set (pm_zpool m) \<Longrightarrow> pm_mem m (p div 4096) = (\<lambda>_. 0)"
    "\<And>i. i < n \<Longrightarrow> i < 2 ^ 22 \<Longrightarrow> unat (pm_refs m i) = cnt i + of_bool (pooled m i) + of_bool (in_blocks big i)"
    "\<And>i. 2 ^ 22 \<le> i \<Longrightarrow> cnt i \<le> 1"
  using assms unfolding pages_inv_def by (blast | simp)+

text \<open>A page that is referenced or pooled lies in no block, and conversely.\<close>

lemma used_page:
  assumes inv: "pages_inv n own m cnt big" and i: "0 < cnt i \<or> pooled m i"
  shows "i < n" "i < 2 ^ 32" "\<not> in_blocks big i" "(i, 0) \<in> set own"
proof -
  show own: "(i, 0) \<in> set own" using pages_invD(5) [OF inv, of "(i, 0)"] i by simp
  note f = frames_inv_own [OF pages_invD(1) [OF inv] own]
  show "i < n" "i < 2 ^ 32" using f(1) pages_invD(2) [OF inv] by simp_all
  show "\<not> in_blocks big i"
  proof
    assume "in_blocks big i"
    then obtain b where b: "b \<in> set big" "i \<in> blk b" by (auto simp: in_blocks_def)
    then have "b \<noteq> (i, 0)" using pages_invD(6) [OF inv, of b] by auto
    then show False using f(5) [of b] b pages_invD(5) [OF inv, of b] by auto
  qed
qed

lemma block_page:
  assumes inv: "pages_inv n own m cnt big" and i: "in_blocks big i"
  shows "i < n" "cnt i = 0" "\<not> pooled m i"
proof -
  have "\<not> (0 < cnt i \<or> pooled m i)" using used_page(3) [OF inv, of i] i by blast
  then show "cnt i = 0" "\<not> pooled m i" by simp_all
  obtain b where b: "b \<in> set big" "i \<in> blk b" using i by (auto simp: in_blocks_def)
  then have "(fst b, snd b) \<in> set own" using pages_invD(5) [OF inv, of b] by simp
  from frames_inv_own(1) [OF pages_invD(1) [OF inv] this] b(2) show "i < n" by (simp add: blk_def block_def)
qed

text \<open>The frame that LLFree hands out is used by nobody.\<close>

lemma fresh_block:
  assumes inv: "pages_inv n own m cnt big" and new: "frames_inv n s ((f, k) # own)" and i: "i \<in> blk (f, k)"
  shows "i < n" "i < 2 ^ 32" "cnt i = 0" "\<not> pooled m i" "\<not> in_blocks big i"
proof -
  note o = frames_inv_own [OF new, of f k, simplified]
  have nin: "(f, k) \<notin> set own" using frames_inv_distinct [OF new] by simp
  have dis: "i \<notin> blk b" if "b \<in> set own" for b using o(5) [of b] nin i that by auto
  show "i < n" "i < 2 ^ 32" using o(1) i pages_invD(2) [OF inv] by (auto simp: blk_def block_def)
  have "\<not> (0 < cnt i \<or> pooled m i)" using dis [of "(i, 0)"] used_page(4) [OF inv, of i] unfolding blk_single by blast
  then show "cnt i = 0" "\<not> pooled m i" by simp_all
  show "\<not> in_blocks big i" using dis pages_invD(5) [OF inv] by (auto simp: in_blocks_def)
qed

section \<open>What the operations on pages keep\<close>

lemma ref_set_page:
  "i < 2 ^ 32 \<Longrightarrow> pmm_ref_set (page_addr m i) m =
     (if i < 2 ^ 22 then m\<lparr>pm_refs := (pm_refs m)(i := 1)\<rparr> else m)"
  by (simp add: pmm_ref_set_def ref_index_page PMM_REF_MAX_FRAMES_def)

lemma pages_inv_alloc:
  assumes inv: "pages_inv n own m cnt big" and alloc: "pmm_alloc cpu m = (phys, m')"
  obtains (none) "phys = 0" "pages_inv n own m' cnt big" "pm_zpool m' = pm_zpool m" "pm_first_frame m' = pm_first_frame m"
  | (page) f where "phys = page_addr m f" "f < n" "cnt f = 0" "\<not> pooled m f" "\<not> in_blocks big f"
      "pages_inv n ((f, 0) # own) m' (cnt(f := 1)) big" "pm_zpool m' = pm_zpool m" "pm_first_frame m' = pm_first_frame m"
proof -
  obtain res s where get: "llfree_get None (cpu_request 0 cpu) (pm_llfree m) = (res, s)" by fastforce
  note i = frames_inv_get [OF pages_invD(1) [OF inv] _ get]
  show thesis
  proof (cases res)
    case (Err e)
    then have "frames_inv n s own" using i by simp
    then show ?thesis using none inv alloc get Err by (auto simp: pmm_alloc_def pages_inv_def)
  next
    case (Got f c)
    then have new: "frames_inv n s ((f, 0) # own)" using i by simp
    note fr = fresh_block [OF inv new, of f, simplified]
    have phys: "phys = page_addr m f" using alloc get Got by (auto simp: pmm_alloc_def page_addr_def PAGE_SHIFT_def Let_def)
    define m1 where "m1 = m\<lparr>pm_llfree := s, pm_free_frames := pm_free_frames m - 1, pm_alloc_total := pm_alloc_total m + 1\<rparr>"
    have m1: "page_addr m1 = page_addr m" "pm_refs m1 = pm_refs m" by (simp_all add: m1_def)
    have m': "m' = (if f < 2 ^ 22 then m1\<lparr>pm_refs := (pm_refs m)(f := 1)\<rparr> else m1)"
      using alloc get Got ref_set_page [of f m1] fr(2)
      by (auto simp: pmm_alloc_def page_addr_def PAGE_SHIFT_def m1_def Let_def)
    have own: "b \<in> set ((f, 0) # own) \<longleftrightarrow> snd b = 0 \<and> (0 < (cnt(f := 1)) (fst b) \<or> pooled m (fst b)) \<or> b \<in> set big" for b
      using pages_invD(5) [OF inv, of b] by (cases b) auto
    have "pages_inv n ((f, 0) # own) m' (cnt(f := 1)) big"
      unfolding pages_inv_def m' m1_def using inv new own fr
      by (auto simp: pages_inv_def)
    then show ?thesis using page phys fr m' by (auto simp: m1_def)
  qed
qed

lemma pages_inv_write:
  assumes inv: "pages_inv n own m cnt big" and i: "0 < cnt i \<or> in_blocks big i"
  shows "pages_inv n own (m\<lparr>pm_mem := (pm_mem m)(i + pm_first_frame m := pg)\<rparr>) cnt big"
proof -
  have "p div 4096 \<noteq> i + pm_first_frame m" if p: "p \<in> set (pm_zpool m)" for p
  proof
    assume eq: "p div 4096 = i + pm_first_frame m"
    obtain j where "p = page_addr m j" using pages_invD(9) [OF inv p] by blast
    with eq p have "pooled m i" by (simp add: pooled_def)
    then show False using pages_invD(8) [OF inv, of i] block_page(3) [OF inv, of i] i by auto
  qed
  then show ?thesis using inv by (simp add: pages_inv_def)
qed

lemma zero_page_eq: "zero_page (page_addr m i) m = m\<lparr>pm_mem := (pm_mem m)(i + pm_first_frame m := (\<lambda>_. 0))\<rparr>"
  by (simp add: zero_page_def PAGE_SIZE_def)

text \<open>Moving a page into the pool and out of it.\<close>

lemma pages_inv_push:
  assumes inv: "pages_inv n own m cnt big" and f: "cnt f = 1" "pm_mem m (f + pm_first_frame m) = (\<lambda>_. 0)"
  shows "pages_inv n own (m\<lparr>pm_zpool := pm_zpool m @ [page_addr m f]\<rparr>) (cnt(f := 0)) big"
proof -
  have np: "page_addr m f \<notin> set (pm_zpool m)" using pages_invD(8) [OF inv, of f] f(1) by (auto simp: pooled_def)
  have own: "b \<in> set own \<longleftrightarrow> snd b = 0 \<and> (0 < (cnt(f := 0)) (fst b) \<or> page_addr m (fst b) \<in> set (pm_zpool m @ [page_addr m f])) \<or> b \<in> set big" for b
    using pages_invD(5) [OF inv, of b] f(1) by (auto simp: pooled_def)
  show ?thesis unfolding pages_inv_def using inv own np f by (auto simp: pages_inv_def pooled_def)
qed

lemma pages_inv_pop:
  assumes inv: "pages_inv n own m cnt big" and z: "pm_zpool m = z @ [page_addr m f]"
  shows "pages_inv n own (m\<lparr>pm_zpool := z\<rparr>) (cnt(f := 1)) big" "cnt f = 0" "f < n"
    "pm_mem m (f + pm_first_frame m) = (\<lambda>_. 0)" "f < 2 ^ 22 \<Longrightarrow> pm_refs m f = 1"
proof -
  have pf: "pooled m f" by (simp add: pooled_def z)
  note u = used_page [OF inv, of f]
  show c: "cnt f = 0" "f < n" using pf u pages_invD(8) [OF inv, of f] by auto
  show mem: "pm_mem m (f + pm_first_frame m) = (\<lambda>_. 0)" using pages_invD(10) [OF inv, of "page_addr m f"] z by simp
  have "unat (pm_refs m f) = 1" if "f < 2 ^ 22" using pages_invD(11) [OF inv c(2) that] c pf u(3) by simp
  then show "f < 2 ^ 22 \<Longrightarrow> pm_refs m f = 1" by (simp add: word_unat_eq_iff)
  have own: "b \<in> set own \<longleftrightarrow> snd b = 0 \<and> (0 < (cnt(f := 1)) (fst b) \<or> page_addr m (fst b) \<in> set z) \<or> b \<in> set big" for b
    using pages_invD(5) [OF inv, of b] pf by (auto simp: pooled_def z)
  show "pages_inv n own (m\<lparr>pm_zpool := z\<rparr>) (cnt(f := 1)) big"
    unfolding pages_inv_def using inv own c pf z by (auto simp: pages_inv_def pooled_def)
qed

lemma pages_inv_alloc_zeroed:
  assumes inv: "pages_inv n own m cnt big" and alloc: "pmm_alloc_zeroed cpu m = (phys, m')"
  obtains (none) "phys = 0" "pages_inv n own m' cnt big"
  | (page) f own' where "phys = page_addr m f" "f < n" "cnt f = 0" "\<not> in_blocks big f"
      "pages_inv n own' m' (cnt(f := 1)) big" "pm_first_frame m' = pm_first_frame m" "pm_mem m' (phys div 4096) = (\<lambda>_. 0)"
proof (cases "pm_zpool m = []")
  case True
  obtain phys1 m1 where a: "pmm_alloc cpu m = (phys1, m1)" by fastforce
  from inv a show thesis
  proof (cases rule: pages_inv_alloc)
    case none
    then show ?thesis using that(1) alloc a True by (auto simp: pmm_alloc_zeroed_def)
  next
    case (page f)
    have addr: "page_addr m f = page_addr m1 f" using page(8) by (simp add: page_addr_def)
    have "0 < page_addr m f" using pages_invD(3) [OF inv] by (simp add: page_addr_def)
    then have m': "phys = page_addr m f" "m' = zero_page (page_addr m1 f) m1"
      using alloc a True page(1) addr by (auto simp: pmm_alloc_zeroed_def)
    have "pages_inv n ((f, 0) # own) m' (cnt(f := 1)) big"
      unfolding m' zero_page_eq by (rule pages_inv_write [OF page(6)]) simp
    moreover have "pm_mem m' (phys div 4096) = (\<lambda>_. 0)" "pm_first_frame m' = pm_first_frame m"
      unfolding m'(2) zero_page_eq using m'(1) page(8) by simp_all
    ultimately show ?thesis using that(2) m'(1) page by blast
  qed
next
  case False
  then obtain z p where z: "pm_zpool m = z @ [p]" by (cases "pm_zpool m" rule: rev_cases) simp_all
  obtain f where f: "p = page_addr m f" using pages_invD(9) [OF inv, of p] z by auto
  note pop = pages_inv_pop [OF inv z [unfolded f]]
  have f32: "f < 2 ^ 32" using pop(3) pages_invD(2) [OF inv] by simp
  define m1 where "m1 = m\<lparr>pm_zpool := z, pm_free_frames := pm_free_frames m - 1, pm_alloc_total := pm_alloc_total m + 1\<rparr>"
  have "pm_refs m1 = pm_refs m" "page_addr m1 f = p" by (simp_all add: m1_def f)
  then have "pmm_ref_set p m1 = m1"
    using ref_set_page [OF f32, of m1] pop(5) by (auto simp: fun_upd_idem)
  then have "phys = page_addr m f" "m' = m1"
    using alloc False by (simp_all add: pmm_alloc_zeroed_def z f m1_def)
  moreover have "\<not> in_blocks big f" using used_page(3) [OF inv, of f] z f by (simp add: pooled_def)
  ultimately show thesis using that(2) [of f own] pop by (simp add: m1_def)
qed

lemma pages_inv_retain:
  assumes inv: "pages_inv n own m cnt big" and i: "0 < cnt i" and r: "pmm_retain (page_addr m i) m = (ok, m')"
  shows "pages_inv n own m' (cnt(i := cnt i + of_bool ok)) big" "ok \<longleftrightarrow> i < 2 ^ 22 \<and> cnt i < 65535"
proof -
  note u = used_page [OF inv, of i]
  have np: "\<not> pooled m i" using pages_invD(8) [OF inv, of i] i by auto
  have pos: "page_addr m i \<noteq> 0" using pages_invD(3) [OF inv] by (simp add: page_addr_def)
  have rf: "unat (pm_refs m i) = cnt i" if "i < 2 ^ 22" using pages_invD(11) [OF inv _ that] u i np by simp
  have z: "pm_refs m i \<noteq> 0" if "i < 2 ^ 22" using rf [OF that] i by auto
  have top: "pm_refs m i = - 1 \<longleftrightarrow> cnt i = 65535" if "i < 2 ^ 22"
    using rf [OF that] by (simp add: word_unat_eq_iff unsigned_minus_1_eq_mask mask_eq_exp_minus_1)
  have le: "cnt i \<le> 65535" if "i < 2 ^ 22" using rf [OF that] unat_bound [of "pm_refs m i"] by simp
  show ok: "ok \<longleftrightarrow> i < 2 ^ 22 \<and> cnt i < 65535"
    using r pos u(2) i z top le
    by (cases "i < 2 ^ 22") (auto simp: pmm_retain_def ref_index_page PMM_REF_MAX_FRAMES_def Let_def split: if_splits)
  show "pages_inv n own m' (cnt(i := cnt i + of_bool ok)) big"
  proof (cases ok)
    case True
    then have lt: "i < 2 ^ 22" "cnt i < 65535" using ok by simp_all
    have m': "m' = m\<lparr>pm_refs := (pm_refs m)(i := pm_refs m i + 1)\<rparr>"
      using r True u(2) i by (auto simp: pmm_retain_def ref_index_page Let_def split: if_splits)
    have "unat (pm_refs m i + 1) = cnt i + 1"
      using rf [OF lt(1)] lt(2) by (simp add: unat_word_ariths)
    moreover have "b \<in> set own \<longleftrightarrow> snd b = 0 \<and> (0 < (cnt(i := cnt i + 1)) (fst b) \<or> pooled m (fst b)) \<or> b \<in> set big" for b
      using pages_invD(5) [OF inv, of b] i by auto
    ultimately show ?thesis
      unfolding pages_inv_def m' using inv True lt np u(3) i by (auto simp: pages_inv_def)
  next
    case False
    then have "m' = m" using r by (auto simp: pmm_retain_def Let_def split: if_splits)
    then show ?thesis using inv False by simp
  qed
qed

lemma release_page:
  assumes inv: "frames_inv n (pm_llfree m) own" and n: "n \<le> 2 ^ 32" and own: "(i, k) \<in> set own" and cpu: "cpu < MAX_CPUS"
  obtains s c c' where "pmm_release k cpu (page_addr m i) m = m\<lparr>pm_llfree := s, pm_free_frames := c, pm_free_total := c'\<rparr>"
    "frames_inv n s (remove1 (i, k) own)"
proof -
  have i: "i < 2 ^ 64" using frames_inv_own(1) [OF inv own] n by (simp add: le_less_trans)
  obtain e s where put: "llfree_put i (cpu_request k cpu) (pm_llfree m) = (e, s)" by fastforce
  note p = frames_inv_put [OF inv own cpu put]
  have fr: "nat ((int (page_addr m i div 2 ^ PAGE_SHIFT) - int (pm_first_frame m)) mod 2 ^ 64) = i" using i by simp
  show ?thesis
    using that [OF _ p(2)] put p(1) unfolding pmm_release_def fr Let_def by simp
qed

lemma pages_inv_free:
  assumes inv: "pages_inv n own m cnt big" and i: "0 < cnt i" and cpu: "cpu < MAX_CPUS"
  obtains own' where "pages_inv n own' (pmm_free cpu (page_addr m i) m) (cnt(i := cnt i - 1)) big"
    "own' = (if cnt i = 1 then remove1 (i, 0) own else own)"
proof -
  note u = used_page [OF inv, of i]
  have np: "\<not> pooled m i" using pages_invD(8) [OF inv, of i] i by auto
  have pos: "page_addr m i \<noteq> 0" using pages_invD(3) [OF inv] by (simp add: page_addr_def)
  have rf: "unat (pm_refs m i) = cnt i" if "i < 2 ^ 22" using pages_invD(11) [OF inv _ that] u i np by simp
  have one: "pm_refs m i = 0 \<longleftrightarrow> cnt i = 0" "1 < pm_refs m i \<longleftrightarrow> 1 < cnt i" if "i < 2 ^ 22"
    using rf [OF that] by (simp_all add: word_unat_eq_iff word_less_nat_alt)
  have dec: "unat (pm_refs m i - 1) = cnt i - 1" if "i < 2 ^ 22"
    using rf [OF that] i by (simp add: unat_minus_one one [OF that])
  define m1 where "m1 = (if i < 2 ^ 22 then m\<lparr>pm_refs := (pm_refs m)(i := pm_refs m i - 1)\<rparr> else m)"
  have free: "pmm_free cpu (page_addr m i) m = (if cnt i = 1 then pmm_release 0 cpu (page_addr m1 i) m1 else m1)"
    using pos one u(2) i pages_invD(12) [OF inv, of i]
    by (cases "i < 2 ^ 22") (auto simp: pmm_free_def ref_index_page PMM_REF_MAX_FRAMES_def m1_def Let_def)
  show thesis
  proof (cases "cnt i = 1")
    case True
    have "frames_inv n (pm_llfree m1) own" using pages_invD(1) [OF inv] by (simp add: m1_def)
    from this pages_invD(2) [OF inv] _ cpu obtain s c c'
      where r: "pmm_release 0 cpu (page_addr m1 i) m1 = m1\<lparr>pm_llfree := s, pm_free_frames := c, pm_free_total := c'\<rparr>"
        "frames_inv n s (remove1 (i, 0) own)"
      by (rule release_page) (use u i in simp)
    have m': "pmm_free cpu (page_addr m i) m = m1\<lparr>pm_llfree := s, pm_free_frames := c, pm_free_total := c'\<rparr>"
      using free True r(1) by simp
    have own: "b \<in> set (remove1 (i, 0) own) \<longleftrightarrow> snd b = 0 \<and> (0 < (cnt(i := 0)) (fst b) \<or> pooled m (fst b)) \<or> b \<in> set big" for b
      using pages_invD(5) [OF inv, of b] frames_inv_distinct [OF pages_invD(1) [OF inv]] np pages_invD(6) [OF inv, of b]
      by (cases b) (auto simp: set_remove1_eq)
    have "pages_inv n (remove1 (i, 0) own) (pmm_free cpu (page_addr m i) m) (cnt(i := 0)) big"
      unfolding m' m1_def pages_inv_def using inv own r(2) dec np u(3) i True
      by (auto simp: pages_inv_def)
    then show ?thesis using that True by simp
  next
    case False
    then have i22: "i < 2 ^ 22" using pages_invD(12) [OF inv, of i] i by (cases "i < 2 ^ 22") auto
    have own: "b \<in> set own \<longleftrightarrow> snd b = 0 \<and> (0 < (cnt(i := cnt i - 1)) (fst b) \<or> pooled m (fst b)) \<or> b \<in> set big" for b
      using pages_invD(5) [OF inv, of b] False i by auto
    have m': "pmm_free cpu (page_addr m i) m = m1" using free False by simp
    have "pages_inv n own (pmm_free cpu (page_addr m i) m) (cnt(i := cnt i - 1)) big"
      unfolding m' m1_def pages_inv_def using inv own dec np u(3) i False i22 by (auto simp: pages_inv_def)
    then show ?thesis using that False by simp
  qed
qed

text \<open>The loops over the pages of a block.\<close>

definition set_refs :: "nat \<Rightarrow> nat \<Rightarrow> u16 \<Rightarrow> pmm \<Rightarrow> pmm" where
  "set_refs f j v m = m\<lparr>pm_refs := (\<lambda>i. if f \<le> i \<and> i < f + j \<and> i < 2 ^ 22 then v else pm_refs m i)\<rparr>"

lemma set_refs_0 [simp]: "set_refs f 0 v m = m"
  by (rule pmm.equality) (auto simp: set_refs_def fun_eq_iff)

lemma set_refs_Suc:
  "set_refs f (Suc j) v m =
     (let m' = set_refs f j v m in if f + j < 2 ^ 22 then m'\<lparr>pm_refs := (pm_refs m')(f + j := v)\<rparr> else m')"
  by (rule pmm.equality) (auto simp: set_refs_def fun_eq_iff less_Suc_eq Let_def)

lemma page_addr_offset: "page_addr m f + i * PAGE_SIZE = page_addr m (f + i)"
  by (simp add: page_addr_def PAGE_SIZE_def algebra_simps)

lemma set_refs_addr [simp]: "page_addr (set_refs f j v m) = page_addr m"
  by (simp add: set_refs_def)

lemma ref_set_loop:
  "f + j \<le> 2 ^ 32 \<Longrightarrow> fold (\<lambda>i. pmm_ref_set (page_addr m f + i * PAGE_SIZE)) [0..<j] m = set_refs f j 1 m"
proof (induction j)
  case (Suc j)
  have "pmm_ref_set (page_addr m (f + j)) (set_refs f j 1 m) = set_refs f (Suc j) 1 m"
    using ref_set_page [of "f + j" "set_refs f j 1 m"] Suc.prems by (simp add: set_refs_Suc Let_def)
  then show ?case using Suc by (simp add: page_addr_offset)
qed simp

lemma ref_clear_loop:
  "f + j \<le> 2 ^ 32 \<Longrightarrow>
     fold (\<lambda>i m'. let idx = pmm_ref_index (page_addr m f + i * PAGE_SIZE) m' in
        if idx < PMM_REF_MAX_FRAMES then m'\<lparr>pm_refs := (pm_refs m')(idx := 0)\<rparr> else m') [0..<j] m = set_refs f j 0 m"
proof (induction j)
  case (Suc j)
  have "pmm_ref_index (page_addr m (f + j)) (set_refs f j 0 m) = f + j"
    using ref_index_page [of "f + j" "set_refs f j 0 m"] Suc.prems by simp
  then show ?case using Suc by (simp add: page_addr_offset set_refs_Suc Let_def PMM_REF_MAX_FRAMES_def)
qed simp

text \<open>Requests for 2 to 512 pages have orders 1 to 9.\<close>

lemma order_small:
  assumes "2 \<le> unat k" "unat k \<le> 512"
  obtains r where "order_for_pages k = Some (of_nat r)" "unat (of_nat r :: u8) = r" "1 \<le> r" "r \<le> 9" "unat k \<le> 2 ^ r"
proof -
  have k: "k \<noteq> 0" "unat k \<le> 2 ^ 63" using assms by auto
  obtain r where r: "order_for_pages k = Some (of_nat r)" "r \<le> 63" "unat k \<le> 2 ^ r" "r = 0 \<or> 2 ^ (r - 1) < unat k"
    by (rule order_for_pages_exact [OF k])
  have "r \<le> 9"
  proof (rule ccontr)
    assume "\<not> r \<le> 9"
    then have "(2 :: nat) ^ 9 \<le> 2 ^ (r - 1)" by (intro power_increasing) simp_all
    then show False using r(4) assms(2) \<open>\<not> r \<le> 9\<close> by auto
  qed
  moreover have "1 \<le> r" using r(3) assms(1) by (cases r) simp_all
  moreover have "unat (of_nat r :: u8) = r" using r(2) by (simp add: unat_of_nat)
  ultimately show ?thesis using that r by blast
qed

lemma in_blocks_Cons [simp]: "in_blocks (b # big) i \<longleftrightarrow> i \<in> blk b \<or> in_blocks big i"
  by (auto simp: in_blocks_def)

lemma mem_blk: "i \<in> blk (f, k) \<longleftrightarrow> f \<le> i \<and> i < f + 2 ^ k"
  by (auto simp: blk_def block_def)

lemma pages_inv_alloc_contiguous:
  assumes inv: "pages_inv n own m cnt big" and k: "2 \<le> unat k" "unat k \<le> 512"
    and alloc: "pmm_alloc_contiguous cpu k m = Some (phys, m')"
  obtains (none) "phys = 0" "pages_inv n own m' cnt big"
  | (got) f r where "phys = page_addr m f" "order_for_pages k = Some (of_nat r)" "r \<le> 9" "unat k \<le> 2 ^ r"
      "pages_inv n ((f, r) # own) m' cnt ((f, r) # big)"
      "\<And>i. i \<in> blk (f, r) \<Longrightarrow> i < n \<and> cnt i = 0 \<and> \<not> pooled m i \<and> \<not> in_blocks big i"
proof -
  obtain r where r: "order_for_pages k = Some (of_nat r)" "unat (of_nat r :: u8) = r" "1 \<le> r" "r \<le> 9" "unat k \<le> 2 ^ r"
    by (rule order_small [OF k])
  have k01: "k \<noteq> 0" "k \<noteq> 1" using k by auto
  obtain res s where get: "llfree_get None (cpu_request r cpu) (pm_llfree m) = (res, s)" by fastforce
  note i = frames_inv_get [OF pages_invD(1) [OF inv] r(4) get]
  note defs = pmm_alloc_contiguous_def LLFREE_MAX_ORDER_def LLFREE_TREE_ORDER_def Let_def
  show thesis
  proof (cases res)
    case (Err e)
    then have "frames_inv n s own" using i by simp
    then show ?thesis using none inv alloc get Err r k01 by (auto simp: defs pages_inv_def)
  next
    case (Got f c)
    then have new: "frames_inv n s ((f, r) # own)" using i by simp
    note fr = fresh_block [OF inv new]
    have f32: "f + 2 ^ r \<le> 2 ^ 32" using frames_inv_own(1) [OF new, of f r] pages_invD(2) [OF inv] by simp
    define m1 where "m1 = m\<lparr>pm_llfree := s, pm_free_frames := pm_free_frames m - 2 ^ r, pm_alloc_total := pm_alloc_total m + 2 ^ r\<rparr>"
    have "page_addr m1 f = (f + pm_first_frame m) * 2 ^ PAGE_SHIFT" by (simp add: m1_def page_addr_def PAGE_SHIFT_def)
    then have "Some (phys, m') = Some (page_addr m1 f, fold (\<lambda>i. pmm_ref_set (page_addr m1 f + i * PAGE_SIZE)) [0..<2 ^ r] m1)"
      unfolding alloc [symmetric] using get Got r k01 by (simp add: defs m1_def)
    then have pm: "phys = page_addr m f" "m' = set_refs f (2 ^ r) 1 m1"
      using ref_set_loop [OF f32, of m1] by (simp_all add: m1_def)
    have "pages_inv n ((f, r) # own) m' cnt ((f, r) # big)"
      unfolding pages_inv_def pm(2) m1_def set_refs_def using inv new fr r(3)
      by (auto simp: pages_inv_def mem_blk)
    then show ?thesis using got [OF pm(1) r(1,4,5)] fr by blast
  qed
qed

lemma pages_inv_free_contiguous:
  assumes inv: "pages_inv n own m cnt big" and k: "2 \<le> unat k" "unat k \<le> 512" "order_for_pages k = Some (of_nat r)" "r \<le> 9"
    and b: "(f, r) \<in> set big" "distinct big" and cpu: "cpu < MAX_CPUS"
  obtains m' where "pmm_free_contiguous cpu (page_addr m f) k m = Some m'"
    "pages_inv n (remove1 (f, r) own) m' cnt (remove1 (f, r) big)"
proof -
  have k01: "k \<noteq> 0" "k \<noteq> 1" using k by auto
  have r8: "unat (of_nat r :: u8) = r" using k(4) by (simp add: unat_of_nat)
  have own: "(f, r) \<in> set own" using pages_invD(5) [OF inv, of "(f, r)"] b by simp
  note o = frames_inv_own [OF pages_invD(1) [OF inv] own]
  have f32: "f + 2 ^ r \<le> 2 ^ 32" using o(1) pages_invD(2) [OF inv] by simp
  define m1 where "m1 = set_refs f (2 ^ r) 0 m"
  have "frames_inv n (pm_llfree m1) own" using pages_invD(1) [OF inv] by (simp add: m1_def set_refs_def)
  from this pages_invD(2) [OF inv] own cpu obtain s c c'
    where rel: "pmm_release r cpu (page_addr m1 f) m1 = m1\<lparr>pm_llfree := s, pm_free_frames := c, pm_free_total := c'\<rparr>"
      "frames_inv n s (remove1 (f, r) own)"
    by (rule release_page)
  have "page_addr m f \<noteq> 0" using pages_invD(3) [OF inv] by (simp add: page_addr_def)
  then have m': "pmm_free_contiguous cpu (page_addr m f) k m = Some (m1\<lparr>pm_llfree := s, pm_free_frames := c, pm_free_total := c'\<rparr>)"
    using k k01 r8 rel(1) ref_clear_loop [OF f32, of m] unfolding pmm_free_contiguous_def
    by (simp add: LLFREE_MAX_ORDER_def LLFREE_TREE_ORDER_def m1_def)
  have others: "i \<notin> blk b" if "i \<in> blk (f, r)" "b \<in> set big" "b \<noteq> (f, r)" for i b
    using o(5) [of b] that pages_invD(5) [OF inv, of b] by auto
  have used: "cnt i = 0" "\<not> pooled m i" if "i \<in> blk (f, r)" for i
    using block_page [OF inv, of i] that b(1) by (auto simp: in_blocks_def)
  have own': "x \<in> set (remove1 (f, r) own) \<longleftrightarrow>
      snd x = 0 \<and> (0 < cnt (fst x) \<or> pooled m (fst x)) \<or> x \<in> set (remove1 (f, r) big)" for x
    using pages_invD(5) [OF inv, of x] frames_inv_distinct [OF pages_invD(1) [OF inv]] b pages_invD(6) [OF inv, of x]
      pages_invD(6) [OF inv b(1)]
    by (auto simp: set_remove1_eq)
  have blks: "in_blocks (remove1 (f, r) big) i \<longleftrightarrow> in_blocks big i \<and> i \<notin> blk (f, r)" for i
    using others b by (auto simp: in_blocks_def set_remove1_eq)
  have "pages_inv n (remove1 (f, r) own) (m1\<lparr>pm_llfree := s, pm_free_frames := c, pm_free_total := c'\<rparr>) cnt (remove1 (f, r) big)"
    unfolding pages_inv_def m1_def set_refs_def blks using inv rel(2) own' used
    by (auto simp: pages_inv_def mem_blk set_remove1_eq b(2))
  then show ?thesis using that m' by blast
qed

section \<open>From boot on\<close>

lemma llfree_init_OK:
  assumes "512 \<le> n" "n \<le> 2 ^ 32"
  shows "fst (llfree_init n LLFREE_INIT_FREE fs cs es cl s0) = LLFREE_ERR_OK"
  using assms lower_init_free(1) [of n fs cs "fst (lower_init n LLFREE_INIT_FREE fs cs)" "snd (lower_init n LLFREE_INIT_FREE fs cs)"]
  by (auto simp: llfree_init_def MIN_PAGES_def MAX_PAGES_def lower_consts split: prod.splits)

lemma simple_class_locals: "ll_local_class_locals 0 (ll_local_init (llfree_classing_simple cores)) = Some cores"
  by (simp add: ll_local_init_def llfree_classing_simple_def ll_local_class_locals_def tree_consts)

lemma zpool_fill_inv:
  assumes "pages_inv n own m (\<lambda>_. 0) []"
  shows "\<exists>own. pages_inv n own (zpool_fill cpu k m) (\<lambda>_. 0) []"
  using assms
proof (induction k arbitrary: m own)
  case (Suc k)
  obtain phys m1 where a: "pmm_alloc cpu m = (phys, m1)" by fastforce
  from Suc.prems a show ?case
  proof (cases rule: pages_inv_alloc)
    case none
    then show ?thesis using a by auto
  next
    case (page f)
    have addr: "page_addr m f = page_addr m1 f" using page(8) by (simp add: page_addr_def)
    have pos: "0 < page_addr m f" using pages_invD(3) [OF Suc.prems] by (simp add: page_addr_def)
    define m2 where "m2 = zero_page phys m1"
    have m2: "m2 = m1\<lparr>pm_mem := (pm_mem m1)(f + pm_first_frame m1 := (\<lambda>_. 0))\<rparr>"
      unfolding m2_def page(1) addr by (rule zero_page_eq)
    have "pages_inv n ((f, 0) # own) m2 ((\<lambda>_. 0)(f := 1)) []"
      unfolding m2 by (rule pages_inv_write [OF page(6)]) simp
    then have "pages_inv n ((f, 0) # own) (m2\<lparr>pm_zpool := pm_zpool m2 @ [page_addr m2 f]\<rparr>) (((\<lambda>_. 0)(f := 1))(f := 0)) []"
      by (rule pages_inv_push) (simp_all add: m2)
    moreover have "((\<lambda>_. 0)(f := 1))(f := 0) = (\<lambda>_. 0 :: nat)" by (simp add: fun_eq_iff)
    moreover have "page_addr m2 f = phys" unfolding m2 using page(1) addr by simp
    ultimately have "pages_inv n ((f, 0) # own) (m2\<lparr>pm_zpool := pm_zpool m2 @ [phys]\<rparr>) (\<lambda>_. 0) []" by simp
    from Suc.IH [OF this] show ?thesis using a page(1) pos by (simp add: m2_def Let_def)
  qed
qed auto

lemma pmm_init_inv:
  assumes layout: "pmm_layout mmap kend = Layout meta first n" and n: "n \<le> 2 ^ 32"
    and init: "pmm_init cpu mmap kend fs cs es m0 = Some m"
  shows "\<exists>own. pages_inv n own m (\<lambda>_. 0) []"
proof -
  note l = pmm_layout_ok [OF layout]
  let ?cl = "llfree_classing_simple MAX_CPUS"
  obtain s where s: "llfree_init n LLFREE_INIT_FREE fs cs es ?cl (pm_llfree m0) = (LLFREE_ERR_OK, s)"
    using llfree_init_OK [OF l(4) n, of fs cs es ?cl "pm_llfree m0"] by (metis prod.collapse)
  note i = init_acct [OF classing_simple_ok _ s]
  have "reach (lf_start n ?cl) lf_step (s, [])"
    by (rule reach_init) (use s n classing_simple_ok in \<open>auto simp: lf_start_def\<close>)
  then have "lf_inv n (s, [])" by (rule lf.reach_inv)
  then have fr: "frames_inv n s []" using i(5) n simple_class_locals by (simp add: frames_inv_def del: lf_inv.simps)
  obtain base bytes where dma: "reserve_dma32 mmap = (base, bytes)" by fastforce
  define m1 where "m1 = m0\<lparr>pm_total_frames := highest_frame mmap, pm_usable_pages := usable_pages mmap,
    pm_dma32 := \<lparr>dm_base = base, dm_bytes = bytes, dm_used = 0\<rparr>, pm_llfree := s,
    pm_first_frame := first, pm_free_frames := of_nat n, pm_refs := (\<lambda>_. 0), pm_zpool := []\<rparr>"
  have m: "m = zpool_fill cpu ZPOOL_SIZE m1" using init layout s dma by (simp add: pmm_init_def m1_def)
  have "first + n \<le> 2 ^ 52" using l(6) by simp
  then have "pages_inv n [] m1 (\<lambda>_. 0) []"
    using fr n l(5) by (simp add: pages_inv_def m1_def pooled_def in_blocks_def)
  then show "\<exists>own. pages_inv n own m (\<lambda>_. 0) []" unfolding m by (rule zpool_fill_inv)
qed

text \<open>
  The manager, the references to single pages that are handed out, and the blocks. A reference may be dropped and
  duplicated by whoever holds one, a block freed with the number of pages it was asked for; a page in use may be written.
\<close>

type_synonym pm_world = "pmm \<times> (nat \<Rightarrow> nat) \<times> (nat \<times> nat) list"

definition pm_start :: "nat \<Rightarrow> pm_world \<Rightarrow> bool" where
  "pm_start n w \<longleftrightarrow> n \<le> 2 ^ 32 \<and>
     (\<exists>cpu mmap kend meta first fs cs es m0 m. pmm_layout mmap kend = Layout meta first n \<and>
        pmm_init cpu mmap kend fs cs es m0 = Some m \<and> w = (m, (\<lambda>_. 0), []))"

inductive pm_step :: "pm_world \<Rightarrow> pm_world \<Rightarrow> bool" where
  pm_alloc: "pmm_alloc cpu m = (phys, m') \<Longrightarrow>
    pm_step (m, cnt, big) (m', if phys = 0 then cnt else cnt(pmm_ref_index phys m := 1), big)"
| pm_zeroed: "pmm_alloc_zeroed cpu m = (phys, m') \<Longrightarrow>
    pm_step (m, cnt, big) (m', if phys = 0 then cnt else cnt(pmm_ref_index phys m := 1), big)"
| pm_retain: "0 < cnt i \<Longrightarrow> pmm_retain (page_addr m i) m = (ok, m') \<Longrightarrow>
    pm_step (m, cnt, big) (m', cnt(i := cnt i + of_bool ok), big)"
| pm_free: "0 < cnt i \<Longrightarrow> cpu < MAX_CPUS \<Longrightarrow>
    pm_step (m, cnt, big) (pmm_free cpu (page_addr m i) m, cnt(i := cnt i - 1), big)"
| pm_block: "2 \<le> unat k \<Longrightarrow> unat k \<le> 512 \<Longrightarrow> pmm_alloc_contiguous cpu k m = Some (phys, m') \<Longrightarrow>
    order_for_pages k = Some r \<Longrightarrow>
    pm_step (m, cnt, big) (m', cnt, if phys = 0 then big else (pmm_ref_index phys m, unat r) # big)"
| pm_free_block: "2 \<le> unat k \<Longrightarrow> unat k \<le> 512 \<Longrightarrow> order_for_pages k = Some r \<Longrightarrow> (i, unat r) \<in> set big \<Longrightarrow> cpu < MAX_CPUS \<Longrightarrow>
    pmm_free_contiguous cpu (page_addr m i) k m = Some m' \<Longrightarrow> pm_step (m, cnt, big) (m', cnt, remove1 (i, unat r) big)"
| pm_dma: "pmm_dma32_reserve_alloc pages m = (phys, m') \<Longrightarrow> pm_step (m, cnt, big) (m', cnt, big)"
| pm_write: "0 < cnt i \<or> in_blocks big i \<Longrightarrow>
    pm_step (m, cnt, big) (m\<lparr>pm_mem := (pm_mem m)(i + pm_first_frame m := pg)\<rparr>, cnt, big)"

fun pm_inv :: "nat \<Rightarrow> pm_world \<Rightarrow> bool" where
  "pm_inv n (m, cnt, big) \<longleftrightarrow> (\<exists>own. pages_inv n own m cnt big) \<and> distinct big"

lemma page_index:
  "pages_inv n own m cnt big \<Longrightarrow> f < n \<Longrightarrow> pmm_ref_index (page_addr m f) m = f \<and> page_addr m f \<noteq> 0"
  using ref_index_page [of f m] by (auto simp: pages_inv_def page_addr_def)

lemma pm_step_inv:
  assumes inv: "pages_inv n own m cnt big" "distinct big" and step: "pm_step (m, cnt, big) w'"
  shows "pm_inv n w'"
  using step
proof cases
  case (pm_alloc cpu phys m')
  from inv(1) pm_alloc(2) show ?thesis
    by (cases rule: pages_inv_alloc) (use pm_alloc(1) inv page_index [OF inv(1)] in auto)
next
  case (pm_zeroed cpu phys m')
  from inv(1) pm_zeroed(2) show ?thesis
    by (cases rule: pages_inv_alloc_zeroed) (use pm_zeroed(1) inv page_index [OF inv(1)] in auto)
next
  case (pm_retain i ok m')
  then show ?thesis using pages_inv_retain(1) [OF inv(1) pm_retain(2,3)] inv(2) by auto
next
  case (pm_free i cpu)
  from inv(1) pm_free(2,3) obtain own' where "pages_inv n own' (pmm_free cpu (page_addr m i) m) (cnt(i := cnt i - 1)) big"
    by (rule pages_inv_free)
  then show ?thesis using pm_free(1) inv(2) by auto
next
  case (pm_block k cpu phys m' r)
  from inv(1) pm_block(2-4) show ?thesis
  proof (cases rule: pages_inv_alloc_contiguous)
    case none
    then show ?thesis using pm_block(1) inv(2) by auto
  next
    case (got f r')
    have r: "unat r = r'" using got(2,3) pm_block(5) by (simp add: unat_of_nat)
    have f: "f \<in> blk (f, r')" by (simp add: mem_blk)
    then have "(f, r') \<notin> set big" using got(6) [OF f] by (auto simp: in_blocks_def)
    then show ?thesis using pm_block(1) inv(2) got(1,5) got(6) [OF f] page_index [OF inv(1), of f] r by auto
  qed
next
  case (pm_free_block k r i cpu m')
  have r9: "unat r \<le> 9"
    using frames_inv_own(3) [OF pages_invD(1) [OF inv(1)], of i "unat r"] pages_invD(5) [OF inv(1), of "(i, unat r)"] pm_free_block by simp
  have "order_for_pages k = Some (of_nat (unat r))" using pm_free_block(4) by (simp add: of_nat_unat)
  from inv(1) pm_free_block(2,3) this r9 pm_free_block(5) inv(2) pm_free_block(6) obtain m''
    where "pmm_free_contiguous cpu (page_addr m i) k m = Some m''"
      "pages_inv n (remove1 (i, unat r) own) m'' cnt (remove1 (i, unat r) big)"
    by (rule pages_inv_free_contiguous)
  then show ?thesis using pm_free_block inv(2) by auto
next
  case (pm_dma pages phys m')
  then have "\<exists>d. m' = m\<lparr>pm_dma32 := d\<rparr>" by (auto simp: pmm_dma32_reserve_alloc_def Let_def intro: exI [of _ "pm_dma32 m"] split: if_splits)
  then show ?thesis using pm_dma(1) inv by auto
next
  case (pm_write i pg)
  then show ?thesis using pages_inv_write [OF inv(1)] inv(2) by auto
qed

interpretation pm: invariant_system "pm_start n" pm_step "pm_inv n" for n
proof
  fix w assume "pm_start n w"
  then show "pm_inv n w" using pmm_init_inv by (fastforce simp: pm_start_def)
next
  fix w w' assume "pm_inv n w" "pm_step w w'"
  then show "pm_inv n w'" by (cases w) (auto intro: pm_step_inv)
qed


text \<open>The smallest machine: 1028 usable pages, of which the reserve takes half, and 513 are managed.\<close>

definition tiny_map :: "memmap_entry list" where
  "tiny_map = [\<lparr>me_base = 0x100000, me_length = 0x404000, me_usable = True\<rparr>]"

lemma tiny_map_layout: "pmm_layout tiny_map 0 = Layout 0x100000 0x101 513"
  by (simp add: pmm_layout_def tiny_map_def find_region_def reserve_dma32_def dma_best_def cut_dma_def highest_frame_def
      PAGE_ALIGN_UP_def PAGE_ALIGN_DOWN_def pmm_consts ll_local_size_def trees_metadata_size_def lower_metadata_size_def
      llfree_classing_simple_def align_up_def align_down_def div_ceil_def lower_consts Let_def)

lemma pmm_alloc_pool: "pmm_alloc cpu m = (phys, m') \<Longrightarrow> pm_zpool m' = pm_zpool m"
  by (auto simp: pmm_alloc_def pmm_ref_set_def Let_def split: prod.splits llfree_result.splits if_splits)

lemma zpool_fill_grows: "pm_zpool m \<noteq> [] \<Longrightarrow> pm_zpool (zpool_fill cpu k m) \<noteq> []"
proof (induction k arbitrary: m)
  case (Suc k)
  obtain phys m1 where a: "pmm_alloc cpu m = (phys, m1)" by fastforce
  show ?case using Suc.prems pmm_alloc_pool [OF a] Suc.IH by (simp add: a zero_page_def Let_def)
qed simp

lemma tiny_boot:
  obtains m where "pmm_init 0 tiny_map 0 [] [] [] m0 = Some m" "pm_zpool m \<noteq> []"
proof -
  let ?cl = "llfree_classing_simple MAX_CPUS"
  obtain s where s: "llfree_init 513 LLFREE_INIT_FREE [] [] [] ?cl (pm_llfree m0) = (LLFREE_ERR_OK, s)"
    using llfree_init_OK [of 513 "[]" "[]" "[]" ?cl "pm_llfree m0"]
    by (cases "llfree_init 513 LLFREE_INIT_FREE [] [] [] ?cl (pm_llfree m0)") simp
  obtain f s' where get: "llfree_get None (cpu_request 0 0) s = (Got f 0, s')"
    using first_alloc [OF _ _ _ s] by (auto simp: cpu_request_def MAX_CPUS_def)
  obtain base bytes where dma: "reserve_dma32 tiny_map = (base, bytes)" by fastforce
  define m1 where "m1 = m0\<lparr>pm_total_frames := highest_frame tiny_map, pm_usable_pages := usable_pages tiny_map,
    pm_dma32 := \<lparr>dm_base = base, dm_bytes = bytes, dm_used = 0\<rparr>, pm_llfree := s,
    pm_first_frame := 0x101, pm_free_frames := of_nat 513, pm_refs := (\<lambda>_. 0), pm_zpool := []\<rparr>"
  have "pmm_init 0 tiny_map 0 [] [] [] m0 = Some (zpool_fill 0 (Suc 31) m1)"
    using s dma by (simp add: pmm_init_def tiny_map_layout ZPOOL_SIZE_def m1_def)
  moreover have "pm_zpool (zpool_fill 0 (Suc 31) m1) \<noteq> []"
  proof -
    obtain phys m2 where a: "pmm_alloc 0 m1 = (phys, m2)" by fastforce
    have "phys \<noteq> 0" using a get by (auto simp: pmm_alloc_def m1_def Let_def PAGE_SHIFT_def)
    then show ?thesis unfolding zpool_fill.simps a by (simp add: Let_def zpool_fill_grows)
  qed
  ultimately show ?thesis using that by blast
qed


end
