(* ===== verification/Spec2Isabelle.thy ===== *)
theory Spec2Isabelle
  imports Vma Seccomp Pipe Nsref Kill Cred Chacha20 Pmm
begin

text \<open>
  Verification of parts of the kyronix kernel.
\<close>

section \<open>User namespaces and credentials together\<close>

text \<open>
  \<open>proc_uid_map_write\<close> of \<open>src/kernel/fs/procfs.c\<close> on the node of the caller itself: the text is written to the
  map of the user namespace of the process \<open>p\<close>.
\<close>

definition proc_uid_map_write :: "proc \<Rightarrow> string \<Rightarrow> nsheap \<Rightarrow> int \<times> nsheap" where
  "proc_uid_map_write p buf h =
     (case p_nsproxy p of
        None \<Rightarrow> (- EINVAL, h)
      | Some i \<Rightarrow>
          (case prox h i of
             None \<Rightarrow> (- EINVAL, bad_access h)
           | Some np \<Rightarrow>
               (case ns_user_map_write (user_of (np_user_ns np) h) True False False True buf of
                  (r, None) \<Rightarrow> (r, h)
                | (r, Some u) \<Rightarrow>
                    (case obj h (np_user_ns np) of
                       None \<Rightarrow> (r, bad_access h)
                     | Some x \<Rightarrow>
                         (if r < 0 then r else int (length buf),
                          put_obj (np_user_ns np) (Some (x\<lparr>o_body := Ns_user u\<rparr>)) h)))))"

text \<open>The bound of the number parser compared as integers, which evaluation needs.\<close>

lemma parse_digits_code [code]:
  "parse_digits [] v = Some (v, [])"
  "parse_digits (c # s) v =
     (if is_digit c then
        let v' = v * 10 + digit_val c in if 0xffffffff < int v' then None else parse_digits s v'
      else Some (v, c # s))"
  by simp_all


end
